(* ===== verification/Prelude.thy ===== *)
theory Prelude
  imports Main "HOL-Library.Word" "HOL-Library.AList" "HOL-Library.Monad_Syntax"
begin

text \<open>
  The shared vocabulary of the development: machine types of the Rust sources, the
  association lists that stand for hash maps, the relational abstraction of linked
  structures (singly linked chains and doubly linked lists), and the list lemmas the
  component theories use.

  Conventions. An operation of the program that can panic, fail a debug assertion, index
  out of range or overflow a checked arithmetic operation returns an \<open>option\<close>, with
  \<open>None\<close> for the abnormal end; the debug build is modelled, so a \<open>debug_assert!\<close> is a
  check like any other, and a proof that an operation returns \<open>Some\<close> shows that the
  release build, which omits the checks, does the same thing. A \<open>Result\<close> of the source is
  a sum with \<open>Inl\<close> for \<open>Err\<close>.
\<close>

named_theorems alist_simps \<open>rewriting of association lists that model hash maps\<close>
named_theorems chain_simps \<open>rewriting of linked structures\<close>

section \<open>Machine types\<close>

type_synonym u32 = "32 word"
type_synonym u64 = "64 word"

text \<open>A \<open>Duration\<close> is its number of nanoseconds; \<open>saturating_sub\<close> on it is the truncated
  subtraction of \<open>nat\<close>, and \<open>saturating_add\<close> stops at \<open>Duration::MAX\<close>.\<close>

type_synonym duration = nat

definition NANOS_PER_SEC :: nat where
  "NANOS_PER_SEC = 1000000000"

definition duration_max :: duration where
  "duration_max = (2 ^ 64 - 1) * NANOS_PER_SEC + (NANOS_PER_SEC - 1)"

definition duration_saturating_add :: "duration \<Rightarrow> duration \<Rightarrow> duration" where
  "duration_saturating_add a b = min (a + b) duration_max"

text \<open>The \<open>u32::MAX\<close> sentinel of the two slabs of the core crate.\<close>

definition NIL :: u32 where
  "NIL = - 1"

definition ptr :: "u32 \<Rightarrow> u32 option" where
  "ptr i = (if i = NIL then None else Some i)"

lemma ptr_NIL [simp]: "ptr NIL = None"
  by (simp add: ptr_def)

lemma ptr_eq_None [simp]: "ptr i = None \<longleftrightarrow> i = NIL"
  by (simp add: ptr_def)

lemma ptr_eq_Some [simp]: "ptr i = Some j \<longleftrightarrow> i = j \<and> j \<noteq> NIL"
  by (auto simp: ptr_def)

lemma unat_NIL: "unat NIL = 2 ^ 32 - 1"
  by (simp add: NIL_def unsigned_minus_1_eq_mask mask_eq_exp_minus_1)

lemma unat_less_NIL: "n < 2 ^ 32 - 1 \<Longrightarrow> unat (of_nat n :: u32) = n \<and> (of_nat n :: u32) \<noteq> NIL"
proof -
  assume n: "n < 2 ^ 32 - 1"
  then have "unat (of_nat n :: u32) = n"
    by (simp add: unsigned_of_nat take_bit_nat_eq_self)
  moreover from this n have "(of_nat n :: u32) \<noteq> NIL"
    using unat_NIL by fastforce
  ultimately show ?thesis by simp
qed

lemma unat_bound_NIL: "unat i < n \<Longrightarrow> n < 2 ^ 32 \<Longrightarrow> i \<noteq> NIL"
  using unat_NIL by fastforce

lemma nth_unat_update [simp]: "i \<noteq> j \<Longrightarrow> xs[unat i := v] ! unat j = xs ! unat j"
  for i j :: "'a::len word"
  by (metis nth_list_update_neq word_unat_eq_iff)

section \<open>Lists\<close>

definition last_opt :: "'a list \<Rightarrow> 'a option" where
  "last_opt xs = (if xs = [] then None else Some (last xs))"

definition hd_opt :: "'a list \<Rightarrow> 'a option" where
  "hd_opt xs = (case xs of [] \<Rightarrow> None | x # _ \<Rightarrow> Some x)"

lemma last_opt_simps [simp]:
  "last_opt [] = None" "last_opt [x] = Some x"
  "last_opt (xs @ y # ys) = last_opt (y # ys)"
  by (auto simp: last_opt_def)

lemma hd_opt_simps [simp]: "hd_opt [] = None" "hd_opt (x # xs) = Some x"
  by (auto simp: hd_opt_def)

lemma hd_opt_append [simp]: "hd_opt (xs @ ys) = (if xs = [] then hd_opt ys else hd_opt xs)"
  by (cases xs) auto

lemma last_opt_eq_None [simp]: "last_opt xs = None \<longleftrightarrow> xs = []"
  by (simp add: last_opt_def)

lemma last_opt_Some: "last_opt xs = Some x \<longleftrightarrow> (\<exists>ys. xs = ys @ [x])"
  by (cases xs rule: rev_cases) (auto simp: last_opt_def)

lemma hd_opt_eq_None [simp]: "hd_opt xs = None \<longleftrightarrow> xs = []"
  by (cases xs) auto

lemma hd_opt_Some: "hd_opt xs = Some x \<longleftrightarrow> (\<exists>ys. xs = x # ys)"
  by (cases xs) auto

lemma distinct_split_unique:
  "x \<notin> set as \<Longrightarrow> x \<notin> set bs \<Longrightarrow> as @ x # bs = cs @ x # ds \<Longrightarrow> as = cs \<and> bs = ds"
proof (induction as arbitrary: cs)
  case Nil
  then show ?case by (cases cs) auto
next
  case (Cons a as)
  then show ?case by (cases cs) auto
qed

section \<open>Association lists as hash maps\<close>

text \<open>
  A hash map of the source is an association list with distinct keys: lookup is
  \<open>map_of\<close>, \<open>insert\<close> is \<open>AList.update\<close> and \<open>remove\<close> is \<open>AList.delete\<close>. What the source
  computes by iterating over \<open>values()\<close> is a sum over the list; the three lemmas below say
  how such a sum moves under the two updates.
\<close>

lemmas alist_basic [alist_simps] = update_conv' delete_conv' distinct_update distinct_delete

definition total :: "('v \<Rightarrow> nat) \<Rightarrow> ('k \<times> 'v) list \<Rightarrow> nat" where
  "total f m = sum_list (map (\<lambda>kv. f (snd kv)) m)"

lemma total_Nil [simp]: "total f [] = 0"
  by (simp add: total_def)

lemma total_Cons [simp]: "total f (x # m) = f (snd x) + total f m"
  by (simp add: total_def)

lemma total_update_Some [alist_simps]:
  "map_of m k = Some v \<Longrightarrow> total f (AList.update k v' m) + f v = total f m + f v'"
  by (induction m) (auto split: if_splits)

lemma total_update_None [alist_simps]:
  "map_of m k = None \<Longrightarrow> total f (AList.update k v' m) = total f m + f v'"
  by (induction m) (auto split: if_splits)

lemma total_delete [alist_simps]:
  "map_of m k = Some v \<Longrightarrow> distinct (map fst m) \<Longrightarrow> total f (AList.delete k m) + f v = total f m"
proof (induction m)
  case (Cons x m)
  show ?case
  proof (cases "fst x = k")
    case True
    with Cons.prems have "k \<notin> fst ` set m" "snd x = v" by auto
    with True show ?thesis by simp
  next
    case False
    with Cons show ?thesis by auto
  qed
qed simp

lemma total_ge: "map_of m k = Some v \<Longrightarrow> f v \<le> total f m"
  by (induction m) (auto split: if_splits simp: trans_le_add2)

lemma total_eq_0_iff: "distinct (map fst m) \<Longrightarrow>
    total f m = 0 \<longleftrightarrow> (\<forall>k v. map_of m k = Some v \<longrightarrow> f v = 0)"
  by (auto simp: total_def image_iff)

lemma total_one [simp]: "total (\<lambda>_. 1) m = length m"
  by (induction m) auto

lemma total_mono: "(\<And>v. f v \<le> g v) \<Longrightarrow> total f m \<le> total g m"
  by (induction m) (auto simp: add_mono)

lemma total_cong: "(\<And>v. f v = g v) \<Longrightarrow> total f m = total g m"
  by (induction m) auto

lemma length_update [alist_simps]:
  "length (AList.update k v m) = (if map_of m k = None then Suc (length m) else length m)"
  by (induction m) auto

lemma length_delete [alist_simps]: "map_of m k \<noteq> None \<Longrightarrow> distinct (map fst m) \<Longrightarrow>
    Suc (length (AList.delete k m)) = length m"
  using total_delete [of m k _ "\<lambda>_. 1"] unfolding total_one by auto

section \<open>Linked structures\<close>

text \<open>
  \<open>chain nx p xs\<close>: following \<open>nx\<close> from \<open>p\<close> visits exactly \<open>xs\<close> and then ends.
  \<open>seg nx p xs q\<close>: following \<open>nx\<close> from \<open>p\<close> visits \<open>xs\<close> and arrives at \<open>q\<close>.
  \<open>backs pv q xs\<close>: every element's back link names its predecessor, the first one's \<open>q\<close>.
\<close>

primrec chain :: "('a \<Rightarrow> 'a option) \<Rightarrow> 'a option \<Rightarrow> 'a list \<Rightarrow> bool" where
  "chain nx p [] \<longleftrightarrow> p = None"
| "chain nx p (x # xs) \<longleftrightarrow> p = Some x \<and> chain nx (nx x) xs"

primrec seg :: "('a \<Rightarrow> 'a option) \<Rightarrow> 'a option \<Rightarrow> 'a list \<Rightarrow> 'a option \<Rightarrow> bool" where
  "seg nx p [] q \<longleftrightarrow> p = q"
| "seg nx p (x # xs) q \<longleftrightarrow> p = Some x \<and> seg nx (nx x) xs q"

primrec backs :: "('a \<Rightarrow> 'a option) \<Rightarrow> 'a option \<Rightarrow> 'a list \<Rightarrow> bool" where
  "backs pv q [] \<longleftrightarrow> True"
| "backs pv q (x # xs) \<longleftrightarrow> pv x = q \<and> backs pv (Some x) xs"

lemma chain_None [simp]: "chain nx None xs \<longleftrightarrow> xs = []"
  by (cases xs) auto

lemma chain_Some: "chain nx (Some x) xs \<longleftrightarrow> (\<exists>ys. xs = x # ys \<and> chain nx (nx x) ys)"
  by (cases xs) auto

lemma chain_append [chain_simps]:
  "chain nx p (xs @ ys) \<longleftrightarrow> (\<exists>q. seg nx p xs q \<and> chain nx q ys)"
  by (induction xs arbitrary: p) auto

lemma seg_append [chain_simps]:
  "seg nx p (xs @ ys) r \<longleftrightarrow> (\<exists>q. seg nx p xs q \<and> seg nx q ys r)"
  by (induction xs arbitrary: p) auto

lemma chain_cong: "(\<And>x. x \<in> set xs \<Longrightarrow> nx x = nx' x) \<Longrightarrow> chain nx p xs = chain nx' p xs"
  by (induction xs arbitrary: p) auto

lemma seg_cong: "(\<And>x. x \<in> set xs \<Longrightarrow> nx x = nx' x) \<Longrightarrow> seg nx p xs q = seg nx' p xs q"
  by (induction xs arbitrary: p) auto

lemma backs_cong: "(\<And>x. x \<in> set xs \<Longrightarrow> pv x = pv' x) \<Longrightarrow> backs pv q xs = backs pv' q xs"
  by (induction xs arbitrary: q) auto

lemma chain_upd [chain_simps]: "a \<notin> set xs \<Longrightarrow> chain (nx(a := v)) p xs = chain nx p xs"
  by (rule chain_cong) auto

lemma seg_upd [chain_simps]: "a \<notin> set xs \<Longrightarrow> seg (nx(a := v)) p xs q = seg nx p xs q"
  by (rule seg_cong) auto

lemma backs_upd [chain_simps]: "a \<notin> set xs \<Longrightarrow> backs (pv(a := v)) q xs = backs pv q xs"
  by (rule backs_cong) auto

lemma backs_append [chain_simps]:
  "backs pv q (xs @ ys) \<longleftrightarrow> backs pv q xs \<and> backs pv (if xs = [] then q else Some (last xs)) ys"
  by (induction xs arbitrary: q) auto

lemma chain_hd: "chain nx p xs \<Longrightarrow> hd_opt xs = p"
  by (cases xs) auto

lemma seg_hd: "seg nx p xs q \<Longrightarrow> p = (if xs = [] then q else Some (hd xs))"
  by (cases xs) auto

lemma chain_unique: "chain nx p xs \<Longrightarrow> chain nx p ys \<Longrightarrow> xs = ys"
  by (induction xs arbitrary: p ys) (auto simp: chain_Some)

lemma chain_distinct: "chain nx p xs \<Longrightarrow> distinct xs"
proof (induction xs arbitrary: p)
  case (Cons x xs)
  have "x \<notin> set xs"
  proof
    assume "x \<in> set xs"
    then obtain as bs where xs: "xs = as @ x # bs" by (auto simp: in_set_conv_decomp)
    with Cons.prems have "chain nx (nx x) (as @ x # bs)" "chain nx (nx x) bs"
      by (auto simp: chain_append)
    then have "as @ x # bs = bs" by (rule chain_unique)
    then show False using arg_cong [where f = length] by fastforce
  qed
  with Cons show ?case by auto
qed simp

text \<open>The same walk as an executable function with a bound on its length.\<close>

primrec follow :: "('a \<Rightarrow> 'a option) \<Rightarrow> 'a option \<Rightarrow> nat \<Rightarrow> 'a list" where
  "follow nx p 0 = []"
| "follow nx p (Suc n) = (case p of None \<Rightarrow> [] | Some x \<Rightarrow> x # follow nx (nx x) n)"

lemma follow_chain: "chain nx p xs \<Longrightarrow> length xs \<le> n \<Longrightarrow> follow nx p n = xs"
proof (induction xs arbitrary: p n)
  case Nil
  then show ?case by (cases n) auto
next
  case (Cons x xs)
  then show ?case by (cases n) auto
qed

section \<open>Doubly linked lists\<close>

definition dlist :: "('a \<Rightarrow> 'a option) \<Rightarrow> ('a \<Rightarrow> 'a option) \<Rightarrow> 'a option \<Rightarrow> 'a list \<Rightarrow> 'a option \<Rightarrow> bool" where
  "dlist nx pv h xs t \<longleftrightarrow> chain nx h xs \<and> backs pv None xs \<and> t = last_opt xs"

lemma dlist_distinct: "dlist nx pv h xs t \<Longrightarrow> distinct xs"
  by (auto simp: dlist_def dest: chain_distinct)

lemma dlist_neighbours:
  assumes "dlist nx pv h (as @ x # bs) t"
  shows "pv x = last_opt as" "nx x = hd_opt bs"
    "h = (if as = [] then Some x else hd_opt as)" "t = (if bs = [] then Some x else last_opt bs)"
proof -
  from assms have c: "chain nx h (as @ x # bs)" and b: "backs pv None (as @ x # bs)"
    and t: "t = last_opt (as @ x # bs)" by (auto simp: dlist_def)
  from b show "pv x = last_opt as" by (auto simp: backs_append last_opt_def)
  from c obtain q where s: "seg nx h as q" and q: "chain nx q (x # bs)" by (auto simp: chain_append)
  from q show "nx x = hd_opt bs" by (auto dest: chain_hd)
  from s q show "h = (if as = [] then Some x else hd_opt as)" by (cases as) auto
  from t show "t = (if bs = [] then Some x else last_opt bs)" by (auto simp: last_opt_def)
qed

text \<open>Unlinking one element: its predecessor's forward link (or the head) and its
  successor's back link (or the tail) are patched, and every other link stays.\<close>

lemma chain_unlink:
  assumes "chain nx h (as @ x # bs)"
    and "\<And>y. y \<in> set as \<Longrightarrow> last_opt as \<noteq> Some y \<Longrightarrow> nx' y = nx y"
    and "\<And>y. last_opt as = Some y \<Longrightarrow> nx' y = nx x"
    and "\<And>y. y \<in> set bs \<Longrightarrow> nx' y = nx y"
  shows "chain nx' (if as = [] then nx x else h) (as @ bs)"
proof -
  from assms(1) obtain q where s: "seg nx h as q" and c: "chain nx (nx x) bs"
    by (auto simp: chain_append)
  have c': "chain nx' (nx x) bs" using c chain_cong [of bs nx' nx] assms(4) by blast
  show ?thesis
  proof (cases as rule: rev_cases)
    case Nil
    with c' show ?thesis by simp
  next
    case (snoc zs y)
    have "distinct as" using chain_distinct [OF assms(1)] by simp
    with snoc have y: "y \<notin> set zs" by simp
    with assms(2) snoc have "\<And>z. z \<in> set zs \<Longrightarrow> nx' z = nx z" by auto
    then have "seg nx' p zs q = seg nx p zs q" for p q by (rule seg_cong)
    moreover from s snoc have "seg nx h zs (Some y)" by (auto simp: seg_append)
    ultimately show ?thesis using snoc c' assms(3) by (auto simp: chain_append seg_append)
  qed
qed

lemma backs_unlink:
  assumes "backs pv None (as @ x # bs)"
    and "\<And>y. y \<in> set as \<Longrightarrow> pv' y = pv y"
    and "\<And>y. hd_opt bs = Some y \<Longrightarrow> pv' y = pv x"
    and "\<And>y. y \<in> set bs \<Longrightarrow> hd_opt bs \<noteq> Some y \<Longrightarrow> pv' y = pv y"
    and "distinct bs"
  shows "backs pv' None (as @ bs)"
proof -
  from assms(1) have a: "backs pv None as" and x: "pv x = last_opt as" and b: "backs pv (Some x) bs"
    by (auto simp: backs_append last_opt_def)
  have "backs pv' None as" using a backs_cong [of as pv' pv] assms(2) by blast
  moreover have "backs pv' (last_opt as) bs"
  proof (cases bs)
    case (Cons y ys)
    with assms(5) have "y \<notin> set ys" by simp
    with Cons assms(4) have "\<And>z. z \<in> set ys \<Longrightarrow> pv' z = pv z" by auto
    then have "backs pv' (Some y) ys = backs pv (Some y) ys" by (rule backs_cong)
    with Cons b assms(3) x show ?thesis by simp
  qed simp
  ultimately show ?thesis by (auto simp: backs_append last_opt_def)
qed

lemma dlist_unlink:
  assumes "dlist nx pv h (as @ x # bs) t"
    and nx': "\<And>y. y \<in> set as \<union> set bs \<Longrightarrow> nx' y = (if last_opt as = Some y then nx x else nx y)"
    and pv': "\<And>y. y \<in> set as \<union> set bs \<Longrightarrow> pv' y = (if hd_opt bs = Some y then pv x else pv y)"
  shows "dlist nx' pv' (if as = [] then nx x else h) (as @ bs) (if bs = [] then pv x else t)"
proof -
  have d: "distinct (as @ x # bs)" using dlist_distinct [OF assms(1)] .
  have c: "chain nx h (as @ x # bs)" and b: "backs pv None (as @ x # bs)"
    using assms(1) by (auto simp: dlist_def)
  have "chain nx' (if as = [] then nx x else h) (as @ bs)"
    by (rule chain_unlink [OF c]) (use nx' d in \<open>auto simp: last_opt_Some\<close>)
  moreover have "backs pv' None (as @ bs)"
    by (rule backs_unlink [OF b]) (use pv' d in \<open>auto simp: hd_opt_Some\<close>)
  moreover have "(if bs = [] then pv x else t) = last_opt (as @ bs)"
    using dlist_neighbours [OF assms(1)] by (cases bs) auto
  ultimately show ?thesis by (simp add: dlist_def)
qed

text \<open>Appending one element at the tail.\<close>

lemma dlist_append:
  assumes "dlist nx pv h xs t" and "x \<notin> set xs"
    and nx': "\<And>y. y \<in> set xs \<Longrightarrow> nx' y = (if t = Some y then Some x else nx y)"
    and pv': "\<And>y. y \<in> set xs \<Longrightarrow> pv' y = pv y"
    and "nx' x = None" and "pv' x = t"
  shows "dlist nx' pv' (if xs = [] then Some x else h) (xs @ [x]) (Some x)"
proof -
  have t: "t = last_opt xs" and c: "chain nx h xs" and b: "backs pv None xs"
    using assms(1) by (auto simp: dlist_def)
  have "seg nx' h xs (Some x)" if ne: "xs \<noteq> []"
  proof -
    obtain zs y where xs: "xs = zs @ [y]" using ne by (cases xs rule: rev_cases) auto
    have "distinct xs" using c by (rule chain_distinct)
    then have "\<And>z. z \<in> set zs \<Longrightarrow> nx' z = nx z" using xs nx' t by auto
    then have "seg nx' h zs q = seg nx h zs q" for q by (rule seg_cong)
    with c xs nx' t show ?thesis by (auto simp: chain_append seg_append)
  qed
  then have "chain nx' (if xs = [] then Some x else h) (xs @ [x])"
    using assms(5) by (auto simp: chain_append)
  moreover have "backs pv' None (xs @ [x])"
    using b backs_cong [of xs pv' pv] pv' assms(6) t by (auto simp: backs_append last_opt_def)
  ultimately show ?thesis by (simp add: dlist_def)
qed

end
