(* ===== verification/Slab.thy ===== *)
theory Slab
  imports Prelude
begin

text \<open>
  The queue slab of \<^verbatim>\<open>crates/grommet-core/src/queue.rs\<close>: per-key FIFOs as intrusive
  singly linked lists over one shared arena, with a free list threaded through the same
  \<open>next\<close> field. Indices are \<open>u32\<close> words with \<open>u32::MAX\<close> as the end marker, as in the code.

  The module indexes without bounds checks on the strength of its safety invariant; here an
  index outside the arena is the result \<open>None\<close>, so the lemmas that the operations return
  \<open>Some\<close> are exactly the memory safety of the unchecked accesses. The well-formedness
  predicate \<open>slab_ok s K L\<close> speaks of a whole family of lists \<open>L k\<close> for the keys \<open>k\<close> in
  \<open>K\<close>, because it is the sharing of the arena that can go wrong.
\<close>

section \<open>Data\<close>

record 'a node =
  n_item :: "'a option"
  n_next :: u32

record qlist =
  l_head :: u32
  l_tail :: u32
  l_len :: u32

definition list_default :: qlist where
  "list_default = \<lparr>l_head = NIL, l_tail = NIL, l_len = 0\<rparr>"

definition list_len :: "qlist \<Rightarrow> nat" where
  "list_len l = unat (l_len l)"

definition list_is_empty :: "qlist \<Rightarrow> bool" where
  "list_is_empty l \<longleftrightarrow> l_len l = 0"

record 'a slab =
  s_nodes :: "'a node list"
  s_free :: u32

section \<open>Operations\<close>

text \<open>\<open>Vec::with_capacity\<close> reserves memory and holds no element.\<close>

definition slab_with_capacity :: "nat \<Rightarrow> 'a slab" where
  "slab_with_capacity capacity = \<lparr>s_nodes = [], s_free = NIL\<rparr>"

definition slab_capacity :: "'a slab \<Rightarrow> nat" where
  "slab_capacity s = length (s_nodes s)"

definition slab_node :: "'a slab \<Rightarrow> u32 \<Rightarrow> 'a node option" where
  "slab_node s index =
     (if unat index < length (s_nodes s) then Some (s_nodes s ! unat index) else None)"

definition slab_node_set :: "'a slab \<Rightarrow> u32 \<Rightarrow> 'a node \<Rightarrow> 'a slab" where
  "slab_node_set s index n = s\<lparr>s_nodes := (s_nodes s)[unat index := n]\<rparr>"

definition slab_alloc :: "'a slab \<Rightarrow> 'a \<Rightarrow> ('a slab \<times> u32) option" where
  "slab_alloc s x =
     (let index = s_free s in
      if index \<noteq> NIL then do {
        node \<leftarrow> slab_node s index;
        let next_free = n_next node;
        Some ((slab_node_set s index \<lparr>n_item = Some x, n_next = NIL\<rparr>)\<lparr>s_free := next_free\<rparr>, index)
      }
      else
        (let index = of_nat (length (s_nodes s)) in
         if index = NIL then None
         else Some (s\<lparr>s_nodes := s_nodes s @ [\<lparr>n_item = Some x, n_next = NIL\<rparr>]\<rparr>, index)))"

definition slab_push_back :: "'a slab \<Rightarrow> qlist \<Rightarrow> 'a \<Rightarrow> ('a slab \<times> qlist) option" where
  "slab_push_back s l x = do {
     (s, index) \<leftarrow> slab_alloc s x;
     (s, l) \<leftarrow>
       (if l_tail l = NIL then Some (s, l\<lparr>l_head := index\<rparr>)
        else do {
          node \<leftarrow> slab_node s (l_tail l);
          Some (slab_node_set s (l_tail l) (node\<lparr>n_next := index\<rparr>), l)
        });
     let l = l\<lparr>l_tail := index\<rparr>;
     if l_len l = - 1 then None else Some (s, l\<lparr>l_len := l_len l + 1\<rparr>)
   }"

definition slab_pop_front :: "'a slab \<Rightarrow> qlist \<Rightarrow> ('a slab \<times> qlist \<times> 'a option) option" where
  "slab_pop_front s l =
     (let index = l_head l in
      if index = NIL then Some (s, l, None)
      else do {
        node \<leftarrow> slab_node s index;
        let x = n_item node;
        let next = n_next node;
        let s = (slab_node_set s index \<lparr>n_item = None, n_next = s_free s\<rparr>)\<lparr>s_free := index\<rparr>;
        let l = l\<lparr>l_head := next\<rparr>;
        let l = (if next = NIL then l\<lparr>l_tail := NIL\<rparr> else l);
        if l_len l = 0 then None
        else if x = None then None
        else Some (s, l\<lparr>l_len := l_len l - 1\<rparr>, x)
      })"

definition slab_front :: "'a slab \<Rightarrow> qlist \<Rightarrow> 'a option option" where
  "slab_front s l =
     (if l_head l = NIL then Some None
      else map_option n_item (slab_node s (l_head l)))"

section \<open>Abstraction and well-formedness\<close>

definition snext :: "'a slab \<Rightarrow> u32 \<Rightarrow> u32 option" where
  "snext s i = ptr (n_next (s_nodes s ! unat i))"

definition sitem :: "'a slab \<Rightarrow> u32 \<Rightarrow> 'a option" where
  "sitem s i = n_item (s_nodes s ! unat i)"

text \<open>The items of one list, front first, read by walking the links.\<close>

definition contents :: "'a slab \<Rightarrow> qlist \<Rightarrow> 'a list" where
  "contents s l = map (\<lambda>i. the (sitem s i)) (follow (snext s) (ptr (l_head l)) (unat (l_len l)))"

definition lrep :: "'a slab \<Rightarrow> qlist \<Rightarrow> u32 list \<Rightarrow> bool" where
  "lrep s l is \<longleftrightarrow>
     chain (snext s) (ptr (l_head l)) is \<and> ptr (l_tail l) = last_opt is \<and> unat (l_len l) = length is"

definition cells :: "'a slab \<Rightarrow> u32 set" where
  "cells s = {i. unat i < length (s_nodes s)}"

text \<open>\<open>F\<close> is the free list and \<open>I k\<close> the index list of key \<open>k\<close>: together they partition the
  arena, freed nodes hold nothing and linked ones hold an item.\<close>

definition slab_rep :: "'a slab \<Rightarrow> 'k set \<Rightarrow> ('k \<Rightarrow> qlist) \<Rightarrow> u32 list \<Rightarrow> ('k \<Rightarrow> u32 list) \<Rightarrow> bool" where
  "slab_rep s K L F I \<longleftrightarrow>
     length (s_nodes s) < 2 ^ 32 \<and> chain (snext s) (ptr (s_free s)) F \<and>
     (\<forall>k\<in>K. lrep s (L k) (I k)) \<and>
     (\<forall>k\<in>K. set (I k) \<inter> set F = {}) \<and>
     (\<forall>k\<in>K. \<forall>j\<in>K. k \<noteq> j \<longrightarrow> set (I k) \<inter> set (I j) = {}) \<and>
     set F \<union> (\<Union>k\<in>K. set (I k)) = cells s \<and>
     (\<forall>i\<in>set F. sitem s i = None) \<and> (\<forall>k\<in>K. \<forall>i\<in>set (I k). sitem s i \<noteq> None)"

definition slab_ok :: "'a slab \<Rightarrow> 'k set \<Rightarrow> ('k \<Rightarrow> qlist) \<Rightarrow> bool" where
  "slab_ok s K L \<longleftrightarrow> (\<exists>F I. slab_rep s K L F I)"

text \<open>A push finds a node: on the free list, or by growing the arena.\<close>

definition slab_room :: "'a slab \<Rightarrow> bool" where
  "slab_room s \<longleftrightarrow> s_free s \<noteq> NIL \<or> length (s_nodes s) < 2 ^ 32 - 1"

lemma unat_image_less: "n \<le> 2 ^ 32 \<Longrightarrow> {i :: u32. unat i < n} = of_nat ` {..<n}"
proof -
  assume n: "n \<le> 2 ^ 32"
  have "unat (of_nat m :: u32) = m" if "m < n" for m
    using that n by (simp add: unsigned_of_nat take_bit_nat_eq_self)
  moreover have "i \<in> of_nat ` {..<n}" if "unat i < n" for i :: u32
    using that by (intro image_eqI [of _ _ "unat i"]) auto
  ultimately show ?thesis by auto
qed

lemma card_unat_less: "n \<le> 2 ^ 32 \<Longrightarrow> card {i :: u32. unat i < n} = n"
proof -
  assume n: "n \<le> 2 ^ 32"
  have "unat (of_nat m :: u32) = m" if "m < n" for m
    using that n by (simp add: unsigned_of_nat take_bit_nat_eq_self)
  then have "inj_on (of_nat :: nat \<Rightarrow> u32) {..<n}" by (metis inj_onI lessThan_iff)
  then show ?thesis by (simp add: unat_image_less [OF n] card_image)
qed

lemma finite_cells [simp]: "finite (cells s)"
  by simp

lemma card_cells: "length (s_nodes s) \<le> 2 ^ 32 \<Longrightarrow> card (cells s) = length (s_nodes s)"
  unfolding cells_def by (rule card_unat_less)

lemma contents_lrep: "lrep s l is \<Longrightarrow> contents s l = map (\<lambda>i. the (sitem s i)) is"
  by (auto simp: contents_def lrep_def follow_chain)

lemma lrep_length: "lrep s l is \<Longrightarrow> length is = list_len l"
  by (simp add: lrep_def list_len_def)

lemma contents_default [simp]: "contents s list_default = []"
  by (simp add: contents_def list_default_def)

lemma lrep_default: "lrep s list_default is \<longleftrightarrow> is = []"
  by (auto simp: lrep_def list_default_def)

lemma slab_repD:
  assumes "slab_rep s K L F I"
  shows "length (s_nodes s) < 2 ^ 32" "chain (snext s) (ptr (s_free s)) F"
    "\<And>k. k \<in> K \<Longrightarrow> lrep s (L k) (I k)" "\<And>k. k \<in> K \<Longrightarrow> set (I k) \<inter> set F = {}"
    "\<And>k j. k \<in> K \<Longrightarrow> j \<in> K \<Longrightarrow> k \<noteq> j \<Longrightarrow> set (I k) \<inter> set (I j) = {}"
    "set F \<union> (\<Union>k\<in>K. set (I k)) = cells s"
    "\<And>i. i \<in> set F \<Longrightarrow> sitem s i = None" "\<And>k i. k \<in> K \<Longrightarrow> i \<in> set (I k) \<Longrightarrow> sitem s i \<noteq> None"
  using assms by (auto simp: slab_rep_def)

lemma slab_rep_in_cells:
  assumes "slab_rep s K L F I"
  shows "i \<in> set F \<Longrightarrow> unat i < length (s_nodes s)" "k \<in> K \<Longrightarrow> i \<in> set (I k) \<Longrightarrow> unat i < length (s_nodes s)"
  using slab_repD(6) [OF assms] by (auto simp: cells_def)

lemma slab_rep_distinct: assumes "slab_rep s K L F I" "k \<in> K" shows "distinct (I k)"
  using slab_repD(3) [OF assms] by (auto simp: lrep_def dest: chain_distinct)

lemma slab_rep_contents:
  assumes "slab_rep s K L F I" "k \<in> K"
  shows "contents s (L k) = map (\<lambda>i. the (sitem s i)) (I k)"
  using slab_repD(3) [OF assms] by (rule contents_lrep)

lemma slab_ok_len: "slab_ok s K L \<Longrightarrow> k \<in> K \<Longrightarrow> list_len (L k) = length (contents s (L k))"
  unfolding slab_ok_def using slab_rep_contents slab_repD(3) lrep_length by (metis length_map)

lemma slab_ok_is_empty: "slab_ok s K L \<Longrightarrow> k \<in> K \<Longrightarrow> list_is_empty (L k) \<longleftrightarrow> contents s (L k) = []"
  using slab_ok_len [of s K L k] by (auto simp: list_is_empty_def list_len_def unat_eq_0)

text \<open>Nodes outside the arena cells a list uses may change without the list noticing.\<close>

lemma lrep_frame:
  assumes "\<And>i. i \<in> set is \<Longrightarrow> snext s' i = snext s i"
  shows "lrep s' l is = lrep s l is"
  unfolding lrep_def using chain_cong [of "is" "snext s'" "snext s"] assms by blast

lemma contents_frame:
  assumes "lrep s l is" and "\<And>i. i \<in> set is \<Longrightarrow> snext s' i = snext s i"
    and "\<And>i. i \<in> set is \<Longrightarrow> sitem s' i = sitem s i"
  shows "contents s' l = contents s l"
  using assms lrep_frame [of "is" s' s l] by (simp add: contents_lrep)

lemma slab_rep_frame:
  assumes "slab_rep s K L F I" and "k \<in> K" and "length (s_nodes s') < 2 ^ 32"
    and "\<And>j i. j \<in> K \<Longrightarrow> j \<noteq> k \<Longrightarrow> i \<in> set (I j) \<Longrightarrow> snext s' i = snext s i \<and> sitem s' i = sitem s i"
    and "chain (snext s') (ptr (s_free s')) F'" and "lrep s' l' is'" and "set is' \<inter> set F' = {}"
    and "\<And>j. j \<in> K \<Longrightarrow> j \<noteq> k \<Longrightarrow> set (I j) \<inter> (set is' \<union> set F') = {}"
    and "set F' \<union> set is' \<union> (\<Union>j\<in>K - {k}. set (I j)) = cells s'"
    and "\<And>i. i \<in> set F' \<Longrightarrow> sitem s' i = None" and "\<And>i. i \<in> set is' \<Longrightarrow> sitem s' i \<noteq> None"
  shows "slab_rep s' K (L(k := l')) F' (I(k := is'))"
  unfolding slab_rep_def
proof (intro conjI ballI impI)
  fix j assume j: "j \<in> K"
  show "lrep s' ((L(k := l')) j) ((I(k := is')) j)"
    using assms(1,4,6) j lrep_frame [of "I j" s' s] slab_repD(3) by auto
  show "set ((I(k := is')) j) \<inter> set F' = {}" using assms(7) assms(8) [OF j] by auto
  show "set ((I(k := is')) j) \<inter> set ((I(k := is')) m) = {}" if "m \<in> K" "j \<noteq> m" for m
    using slab_repD(5) [OF assms(1) j that] assms(8) [OF j] assms(8) [OF that(1)] that(2) by auto
  show "sitem s' i \<noteq> None" if "i \<in> set ((I(k := is')) j)" for i
    using assms(4,11) j that slab_repD(8) [OF assms(1) j] by (cases "j = k") auto
next
  have "(\<Union>j\<in>K. set ((I(k := is')) j)) = set is' \<union> (\<Union>j\<in>K - {k}. set (I j))"
    using assms(2) by (auto split: if_splits)
  then show "set F' \<union> (\<Union>j\<in>K. set ((I(k := is')) j)) = cells s'"
    using assms(9) by auto
qed (use assms in auto)

section \<open>Correctness of the operations\<close>

lemma slab_ok_new: "slab_ok (slab_with_capacity n) {} L"
  by (auto simp: slab_ok_def slab_rep_def slab_with_capacity_def cells_def)

lemma slab_ok_insert: "slab_ok s K L \<Longrightarrow> k \<notin> K \<Longrightarrow> slab_ok s (insert k K) (L(k := list_default))"
proof -
  assume "slab_ok s K L" and k: "k \<notin> K"
  then obtain F I where r: "slab_rep s K L F I" by (auto simp: slab_ok_def)
  have "(\<Union>j\<in>insert k K. set ((I(k := [])) j)) = (\<Union>j\<in>K. set (I j))"
    using k by (auto split: if_splits)
  then have "slab_rep s (insert k K) (L(k := list_default)) F (I(k := []))"
    using r k by (simp add: slab_rep_def lrep_default)
  then show ?thesis by (auto simp: slab_ok_def)
qed

lemma slab_ok_remove:
  "slab_ok s K L \<Longrightarrow> k \<in> K \<Longrightarrow> contents s (L k) = [] \<Longrightarrow> slab_ok s (K - {k}) L"
proof -
  assume "slab_ok s K L" and k: "k \<in> K" and e: "contents s (L k) = []"
  then obtain F I where r: "slab_rep s K L F I" by (auto simp: slab_ok_def)
  with k e have ik: "I k = []" by (simp add: slab_rep_contents)
  have "(\<Union>j\<in>K - {k}. set (I j)) = (\<Union>j\<in>K. set (I j))" using ik by auto
  then have "slab_rep s (K - {k}) L F I" using r by (auto simp: slab_rep_def)
  then show ?thesis by (auto simp: slab_ok_def)
qed

lemma slab_ok_cong: "(\<And>k. k \<in> K \<Longrightarrow> L k = L' k) \<Longrightarrow> slab_ok s K L = slab_ok s K L'"
  unfolding slab_ok_def slab_rep_def by (simp cong: ball_cong)

lemma slab_front_ok:
  assumes "slab_ok s K L" and "k \<in> K"
  shows "slab_front s (L k) = Some (hd_opt (contents s (L k)))"
proof -
  obtain F I where r: "slab_rep s K L F I" using assms by (auto simp: slab_ok_def)
  then have l: "lrep s (L k) (I k)" using assms slab_repD(3) by metis
  show ?thesis
  proof (cases "I k")
    case Nil
    with l show ?thesis using slab_rep_contents [OF r assms(2)] by (simp add: slab_front_def lrep_def)
  next
    case (Cons i ys)
    with l have h: "l_head (L k) = i" "i \<noteq> NIL" by (auto simp: lrep_def)
    have "sitem s i \<noteq> None" "unat i < length (s_nodes s)"
      using slab_repD(8) [OF r assms(2)] slab_rep_in_cells(2) [OF r assms(2)] Cons by auto
    with h Cons show ?thesis using slab_rep_contents [OF r assms(2)]
      by (auto simp: slab_front_def slab_node_def sitem_def)
  qed
qed


lemma slab_rep_card:
  assumes "slab_rep s K L F I" and "finite K"
  shows "length F + (\<Sum>k\<in>K. length (I k)) = length (s_nodes s)"
proof -
  note r = slab_repD [OF assms(1)]
  have "card (\<Union>k\<in>K. set (I k)) = (\<Sum>k\<in>K. card (set (I k)))"
    using assms(2) r(5) by (intro card_UN_disjoint) auto
  also have "\<dots> = (\<Sum>k\<in>K. length (I k))"
    using slab_rep_distinct [OF assms(1)] by (intro sum.cong) (auto simp: distinct_card)
  finally have u: "card (\<Union>k\<in>K. set (I k)) = (\<Sum>k\<in>K. length (I k))" .
  have "card (set F \<union> (\<Union>k\<in>K. set (I k))) = card (set F) + card (\<Union>k\<in>K. set (I k))"
    using assms(2) r(4) by (intro card_Un_disjoint) auto
  moreover have "card (set F) = length F" using chain_distinct [OF r(2)] by (rule distinct_card)
  ultimately show ?thesis using u r(1,6) card_cells [of s] by simp
qed

lemma slab_rep_length: "slab_rep s K L F I \<Longrightarrow> k \<in> K \<Longrightarrow> length (I k) \<le> length (s_nodes s)"
proof -
  assume r: "slab_rep s K L F I" and k: "k \<in> K"
  have "set (I k) \<subseteq> cells s" using slab_repD(6) [OF r] k by auto
  then have "card (set (I k)) \<le> card (cells s)" by (intro card_mono) auto
  then show ?thesis
    using slab_rep_distinct [OF r k] slab_repD(1) [OF r] card_cells [of s] by (simp add: distinct_card)
qed

text \<open>What \<open>alloc\<close> delivers: one cell that no list uses, holding the item, at the end of
  nothing; every other cell is untouched and the free list has lost it.\<close>

lemma slab_alloc_ok:
  assumes r: "slab_rep s K L F I" and room: "slab_room s"
  obtains s' i F' where "slab_alloc s x = Some (s', i)" "i \<noteq> NIL" "unat i < length (s_nodes s')"
    "length (s_nodes s') < 2 ^ 32" "cells s' = insert i (cells s)"
    "chain (snext s') (ptr (s_free s')) F'" "i \<notin> set F'" "insert i (set F') = insert i (set F)"
    "\<And>k. k \<in> K \<Longrightarrow> i \<notin> set (I k)" "set F' \<subseteq> set F"
    "snext s' i = None" "sitem s' i = Some x"
    "\<And>j. j \<in> cells s \<Longrightarrow> j \<noteq> i \<Longrightarrow> snext s' j = snext s j \<and> sitem s' j = sitem s j"
    "length (s_nodes s') = length (s_nodes s) + (if F = [] then 1 else 0)"
proof (cases "s_free s = NIL")
  case False
  note R = slab_repD [OF r]
  from False R(2) obtain F' where F: "F = s_free s # F'" and c: "chain (snext s) (snext s (s_free s)) F'"
    by (cases F) auto
  have d: "s_free s \<notin> set F'" using chain_distinct [OF R(2)] F by simp
  have b: "unat (s_free s) < length (s_nodes s)" using slab_rep_in_cells(1) [OF r] F by simp
  let ?s = "(slab_node_set s (s_free s) \<lparr>n_item = Some x, n_next = NIL\<rparr>)\<lparr>s_free := n_next (s_nodes s ! unat (s_free s))\<rparr>"
  have n: "s_nodes ?s = (s_nodes s)[unat (s_free s) := \<lparr>n_item = Some x, n_next = NIL\<rparr>]"
    by (simp add: slab_node_set_def)
  have o: "snext ?s j = snext s j \<and> sitem ?s j = sitem s j" if "j \<noteq> s_free s" for j
    using that by (simp add: snext_def sitem_def n)
  have "\<And>j. j \<in> set F' \<Longrightarrow> snext ?s j = snext s j" using o d by metis
  then have "chain (snext ?s) p F' = chain (snext s) p F'" for p by (rule chain_cong)
  with c have "chain (snext ?s) (ptr (s_free ?s)) F'" by (simp add: snext_def [of s "s_free s"])
  moreover have "cells ?s = insert (s_free s) (cells s)"
    using b n by (auto simp: cells_def)
  moreover have "slab_alloc s x = Some (?s, s_free s)"
    using False b by (simp add: slab_alloc_def slab_node_def Let_def)
  moreover have "snext ?s (s_free s) = None" "sitem ?s (s_free s) = Some x"
    using b by (simp_all add: snext_def sitem_def n)
  moreover have "s_free s \<notin> set (I k)" if "k \<in> K" for k using R(4) [OF that] F by auto
  moreover have "length (s_nodes ?s) = length (s_nodes s)" using n by simp
  ultimately show ?thesis
    using that [of ?s "s_free s" F'] False F d b o R(1) by auto
next
  case True
  note R = slab_repD [OF r]
  from True R(2) have F: "F = []" by simp
  let ?i = "of_nat (length (s_nodes s)) :: u32"
  let ?s = "s\<lparr>s_nodes := s_nodes s @ [\<lparr>n_item = Some x, n_next = NIL\<rparr>]\<rparr>"
  have len: "length (s_nodes s) < 2 ^ 32 - 1" using room True by (simp add: slab_room_def)
  then have u: "unat ?i = length (s_nodes s)" and ni: "?i \<noteq> NIL" using unat_less_NIL by auto
  have o: "snext ?s j = snext s j \<and> sitem ?s j = sitem s j" if "j \<in> cells s" for j
    using that by (simp add: snext_def sitem_def nth_append cells_def)
  have "?i \<notin> cells s" using u by (simp add: cells_def)
  then have nk: "?i \<notin> set (I k)" if "k \<in> K" for k using R(6) that by blast
  have "cells ?s = insert ?i (cells s)"
    using u by (auto simp: cells_def less_Suc_eq) (metis word_unat_eq_iff)
  then show ?thesis
    using that [of ?s ?i "[]"] True F u ni len o nk
    by (auto simp: slab_alloc_def snext_def sitem_def nth_append)
qed


lemma slab_node_set_other:
  "j \<noteq> i \<Longrightarrow> snext (slab_node_set s i n) j = snext s j"
  "j \<noteq> i \<Longrightarrow> sitem (slab_node_set s i n) j = sitem s j"
  "s_free (slab_node_set s i n) = s_free s" "cells (slab_node_set s i n) = cells s"
  "length (s_nodes (slab_node_set s i n)) = length (s_nodes s)"
  by (auto simp: slab_node_set_def snext_def sitem_def cells_def)

lemma slab_node_set_same:
  "unat i < length (s_nodes s) \<Longrightarrow> snext (slab_node_set s i n) i = ptr (n_next n)"
  "unat i < length (s_nodes s) \<Longrightarrow> sitem (slab_node_set s i n) i = n_item n"
  by (auto simp: slab_node_set_def snext_def sitem_def)

lemmas slab_node_set_simps = slab_node_set_other slab_node_set_same

text \<open>Linking a fresh cell behind the tail of one list.\<close>

lemma lrep_snoc:
  assumes "lrep s l is" and "i \<notin> set is" and "i \<noteq> NIL" and "length is < 2 ^ 32 - 1"
    and "\<And>j. j \<in> set is \<Longrightarrow> last_opt is \<noteq> Some j \<Longrightarrow> snext s' j = snext s j"
    and "\<And>j. last_opt is = Some j \<Longrightarrow> snext s' j = Some i" and "snext s' i = None"
  shows "lrep s' \<lparr>l_head = (if is = [] then i else l_head l), l_tail = i, l_len = l_len l + 1\<rparr> (is @ [i])"
proof -
  have c: "chain (snext s) (ptr (l_head l)) is" and t: "ptr (l_tail l) = last_opt is"
    and n: "unat (l_len l) = length is" using assms(1) by (auto simp: lrep_def)
  have "unat (l_len l + 1) = length is + 1"
    using n assms(4) by (simp add: unat_word_ariths)
  moreover have "chain (snext s') (ptr (if is = [] then i else l_head l)) (is @ [i])"
  proof (cases "is" rule: rev_cases)
    case (snoc zs j)
    have "distinct is" using c by (rule chain_distinct)
    with snoc assms(5) have "\<And>z. z \<in> set zs \<Longrightarrow> snext s' z = snext s z" by auto
    then have "seg (snext s') p zs q = seg (snext s) p zs q" for p q by (rule seg_cong)
    with c snoc assms(6,7) show ?thesis by (auto simp: chain_append seg_append)
  qed (use assms in auto)
  ultimately show ?thesis using assms(3) by (simp add: lrep_def)
qed

lemma slab_push_back_ok:
  assumes ok: "slab_ok s K L" and k: "k \<in> K" and room: "slab_room s"
  obtains s' l' where "slab_push_back s (L k) x = Some (s', l')" "slab_ok s' K (L(k := l'))"
    "contents s' l' = contents s (L k) @ [x]"
    "\<And>j. j \<in> K \<Longrightarrow> j \<noteq> k \<Longrightarrow> contents s' (L j) = contents s (L j)"
    "length (s_nodes s') = length (s_nodes s) + (if s_free s = NIL then 1 else 0)"
proof -
  obtain F I where r: "slab_rep s K L F I" using ok by (auto simp: slab_ok_def)
  note R = slab_repD [OF r]
  obtain s1 i F' where a: "slab_alloc s x = Some (s1, i)" "i \<noteq> NIL" "unat i < length (s_nodes s1)"
    and s1: "length (s_nodes s1) < 2 ^ 32" "cells s1 = insert i (cells s)"
      "chain (snext s1) (ptr (s_free s1)) F'" "i \<notin> set F'" "insert i (set F') = insert i (set F)"
    and fresh: "\<And>k. k \<in> K \<Longrightarrow> i \<notin> set (I k)" and sub: "set F' \<subseteq> set F"
    and at: "snext s1 i = None" "sitem s1 i = Some x"
    and old: "\<And>j. j \<in> cells s \<Longrightarrow> j \<noteq> i \<Longrightarrow> snext s1 j = snext s j \<and> sitem s1 j = sitem s j"
    and grow: "length (s_nodes s1) = length (s_nodes s) + (if F = [] then 1 else 0)"
    using slab_alloc_ok [OF r room, of x] by metis
  let ?t = "l_tail (L k)" and ?is = "I k"
  have l: "lrep s (L k) ?is" and t: "ptr ?t = last_opt ?is" and c: "chain (snext s) (ptr (l_head (L k))) ?is"
    using R(3) [OF k] by (auto simp: lrep_def)
  have empty: "?t = NIL \<longleftrightarrow> ?is = []" using t by (metis last_opt_eq_None ptr_eq_None)
  have tin: "?t \<in> set ?is" "unat ?t < length (s_nodes s1)" "?t \<noteq> i" if "?t \<noteq> NIL"
    using that t empty slab_rep_in_cells(2) [OF r k] fresh [OF k] grow
    by (auto simp: last_opt_def split: if_splits intro: less_SucI)
  let ?s2 = "if ?t = NIL then s1 else slab_node_set s1 ?t ((s_nodes s1 ! unat ?t)\<lparr>n_next := i\<rparr>)"
  let ?l = "\<lparr>l_head = (if ?is = [] then i else l_head (L k)), l_tail = i, l_len = l_len (L k) + 1\<rparr>"
  have len: "length ?is < 2 ^ 32 - 1"
  proof -
    have "set (?is @ [i]) \<subseteq> cells s1" using s1(2) R(6) k by auto
    then have "card (set (?is @ [i])) \<le> card (cells s1)" by (intro card_mono) auto
    then show ?thesis using slab_rep_distinct [OF r k] fresh [OF k] s1(1) card_cells [of s1]
      by (simp add: distinct_card)
  qed
  then have "l_len (L k) \<noteq> - 1"
    using l unat_NIL by (auto simp: lrep_def NIL_def)
  then have push: "slab_push_back s (L k) x = Some (?s2, ?l)"
    using a tin empty by (auto simp: slab_push_back_def slab_node_def)
  have cells2: "cells ?s2 = cells s1" "s_free ?s2 = s_free s1" "length (s_nodes ?s2) = length (s_nodes s1)"
    by (auto simp: slab_node_set_simps)
  have item2: "sitem ?s2 j = sitem s1 j" for j
    using tin(2) by (cases "j = ?t") (auto simp: slab_node_set_def sitem_def)
  have next2: "snext ?s2 j = (if ?t \<noteq> NIL \<and> j = ?t then Some i else snext s1 j)" for j
    using tin(2) a(2) by (auto simp: slab_node_set_simps)
  have others: "snext ?s2 j = snext s j \<and> sitem ?s2 j = sitem s j"
    if "m \<in> K" "m \<noteq> k" "j \<in> set (I m)" for m j
  proof -
    have "j \<in> cells s" "j \<noteq> i" using R(6) fresh that by auto
    moreover have "j \<noteq> ?t" if "?t \<noteq> NIL"
      using tin(1) [OF that] R(5) [OF \<open>m \<in> K\<close> k \<open>m \<noteq> k\<close>] \<open>j \<in> set (I m)\<close> by auto
    ultimately show ?thesis using old next2 item2 by auto
  qed
  have rep: "lrep ?s2 ?l (?is @ [i])"
  proof (rule lrep_snoc [OF l fresh [OF k] a(2) len])
    fix j assume j: "j \<in> set ?is" and nl: "last_opt ?is \<noteq> Some j"
    then have "j \<in> cells s" "j \<noteq> i" using R(6) k fresh by auto
    moreover have "?t \<noteq> NIL \<Longrightarrow> j \<noteq> ?t" using nl t by (auto simp: ptr_def)
    ultimately show "snext ?s2 j = snext s j" using old next2 by auto
  next
    fix j assume "last_opt ?is = Some j"
    then show "snext ?s2 j = Some i" using t next2 by auto
  next
    show "snext ?s2 i = None" using next2 at tin(3) by auto
  qed
  have chainF: "chain (snext ?s2) (ptr (s_free ?s2)) F'"
  proof -
    have "?t \<notin> set F'" if "?t \<noteq> NIL" using tin(1) [OF that] R(4) [OF k] sub by auto
    then have "\<And>j. j \<in> set F' \<Longrightarrow> snext ?s2 j = snext s1 j" using next2 by auto
    then show ?thesis using s1(3) cells2(2) chain_cong [of F' "snext ?s2" "snext s1"] by metis
  qed
  have "slab_rep ?s2 K (L(k := ?l)) F' (I(k := ?is @ [i]))"
  proof (rule slab_rep_frame [OF r k _ others chainF rep])
    show "set F' \<union> set (?is @ [i]) \<union> (\<Union>j\<in>K - {k}. set (I j)) = cells ?s2"
      using R(6) cells2(1) s1(2,5) k by auto
    show "sitem ?s2 j = None" if "j \<in> set F'" for j
      using that R(6,7) sub s1(4) old item2 by (metis UnI1 subsetD)
    show "sitem ?s2 j \<noteq> None" if "j \<in> set (?is @ [i])" for j
    proof (cases "j = i")
      case False
      with that have "j \<in> set ?is" "j \<in> cells s" using R(6) k by auto
      then show ?thesis using False R(8) [OF k] old item2 by metis
    qed (use item2 at(2) in auto)
    show "length (s_nodes ?s2) < 2 ^ 32" using s1(1) cells2(3) by simp
    show "set (?is @ [i]) \<inter> set F' = {}" using R(4) [OF k] sub s1(4) by auto
    show "set (I j) \<inter> (set (?is @ [i]) \<union> set F') = {}" if "j \<in> K" "j \<noteq> k" for j
      using R(4) [OF that(1)] R(5) [OF that(1) k that(2)] sub fresh [OF that(1)] by auto
  qed
  moreover have "contents ?s2 ?l = contents s (L k) @ [x]"
  proof -
    have "sitem ?s2 j = sitem s j" if "j \<in> set ?is" for j
      using that fresh [OF k] old R(6) k item2 by auto
    then show ?thesis using contents_lrep [OF rep] slab_rep_contents [OF r k] item2 at(2) by simp
  qed
  moreover have "contents ?s2 (L j) = contents s (L j)" if "j \<in> K" "j \<noteq> k" for j
    using contents_frame [OF R(3)] others that by blast
  moreover have "F = [] \<longleftrightarrow> s_free s = NIL" using R(2) by (cases F) auto
  ultimately show ?thesis using that [OF push] grow cells2(3) by (auto simp: slab_ok_def)
qed


lemma slab_pop_front_empty:
  assumes ok: "slab_ok s K L" and k: "k \<in> K" and "contents s (L k) = []"
  shows "slab_pop_front s (L k) = Some (s, L k, None)"
proof -
  obtain F I where r: "slab_rep s K L F I" using ok by (auto simp: slab_ok_def)
  have "lrep s (L k) []" using slab_repD(3) [OF r k] slab_rep_contents [OF r k] assms(3) by simp
  then show ?thesis by (simp add: lrep_def slab_pop_front_def)
qed

lemma slab_pop_front_ok:
  assumes ok: "slab_ok s K L" and k: "k \<in> K" and "contents s (L k) = x # xs"
  obtains s' l' where "slab_pop_front s (L k) = Some (s', l', Some x)" "slab_ok s' K (L(k := l'))"
    "contents s' l' = xs" "s_free s' \<noteq> NIL" "length (s_nodes s') = length (s_nodes s)"
    "\<And>j. j \<in> K \<Longrightarrow> j \<noteq> k \<Longrightarrow> contents s' (L j) = contents s (L j)"
proof -
  obtain F I where r: "slab_rep s K L F I" using ok by (auto simp: slab_ok_def)
  note R = slab_repD [OF r]
  obtain i "is" where I: "I k = i # is" and x: "x = the (sitem s i)" "xs = map (\<lambda>i. the (sitem s i)) is"
    using slab_rep_contents [OF r k] assms(3) by auto
  have l: "lrep s (L k) (i # is)" using R(3) [OF k] I by simp
  then have h: "l_head (L k) = i" "i \<noteq> NIL" and c: "chain (snext s) (snext s i) is"
    and t: "ptr (l_tail (L k)) = last_opt (i # is)" and n: "unat (l_len (L k)) = Suc (length is)"
    by (auto simp: lrep_def)
  have b: "unat i < length (s_nodes s)" using slab_rep_in_cells(2) [OF r k] I by simp
  have it: "sitem s i = Some x" using R(8) [OF k, of i] I x(1) by auto
  have d: "i \<notin> set is" using slab_rep_distinct [OF r k] I by simp
  have iF: "i \<notin> set F" using R(4) [OF k] I by auto
  let ?nx = "n_next (s_nodes s ! unat i)"
  let ?s = "(slab_node_set s i \<lparr>n_item = None, n_next = s_free s\<rparr>)\<lparr>s_free := i\<rparr>"
  let ?l = "\<lparr>l_head = ?nx, l_tail = (if ?nx = NIL then NIL else l_tail (L k)), l_len = l_len (L k) - 1\<rparr>"
  have nz: "l_len (L k) \<noteq> 0" using n by auto
  have pop: "slab_pop_front s (L k) = Some (?s, ?l, Some x)"
    using h b it nz by (auto simp: slab_pop_front_def slab_node_def sitem_def Let_def)
  have o: "snext ?s j = snext s j" "sitem ?s j = sitem s j" if "j \<noteq> i" for j
    using that by (auto simp: slab_node_set_def snext_def sitem_def)
  have at: "snext ?s i = ptr (s_free s)" "sitem ?s i = None"
    using b by (auto simp: slab_node_set_def snext_def sitem_def)
  have c': "chain (snext ?s) p is = chain (snext s) p is" for p
    by (rule chain_cong) (use o d in metis)
  have cF: "chain (snext ?s) p F = chain (snext s) p F" for p
    by (rule chain_cong) (use o iF in metis)
  have nil: "?nx = NIL \<longleftrightarrow> is = []" using c by (cases "is") (auto simp: snext_def)
  have "unat (l_len (L k) - 1) = length is" using n nz by (simp add: unat_minus_one)
  then have rep: "lrep ?s ?l is"
    using c c' t nil by (auto simp: lrep_def snext_def [of s i] last_opt_def split: if_splits)
  have others: "snext ?s j = snext s j \<and> sitem ?s j = sitem s j"
    if "m \<in> K" "m \<noteq> k" "j \<in> set (I m)" for m j
  proof -
    have "j \<noteq> i" using R(5) [OF that(1) k that(2)] that(3) I by auto
    then show ?thesis using o by metis
  qed
  have "slab_rep ?s K (L(k := ?l)) (i # F) (I(k := is))"
  proof (rule slab_rep_frame [OF r k _ others _ rep])
    show "set (i # F) \<union> set is \<union> (\<Union>j\<in>K - {k}. set (I j)) = cells ?s"
    proof -
      have "(\<Union>j\<in>K. set (I j)) = set (I k) \<union> (\<Union>j\<in>K - {k}. set (I j))" using k by auto
      moreover have "cells ?s = cells s" by (simp add: cells_def slab_node_set_def)
      ultimately show ?thesis using R(6) I by auto
    qed
    show "chain (snext ?s) (ptr (s_free ?s)) (i # F)" using at(1) R(2) cF h(2) by simp
    show "set (I j) \<inter> (set is \<union> set (i # F)) = {}" if "j \<in> K" "j \<noteq> k" for j
      using R(4) [OF that(1)] R(5) [OF that(1) k that(2)] I by auto
    show "sitem ?s j = None" if "j \<in> set (i # F)" for j
      using that at o R(7) iF by (cases "j = i") auto
    show "sitem ?s j \<noteq> None" if "j \<in> set is" for j
      using that d o R(8) [OF k] I by (cases "j = i") auto
    show "length (s_nodes ?s) < 2 ^ 32" using R(1) by (simp add: slab_node_set_def)
    show "set is \<inter> set (i # F) = {}" using R(4) [OF k] d I by auto
  qed
  moreover have "contents ?s ?l = xs"
    using contents_lrep [OF rep] x(2) o(2) d by (auto cong: map_cong) (metis o(2))
  moreover have "contents ?s (L j) = contents s (L j)" if "j \<in> K" "j \<noteq> k" for j
    using contents_frame [OF R(3)] others that by blast
  ultimately show ?thesis
    using that [OF pop] h(2) by (auto simp: slab_ok_def slab_node_set_def)
qed

lemma slab_room_iff:
  assumes "slab_ok s K L" and "finite K" and "(\<Sum>k\<in>K. length (contents s (L k))) < 2 ^ 32 - 1"
  shows "slab_room s"
proof -
  obtain F I where r: "slab_rep s K L F I" using assms(1) by (auto simp: slab_ok_def)
  have "(\<Sum>k\<in>K. length (I k)) = (\<Sum>k\<in>K. length (contents s (L k)))"
    using slab_rep_contents [OF r] by (intro sum.cong) auto
  with slab_rep_card [OF r assms(2)] assms(3) slab_repD(2) [OF r] show ?thesis
    by (cases F) (auto simp: slab_room_def)
qed

text \<open>The arena holds every queued item; when the free list is empty it holds nothing else.\<close>

lemma slab_live_le:
  assumes "slab_ok s K L" and "finite K"
  shows "(\<Sum>k\<in>K. length (contents s (L k))) \<le> length (s_nodes s)"
    and "s_free s = NIL \<Longrightarrow> (\<Sum>k\<in>K. length (contents s (L k))) = length (s_nodes s)"
proof -
  obtain F I where r: "slab_rep s K L F I" using assms(1) by (auto simp: slab_ok_def)
  have "(\<Sum>k\<in>K. length (I k)) = (\<Sum>k\<in>K. length (contents s (L k)))"
    using slab_rep_contents [OF r] by (intro sum.cong) auto
  with slab_rep_card [OF r assms(2)] slab_repD(2) [OF r]
  show "(\<Sum>k\<in>K. length (contents s (L k))) \<le> length (s_nodes s)"
    and "s_free s = NIL \<Longrightarrow> (\<Sum>k\<in>K. length (contents s (L k))) = length (s_nodes s)"
    by (auto dest: chain_hd)
qed

end
