(* ===== verification/Core_Scheduler.thy ===== *)
theory Core_Scheduler
  imports Slab
begin

text \<open>
  The key-affine scheduler of \<^verbatim>\<open>crates/grommet-core/src/lib.rs\<close>, operation by operation:
  the per-key slots, the ready ring of every class, the intrusive idle list threaded through
  the slots, the expired buffer and the counters. A hash map is an association list; a
  \<open>VecDeque\<close> is a list with its front first; an array indexed by class is a list. An
  \<open>expect\<close>, a debug assertion, an index out of range and a subtraction below zero are the
  result \<open>None\<close>.
\<close>

section \<open>Data\<close>

type_synonym class_id = nat

record config =
  max_inflight :: "nat list"
  max_pending :: nat
  max_resident :: "nat option"
  evict_after :: duration
  evict_iters :: nat
  queue_reserve :: nat

definition config_new :: "nat list \<Rightarrow> config" where
  "config_new budgets =
     \<lparr>max_inflight = budgets, max_pending = 8192, max_resident = None,
      evict_after = 60 * NANOS_PER_SEC, evict_iters = 256, queue_reserve = 1024\<rparr>"

record ('k, 'p) admit_item =
  ad_key :: 'k
  ad_class :: class_id
  ad_expires_at :: "duration option"
  ad_payload :: 'p

record ('k, 'p, 's) dispatch =
  di_key :: 'k
  di_class :: class_id
  di_state :: "'s option"
  di_payload :: 'p

datatype 's disposition = Keep 's | Drop

fun into_option :: "'s disposition \<Rightarrow> 's option" where
  "into_option (Keep st) = Some st"
| "into_option Drop = None"

record ('k, 's) completion =
  co_key :: 'k
  co_class :: class_id
  co_state :: "'s disposition"

record snapshot =
  sn_inflight :: "nat list"
  sn_ready :: "nat list"
  sn_pending :: nat
  sn_resident :: nat
  sn_evicting :: nat
  sn_eviction_backlog :: nat
  sn_queue_capacity :: nat

definition snapshot_default :: "nat \<Rightarrow> snapshot" where
  "snapshot_default n =
     \<lparr>sn_inflight = replicate n 0, sn_ready = replicate n 0, sn_pending = 0, sn_resident = 0,
      sn_evicting = 0, sn_eviction_backlog = 0, sn_queue_capacity = 0\<rparr>"

datatype presence = Idle | Ready class_id | InFlight | Evicting

record 'p item =
  it_class :: class_id
  it_expires_at :: "duration option"
  it_payload :: 'p

record ('k, 's) slot =
  resident :: "'s option"
  queue :: qlist
  presence :: presence
  idle_since :: duration
  idle_prev :: "'k option"
  idle_next :: "'k option"

definition cold :: "('k, 's) slot" where
  "cold = \<lparr>resident = None, queue = list_default, presence = Idle, idle_since = 0,
           idle_prev = None, idle_next = None\<rparr>"

definition detach :: "('k, 's) slot \<Rightarrow> ('k, 's) slot \<times> 'k option \<times> 'k option" where
  "detach slot = (slot\<lparr>idle_prev := None, idle_next := None\<rparr>, idle_prev slot, idle_next slot)"

record ('k, 'p, 's) scheduler =
  cfg :: config
  keys :: "('k \<times> ('k, 's) slot) list"
  slab :: "'p item slab"
  ready :: "'k list list"
  idle_head :: "'k option"
  idle_tail :: "'k option"
  idle :: nat
  expired :: "('k \<times> class_id \<times> 'p) list"
  inflight :: "nat list"
  pending :: nat
  evicting :: nat

section \<open>Construction and accessors\<close>

definition new :: "config \<Rightarrow> ('k, 'p, 's) scheduler" where
  "new c =
     \<lparr>cfg = c, keys = [], slab = slab_with_capacity (queue_reserve c),
      ready = replicate (length (max_inflight c)) [], idle_head = None, idle_tail = None,
      idle = 0, expired = [], inflight = replicate (length (max_inflight c)) 0, pending = 0,
      evicting = 0\<rparr>"

definition is_saturated :: "('k, 'p, 's) scheduler \<Rightarrow> bool" where
  "is_saturated s \<longleftrightarrow> pending s \<ge> max_pending (cfg s)"

definition take_snapshot :: "('k, 'p, 's) scheduler \<Rightarrow> snapshot" where
  "take_snapshot s =
     \<lparr>sn_inflight = inflight s, sn_ready = map length (ready s), sn_pending = pending s,
      sn_resident = length (keys s), sn_evicting = evicting s, sn_eviction_backlog = idle s,
      sn_queue_capacity = slab_capacity (slab s)\<rparr>"

section \<open>The idle list\<close>

definition set_slot :: "'k \<Rightarrow> ('k, 's) slot \<Rightarrow> ('k, 'p, 's) scheduler \<Rightarrow> ('k, 'p, 's) scheduler" where
  "set_slot key slot s = s\<lparr>keys := AList.update key slot (keys s)\<rparr>"

definition idle_patch ::
  "'k option \<Rightarrow> 'k option \<Rightarrow> ('k, 'p, 's) scheduler \<Rightarrow> ('k, 'p, 's) scheduler option" where
  "idle_patch prev next s = do {
     s \<leftarrow> (case prev of
            Some key \<Rightarrow> do {
              slot \<leftarrow> map_of (keys s) key;
              Some (set_slot key (slot\<lparr>idle_next := next\<rparr>) s)
            }
          | None \<Rightarrow> Some (s\<lparr>idle_head := next\<rparr>));
     case next of
       Some key \<Rightarrow> do {
         slot \<leftarrow> map_of (keys s) key;
         Some (set_slot key (slot\<lparr>idle_prev := prev\<rparr>) s)
       }
     | None \<Rightarrow> Some (s\<lparr>idle_tail := prev\<rparr>)
   }"

definition idle_link ::
  "'k \<Rightarrow> duration \<Rightarrow> ('k, 'p, 's) scheduler \<Rightarrow> ('k, 'p, 's) scheduler option" where
  "idle_link key now s = do {
     let tail = idle_tail s;
     slot \<leftarrow> map_of (keys s) key;
     if presence slot \<noteq> Idle \<or> idle_prev slot \<noteq> None \<or> idle_next slot \<noteq> None then None
     else do {
       let s = set_slot key (slot\<lparr>idle_since := now, idle_prev := tail\<rparr>) s;
       s \<leftarrow> (case tail of
              Some previous \<Rightarrow> do {
                slot \<leftarrow> map_of (keys s) previous;
                Some (set_slot previous (slot\<lparr>idle_next := Some key\<rparr>) s)
              }
            | None \<Rightarrow> Some (s\<lparr>idle_head := Some key\<rparr>));
       Some (s\<lparr>idle_tail := Some key, idle := idle s + 1\<rparr>)
     }
   }"

definition idle_unlink_head :: "('k, 'p, 's) scheduler \<Rightarrow> ('k, 'p, 's) scheduler option" where
  "idle_unlink_head s = do {
     key \<leftarrow> idle_head s;
     slot \<leftarrow> map_of (keys s) key;
     let (slot, prev, next) = detach slot;
     if prev \<noteq> None \<or> idle s = 0 then None
     else idle_patch prev next ((set_slot key slot s)\<lparr>idle := idle s - 1\<rparr>)
   }"

section \<open>Settling and placing a key\<close>

definition settle ::
  "'p item slab \<Rightarrow> ('k, 's) slot \<Rightarrow> (('k, 's) slot \<times> class_id option) option" where
  "settle sl slot = do {
     front \<leftarrow> slab_front sl (queue slot);
     case front of
       Some head \<Rightarrow> Some (slot\<lparr>presence := Ready (it_class head)\<rparr>, Some (it_class head))
     | None \<Rightarrow> Some (slot\<lparr>presence := Idle\<rparr>, None)
   }"

definition ring_push ::
  "class_id \<Rightarrow> 'k \<Rightarrow> ('k, 'p, 's) scheduler \<Rightarrow> ('k, 'p, 's) scheduler option" where
  "ring_push class key s =
     (if class < length (ready s)
      then Some (s\<lparr>ready := (ready s)[class := ready s ! class @ [key]]\<rparr>) else None)"

definition place ::
  "'k \<Rightarrow> class_id option \<Rightarrow> duration \<Rightarrow> ('k, 'p, 's) scheduler \<Rightarrow> ('k, 'p, 's) scheduler option" where
  "place key target now s =
     (case target of Some class \<Rightarrow> ring_push class key s | None \<Rightarrow> idle_link key now s)"

section \<open>Admission\<close>

definition admit ::
  "('k, 'p) admit_item \<Rightarrow> ('k, 'p, 's) scheduler \<Rightarrow> ('k, 'p, 's) scheduler option" where
  "admit a s =
     (let key = ad_key a; class = ad_class a in
      if \<not> class < length (max_inflight (cfg s)) then None
      else do {
        let s = s\<lparr>pending := pending s + 1\<rparr>;
        let (slot, resurrected) =
          (case map_of (keys s) key of Some slot \<Rightarrow> (slot, True) | None \<Rightarrow> (cold, False));
        (sl, q) \<leftarrow> slab_push_back (slab s) (queue slot)
          \<lparr>it_class = class, it_expires_at = ad_expires_at a, it_payload = ad_payload a\<rparr>;
        let slot = slot\<lparr>queue := q\<rparr>;
        let (slot, detached, joins) =
          (case presence slot of
             Idle \<Rightarrow>
               (let slot = slot\<lparr>presence := Ready class\<rparr> in
                if resurrected then (let (slot, links) = detach slot in (slot, Some links, True))
                else (slot, None, True))
           | _ \<Rightarrow> (slot, None, False));
        let s = (set_slot key slot s)\<lparr>slab := sl\<rparr>;
        s \<leftarrow> (case detached of
               Some (prev, next) \<Rightarrow>
                 if idle s = 0 then None else idle_patch prev next (s\<lparr>idle := idle s - 1\<rparr>)
             | None \<Rightarrow> Some s);
        if joins then ring_push class key s else Some s
      })"

section \<open>Dispatch\<close>

definition is_expired :: "duration \<Rightarrow> 'p item \<Rightarrow> bool" where
  "is_expired now head = (case it_expires_at head of Some deadline \<Rightarrow> deadline \<le> now | None \<Rightarrow> False)"

lemma slab_pop_front_shrinks:
  "slab_pop_front s l = Some (s', l', Some x) \<Longrightarrow> unat (l_len l') < unat (l_len l)"
  by (auto simp: slab_pop_front_def Let_def unat_minus_one unat_gt_0
      split: if_splits option.splits bind_splits)

text \<open>The inner loop of \<open>next\<close>: drop expired heads of the class being served, then take one.\<close>

function next_head ::
  "'k \<Rightarrow> class_id \<Rightarrow> duration \<Rightarrow> 'p item slab \<Rightarrow> qlist \<Rightarrow> nat \<Rightarrow> ('k \<times> class_id \<times> 'p) list
   \<Rightarrow> ('p item slab \<times> qlist \<times> nat \<times> ('k \<times> class_id \<times> 'p) list \<times> 'p item option) option" where
  "next_head key class now sl q pend exps =
     (case slab_front sl q of
        None \<Rightarrow> None
      | Some None \<Rightarrow> Some (sl, q, pend, exps, None)
      | Some (Some head) \<Rightarrow>
          if it_class head \<noteq> class then Some (sl, q, pend, exps, None)
          else if is_expired now head then
            (case slab_pop_front sl q of
               Some (sl', q', Some x) \<Rightarrow>
                 if pend = 0 then None
                 else next_head key class now sl' q' (pend - 1) (exps @ [(key, it_class x, it_payload x)])
             | _ \<Rightarrow> None)
          else
            (case slab_pop_front sl q of
               Some (sl', q', taken) \<Rightarrow> Some (sl', q', pend, exps, taken)
             | None \<Rightarrow> None))"
  by pat_completeness auto
termination
  by (relation "measure (\<lambda>(key, class, now, sl, q, pend, exps). unat (l_len q))")
    (auto dest: slab_pop_front_shrinks)

declare next_head.simps [simp del]

lemma set_slot_frame [simp]:
  "ready (set_slot k sl s) = ready s" "inflight (set_slot k sl s) = inflight s"
  "cfg (set_slot k sl s) = cfg s" "slab (set_slot k sl s) = slab s"
  "pending (set_slot k sl s) = pending s" "evicting (set_slot k sl s) = evicting s"
  "expired (set_slot k sl s) = expired s" "idle (set_slot k sl s) = idle s"
  "idle_head (set_slot k sl s) = idle_head s" "idle_tail (set_slot k sl s) = idle_tail s"
  "keys (set_slot k sl s) = AList.update k sl (keys s)"
  by (simp_all add: set_slot_def)

lemma idle_link_ready: "idle_link key now s = Some s' \<Longrightarrow> ready s' = ready s"
  by (auto simp: idle_link_def Let_def split: if_splits option.splits bind_splits)

lemma place_ready:
  "place key target now s = Some s' \<Longrightarrow> target \<noteq> Some class \<Longrightarrow> ready s' ! class = ready s ! class"
  by (auto simp: place_def ring_push_def split: option.splits if_splits dest: idle_link_ready)

function next_loop ::
  "class_id \<Rightarrow> duration \<Rightarrow> ('k, 'p, 's) scheduler
   \<Rightarrow> (('k, 'p, 's) scheduler \<times> ('k, 'p, 's) dispatch option) option" where
  "next_loop class now s =
     (if \<not> class < length (ready s) then None
      else case ready s ! class of
        [] \<Rightarrow> Some (s, None)
      | key # rest \<Rightarrow>
          (let s1 = s\<lparr>ready := (ready s)[class := rest]\<rparr> in
           case map_of (keys s1) key of
             None \<Rightarrow> None
           | Some slot \<Rightarrow>
               (case next_head key class now (slab s1) (queue slot) (pending s1) (expired s1) of
                  None \<Rightarrow> None
                | Some (sl, q, pend, exps, taken) \<Rightarrow>
                    (let slot = slot\<lparr>queue := q\<rparr>;
                         s2 = s1\<lparr>slab := sl, pending := pend, expired := exps\<rparr> in
                     case taken of
                       Some x \<Rightarrow>
                         Some ((set_slot key (slot\<lparr>presence := InFlight, resident := None\<rparr>) s2)
                                 \<lparr>inflight := (inflight s2)[class := inflight s2 ! class + 1]\<rparr>,
                               Some \<lparr>di_key = key, di_class = class, di_state = resident slot,
                                     di_payload = it_payload x\<rparr>)
                     | None \<Rightarrow>
                         (case settle sl slot of
                            None \<Rightarrow> None
                          | Some (slot, target) \<Rightarrow>
                              if target = Some class then None
                              else
                                (case place key target now (set_slot key slot s2) of
                                   None \<Rightarrow> None
                                 | Some s3 \<Rightarrow> next_loop class now s3))))))"
  by pat_completeness auto
termination
  by (relation "measure (\<lambda>(class, now, s). length (ready s ! class))")
    (auto dest: place_ready)

declare next_loop.simps [simp del]

definition next_dispatch ::
  "class_id \<Rightarrow> duration \<Rightarrow> ('k, 'p, 's) scheduler
   \<Rightarrow> (('k, 'p, 's) scheduler \<times> ('k, 'p, 's) dispatch option) option" where
  "next_dispatch class now s =
     (if \<not> (class < length (inflight s) \<and> class < length (max_inflight (cfg s))) then None
      else if inflight s ! class \<ge> max_inflight (cfg s) ! class then Some (s, None)
      else next_loop class now s)"

definition pop_expired ::
  "('k, 'p, 's) scheduler \<Rightarrow> ('k, 'p, 's) scheduler \<times> ('k \<times> class_id \<times> 'p) option" where
  "pop_expired s =
     (case expired s of [] \<Rightarrow> (s, None) | e # rest \<Rightarrow> (s\<lparr>expired := rest\<rparr>, Some e))"

section \<open>Completion\<close>

definition complete ::
  "('k, 's) completion \<Rightarrow> duration \<Rightarrow> ('k, 'p, 's) scheduler \<Rightarrow> ('k, 'p, 's) scheduler option" where
  "complete c now s =
     (let key = co_key c; class = co_class c in
      if \<not> class < length (inflight s) \<or> inflight s ! class = 0 \<or> pending s = 0 then None
      else do {
        let s = s\<lparr>inflight := (inflight s)[class := inflight s ! class - 1], pending := pending s - 1\<rparr>;
        slot \<leftarrow> map_of (keys s) key;
        if presence slot \<noteq> InFlight then None
        else do {
          (slot, target) \<leftarrow> settle (slab s) (slot\<lparr>resident := into_option (co_state c)\<rparr>);
          place key target now (set_slot key slot s)
        }
      })"

section \<open>Eviction\<close>

definition release ::
  "'k \<Rightarrow> ('k \<times> 's) list \<Rightarrow> ('k, 'p, 's) scheduler \<Rightarrow> (('k, 'p, 's) scheduler \<times> ('k \<times> 's) list) option" where
  "release key out s = do {
     slot \<leftarrow> map_of (keys s) key;
     if presence slot \<noteq> Idle then None
     else case resident slot of
       Some st \<Rightarrow>
         Some ((set_slot key (slot\<lparr>resident := None, presence := Evicting\<rparr>) s)
                 \<lparr>evicting := evicting s + 1\<rparr>, out @ [(key, st)])
     | None \<Rightarrow> Some (s\<lparr>keys := AList.delete key (keys s)\<rparr>, out)
   }"

primrec evict_loop ::
  "nat \<Rightarrow> duration \<Rightarrow> ('k, 'p, 's) scheduler \<Rightarrow> ('k \<times> 's) list
   \<Rightarrow> (('k, 'p, 's) scheduler \<times> ('k \<times> 's) list) option" where
  "evict_loop 0 now s out = Some (s, out)"
| "evict_loop (Suc n) now s out =
     (case idle_head s of
        None \<Rightarrow> Some (s, out)
      | Some key \<Rightarrow> do {
          slot \<leftarrow> map_of (keys s) key;
          let idle_long_enough = (now - idle_since slot \<ge> evict_after (cfg s));
          if length (keys s) < evicting s then None
          else do {
            let res = length (keys s) - evicting s;
            let over_capacity = (case max_resident (cfg s) of Some m \<Rightarrow> res > m | None \<Rightarrow> False);
            if \<not> idle_long_enough \<and> \<not> over_capacity then Some (s, out)
            else do {
              s \<leftarrow> idle_unlink_head s;
              (s, out) \<leftarrow> release key out s;
              evict_loop n now s out
            }
          }
        })"

definition evict ::
  "duration \<Rightarrow> ('k \<times> 's) list \<Rightarrow> ('k, 'p, 's) scheduler
   \<Rightarrow> (('k, 'p, 's) scheduler \<times> ('k \<times> 's) list) option" where
  "evict now out s = evict_loop (evict_iters (cfg s)) now s out"

lemma idle_patch_idle: "idle_patch prev next s = Some s' \<Longrightarrow> idle s' = idle s"
  by (auto simp: idle_patch_def split: option.splits bind_splits)

lemma idle_unlink_head_idle: "idle_unlink_head s = Some s' \<Longrightarrow> idle s' < idle s"
  by (auto simp: idle_unlink_head_def detach_def split: if_splits bind_splits dest!: idle_patch_idle)

lemma release_idle: "release key out s = Some (s', out') \<Longrightarrow> idle s' = idle s"
  by (auto simp: release_def split: if_splits option.splits bind_splits)

function evict_all ::
  "('k \<times> 's) list \<Rightarrow> ('k, 'p, 's) scheduler \<Rightarrow> (('k, 'p, 's) scheduler \<times> ('k \<times> 's) list) option" where
  "evict_all out s =
     (case idle_head s of
        None \<Rightarrow> Some (s, out)
      | Some key \<Rightarrow>
          (case idle_unlink_head s of
             None \<Rightarrow> None
           | Some s1 \<Rightarrow>
               (case release key out s1 of
                  None \<Rightarrow> None
                | Some (s2, out2) \<Rightarrow> evict_all out2 s2)))"
  by pat_completeness auto
termination
  by (relation "measure (\<lambda>(out, s). idle s)") (auto dest!: idle_unlink_head_idle release_idle)

declare evict_all.simps [simp del]

definition finish_evict ::
  "'k \<Rightarrow> duration \<Rightarrow> ('k, 'p, 's) scheduler \<Rightarrow> ('k, 'p, 's) scheduler option" where
  "finish_evict key now s =
     (if evicting s = 0 then None
      else do {
        let s = s\<lparr>evicting := evicting s - 1\<rparr>;
        slot \<leftarrow> map_of (keys s) key;
        if presence slot \<noteq> Evicting then None
        else if list_is_empty (queue slot) then Some (s\<lparr>keys := AList.delete key (keys s)\<rparr>)
        else do {
          (slot, target) \<leftarrow> settle (slab s) slot;
          place key target now (set_slot key slot s)
        }
      })"

section \<open>The self check\<close>

text \<open>
  \<open>check_invariants\<close>, test by test and in the code's order; \<open>values().filter(..).count()\<close> is
  a sum of zeros and ones over the association list. The walk along the idle list stops with
  an error after \<open>keys.len() + 1\<close> steps, which is what makes it terminate on a cyclic list.
\<close>

definition count_presence :: "(presence \<Rightarrow> bool) \<Rightarrow> ('k, 'p, 's) scheduler \<Rightarrow> nat" where
  "count_presence P s = total (\<lambda>slot. if P (presence slot) then 1 else 0) (keys s)"

fun is_ready :: "presence \<Rightarrow> bool" where
  "is_ready (Ready c) = True"
| "is_ready p = False"

definition check_ring_key ::
  "('k, 'p, 's) scheduler \<Rightarrow> class_id \<Rightarrow> 'k \<Rightarrow> string + unit" where
  "check_ring_key s class key =
     (case map_of (keys s) key of
        None \<Rightarrow> Inl ''a ready key has no slot''
      | Some slot \<Rightarrow>
          if presence slot \<noteq> Ready class
          then Inl ''ready key is inconsistent with the ring holding it''
          else if slab_front (slab s) (queue slot) = None
                  \<or> map_option it_class (the (slab_front (slab s) (queue slot))) \<noteq> Some class
          then Inl ''ready key is inconsistent with its queue head''
          else Inr ())"

fun check_all :: "('a \<Rightarrow> string + unit) \<Rightarrow> 'a list \<Rightarrow> string + unit" where
  "check_all f [] = Inr ()"
| "check_all f (x # xs) = (case f x of Inl e \<Rightarrow> Inl e | Inr _ \<Rightarrow> check_all f xs)"

definition check_rings :: "('k, 'p, 's) scheduler \<Rightarrow> string + unit" where
  "check_rings s =
     check_all (\<lambda>class. check_all (check_ring_key s class) (ready s ! class)) [0..<length (ready s)]"

definition check_slot :: "('k, 's) slot \<Rightarrow> string + unit" where
  "check_slot slot =
     (case presence slot of
        Idle \<Rightarrow> if list_is_empty (queue slot) then Inr () else Inl ''idle key is queued''
      | Ready _ \<Rightarrow> Inr ()
      | _ \<Rightarrow> if resident slot = None then Inr ()
             else Inl ''a key that gave up its state still holds it'')"

function check_idle_walk ::
  "('k, 'p, 's) scheduler \<Rightarrow> nat \<Rightarrow> 'k option \<Rightarrow> 'k option \<Rightarrow> string + nat \<times> 'k option" where
  "check_idle_walk s walked previous cursor =
     (case cursor of
        None \<Rightarrow> Inr (walked, previous)
      | Some key \<Rightarrow>
          if walked > length (keys s) then Inl ''the idle list cycles''
          else
            (case map_of (keys s) key of
               None \<Rightarrow> Inl ''a key on the idle list has no slot''
             | Some slot \<Rightarrow>
                 if presence slot \<noteq> Idle
                 then Inl ''a key that is not idle is on the idle list''
                 else if idle_prev slot \<noteq> previous
                 then Inl ''the idle list's back links disagree with its forward links''
                 else check_idle_walk s (walked + 1) cursor (idle_next slot)))"
  by pat_completeness auto
termination
  by (relation "measure (\<lambda>(s, walked, previous, cursor). Suc (length (keys s)) - walked)") auto

declare check_idle_walk.simps [simp del]

definition check_invariants :: "('k, 'p, 's) scheduler \<Rightarrow> string + unit" where
  "check_invariants s =
     (let queued = total (\<lambda>slot. list_len (queue slot)) (keys s);
          flying = sum_list (inflight s) in
      if pending s \<noteq> queued + flying then Inl ''pending != queued + in-flight''
      else if count_presence (\<lambda>p. p = InFlight) s \<noteq> flying
      then Inl ''in-flight counters disagree with key ownership''
      else if count_presence (\<lambda>p. p = Evicting) s \<noteq> evicting s
      then Inl ''evicting counter disagrees with key ownership''
      else
        (case check_rings s of Inl e \<Rightarrow> Inl e | Inr _ \<Rightarrow>
         if sum_list (map length (ready s)) \<noteq> count_presence is_ready s
         then Inl ''ready rings disagree with key presence''
         else
           (case check_all (\<lambda>kv. check_slot (snd kv)) (keys s) of Inl e \<Rightarrow> Inl e | Inr _ \<Rightarrow>
            (case check_idle_walk s 0 None (idle_head s) of Inl e \<Rightarrow> Inl e
             | Inr (walked, previous) \<Rightarrow>
                 if idle_tail s \<noteq> previous
                 then Inl ''the idle list's tail is not the last key on it''
                 else if walked \<noteq> idle s
                 then Inl ''the idle counter disagrees with the idle list''
                 else if walked \<noteq> count_presence (\<lambda>p. p = Idle) s
                 then Inl ''an idle key is missing from the idle list''
                 else Inr ()))))"

end
