(* ===== verification/Sched_Spec.thy ===== *)
theory Sched_Spec
  imports Core_Scheduler
begin

text \<open>
  What the core scheduler promises, without its data structures: a key's queue is a list, the
  idle list is a list of keys in least-recently-idled order, and the map of keys is a partial
  function. The concrete operations of \<open>Core_Scheduler\<close> refine the operations below (theory
  \<open>Sched_Refine\<close>). The predicate \<open>spec_inv a fl\<close> is the structural invariant; \<open>fl\<close> is the
  caller's side of the contract, the class under which each in-flight key was dispatched.
\<close>

section \<open>State and operations\<close>

record ('p, 's) aslot =
  as_resident :: "'s option"
  as_queue :: "'p item list"
  as_presence :: presence
  as_since :: duration

record ('k, 'p, 's) asched =
  ac_cfg :: config
  ac_keys :: "'k \<rightharpoonup> ('p, 's) aslot"
  ac_ready :: "'k list list"
  ac_idle :: "'k list"
  ac_expired :: "('k \<times> class_id \<times> 'p) list"
  ac_inflight :: "nat list"
  ac_pending :: nat
  ac_evicting :: nat

definition a_new :: "config \<Rightarrow> ('k, 'p, 's) asched" where
  "a_new c =
     \<lparr>ac_cfg = c, ac_keys = Map.empty, ac_ready = replicate (length (max_inflight c)) [],
      ac_idle = [], ac_expired = [], ac_inflight = replicate (length (max_inflight c)) 0,
      ac_pending = 0, ac_evicting = 0\<rparr>"

abbreviation a_classes :: "('k, 'p, 's) asched \<Rightarrow> nat" where
  "a_classes a \<equiv> length (max_inflight (ac_cfg a))"

definition acold :: "('p, 's) aslot" where
  "acold = \<lparr>as_resident = None, as_queue = [], as_presence = Idle, as_since = 0\<rparr>"

definition a_slot :: "('k, 'p, 's) asched \<Rightarrow> 'k \<Rightarrow> ('p, 's) aslot" where
  "a_slot a k = (case ac_keys a k of Some sl \<Rightarrow> sl | None \<Rightarrow> acold)"

text \<open>Put a key back: at the back of the ring of its queue head's class, or, with an empty
  queue, at the newest end of the idle list.\<close>

definition a_place :: "'k \<Rightarrow> ('p, 's) aslot \<Rightarrow> duration \<Rightarrow> ('k, 'p, 's) asched \<Rightarrow> ('k, 'p, 's) asched" where
  "a_place k sl now a =
     (case as_queue sl of
        [] \<Rightarrow> a\<lparr>ac_keys := (ac_keys a)(k \<mapsto> sl\<lparr>as_presence := Idle, as_since := now\<rparr>),
               ac_idle := ac_idle a @ [k]\<rparr>
      | x # _ \<Rightarrow> a\<lparr>ac_keys := (ac_keys a)(k \<mapsto> sl\<lparr>as_presence := Ready (it_class x)\<rparr>),
                   ac_ready := (ac_ready a)[it_class x := ac_ready a ! it_class x @ [k]]\<rparr>)"

definition a_admit :: "('k, 'p) admit_item \<Rightarrow> ('k, 'p, 's) asched \<Rightarrow> ('k, 'p, 's) asched" where
  "a_admit it a =
     (let k = ad_key it; c = ad_class it; sl = a_slot a k;
          sl' = sl\<lparr>as_queue := as_queue sl @
                    [\<lparr>it_class = c, it_expires_at = ad_expires_at it, it_payload = ad_payload it\<rparr>]\<rparr> in
      if as_presence sl = Idle
      then a\<lparr>ac_keys := (ac_keys a)(k \<mapsto> sl'\<lparr>as_presence := Ready c\<rparr>), ac_pending := ac_pending a + 1,
             ac_idle := remove1 k (ac_idle a), ac_ready := (ac_ready a)[c := ac_ready a ! c @ [k]]\<rparr>
      else a\<lparr>ac_keys := (ac_keys a)(k \<mapsto> sl'), ac_pending := ac_pending a + 1\<rparr>)"

definition stale :: "class_id \<Rightarrow> duration \<Rightarrow> 'p item \<Rightarrow> bool" where
  "stale class now x \<longleftrightarrow> it_class x = class \<and> is_expired now x"

text \<open>Taking the front key of a ring: its expired heads leave first.\<close>

definition a_shed :: "'k \<Rightarrow> class_id \<Rightarrow> duration \<Rightarrow> 'k list \<Rightarrow> ('k, 'p, 's) asched \<Rightarrow> ('k, 'p, 's) asched" where
  "a_shed k class now rest a =
     (let gone = takeWhile (stale class now) (as_queue (a_slot a k)) in
      a\<lparr>ac_ready := (ac_ready a)[class := rest], ac_pending := ac_pending a - length gone,
        ac_expired := ac_expired a @ map (\<lambda>x. (k, it_class x, it_payload x)) gone\<rparr>)"

definition a_left :: "'k \<Rightarrow> class_id \<Rightarrow> duration \<Rightarrow> ('k, 'p, 's) asched \<Rightarrow> ('p, 's) aslot" where
  "a_left k class now a =
     (a_slot a k)\<lparr>as_queue := dropWhile (stale class now) (as_queue (a_slot a k))\<rparr>"

definition a_dispatch ::
  "'k \<Rightarrow> class_id \<Rightarrow> ('p, 's) aslot \<Rightarrow> ('k, 'p, 's) asched \<Rightarrow> ('k, 'p, 's) asched \<times> ('k, 'p, 's) dispatch" where
  "a_dispatch k class sl a =
     (a\<lparr>ac_keys := (ac_keys a)(k \<mapsto> sl\<lparr>as_queue := tl (as_queue sl), as_presence := InFlight,
                                         as_resident := None\<rparr>),
        ac_inflight := (ac_inflight a)[class := ac_inflight a ! class + 1]\<rparr>,
      \<lparr>di_key = k, di_class = class, di_state = as_resident sl, di_payload = it_payload (hd (as_queue sl))\<rparr>)"

definition serves :: "class_id \<Rightarrow> ('p, 's) aslot \<Rightarrow> bool" where
  "serves class sl \<longleftrightarrow> as_queue sl \<noteq> [] \<and> it_class (hd (as_queue sl)) = class"

lemma a_place_ring:
  "\<not> serves class sl \<Longrightarrow> ac_ready (a_place k sl now a) ! class = ac_ready a ! class"
  by (auto simp: a_place_def serves_def split: list.splits)

function a_next_loop ::
  "class_id \<Rightarrow> duration \<Rightarrow> ('k, 'p, 's) asched \<Rightarrow> ('k, 'p, 's) asched \<times> ('k, 'p, 's) dispatch option" where
  "a_next_loop class now a =
     (if class < length (ac_ready a) then
        (case ac_ready a ! class of
           [] \<Rightarrow> (a, None)
         | k # rest \<Rightarrow>
             (let sl = a_left k class now a; a' = a_shed k class now rest a in
              if serves class sl then apsnd Some (a_dispatch k class sl a')
              else a_next_loop class now (a_place k sl now a')))
      else (a, None))"
  by pat_completeness auto
termination
  by (relation "measure (\<lambda>(class, now, a). length (ac_ready a ! class))")
    (auto simp: a_place_ring a_shed_def Let_def)

declare a_next_loop.simps [simp del]

definition a_next ::
  "class_id \<Rightarrow> duration \<Rightarrow> ('k, 'p, 's) asched \<Rightarrow> ('k, 'p, 's) asched \<times> ('k, 'p, 's) dispatch option" where
  "a_next class now a =
     (if ac_inflight a ! class \<ge> max_inflight (ac_cfg a) ! class then (a, None)
      else a_next_loop class now a)"

definition a_complete :: "('k, 's) completion \<Rightarrow> duration \<Rightarrow> ('k, 'p, 's) asched \<Rightarrow> ('k, 'p, 's) asched" where
  "a_complete c now a =
     (let k = co_key c; class = co_class c in
      a_place k ((a_slot a k)\<lparr>as_resident := into_option (co_state c)\<rparr>) now
        (a\<lparr>ac_inflight := (ac_inflight a)[class := ac_inflight a ! class - 1],
           ac_pending := ac_pending a - 1\<rparr>))"

text \<open>Release the oldest idle key: flush its state and quiesce it, or forget it.\<close>

definition a_release :: "'k \<Rightarrow> 'k list \<Rightarrow> ('k, 'p, 's) asched \<Rightarrow> ('k, 'p, 's) asched" where
  "a_release k rest a =
     (let sl = a_slot a k in
      if as_resident sl = None then a\<lparr>ac_idle := rest, ac_keys := (ac_keys a)(k := None)\<rparr>
      else a\<lparr>ac_idle := rest, ac_evicting := ac_evicting a + 1,
             ac_keys := (ac_keys a)(k \<mapsto> sl\<lparr>as_resident := None, as_presence := Evicting\<rparr>)\<rparr>)"

definition a_flushed :: "'k \<Rightarrow> ('k, 'p, 's) asched \<Rightarrow> ('k \<times> 's) list" where
  "a_flushed k a = (case as_resident (a_slot a k) of None \<Rightarrow> [] | Some st \<Rightarrow> [(k, st)])"

definition a_evictable :: "duration \<Rightarrow> 'k \<Rightarrow> ('k, 'p, 's) asched \<Rightarrow> bool" where
  "a_evictable now k a \<longleftrightarrow>
     now - as_since (a_slot a k) \<ge> evict_after (ac_cfg a) \<or>
     (case max_resident (ac_cfg a) of Some m \<Rightarrow> card (dom (ac_keys a)) - ac_evicting a > m | None \<Rightarrow> False)"

primrec a_evict_loop ::
  "nat \<Rightarrow> duration \<Rightarrow> ('k, 'p, 's) asched \<Rightarrow> ('k, 'p, 's) asched \<times> ('k \<times> 's) list" where
  "a_evict_loop 0 now a = (a, [])"
| "a_evict_loop (Suc n) now a =
     (case ac_idle a of
        [] \<Rightarrow> (a, [])
      | k # rest \<Rightarrow>
          if a_evictable now k a
          then apsnd (\<lambda>out. a_flushed k a @ out) (a_evict_loop n now (a_release k rest a))
          else (a, []))"

definition a_evict :: "duration \<Rightarrow> ('k, 'p, 's) asched \<Rightarrow> ('k, 'p, 's) asched \<times> ('k \<times> 's) list" where
  "a_evict now a = a_evict_loop (evict_iters (ac_cfg a)) now a"

primrec a_evict_list ::
  "'k list \<Rightarrow> ('k, 'p, 's) asched \<Rightarrow> ('k, 'p, 's) asched \<times> ('k \<times> 's) list" where
  "a_evict_list [] a = (a, [])"
| "a_evict_list (k # rest) a = apsnd (\<lambda>out. a_flushed k a @ out) (a_evict_list rest (a_release k rest a))"

definition a_evict_all :: "('k, 'p, 's) asched \<Rightarrow> ('k, 'p, 's) asched \<times> ('k \<times> 's) list" where
  "a_evict_all a = a_evict_list (ac_idle a) a"

definition a_finish_evict :: "'k \<Rightarrow> duration \<Rightarrow> ('k, 'p, 's) asched \<Rightarrow> ('k, 'p, 's) asched" where
  "a_finish_evict k now a =
     (let a' = a\<lparr>ac_evicting := ac_evicting a - 1\<rparr> in
      if as_queue (a_slot a k) = [] then a'\<lparr>ac_keys := (ac_keys a)(k := None)\<rparr>
      else a_place k (a_slot a k) now a')"

definition a_pop_expired :: "('k, 'p, 's) asched \<Rightarrow> ('k, 'p, 's) asched \<times> ('k \<times> class_id \<times> 'p) option" where
  "a_pop_expired a =
     (case ac_expired a of [] \<Rightarrow> (a, None) | e # rest \<Rightarrow> (a\<lparr>ac_expired := rest\<rparr>, Some e))"

section \<open>Sums over the map of keys\<close>

definition ksum :: "('v \<Rightarrow> nat) \<Rightarrow> ('k \<rightharpoonup> 'v) \<Rightarrow> nat" where
  "ksum f m = (\<Sum>k\<in>dom m. f (the (m k)))"

lemma ksum_upd: "finite (dom m) \<Longrightarrow>
    ksum f (m(k \<mapsto> v)) + (case m k of None \<Rightarrow> 0 | Some v' \<Rightarrow> f v') = ksum f m + f v"
proof -
  assume fin: "finite (dom m)"
  have "(\<Sum>j\<in>dom m - {k}. f (the ((m(k \<mapsto> v)) j))) = (\<Sum>j\<in>dom m - {k}. f (the (m j)))"
    by (rule sum.cong) auto
  then have "ksum f (m(k \<mapsto> v)) = f v + (\<Sum>j\<in>dom m - {k}. f (the (m j)))"
    using fin by (simp add: ksum_def sum.insert_remove)
  moreover have "ksum f m = (case m k of None \<Rightarrow> 0 | Some v' \<Rightarrow> f v') + (\<Sum>j\<in>dom m - {k}. f (the (m j)))"
  proof (cases "m k")
    case None
    then have "dom m - {k} = dom m" by auto
    with None show ?thesis by (simp add: ksum_def)
  next
    case (Some v')
    then show ?thesis using fin by (simp add: ksum_def sum.remove [of _ k] domI)
  qed
  ultimately show ?thesis by simp
qed

lemma ksum_del: "finite (dom m) \<Longrightarrow>
    ksum f (m(k := None)) + (case m k of None \<Rightarrow> 0 | Some v' \<Rightarrow> f v') = ksum f m"
proof -
  assume fin: "finite (dom m)"
  have "(\<Sum>j\<in>dom m - {k}. f (the ((m(k := None)) j))) = (\<Sum>j\<in>dom m - {k}. f (the (m j)))"
    by (rule sum.cong) auto
  then show ?thesis using fin
    by (cases "m k") (auto simp: ksum_def sum.remove [of _ k] domI Diff_triv domIff)
qed

section \<open>The invariant\<close>

definition kpres :: "('k \<rightharpoonup> ('p, 's) aslot) \<Rightarrow> 'k \<Rightarrow> presence option" where
  "kpres m k = map_option as_presence (m k)"

abbreviation pres :: "('k, 'p, 's) asched \<Rightarrow> 'k \<Rightarrow> presence option" where
  "pres a \<equiv> kpres (ac_keys a)"

lemma kpres_upd [simp]: "kpres (m(k := v)) j = (if j = k then map_option as_presence v else kpres m j)"
  by (simp add: kpres_def)

lemma kpres_Some: "m k = Some sl \<Longrightarrow> kpres m k = Some (as_presence sl)"
  by (simp add: kpres_def)

lemma kpres_eq_Some: "kpres m k = Some p \<longleftrightarrow> (\<exists>sl. m k = Some sl \<and> as_presence sl = p)"
  by (auto simp: kpres_def)

text \<open>A ring holds exactly the keys that are ready in its class, each once.\<close>

definition spec_rings :: "('k, 'p, 's) asched \<Rightarrow> bool" where
  "spec_rings a \<longleftrightarrow>
     length (ac_ready a) = a_classes a \<and> length (ac_inflight a) = a_classes a \<and>
     (\<forall>c<a_classes a. distinct (ac_ready a ! c)) \<and>
     (\<forall>k c. pres a k = Some (Ready c) \<longleftrightarrow> c < a_classes a \<and> k \<in> set (ac_ready a ! c))"

text \<open>The idle list holds exactly the idle keys, each once.\<close>

definition spec_idle :: "('k, 'p, 's) asched \<Rightarrow> bool" where
  "spec_idle a \<longleftrightarrow> distinct (ac_idle a) \<and> (\<forall>k. k \<in> set (ac_idle a) \<longleftrightarrow> pres a k = Some Idle)"

fun slot_ok :: "('p, 's) aslot \<Rightarrow> presence \<Rightarrow> bool" where
  "slot_ok sl Idle \<longleftrightarrow> as_queue sl = []"
| "slot_ok sl (Ready c) \<longleftrightarrow> serves c sl"
| "slot_ok sl InFlight \<longleftrightarrow> as_resident sl = None"
| "slot_ok sl Evicting \<longleftrightarrow> as_resident sl = None"

definition spec_slots :: "('k, 'p, 's) asched \<Rightarrow> bool" where
  "spec_slots a \<longleftrightarrow>
     (\<forall>k sl. ac_keys a k = Some sl \<longrightarrow>
        slot_ok sl (as_presence sl) \<and> (\<forall>x\<in>set (as_queue sl). it_class x < a_classes a))"

text \<open>In-flight keys are the ones the caller holds, and every class stays in its budget.\<close>

definition spec_flights :: "('k, 'p, 's) asched \<Rightarrow> ('k \<rightharpoonup> class_id) \<Rightarrow> bool" where
  "spec_flights a fl \<longleftrightarrow>
     (\<forall>k. k \<in> dom fl \<longleftrightarrow> pres a k = Some InFlight) \<and> (\<forall>k c. fl k = Some c \<longrightarrow> c < a_classes a) \<and>
     (\<forall>c<a_classes a. ac_inflight a ! c = card {k. fl k = Some c} \<and>
        ac_inflight a ! c \<le> max_inflight (ac_cfg a) ! c)"

abbreviation queue_len :: "('p, 's) aslot \<Rightarrow> nat" where
  "queue_len sl \<equiv> length (as_queue sl)"

definition is_evicting :: "('p, 's) aslot \<Rightarrow> nat" where
  "is_evicting sl = (if as_presence sl = Evicting then 1 else 0)"

definition spec_counts :: "('k, 'p, 's) asched \<Rightarrow> ('k \<rightharpoonup> class_id) \<Rightarrow> bool" where
  "spec_counts a fl \<longleftrightarrow>
     finite (dom (ac_keys a)) \<and> ac_pending a = ksum queue_len (ac_keys a) + card (dom fl) \<and>
     ac_evicting a = ksum is_evicting (ac_keys a)"

definition spec_inv :: "('k, 'p, 's) asched \<Rightarrow> ('k \<rightharpoonup> class_id) \<Rightarrow> bool" where
  "spec_inv a fl \<longleftrightarrow>
     spec_rings a \<and> spec_idle a \<and> spec_slots a \<and> spec_flights a fl \<and> spec_counts a fl"

lemmas spec_defs = spec_inv_def spec_rings_def spec_idle_def spec_slots_def spec_flights_def
  spec_counts_def

text \<open>The invariant as facts about one key, for use in proofs.\<close>

lemma spec_invD:
  assumes "spec_inv a fl"
  shows ring_iff: "pres a k = Some (Ready c) \<longleftrightarrow> c < a_classes a \<and> k \<in> set (ac_ready a ! c)"
    and ring_distinct: "c < a_classes a \<Longrightarrow> distinct (ac_ready a ! c)"
    and lengths: "length (ac_ready a) = a_classes a" "length (ac_inflight a) = a_classes a"
    and idle_iff: "k \<in> set (ac_idle a) \<longleftrightarrow> pres a k = Some Idle" and idle_distinct: "distinct (ac_idle a)"
    and slot_okD: "ac_keys a k = Some sl \<Longrightarrow> slot_ok sl (as_presence sl)"
    and slot_classes: "ac_keys a k = Some sl \<Longrightarrow> x \<in> set (as_queue sl) \<Longrightarrow> it_class x < a_classes a"
    and flight_iff: "k \<in> dom fl \<longleftrightarrow> pres a k = Some InFlight"
    and flight_class: "fl k = Some c \<Longrightarrow> c < a_classes a"
    and flight_count: "c < a_classes a \<Longrightarrow> ac_inflight a ! c = card {k. fl k = Some c}"
    and flight_budget: "c < a_classes a \<Longrightarrow> ac_inflight a ! c \<le> max_inflight (ac_cfg a) ! c"
    and keys_finite: "finite (dom (ac_keys a))"
    and pending_eq: "ac_pending a = ksum queue_len (ac_keys a) + card (dom fl)"
    and evicting_eq: "ac_evicting a = ksum is_evicting (ac_keys a)"
  using assms by (auto simp: spec_defs)

lemma spec_inv_finite: "spec_inv a fl \<Longrightarrow> finite (dom (ac_keys a)) \<and> finite (dom fl)"
proof -
  assume i: "spec_inv a fl"
  have "dom fl \<subseteq> dom (ac_keys a)" using flight_iff [OF i] by (auto simp: kpres_eq_Some)
  with i show ?thesis by (auto simp: spec_defs intro: finite_subset)
qed

lemma spec_inv_expired [simp]: "spec_inv (a\<lparr>ac_expired := x\<rparr>) fl = spec_inv a fl"
  by (simp add: spec_defs)

text \<open>The invariant reads all fields but the buffer of expired work.\<close>

lemma spec_inv_cong:
  "spec_inv a fl \<Longrightarrow> ac_cfg b = ac_cfg a \<Longrightarrow> ac_keys b = ac_keys a \<Longrightarrow> ac_ready b = ac_ready a \<Longrightarrow>
   ac_idle b = ac_idle a \<Longrightarrow> ac_inflight b = ac_inflight a \<Longrightarrow> ac_pending b = ac_pending a \<Longrightarrow>
   ac_evicting b = ac_evicting a \<Longrightarrow> spec_inv b fl"
proof -
  assume i: "spec_inv a fl" and "ac_cfg b = ac_cfg a" "ac_keys b = ac_keys a" "ac_ready b = ac_ready a"
    "ac_idle b = ac_idle a" "ac_inflight b = ac_inflight a" "ac_pending b = ac_pending a"
    "ac_evicting b = ac_evicting a"
  then have "b = a\<lparr>ac_expired := ac_expired b\<rparr>" by simp
  with i show ?thesis by (metis spec_inv_expired)
qed

lemma spec_inv_new: "spec_inv (a_new c) Map.empty"
  by (auto simp: spec_defs a_new_def kpres_def ksum_def)

text \<open>A key is in at most one of the structures.\<close>

lemma held_once:
  assumes "spec_inv a fl" and "pres a k = Some p"
  shows "c < a_classes a \<Longrightarrow> k \<in> set (ac_ready a ! c) \<Longrightarrow> p = Ready c"
    and "k \<in> set (ac_idle a) \<Longrightarrow> p = Idle" and "fl k = Some c \<Longrightarrow> p = InFlight"
  using ring_iff [OF assms(1), of k c] idle_iff [OF assms(1), of k] flight_iff [OF assms(1), of k] assms(2)
  by auto

section \<open>Lifting a key out\<close>

text \<open>
  Every operation lifts one key out of the structure that holds it and puts it back somewhere
  else. The lemmas of this section say that a state with one key taken out, and the counters
  adjusted, satisfies the invariant; those of the next that a fresh key can be put back.
\<close>

lemma lift_ready:
  assumes "spec_inv a fl" and "c < a_classes a" and "ac_ready a ! c = k # rest" and "ac_keys a k = Some sl"
  shows "spec_inv (a\<lparr>ac_ready := (ac_ready a)[c := rest], ac_keys := (ac_keys a)(k := None),
                     ac_pending := ac_pending a - queue_len sl\<rparr>) fl"
proof -
  have p: "pres a k = Some (Ready c)" and d: "distinct (k # rest)"
    using ring_iff [OF assms(1), of k c] ring_distinct [OF assms(1,2)] assms(2,3) by auto
  have s: "ksum queue_len ((ac_keys a)(k := None)) + queue_len sl = ksum queue_len (ac_keys a)"
    "ksum is_evicting ((ac_keys a)(k := None)) = ksum is_evicting (ac_keys a)"
    using ksum_del [of "ac_keys a" queue_len k] ksum_del [of "ac_keys a" is_evicting k]
      keys_finite [OF assms(1)] assms(4) p by (auto simp: is_evicting_def kpres_Some)
  note h = held_once [OF assms(1) p]
  have "spec_rings (a\<lparr>ac_ready := (ac_ready a)[c := rest], ac_keys := (ac_keys a)(k := None),
                     ac_pending := ac_pending a - queue_len sl\<rparr>)"
  proof -
    have iff: "kpres ((ac_keys a)(k := None)) j = Some (Ready c') \<longleftrightarrow>
        c' < a_classes a \<and> j \<in> set ((ac_ready a)[c := rest] ! c')" for j c'
    proof (cases "c' = c")
      case True
      then show ?thesis using ring_iff [OF assms(1), of j c] assms(2,3) d lengths [OF assms(1)] by auto
    next
      case False
      then have "k \<notin> set (ac_ready a ! c')" if "c' < a_classes a" using h(1) [OF that] by auto
      with False show ?thesis using ring_iff [OF assms(1), of j c'] by auto
    qed
    moreover have "distinct ((ac_ready a)[c := rest] ! c')" if "c' < a_classes a" for c'
      using that lengths [OF assms(1)] ring_distinct [OF assms(1) that] assms(2) d
      by (auto simp: nth_list_update)
    ultimately show ?thesis using lengths [OF assms(1)] by (simp add: spec_rings_def del: kpres_upd)
  qed
  moreover have "k \<notin> set (ac_idle a)" "k \<notin> dom fl" using h by auto
  ultimately show ?thesis using assms(1) s by (auto simp: spec_inv_def spec_idle_def spec_slots_def
      spec_flights_def spec_counts_def)
qed

lemma lift_idle:
  assumes "spec_inv a fl" and "k \<in> set (ac_idle a)"
  shows "spec_inv (a\<lparr>ac_idle := remove1 k (ac_idle a), ac_keys := (ac_keys a)(k := None)\<rparr>) fl"
proof -
  obtain sl where k: "ac_keys a k = Some sl" and p: "as_presence sl = Idle"
    using idle_iff [OF assms(1)] assms(2) by (auto simp: kpres_eq_Some)
  then have "as_queue sl = []" using slot_okD [OF assms(1) k] by simp
  then have "ksum queue_len ((ac_keys a)(k := None)) = ksum queue_len (ac_keys a)"
    "ksum is_evicting ((ac_keys a)(k := None)) = ksum is_evicting (ac_keys a)"
    using ksum_del [of "ac_keys a" queue_len k] ksum_del [of "ac_keys a" is_evicting k] assms(1) k p
    by (auto simp: spec_defs is_evicting_def)
  moreover have P: "pres a k = Some Idle" using k p by (simp add: kpres_Some)
  moreover have "c < a_classes a \<Longrightarrow> k \<notin> set (ac_ready a ! c)" for c
    using held_once [OF assms(1) P] by auto
  ultimately show ?thesis using assms by (auto simp: spec_defs)
qed

lemma card_fl_upd: "finite (dom fl) \<Longrightarrow> fl k = Some c \<Longrightarrow>
    card {j. (fl(k := None)) j = Some c'} = card {j. fl j = Some c'} - (if c' = c then 1 else 0)"
proof -
  assume f: "finite (dom fl)" and k: "fl k = Some c"
  have "{j. (fl(k := None)) j = Some c'} = {j. fl j = Some c'} - (if c' = c then {k} else {})"
    using k by auto
  then show ?thesis using k by (auto simp: card_Diff_singleton)
qed

lemma lift_flight:
  assumes "spec_inv a fl" and "fl k = Some c" and "ac_keys a k = Some sl"
  shows "spec_inv (a\<lparr>ac_keys := (ac_keys a)(k := None), ac_inflight := (ac_inflight a)[c := ac_inflight a ! c - 1],
                     ac_pending := ac_pending a - 1 - queue_len sl\<rparr>) (fl(k := None))"
proof -
  have p: "as_presence sl = InFlight" and c: "c < a_classes a"
    using flight_iff [OF assms(1), of k] flight_class [OF assms(1,2)] assms(2,3) by (auto simp: kpres_Some)
  have fin: "finite (dom fl)" "finite (dom (ac_keys a))" using spec_inv_finite [OF assms(1)] by auto
  have s: "ksum queue_len ((ac_keys a)(k := None)) + queue_len sl = ksum queue_len (ac_keys a)"
    "ksum is_evicting ((ac_keys a)(k := None)) = ksum is_evicting (ac_keys a)"
    using ksum_del [of "ac_keys a" queue_len k] ksum_del [of "ac_keys a" is_evicting k] fin assms(3) p
    by (auto simp: is_evicting_def)
  have "card (dom (fl(k := None))) = card (dom fl) - 1" "0 < card (dom fl)"
    using fin(1) assms(2) by (auto simp: card_gt_0_iff domI)
  moreover have P: "pres a k = Some InFlight" using assms(3) p by (simp add: kpres_Some)
  moreover have "c < a_classes a \<Longrightarrow> k \<notin> set (ac_ready a ! c)" for c
    using held_once [OF assms(1) P] by auto
  ultimately show ?thesis
    using assms s c card_fl_upd [OF fin(1) assms(2)] by (auto simp: spec_defs nth_list_update)
qed

lemma lift_evicting:
  assumes "spec_inv a fl" and "ac_keys a k = Some sl" and "as_presence sl = Evicting"
  shows "spec_inv (a\<lparr>ac_keys := (ac_keys a)(k := None), ac_evicting := ac_evicting a - 1,
                     ac_pending := ac_pending a - queue_len sl\<rparr>) fl"
proof -
  have "ksum queue_len ((ac_keys a)(k := None)) + queue_len sl = ksum queue_len (ac_keys a)"
    "ksum is_evicting ((ac_keys a)(k := None)) + 1 = ksum is_evicting (ac_keys a)"
    using ksum_del [of "ac_keys a" queue_len k] ksum_del [of "ac_keys a" is_evicting k] assms
    by (auto simp: spec_defs is_evicting_def)
  moreover have P: "pres a k = Some Evicting" using assms by (simp add: kpres_Some)
  moreover have "c < a_classes a \<Longrightarrow> k \<notin> set (ac_ready a ! c)" for c
    using held_once [OF assms(1) P] by auto
  ultimately show ?thesis using assms by (auto simp: spec_defs)
qed

section \<open>Putting a key back\<close>

definition classes_ok :: "('k, 'p, 's) asched \<Rightarrow> ('p, 's) aslot \<Rightarrow> bool" where
  "classes_ok a sl \<longleftrightarrow> (\<forall>x\<in>set (as_queue sl). it_class x < a_classes a)"

lemma put_sums:
  assumes "spec_inv a fl" and "ac_keys a k = None"
  shows "ksum queue_len ((ac_keys a)(k \<mapsto> sl)) = ksum queue_len (ac_keys a) + queue_len sl"
    and "ksum is_evicting ((ac_keys a)(k \<mapsto> sl)) = ksum is_evicting (ac_keys a) + is_evicting sl"
  using assms ksum_upd [of "ac_keys a" queue_len k sl] ksum_upd [of "ac_keys a" is_evicting k sl]
  by (auto simp: spec_defs)

lemma absent_key:
  assumes "spec_inv a fl" and "ac_keys a k = None"
  shows "pres a k = None" "k \<notin> set (ac_idle a)" "k \<notin> dom fl" "c < a_classes a \<Longrightarrow> k \<notin> set (ac_ready a ! c)"
proof -
  show p: "pres a k = None" using assms(2) by (simp add: kpres_def)
  show "k \<notin> set (ac_idle a)" "k \<notin> dom fl" "c < a_classes a \<Longrightarrow> k \<notin> set (ac_ready a ! c)"
    using p idle_iff [OF assms(1), of k] flight_iff [OF assms(1), of k] ring_iff [OF assms(1), of k c] by auto
qed

lemma put_ready:
  assumes "spec_inv a fl" and "ac_keys a k = None" and "classes_ok a sl" and "serves c sl"
    and "as_presence sl = Ready c"
  shows "spec_inv (a\<lparr>ac_keys := (ac_keys a)(k \<mapsto> sl), ac_ready := (ac_ready a)[c := ac_ready a ! c @ [k]],
                     ac_pending := ac_pending a + queue_len sl\<rparr>) fl"
proof -
  have c: "c < a_classes a" using assms(3,4) by (auto simp: classes_ok_def serves_def)
  note ab = absent_key [OF assms(1,2)] and s = put_sums [OF assms(1,2), of sl]
  have "spec_rings (a\<lparr>ac_keys := (ac_keys a)(k \<mapsto> sl), ac_ready := (ac_ready a)[c := ac_ready a ! c @ [k]],
                     ac_pending := ac_pending a + queue_len sl\<rparr>)"
    using assms(1,5) c ab(1,4) by (auto simp: spec_defs nth_list_update)
  then show ?thesis using assms(1,3,4,5) s ab(2,3)
    by (auto simp: spec_defs is_evicting_def classes_ok_def)
qed

lemma put_idle:
  assumes "spec_inv a fl" and "ac_keys a k = None" and "as_queue sl = []" and "as_presence sl = Idle"
  shows "spec_inv (a\<lparr>ac_keys := (ac_keys a)(k \<mapsto> sl), ac_idle := ac_idle a @ [k]\<rparr>) fl"
  using assms absent_key [OF assms(1,2)] put_sums [OF assms(1,2), of sl]
  by (auto simp: spec_defs is_evicting_def)

lemma put_evicting:
  assumes "spec_inv a fl" and "ac_keys a k = None" and "classes_ok a sl" and "as_presence sl = Evicting"
    and "as_resident sl = None"
  shows "spec_inv (a\<lparr>ac_keys := (ac_keys a)(k \<mapsto> sl), ac_evicting := ac_evicting a + 1,
                     ac_pending := ac_pending a + queue_len sl\<rparr>) fl"
  using assms absent_key [OF assms(1,2)] put_sums [OF assms(1,2), of sl]
  by (auto simp: spec_defs is_evicting_def classes_ok_def)

lemma put_flight:
  assumes "spec_inv a fl" and "ac_keys a k = None" and "classes_ok a sl" and "as_presence sl = InFlight"
    and "as_resident sl = None" and "c < a_classes a" and "ac_inflight a ! c < max_inflight (ac_cfg a) ! c"
  shows "spec_inv (a\<lparr>ac_keys := (ac_keys a)(k \<mapsto> sl), ac_inflight := (ac_inflight a)[c := ac_inflight a ! c + 1],
                     ac_pending := ac_pending a + queue_len sl + 1\<rparr>) (fl(k \<mapsto> c))"
proof -
  note ab = absent_key [OF assms(1,2)]
  have fin: "finite (dom fl)" using spec_inv_finite [OF assms(1)] by simp
  have "card {j. (fl(k \<mapsto> c)) j = Some c'} = card {j. fl j = Some c'} + (if c' = c then 1 else 0)" for c'
  proof -
    have "{j. (fl(k \<mapsto> c)) j = Some c'} = {j. fl j = Some c'} \<union> (if c' = c then {k} else {})"
      using ab(3) by auto
    moreover have "finite {j. fl j = Some c'}" using fin by (rule rev_finite_subset) auto
    moreover have "k \<notin> {j. fl j = Some c'}" using ab(3) by auto
    ultimately show ?thesis by auto
  qed
  moreover have "card (insert k (dom fl)) = card (dom fl) + 1" using fin ab(3) by simp
  ultimately show ?thesis
    using assms ab put_sums [OF assms(1,2), of sl]
    by (auto simp: spec_defs is_evicting_def classes_ok_def nth_list_update)
qed

lemma a_place_inv:
  assumes "spec_inv (a\<lparr>ac_keys := (ac_keys a)(k := None), ac_pending := p\<rparr>) fl"
    and "ac_pending a = p + queue_len sl" and "classes_ok a sl"
  shows "spec_inv (a_place k sl now a) fl"
proof (cases "as_queue sl")
  case Nil
  then show ?thesis using assms(2)
    by (intro spec_inv_cong [OF put_idle [OF assms(1), of k "sl\<lparr>as_presence := Idle, as_since := now\<rparr>"]])
      (simp_all add: a_place_def)
next
  case (Cons x xs)
  then show ?thesis using assms(2,3)
    by (intro spec_inv_cong [OF put_ready [OF assms(1), of k "sl\<lparr>as_presence := Ready (it_class x)\<rparr>" "it_class x"]])
      (simp_all add: a_place_def serves_def classes_ok_def)
qed

section \<open>Every operation keeps the invariant\<close>

lemma a_slot_simps [simp]: "ac_keys a k = Some sl \<Longrightarrow> a_slot a k = sl" "ac_keys a k = None \<Longrightarrow> a_slot a k = acold"
  by (auto simp: a_slot_def)

lemma a_slot_classes: "spec_inv a fl \<Longrightarrow> x \<in> set (as_queue (a_slot a k)) \<Longrightarrow> it_class x < a_classes a"
  by (cases "ac_keys a k") (auto simp: acold_def dest: slot_classes)

lemma fun_upd_None_id: "m k = None \<Longrightarrow> m(k := None) = m"
  by auto

text \<open>Appending to the queue of a key that is not idle leaves it where it is.\<close>

lemma upd_queue_inv:
  assumes "spec_inv a fl" and k: "ac_keys a k = Some sl" and "as_presence sl \<noteq> Idle" and "it_class x < a_classes a"
  shows "spec_inv (a\<lparr>ac_keys := (ac_keys a)(k \<mapsto> sl\<lparr>as_queue := as_queue sl @ [x]\<rparr>),
                     ac_pending := ac_pending a + 1\<rparr>) fl"
proof -
  let ?sl = "sl\<lparr>as_queue := as_queue sl @ [x]\<rparr>"
  have "ksum queue_len ((ac_keys a)(k \<mapsto> ?sl)) = ksum queue_len (ac_keys a) + 1"
    "ksum is_evicting ((ac_keys a)(k \<mapsto> ?sl)) = ksum is_evicting (ac_keys a)"
    using ksum_upd [OF keys_finite [OF assms(1)], of queue_len k ?sl]
      ksum_upd [OF keys_finite [OF assms(1)], of is_evicting k ?sl] k by (auto simp: is_evicting_def)
  moreover have "kpres ((ac_keys a)(k \<mapsto> ?sl)) = pres a" using k by (auto simp: kpres_Some fun_eq_iff)
  moreover have "slot_ok ?sl (as_presence ?sl)"
    using slot_okD [OF assms(1) k] assms(3) by (cases "as_presence sl") (auto simp: serves_def)
  ultimately show ?thesis
    using assms(1,4) slot_classes [OF assms(1) k]
    by (auto simp: spec_inv_def spec_rings_def spec_idle_def spec_slots_def spec_flights_def spec_counts_def
        simp del: kpres_upd)
qed

lemma a_admit_inv:
  assumes "spec_inv a fl" and "ad_class it < a_classes a"
  shows "spec_inv (a_admit it a) fl"
proof -
  let ?k = "ad_key it" and ?c = "ad_class it"
  let ?x = "\<lparr>it_class = ?c, it_expires_at = ad_expires_at it, it_payload = ad_payload it\<rparr>"
  show ?thesis
  proof (cases "as_presence (a_slot a ?k) = Idle")
    case False
    then obtain sl where k: "ac_keys a ?k = Some sl"
      by (cases "ac_keys a ?k") (auto simp: acold_def)
    with False upd_queue_inv [OF assms(1) k, of ?x] assms(2) show ?thesis
      by (simp add: a_admit_def Let_def)
  next
    case True
    have empty: "as_queue (a_slot a ?k) = []"
      using True slot_okD [OF assms(1), of ?k] by (cases "ac_keys a ?k") (auto simp: acold_def)
    have out: "spec_inv (a\<lparr>ac_idle := remove1 ?k (ac_idle a), ac_keys := (ac_keys a)(?k := None)\<rparr>) fl"
    proof (cases "ac_keys a ?k")
      case None
      then show ?thesis using assms(1) absent_key(2) [OF assms(1) None]
        by (simp add: fun_upd_None_id remove1_idem)
    next
      case (Some sl)
      then show ?thesis using lift_idle [OF assms(1)] idle_iff [OF assms(1), of ?k] True
        by (auto simp: kpres_Some)
    qed
    let ?sl = "(a_slot a ?k)\<lparr>as_queue := [?x], as_presence := Ready ?c\<rparr>"
    show ?thesis using assms(2) True empty
      by (intro spec_inv_cong [OF put_ready [OF out, of ?k ?sl ?c]])
        (simp_all add: a_admit_def Let_def classes_ok_def serves_def)
  qed
qed

lemma sum_takeWhile: "length (takeWhile P xs) + length (dropWhile P xs) = length xs"
  by (metis length_append takeWhile_dropWhile_id)

lemma a_shed_out:
  assumes "spec_inv a fl" and "c < a_classes a" and "ac_ready a ! c = k # rest"
  obtains sl where "ac_keys a k = Some sl"
    "spec_inv ((a_shed k c now rest a)\<lparr>ac_keys := (ac_keys a)(k := None),
                 ac_pending := ac_pending a - queue_len sl\<rparr>) fl"
    "ac_pending (a_shed k c now rest a) = (ac_pending a - queue_len sl) + queue_len (a_left k c now a)"
    "classes_ok a (a_left k c now a)" "ac_keys (a_shed k c now rest a) = ac_keys a"
    "as_presence (a_left k c now a) = Ready c"
proof -
  have "pres a k = Some (Ready c)" using ring_iff [OF assms(1), of k c] assms(2,3) by auto
  then obtain sl where k: "ac_keys a k = Some sl" and p: "as_presence sl = Ready c" by (auto simp: kpres_eq_Some)
  have "queue_len sl \<le> ksum queue_len (ac_keys a)"
    using ksum_del [OF keys_finite [OF assms(1)], of queue_len k] k by simp
  then have "queue_len sl \<le> ac_pending a" using pending_eq [OF assms(1)] by simp
  then have "ac_pending (a_shed k c now rest a) = (ac_pending a - queue_len sl) + queue_len (a_left k c now a)"
    using k sum_takeWhile [of "stale c now" "as_queue sl"] by (simp add: a_shed_def a_left_def Let_def)
  moreover have "classes_ok a (a_left k c now a)"
    using slot_classes [OF assms(1) k] k by (auto simp: classes_ok_def a_left_def dest: set_dropWhileD)
  moreover have "spec_inv ((a_shed k c now rest a)\<lparr>ac_keys := (ac_keys a)(k := None),
                 ac_pending := ac_pending a - queue_len sl\<rparr>) fl"
    by (rule spec_inv_cong [OF lift_ready [OF assms k]]) (simp_all add: a_shed_def Let_def)
  ultimately show ?thesis using that k p by (simp add: a_shed_def a_left_def Let_def)
qed

text \<open>The caller's ledger after a dispatch.\<close>

definition fly :: "('k, 'p, 's) dispatch option \<Rightarrow> ('k \<rightharpoonup> class_id) \<Rightarrow> ('k \<rightharpoonup> class_id)" where
  "fly d fl = (case d of None \<Rightarrow> fl | Some d \<Rightarrow> fl(di_key d \<mapsto> di_class d))"

lemma a_shed_frame [simp]:
  "ac_cfg (a_shed k c now rest a) = ac_cfg a" "ac_inflight (a_shed k c now rest a) = ac_inflight a"
  "ac_keys (a_shed k c now rest a) = ac_keys a" "ac_idle (a_shed k c now rest a) = ac_idle a"
  "ac_ready (a_shed k c now rest a) = (ac_ready a)[c := rest]" "ac_evicting (a_shed k c now rest a) = ac_evicting a"
  by (simp_all add: a_shed_def Let_def)

lemma a_place_frame [simp]:
  "ac_cfg (a_place k sl now a) = ac_cfg a" "ac_inflight (a_place k sl now a) = ac_inflight a"
  "ac_pending (a_place k sl now a) = ac_pending a" "ac_evicting (a_place k sl now a) = ac_evicting a"
  "ac_expired (a_place k sl now a) = ac_expired a"
  by (auto simp: a_place_def split: list.splits)

text \<open>One turn of the dispatch loop: the front key is dispatched or put elsewhere.\<close>

lemma a_dispatch_inv:
  assumes inv: "spec_inv a fl" and c: "c < a_classes a" and front: "ac_ready a ! c = k # rest"
    and budget: "ac_inflight a ! c < max_inflight (ac_cfg a) ! c" and sv: "serves c (a_left k c now a)"
  shows "spec_inv (fst (a_dispatch k c (a_left k c now a) (a_shed k c now rest a))) (fl(k \<mapsto> c))"
proof -
  let ?sl = "a_left k c now a" and ?a = "a_shed k c now rest a"
  obtain sl where "ac_keys a k = Some sl"
    and out: "spec_inv (?a\<lparr>ac_keys := (ac_keys a)(k := None), ac_pending := ac_pending a - queue_len sl\<rparr>) fl"
    and p: "ac_pending ?a = (ac_pending a - queue_len sl) + queue_len ?sl" and cl: "classes_ok a ?sl"
    using a_shed_out [OF inv c front] by metis
  have "as_queue ?sl \<noteq> []" using sv by (simp add: serves_def)
  then show ?thesis using p c budget cl
    by (intro spec_inv_cong [OF put_flight [OF out, of k
          "?sl\<lparr>as_queue := tl (as_queue ?sl), as_presence := InFlight, as_resident := None\<rparr>" c]])
      (auto simp: a_dispatch_def classes_ok_def dest: list.set_sel(2) simp flip: length_greater_0_conv)
qed

lemma a_requeue_inv:
  assumes inv: "spec_inv a fl" and c: "c < a_classes a" and front: "ac_ready a ! c = k # rest"
  shows "spec_inv (a_place k (a_left k c now a) now (a_shed k c now rest a)) fl"
proof -
  obtain sl where "ac_keys a k = Some sl"
    and out: "spec_inv ((a_shed k c now rest a)\<lparr>ac_keys := (ac_keys a)(k := None),
      ac_pending := ac_pending a - queue_len sl\<rparr>) fl"
    and p: "ac_pending (a_shed k c now rest a) = (ac_pending a - queue_len sl) + queue_len (a_left k c now a)"
    and cl: "classes_ok a (a_left k c now a)"
    using a_shed_out [OF inv c front] by metis
  then show ?thesis
    by (intro a_place_inv [OF spec_inv_cong [OF out], where p = "ac_pending a - queue_len sl"])
      (simp_all add: classes_ok_def)
qed

lemma a_next_loop_inv:
  assumes "spec_inv a fl" and "c < a_classes a" and "ac_inflight a ! c < max_inflight (ac_cfg a) ! c"
    and "a_next_loop c now a = (a', d)"
  shows "spec_inv a' (fly d fl)"
  using assms
proof (induction c now a rule: a_next_loop.induct)
  case (1 c now a)
  note inv = "1.prems"(1) and c = "1.prems"(2)
  have len: "c < length (ac_ready a)" using lengths [OF inv] c by simp
  show ?case
  proof (cases "ac_ready a ! c")
    case Nil
    with "1.prems" len show ?thesis by (simp add: a_next_loop.simps [of c now a] fly_def)
  next
    case (Cons k rest)
    let ?sl = "a_left k c now a" and ?a = "a_shed k c now rest a"
    show ?thesis
    proof (cases "serves c ?sl")
      case True
      have "di_key (snd (a_dispatch k c ?sl ?a)) = k" "di_class (snd (a_dispatch k c ?sl ?a)) = c"
        by (simp_all add: a_dispatch_def)
      then show ?thesis using "1.prems"(4) len Cons True a_dispatch_inv [OF inv c Cons "1.prems"(3) True]
        by (cases "a_dispatch k c ?sl ?a")
          (auto simp: a_next_loop.simps [of c now a] Let_def fly_def simp del: fun_upd_apply)
    next
      case False
      have "a_next_loop c now (a_place k ?sl now ?a) = (a', d)"
        using "1.prems"(4) len Cons False by (simp add: a_next_loop.simps [of c now a] Let_def)
      with "1.IH" [OF len Cons refl refl False a_requeue_inv [OF inv c Cons]] "1.prems"(2,3) show ?thesis by simp
    qed
  qed
qed

lemma a_next_inv:
  assumes "spec_inv a fl" and "class < a_classes a" and "a_next class now a = (a', d)"
  shows "spec_inv a' (fly d fl)"
  using assms a_next_loop_inv [OF assms(1,2)] by (auto simp: a_next_def fly_def split: if_splits)

lemma completing:
  assumes inv: "spec_inv a fl" and fl: "fl k = Some c"
  shows "c < a_classes a" "ac_inflight a ! c \<noteq> 0" "ac_pending a \<noteq> 0"
proof -
  show c: "c < a_classes a" using flight_class [OF inv fl] .
  have fin: "finite (dom fl)" using spec_inv_finite [OF inv] by simp
  moreover have "{k. fl k = Some c} \<subseteq> dom fl" by auto
  ultimately have "finite {k. fl k = Some c}" by (rule rev_finite_subset)
  then show "ac_inflight a ! c \<noteq> 0" using flight_count [OF inv c] fl by auto
  show "ac_pending a \<noteq> 0" using pending_eq [OF inv] fin fl by auto
qed

lemma a_complete_inv:
  assumes "spec_inv a fl" and "fl (co_key c) = Some (co_class c)"
  shows "spec_inv (a_complete c now a) (fl(co_key c := None))"
proof -
  let ?k = "co_key c"
  obtain sl where k: "ac_keys a ?k = Some sl"
    using flight_iff [OF assms(1), of ?k] assms(2) by (auto simp: kpres_eq_Some)
  have "queue_len sl \<le> ksum queue_len (ac_keys a)"
    using ksum_del [OF keys_finite [OF assms(1)], of queue_len ?k] k by simp
  moreover have "0 < card (dom fl)" using spec_inv_finite [OF assms(1)] assms(2) by (auto simp: card_gt_0_iff)
  ultimately have "queue_len sl + 1 \<le> ac_pending a" using pending_eq [OF assms(1)] by simp
  then show ?thesis using k slot_classes [OF assms(1) k] unfolding a_complete_def Let_def
    by (intro a_place_inv [OF spec_inv_cong [OF lift_flight [OF assms k]], where p = "ac_pending a - 1 - queue_len sl"])
      (simp_all add: classes_ok_def)
qed

lemma a_finish_evict_inv:
  assumes "spec_inv a fl" and "pres a k = Some Evicting"
  shows "spec_inv (a_finish_evict k now a) fl"
proof -
  obtain sl where k: "ac_keys a k = Some sl" and p: "as_presence sl = Evicting"
    using assms(2) by (auto simp: kpres_eq_Some)
  have "queue_len sl \<le> ac_pending a"
    using ksum_del [OF keys_finite [OF assms(1)], of queue_len k] k pending_eq [OF assms(1)] by simp
  moreover note out = lift_evicting [OF assms(1) k p]
  moreover have "spec_inv (a_place k sl now (a\<lparr>ac_evicting := ac_evicting a - 1\<rparr>)) fl"
    using k slot_classes [OF assms(1) k] calculation
    by (intro a_place_inv [OF spec_inv_cong [OF out], where p = "ac_pending a - queue_len sl"])
      (simp_all add: classes_ok_def)
  moreover have "spec_inv (a\<lparr>ac_evicting := ac_evicting a - 1, ac_keys := (ac_keys a)(k := None)\<rparr>) fl"
    if "as_queue sl = []"
    by (rule spec_inv_cong [OF out]) (simp_all add: that)
  ultimately show ?thesis using k by (simp add: a_finish_evict_def Let_def)
qed

lemma a_release_inv:
  assumes "spec_inv a fl" and "ac_idle a = k # rest"
  shows "spec_inv (a_release k rest a) fl"
proof -
  obtain sl where k: "ac_keys a k = Some sl" and p: "as_presence sl = Idle"
    using idle_iff [OF assms(1), of k] assms(2) by (auto simp: kpres_eq_Some)
  have q: "as_queue sl = []" using slot_okD [OF assms(1) k] p by simp
  have out: "spec_inv (a\<lparr>ac_idle := rest, ac_keys := (ac_keys a)(k := None)\<rparr>) fl"
    using lift_idle [OF assms(1), of k] assms(2) by simp
  have "spec_inv (a\<lparr>ac_idle := rest, ac_evicting := ac_evicting a + 1,
      ac_keys := (ac_keys a)(k \<mapsto> sl\<lparr>as_resident := None, as_presence := Evicting\<rparr>)\<rparr>) fl"
    by (rule spec_inv_cong [OF put_evicting [OF out, of k "sl\<lparr>as_resident := None, as_presence := Evicting\<rparr>"]])
      (simp_all add: q classes_ok_def)
  then show ?thesis using out k by (simp add: a_release_def Let_def)
qed

lemma a_evict_loop_inv:
  "spec_inv a fl \<Longrightarrow> spec_inv (fst (a_evict_loop n now a)) fl"
  by (induction n arbitrary: a) (auto split: list.splits dest: a_release_inv)

lemma a_evict_list_inv:
  "spec_inv a fl \<Longrightarrow> ac_idle a = ks \<Longrightarrow> spec_inv (fst (a_evict_list ks a)) fl"
proof (induction ks arbitrary: a)
  case (Cons k ks)
  then have "spec_inv (a_release k ks a) fl" by (intro a_release_inv)
  moreover have "ac_idle (a_release k ks a) = ks" by (simp add: a_release_def Let_def)
  ultimately show ?case using Cons.IH by simp
qed simp

lemma a_pop_expired_inv: "spec_inv a fl \<Longrightarrow> spec_inv (fst (a_pop_expired a)) fl"
  by (auto simp: a_pop_expired_def split: list.splits)

lemmas spec_inv_ops = a_admit_inv a_next_inv a_complete_inv a_finish_evict_inv a_evict_loop_inv
  a_evict_list_inv a_pop_expired_inv

end
