(* ===== verification/Sched_Refine.thy ===== *)
theory Sched_Refine
  imports Sched_Spec
begin

text \<open>
  The scheduler of \<open>Core_Scheduler\<close> (arena queues, an intrusive doubly linked idle list, an
  association list of slots) implements the operations of \<open>Sched_Spec\<close>: on every state that
  represents an abstract one, each operation returns, without a failed assertion, a state
  that represents the abstract result.
\<close>

section \<open>The relation\<close>

definition abs_slot :: "'p item slab \<Rightarrow> ('k, 's) slot \<Rightarrow> ('p, 's) aslot" where
  "abs_slot sl slot =
     \<lparr>as_resident = resident slot, as_queue = contents sl (queue slot), as_presence = presence slot,
      as_since = idle_since slot\<rparr>"

lemma abs_slot_simps [simp]:
  "as_resident (abs_slot sl slot) = resident slot" "as_presence (abs_slot sl slot) = presence slot"
  "as_queue (abs_slot sl slot) = contents sl (queue slot)" "as_since (abs_slot sl slot) = idle_since slot"
  "abs_slot sl (slot\<lparr>idle_prev := p\<rparr>) = abs_slot sl slot" "abs_slot sl (slot\<lparr>idle_next := n\<rparr>) = abs_slot sl slot"
  "abs_slot sl (slot\<lparr>presence := pr\<rparr>) = (abs_slot sl slot)\<lparr>as_presence := pr\<rparr>"
  "abs_slot sl (slot\<lparr>resident := r\<rparr>) = (abs_slot sl slot)\<lparr>as_resident := r\<rparr>"
  "abs_slot sl (slot\<lparr>idle_since := t\<rparr>) = (abs_slot sl slot)\<lparr>as_since := t\<rparr>"
  "abs_slot sl (slot\<lparr>queue := q\<rparr>) = (abs_slot sl slot)\<lparr>as_queue := contents sl q\<rparr>"
  by (simp_all add: abs_slot_def)

lemma abs_slot_cold [simp]: "abs_slot sl cold = acold"
  by (simp add: abs_slot_def cold_def acold_def)

definition kqueue :: "('k \<times> ('k, 's) slot) list \<Rightarrow> 'k \<Rightarrow> qlist" where
  "kqueue ks k = (case map_of ks k of Some slot \<Rightarrow> queue slot | None \<Rightarrow> list_default)"

definition inext :: "('k \<times> ('k, 's) slot) list \<Rightarrow> 'k \<Rightarrow> 'k option" where
  "inext ks k = Option.bind (map_of ks k) idle_next"

definition iprev :: "('k \<times> ('k, 's) slot) list \<Rightarrow> 'k \<Rightarrow> 'k option" where
  "iprev ks k = Option.bind (map_of ks k) idle_prev"

text \<open>The slots represent the map \<open>m\<close>, key \<open>k\<close> apart, whose queue is \<open>q\<close>.\<close>

definition rkeys_at ::
  "'k \<Rightarrow> qlist \<Rightarrow> 'p item slab \<Rightarrow> ('k \<times> ('k, 's) slot) list \<Rightarrow> ('k \<rightharpoonup> ('p, 's) aslot) \<Rightarrow> bool" where
  "rkeys_at k q sl ks m \<longleftrightarrow>
     distinct (map fst ks) \<and> slab_ok sl (insert k (dom (map_of ks))) ((kqueue ks)(k := q)) \<and>
     (\<forall>j. j \<noteq> k \<longrightarrow> m j = map_option (abs_slot sl) (map_of ks j))"

definition rkeys ::
  "'p item slab \<Rightarrow> ('k \<times> ('k, 's) slot) list \<Rightarrow> ('k \<rightharpoonup> ('p, 's) aslot) \<Rightarrow> bool" where
  "rkeys sl ks m \<longleftrightarrow>
     distinct (map fst ks) \<and> slab_ok sl (dom (map_of ks)) (kqueue ks) \<and>
     (\<forall>j. m j = map_option (abs_slot sl) (map_of ks j))"

definition rlinks :: "('k, 'p, 's) scheduler \<Rightarrow> 'k list \<Rightarrow> bool" where
  "rlinks s xs \<longleftrightarrow>
     dlist (inext (keys s)) (iprev (keys s)) (idle_head s) xs (idle_tail s) \<and> idle s = length xs \<and>
     (\<forall>k. k \<notin> set xs \<longrightarrow> inext (keys s) k = None \<and> iprev (keys s) k = None)"

definition rrest :: "('k, 'p, 's) scheduler \<Rightarrow> ('k, 'p, 's) asched \<Rightarrow> bool" where
  "rrest s a \<longleftrightarrow>
     cfg s = ac_cfg a \<and> ready s = ac_ready a \<and> expired s = ac_expired a \<and> inflight s = ac_inflight a \<and>
     pending s = ac_pending a \<and> evicting s = ac_evicting a"

definition refines :: "('k, 'p, 's) scheduler \<Rightarrow> ('k, 'p, 's) asched \<Rightarrow> bool" where
  "refines s a \<longleftrightarrow> rkeys (slab s) (keys s) (ac_keys a) \<and> rlinks s (ac_idle a) \<and> rrest s a"

lemma refinesI:
  "rkeys (slab s) (keys s) m \<Longrightarrow> rlinks s xs \<Longrightarrow> rrest s a \<Longrightarrow> ac_keys a = m \<Longrightarrow> ac_idle a = xs \<Longrightarrow> refines s a"
  by (simp add: refines_def)

definition frame :: "('k, 'p, 's) scheduler \<Rightarrow> ('k, 'p, 's) scheduler \<Rightarrow> bool" where
  "frame s s' \<longleftrightarrow>
     cfg s' = cfg s \<and> slab s' = slab s \<and> ready s' = ready s \<and> expired s' = expired s \<and>
     inflight s' = inflight s \<and> pending s' = pending s \<and> evicting s' = evicting s"

lemma frame_refl [simp]: "frame s s"
  by (simp add: frame_def)

section \<open>Writing one slot\<close>

lemma links_update [simp]:
  "inext (AList.update k slot ks) = (inext ks)(k := idle_next slot)"
  "iprev (AList.update k slot ks) = (iprev ks)(k := idle_prev slot)"
  "kqueue (AList.update k slot ks) = (kqueue ks)(k := queue slot)"
  by (auto simp: inext_def iprev_def kqueue_def update_conv' fun_eq_iff)

lemma rkeys_at_write:
  "rkeys_at k (queue slot) sl ks m \<Longrightarrow> rkeys sl (AList.update k slot ks) (m(k \<mapsto> abs_slot sl slot))"
  by (auto simp: rkeys_at_def rkeys_def update_conv' distinct_update)

lemma rkeys_lookup: "rkeys sl ks m \<Longrightarrow> m k = map_option (abs_slot sl) (map_of ks k)"
  by (simp add: rkeys_def)

lemma rkeys_dom: "rkeys sl ks m \<Longrightarrow> k \<in> dom m \<Longrightarrow> \<exists>slot. map_of ks k = Some slot"
  by (auto simp: rkeys_lookup)

lemma rkeys_Some:
  assumes "rkeys sl ks m" and "m k = Some asl"
  obtains slot where "map_of ks k = Some slot" "asl = abs_slot sl slot"
  using assms rkeys_lookup [OF assms(1), of k] by (cases "map_of ks k") auto

lemma rkeys_at_present:
  "rkeys sl ks m \<Longrightarrow> map_of ks k = Some slot \<Longrightarrow> rkeys_at k (queue slot) sl ks m"
  by (auto simp: rkeys_at_def rkeys_def insert_absorb domI fun_upd_idem kqueue_def)

lemma rkeys_at_absent:
  "rkeys sl ks m \<Longrightarrow> map_of ks k = None \<Longrightarrow> rkeys_at k list_default sl ks m"
  by (auto simp: rkeys_at_def rkeys_def domIff intro!: slab_ok_insert)

lemma rkeys_write:
  assumes "rkeys sl ks m" and "map_of ks k = Some slot" and "queue slot' = queue slot"
  shows "rkeys sl (AList.update k slot' ks) (m(k \<mapsto> abs_slot sl slot'))"
  using rkeys_at_write [of k slot' sl ks m] rkeys_at_present [OF assms(1,2)] assms(3) by simp

lemma rkeys_relink:
  assumes "rkeys sl ks m" and "map_of ks k = Some slot" and "abs_slot sl slot' = abs_slot sl slot"
    and "queue slot' = queue slot"
  shows "rkeys sl (AList.update k slot' ks) m"
proof -
  have "m(k \<mapsto> abs_slot sl slot') = m" using assms(3) rkeys_lookup [OF assms(1), of k] assms(2) by auto
  with rkeys_write [OF assms(1,2,4)] show ?thesis by simp
qed

lemma rkeys_erase:
  assumes "rkeys sl ks m" and "map_of ks k = Some slot" and "contents sl (queue slot) = []"
  shows "rkeys sl (AList.delete k ks) (m(k := None))"
proof -
  have "slab_ok sl (dom (map_of ks) - {k}) (kqueue ks)"
    using assms by (intro slab_ok_remove) (auto simp: rkeys_def kqueue_def)
  moreover have "kqueue (AList.delete k ks) j = kqueue ks j" if "j \<in> dom (map_of ks) - {k}" for j
    using that by (simp add: kqueue_def delete_conv')
  ultimately have "slab_ok sl (dom (map_of ks) - {k}) (kqueue (AList.delete k ks))"
    using slab_ok_cong [of "dom (map_of ks) - {k}"] by metis
  with assms show ?thesis by (auto simp: rkeys_def delete_conv' distinct_delete)
qed

lemma links_delete: "inext ks k = None \<Longrightarrow> inext (AList.delete k ks) = inext ks"
  "iprev ks k = None \<Longrightarrow> iprev (AList.delete k ks) = iprev ks"
  by (auto simp: inext_def iprev_def delete_conv' fun_eq_iff)

lemma rkeys_length: "rkeys sl ks m \<Longrightarrow> length ks = card (dom m)"
proof -
  assume r: "rkeys sl ks m"
  have "dom m = fst ` set ks" using r by (auto simp: rkeys_def dom_def map_of_eq_None_iff simp flip: not_None_eq)
  moreover have "card (fst ` set ks) = length ks"
    using r distinct_card [of "map fst ks"] by (simp add: rkeys_def)
  ultimately show ?thesis by simp
qed

section \<open>The idle list\<close>

text \<open>Closing the gap left by a key whose own links are already cleared.\<close>

lemma idle_patch_ok:
  assumes "rkeys (slab s) (keys s) m" and "set_option prev \<union> set_option nxt \<subseteq> dom m"
  obtains s' where "idle_patch prev nxt s = Some s'" "rkeys (slab s) (keys s') m" "frame s s'" "idle s' = idle s"
    "\<And>y. inext (keys s') y = (if prev = Some y then nxt else inext (keys s) y)"
    "\<And>y. iprev (keys s') y = (if nxt = Some y then prev else iprev (keys s) y)"
    "idle_head s' = (if prev = None then nxt else idle_head s)"
    "idle_tail s' = (if nxt = None then prev else idle_tail s)"
proof -
  define s1 where "s1 = (case prev of Some k \<Rightarrow> set_slot k ((the (map_of (keys s) k))\<lparr>idle_next := nxt\<rparr>) s
    | None \<Rightarrow> s\<lparr>idle_head := nxt\<rparr>)"
  have 1: "\<exists>slot. map_of (keys s) k = Some slot" if "k \<in> dom m" for k using rkeys_dom [OF assms(1) that] .
  have r1: "rkeys (slab s) (keys s1) m"
    using assms 1 rkeys_relink [OF assms(1)] by (fastforce simp: s1_def split: option.splits)
  have 2: "\<exists>slot. map_of (keys s1) k = Some slot" if "k \<in> dom m" for k using rkeys_dom [OF r1 that] .
  define s2 where "s2 = (case nxt of Some k \<Rightarrow> set_slot k ((the (map_of (keys s1) k))\<lparr>idle_prev := prev\<rparr>) s1
    | None \<Rightarrow> s1\<lparr>idle_tail := prev\<rparr>)"
  have r2: "rkeys (slab s) (keys s2) m"
    using assms(2) r1 2 rkeys_relink [OF r1] by (fastforce simp: s2_def split: option.splits)
  have e1: "(case prev of Some key \<Rightarrow> do { slot \<leftarrow> map_of (keys s) key; Some (set_slot key (slot\<lparr>idle_next := nxt\<rparr>) s) }
      | None \<Rightarrow> Some (s\<lparr>idle_head := nxt\<rparr>)) = Some s1"
  proof (cases prev)
    case (Some k)
    then obtain slot where "map_of (keys s) k = Some slot" using 1 [of k] assms(2) by auto
    with Some show ?thesis by (simp add: s1_def)
  qed (simp add: s1_def)
  have e2: "(case nxt of Some key \<Rightarrow> do { slot \<leftarrow> map_of (keys s1) key; Some (set_slot key (slot\<lparr>idle_prev := prev\<rparr>) s1) }
      | None \<Rightarrow> Some (s1\<lparr>idle_tail := prev\<rparr>)) = Some s2"
  proof (cases nxt)
    case (Some k)
    then obtain slot where "map_of (keys s1) k = Some slot" using 2 [of k] assms(2) by auto
    with Some show ?thesis by (simp add: s2_def)
  qed (simp add: s2_def)
  have e: "idle_patch prev nxt s = Some s2" unfolding idle_patch_def e1 by (simp add: e2)
  have n1: "inext (keys s1) y = (if prev = Some y then nxt else inext (keys s) y)" "iprev (keys s1) y = iprev (keys s) y" for y
    using assms(2) 1 by (fastforce simp: s1_def iprev_def inext_def update_conv' split: option.splits)+
  have n2: "inext (keys s2) y = inext (keys s1) y" "iprev (keys s2) y = (if nxt = Some y then prev else iprev (keys s1) y)" for y
    using assms(2) 2 by (fastforce simp: s2_def iprev_def inext_def update_conv' split: option.splits)+
  show ?thesis
    by (rule that [OF e r2]) (auto simp: n1 n2, auto simp: s1_def s2_def frame_def split: option.splits)
qed

lemma rlinks_present: "rlinks s xs \<Longrightarrow> k \<in> set xs \<Longrightarrow> \<exists>as bs. xs = as @ k # bs \<and> remove1 k xs = as @ bs \<and>
    iprev (keys s) k = last_opt as \<and> inext (keys s) k = hd_opt bs"
proof -
  assume r: "rlinks s xs" and "k \<in> set xs"
  then obtain as bs where xs: "xs = as @ k # bs" and "k \<notin> set as" by (meson split_list_first)
  then show ?thesis using dlist_neighbours [of "inext (keys s)" "iprev (keys s)" _ as k bs] r
    by (intro exI [of _ as] exI [of _ bs]) (auto simp: rlinks_def remove1_append)
qed

lemma unlink_ok:
  assumes "rlinks s xs" and "k \<in> set xs" and "set xs \<subseteq> dom m" and "rkeys (slab s1) (keys s1) m"
    and "inext (keys s1) = (inext (keys s))(k := None)" "iprev (keys s1) = (iprev (keys s))(k := None)"
    and "idle_head s1 = idle_head s" "idle_tail s1 = idle_tail s" "idle s1 = idle s - 1"
  obtains s2 where "idle_patch (iprev (keys s) k) (inext (keys s) k) s1 = Some s2"
    "rkeys (slab s1) (keys s2) m" "rlinks s2 (remove1 k xs)" "frame s1 s2"
proof -
  obtain as bs where xs: "xs = as @ k # bs" "remove1 k xs = as @ bs"
    and pn: "iprev (keys s) k = last_opt as" "inext (keys s) k = hd_opt bs"
    using rlinks_present [OF assms(1,2)] by blast
  have d: "dlist (inext (keys s)) (iprev (keys s)) (idle_head s) (as @ k # bs) (idle_tail s)"
    using assms(1) xs by (simp add: rlinks_def)
  have dist: "distinct (as @ k # bs)" by (rule dlist_distinct [OF d])
  have sub: "set_option (iprev (keys s) k) \<subseteq> set as" "set_option (inext (keys s) k) \<subseteq> set bs"
    using pn by (auto simp: last_opt_def hd_opt_def split: if_splits list.splits)
  then obtain s2 where e: "idle_patch (iprev (keys s) k) (inext (keys s) k) s1 = Some s2"
    "rkeys (slab s1) (keys s2) m" "frame s1 s2" "idle s2 = idle s1"
    and nx: "\<And>y. inext (keys s2) y = (if iprev (keys s) k = Some y then inext (keys s) k else inext (keys s1) y)"
    and pv: "\<And>y. iprev (keys s2) y = (if inext (keys s) k = Some y then iprev (keys s) k else iprev (keys s1) y)"
    and h: "idle_head s2 = (if iprev (keys s) k = None then inext (keys s) k else idle_head s1)"
    and t: "idle_tail s2 = (if inext (keys s) k = None then iprev (keys s) k else idle_tail s1)"
    by (rule_tac idle_patch_ok [OF assms(4), of "iprev (keys s) k" "inext (keys s) k"]) (use assms(3) xs(1) in auto)
  have "dlist (inext (keys s2)) (iprev (keys s2)) (if as = [] then inext (keys s) k else idle_head s) (as @ bs)
      (if bs = [] then iprev (keys s) k else idle_tail s)"
    by (rule dlist_unlink [OF d]) (use nx pv pn dist assms(5,6) in auto)
  moreover have "idle_head s2 = (if as = [] then inext (keys s) k else idle_head s)"
    "idle_tail s2 = (if bs = [] then iprev (keys s) k else idle_tail s)"
    using h t pn assms(7,8) by (auto simp: last_opt_def hd_opt_def split: list.splits)
  moreover have "inext (keys s2) y = None \<and> iprev (keys s2) y = None" if "y \<notin> set (as @ bs)" for y
    using that sub nx [of y] pv [of y] assms(1,5,6) xs by (auto simp: rlinks_def)
  ultimately have "rlinks s2 (remove1 k xs)"
    using xs e(4) assms(1,9) by (simp add: rlinks_def split del: if_split)
  with e that show ?thesis by blast
qed

lemma idle_link_ok:
  assumes "rkeys (slab s) (keys s) m" and "rlinks s xs" and "m k = Some sl" and "as_presence sl = Idle"
    and "k \<notin> set xs" and "set xs \<subseteq> dom m"
  obtains s' where "idle_link k now s = Some s'" "rkeys (slab s) (keys s') (m(k \<mapsto> sl\<lparr>as_since := now\<rparr>))"
    "rlinks s' (xs @ [k])" "frame s s'"
proof -
  obtain slot where k: "map_of (keys s) k = Some slot" and sl: "sl = abs_slot (slab s) slot"
    using rkeys_Some [OF assms(1,3)] .
  have links: "idle_prev slot = None" "idle_next slot = None"
    using assms(2,5) k by (auto simp: rlinks_def inext_def iprev_def)
  define s1 where "s1 = set_slot k (slot\<lparr>idle_since := now, idle_prev := idle_tail s\<rparr>) s"
  have r1: "rkeys (slab s) (keys s1) (m(k \<mapsto> sl\<lparr>as_since := now\<rparr>))"
    using rkeys_write [OF assms(1) k, of "slot\<lparr>idle_since := now, idle_prev := idle_tail s\<rparr>"] sl
    by (simp add: s1_def)
  define s2 where "s2 = (case idle_tail s of
      Some p \<Rightarrow> set_slot p ((the (map_of (keys s1) p))\<lparr>idle_next := Some k\<rparr>) s1
    | None \<Rightarrow> s1\<lparr>idle_head := Some k\<rparr>)"
  have tl: "idle_tail s = last_opt xs" and len: "idle s = length xs" using assms(2) by (auto simp: rlinks_def dlist_def)
  have tk: "p \<in> set xs" if "idle_tail s = Some p" for p
    using that tl by (auto simp: last_opt_def split: if_splits)
  have pdom: "\<exists>slot. map_of (keys s1) p = Some slot" if "idle_tail s = Some p" for p
    using rkeys_dom [OF r1, of p] tk [OF that] assms(6) by auto
  have e: "idle_link k now s = Some (s2\<lparr>idle_tail := Some k, idle := idle s + 1\<rparr>)"
  proof (cases "idle_tail s")
    case None
    then show ?thesis using k assms(4) sl links by (simp add: idle_link_def s1_def s2_def)
  next
    case (Some p)
    with pdom obtain slot' where "map_of (keys s1) p = Some slot'" by blast
    with Some show ?thesis using k assms(4) sl links by (simp add: idle_link_def s1_def s2_def)
  qed
  have r2: "rkeys (slab s) (keys s2) (m(k \<mapsto> sl\<lparr>as_since := now\<rparr>))"
    using r1 pdom rkeys_relink [OF r1] by (fastforce simp: s2_def split: option.splits)
  have nx: "inext (keys s2) y = (if idle_tail s = Some y then Some k else inext (keys s) y)"
    and pv: "iprev (keys s2) y = (if y = k then idle_tail s else iprev (keys s) y)" for y
  proof -
    have n1: "inext (keys s1) = inext (keys s)" and p1: "iprev (keys s1) = (iprev (keys s))(k := idle_tail s)"
      using k by (auto simp: s1_def inext_def)
    have "inext (keys s2) y = (if idle_tail s = Some y then Some k else inext (keys s1) y) \<and>
        iprev (keys s2) y = iprev (keys s1) y"
    proof (cases "idle_tail s")
      case (Some p)
      with pdom obtain slot' where "map_of (keys s1) p = Some slot'" by blast
      with Some show ?thesis by (auto simp: s2_def iprev_def inext_def update_conv')
    qed (simp add: s2_def)
    then show "inext (keys s2) y = (if idle_tail s = Some y then Some k else inext (keys s) y)"
      "iprev (keys s2) y = (if y = k then idle_tail s else iprev (keys s) y)"
      by (simp_all add: n1 p1)
  qed
  have out: "inext (keys s) y = None \<and> iprev (keys s) y = None" if "y \<notin> set xs" for y
    using assms(2) that by (simp add: rlinks_def)
  have "dlist (inext (keys s2)) (iprev (keys s2)) (if xs = [] then Some k else idle_head s) (xs @ [k]) (Some k)"
    by (rule dlist_append [of "inext (keys s)" "iprev (keys s)" _ _ "idle_tail s"])
      (use assms(2,5) nx pv tk out in \<open>auto simp: rlinks_def\<close>)
  moreover have "idle_head s2 = (if xs = [] then Some k else idle_head s)"
    using tl by (auto simp: s2_def s1_def last_opt_def split: option.splits if_splits)
  moreover have "inext (keys s2) y = None \<and> iprev (keys s2) y = None" if "y \<notin> set (xs @ [k])" for y
    using that out [of y] nx [of y] pv [of y] tk by auto
  ultimately have "rlinks (s2\<lparr>idle_tail := Some k, idle := idle s + 1\<rparr>) (xs @ [k])"
    using len by (simp add: rlinks_def split del: if_split)
  moreover have "frame s (s2\<lparr>idle_tail := Some k, idle := idle s + 1\<rparr>)"
    by (simp add: frame_def s2_def s1_def split: option.splits)
  ultimately show ?thesis using that e r2 by simp
qed

text \<open>Rewriting a slot without its links, and writing a slot that was on no list.\<close>

lemma rlinks_relink:
  assumes "rlinks s xs" and "map_of (keys s) k = Some slot" and "idle_prev slot' = idle_prev slot" "idle_next slot' = idle_next slot"
  shows "rlinks (set_slot k slot' s) xs"
proof -
  have "(inext (keys s))(k := idle_next slot) = inext (keys s)" "(iprev (keys s))(k := idle_prev slot) = iprev (keys s)"
    using assms(2) by (auto simp: inext_def iprev_def)
  with assms show ?thesis by (simp add: rlinks_def)
qed

lemma rlinks_fresh:
  assumes "rlinks s xs" and "k \<notin> set xs" and "idle_prev slot = None" "idle_next slot = None"
  shows "rlinks (set_slot k slot s) xs"
proof -
  have "(inext (keys s))(k := None) = inext (keys s)" "(iprev (keys s))(k := None) = iprev (keys s)"
    using assms(1,2) by (auto simp: rlinks_def)
  with assms show ?thesis by (simp add: rlinks_def)
qed

section \<open>Placing a key\<close>

lemma rkeys_at_front: "rkeys_at k q sl ks m \<Longrightarrow> slab_front sl q = Some (hd_opt (contents sl q))"
  using slab_front_ok [of sl "insert k (dom (map_of ks))" "(kqueue ks)(k := q)" k] by (simp add: rkeys_at_def)

definition aim :: "('p, 's) aslot \<Rightarrow> class_id option" where
  "aim sl = map_option it_class (hd_opt (as_queue sl))"

text \<open>\<open>settle\<close>, the write of the slot and \<open>place\<close> together put the key back.\<close>

lemma settle_place_ok:
  assumes "rkeys_at k (queue slot) (slab s) (keys s) (ac_keys a)" and "rlinks s (ac_idle a)" and "rrest s a"
    and "idle_prev slot = None" "idle_next slot = None" "k \<notin> set (ac_idle a)" "set (ac_idle a) \<subseteq> dom (ac_keys a)"
    and "\<forall>x\<in>set (contents (slab s) (queue slot)). it_class x < length (ac_ready a)"
  obtains slot' s' where "settle (slab s) slot = Some (slot', aim (abs_slot (slab s) slot))"
    "place k (aim (abs_slot (slab s) slot)) now (set_slot k slot' s) = Some s'"
    "refines s' (a_place k (abs_slot (slab s) slot) now a)"
proof -
  let ?sl = "abs_slot (slab s) slot"
  have links: "rlinks (set_slot k (slot\<lparr>presence := p\<rparr>) s) (ac_idle a)" for p
    by (rule rlinks_fresh) (use assms(2,4,5,6) in simp_all)
  have keys: "rkeys (slab s) (keys (set_slot k (slot\<lparr>presence := p\<rparr>) s)) ((ac_keys a)(k \<mapsto> ?sl\<lparr>as_presence := p\<rparr>))" for p
    using rkeys_at_write [of k "slot\<lparr>presence := p\<rparr>" "slab s" "keys s" "ac_keys a"] assms(1) by simp
  note fr = rkeys_at_front [OF assms(1)]
  show ?thesis
  proof (cases "contents (slab s) (queue slot)")
    case Nil
    let ?s1 = "set_slot k (slot\<lparr>presence := Idle\<rparr>) s" and ?m1 = "(ac_keys a)(k \<mapsto> ?sl\<lparr>as_presence := Idle\<rparr>)"
    obtain s' where s': "idle_link k now ?s1 = Some s'"
      "rkeys (slab ?s1) (keys s') (?m1(k \<mapsto> ?sl\<lparr>as_presence := Idle, as_since := now\<rparr>))"
      "rlinks s' (ac_idle a @ [k])" "frame ?s1 s'"
      by (rule idle_link_ok [of ?s1 ?m1 "ac_idle a" k "?sl\<lparr>as_presence := Idle\<rparr>" now])
        (use keys [of Idle] links [of Idle] assms(6,7) in auto)
    have "refines s' (a_place k ?sl now a)"
      using s' Nil assms(3) by (auto simp: refines_def a_place_def rrest_def frame_def)
    then show ?thesis using that [of "slot\<lparr>presence := Idle\<rparr>" s'] s'(1) Nil fr
      by (simp add: settle_def aim_def place_def)
  next
    case (Cons x ys)
    let ?c = "it_class x"
    let ?s1 = "set_slot k (slot\<lparr>presence := Ready ?c\<rparr>) s"
    let ?s' = "?s1\<lparr>ready := (ready s)[?c := ready s ! ?c @ [k]]\<rparr>"
    have "ring_push ?c k ?s1 = Some ?s'"
      using assms(3,8) Cons by (auto simp: ring_push_def rrest_def)
    moreover have "refines ?s' (a_place k ?sl now a)"
      using keys [of "Ready ?c"] links [of "Ready ?c"] Cons assms(3)
      by (simp add: refines_def a_place_def rrest_def rlinks_def)
    ultimately show ?thesis using that [of "slot\<lparr>presence := Ready ?c\<rparr>" ?s'] Cons fr
      by (simp add: settle_def aim_def place_def)
  qed
qed

section \<open>Queues\<close>

lemma rkeys_at_slab:
  assumes "rkeys_at k q sl ks m" and "slab_ok sl' (insert k (dom (map_of ks))) ((kqueue ks)(k := q'))"
    and "\<And>j. j \<in> insert k (dom (map_of ks)) \<Longrightarrow> j \<noteq> k \<Longrightarrow>
      contents sl' (((kqueue ks)(k := q)) j) = contents sl (((kqueue ks)(k := q)) j)"
  shows "rkeys_at k q' sl' ks m"
proof -
  have "map_option (abs_slot sl') (map_of ks j) = map_option (abs_slot sl) (map_of ks j)" if "j \<noteq> k" for j
    using assms(3) [of j] that by (cases "map_of ks j") (auto simp: abs_slot_def kqueue_def)
  with assms(1,2) show ?thesis by (simp add: rkeys_at_def)
qed

lemma rkeys_at_push:
  assumes "rkeys_at k q sl ks m" and "slab_room sl"
  obtains sl' q' where "slab_push_back sl q x = Some (sl', q')" "rkeys_at k q' sl' ks m"
    "contents sl' q' = contents sl q @ [x]" "length (s_nodes sl') = length (s_nodes sl) + (if s_free sl = NIL then 1 else 0)"
proof -
  let ?K = "insert k (dom (map_of ks))" and ?L = "(kqueue ks)(k := q)"
  have ok: "slab_ok sl ?K ?L" using assms(1) by (simp add: rkeys_at_def)
  from slab_push_back_ok [OF ok, of k x] assms(2) obtain sl' q' where r:
    "slab_push_back sl (?L k) x = Some (sl', q')" "slab_ok sl' ?K (?L(k := q'))"
    "contents sl' q' = contents sl (?L k) @ [x]"
    "\<And>j. j \<in> ?K \<Longrightarrow> j \<noteq> k \<Longrightarrow> contents sl' (?L j) = contents sl (?L j)"
    "length (s_nodes sl') = length (s_nodes sl) + (if s_free sl = NIL then 1 else 0)"
    by (metis insertI1)
  have "rkeys_at k q' sl' ks m" by (rule rkeys_at_slab [OF assms(1)]) (use r in auto)
  with r that show ?thesis by simp
qed

lemma rkeys_at_pop:
  assumes "rkeys_at k q sl ks m" and "contents sl q = x # xs"
  obtains sl' q' where "slab_pop_front sl q = Some (sl', q', Some x)" "rkeys_at k q' sl' ks m"
    "contents sl' q' = xs" "length (s_nodes sl') = length (s_nodes sl)"
proof -
  let ?K = "insert k (dom (map_of ks))" and ?L = "(kqueue ks)(k := q)"
  have ok: "slab_ok sl ?K ?L" and c: "contents sl (?L k) = x # xs" using assms by (auto simp: rkeys_at_def)
  from slab_pop_front_ok [OF ok _ c] obtain sl' q' where r:
    "slab_pop_front sl (?L k) = Some (sl', q', Some x)" "slab_ok sl' ?K (?L(k := q'))" "contents sl' q' = xs"
    "\<And>j. j \<in> ?K \<Longrightarrow> j \<noteq> k \<Longrightarrow> contents sl' (?L j) = contents sl (?L j)"
    "length (s_nodes sl') = length (s_nodes sl)"
    by (metis insertI1)
  have "rkeys_at k q' sl' ks m" by (rule rkeys_at_slab [OF assms(1)]) (use r in auto)
  with r that show ?thesis by simp
qed

lemma refines_room:
  assumes "refines s a" and "spec_inv a fl" and "pending s < 2 ^ 32 - 1"
  shows "slab_room (slab s)"
proof -
  have rk: "rkeys (slab s) (keys s) (ac_keys a)" using assms(1) by (simp add: refines_def)
  have d: "dom (map_of (keys s)) = dom (ac_keys a)" using rk by (auto simp: rkeys_def dom_def)
  have "(\<Sum>k\<in>dom (map_of (keys s)). length (contents (slab s) (kqueue (keys s) k))) = ksum queue_len (ac_keys a)"
    unfolding ksum_def d by (rule sum.cong) (auto simp: kqueue_def rkeys_lookup [OF rk])
  moreover have "ksum queue_len (ac_keys a) \<le> pending s"
    using assms(1) pending_eq [OF assms(2)] by (simp add: refines_def rrest_def)
  ultimately show ?thesis using rk assms(3) finite_dom_map_of [of "keys s"]
    by (intro slab_room_iff [of _ "dom (map_of (keys s))" "kqueue (keys s)"]) (auto simp: rkeys_def)
qed

section \<open>Admission\<close>

lemma idle_in_dom: "spec_inv a fl \<Longrightarrow> set (ac_idle a) \<subseteq> dom (ac_keys a)"
  using idle_iff by (fastforce simp: kpres_eq_Some)

lemma a_slot_abs: "rkeys sl ks (ac_keys a) \<Longrightarrow>
    a_slot a k = (case map_of ks k of Some slot \<Rightarrow> abs_slot sl slot | None \<Rightarrow> acold)"
  by (auto simp: a_slot_def rkeys_lookup split: option.splits)

lemma admit_ok:
  assumes ref: "refines s a" and inv: "spec_inv a fl" and c: "ad_class it < a_classes a"
    and room: "pending s < 2 ^ 32 - 1"
  shows "\<exists>s'. admit it s = Some s' \<and> refines s' (a_admit it a)"
proof -
  let ?k = "ad_key it" and ?c = "ad_class it"
  let ?x = "\<lparr>it_class = ?c, it_expires_at = ad_expires_at it, it_payload = ad_payload it\<rparr>"
  let ?slot = "case map_of (keys s) ?k of Some slot \<Rightarrow> slot | None \<Rightarrow> cold"
  have rk: "rkeys (slab s) (keys s) (ac_keys a)" and rl: "rlinks s (ac_idle a)" and rr: "rrest s a"
    using ref by (auto simp: refines_def)
  have cl: "?c < length (max_inflight (cfg s))" "?c < length (ready s)"
    using rr c lengths [OF inv] by (auto simp: rrest_def)
  have at: "rkeys_at ?k (queue ?slot) (slab s) (keys s) (ac_keys a)"
    using rkeys_at_present [OF rk, of ?k] rkeys_at_absent [OF rk, of ?k]
    by (cases "map_of (keys s) ?k") (auto simp: cold_def)
  obtain sl q where push: "slab_push_back (slab s) (queue ?slot) ?x = Some (sl, q)"
    and at': "rkeys_at ?k q sl (keys s) (ac_keys a)" and q: "contents sl q = contents (slab s) (queue ?slot) @ [?x]"
    using rkeys_at_push [OF at refines_room [OF ref inv room]] by metis
  have asl: "a_slot a ?k = abs_slot (slab s) ?slot" using a_slot_abs [OF rk, of ?k] by (auto split: option.splits)
  show ?thesis
  proof (cases "presence ?slot = Idle")
    case False
    then obtain slot where k: "map_of (keys s) ?k = Some slot" and p: "presence slot \<noteq> Idle"
      by (auto simp: cold_def split: option.splits)
    let ?s = "(set_slot ?k (slot\<lparr>queue := q\<rparr>) (s\<lparr>pending := pending s + 1\<rparr>))\<lparr>slab := sl\<rparr>"
    have "admit it s = Some ?s" using k p cl push by (cases "presence slot") (simp_all add: admit_def)
    moreover have "rlinks ?s (ac_idle a)" using rlinks_relink [OF rl k] by (simp add: rlinks_def)
    moreover have "rkeys sl (keys ?s) ((ac_keys a)(?k \<mapsto> abs_slot sl (slot\<lparr>queue := q\<rparr>)))"
      using rkeys_at_write [of ?k "slot\<lparr>queue := q\<rparr>" sl "keys s" "ac_keys a"] at' by simp
    ultimately show ?thesis using rr p k q asl
      by (intro exI [of _ ?s]) (simp add: refines_def rrest_def a_admit_def abs_slot_def Let_def)
  next
    case idle: True
    show ?thesis
    proof (cases "map_of (keys s) ?k")
      case None
      let ?s = "(set_slot ?k (cold\<lparr>queue := q, presence := Ready ?c\<rparr>) (s\<lparr>pending := pending s + 1\<rparr>))
        \<lparr>slab := sl, ready := (ready s)[?c := ready s ! ?c @ [?k]]\<rparr>"
      have "admit it s = Some ?s" using None cl push by (simp add: admit_def cold_def ring_push_def Let_def)
      moreover have ni: "?k \<notin> set (ac_idle a)"
        using idle_in_dom [OF inv] rkeys_lookup [OF rk, of ?k] None by (auto simp: domIff)
      moreover have "rlinks ?s (ac_idle a)" using rlinks_fresh [OF rl ni, of cold] by (simp add: rlinks_def cold_def)
      moreover have "rkeys sl (keys ?s) ((ac_keys a)(?k \<mapsto> abs_slot sl (cold\<lparr>queue := q, presence := Ready ?c\<rparr>)))"
        using rkeys_at_write [of ?k "cold\<lparr>queue := q, presence := Ready ?c\<rparr>" sl "keys s" "ac_keys a"] at' by simp
      ultimately show ?thesis using rr None q asl
        by (intro exI [of _ ?s])
          (simp add: refines_def rrest_def a_admit_def Let_def abs_slot_def acold_def cold_def remove1_idem)
    next
      case (Some slot)
      let ?slot = "slot\<lparr>queue := q, presence := Ready ?c, idle_prev := None, idle_next := None\<rparr>"
      let ?s1 = "(set_slot ?k ?slot (s\<lparr>pending := pending s + 1\<rparr>))\<lparr>slab := sl, idle := idle s - 1\<rparr>"
      have k1: "rkeys sl (keys ?s1) ((ac_keys a)(?k \<mapsto> abs_slot sl ?slot))"
        using rkeys_at_write [of ?k ?slot sl "keys s" "ac_keys a"] at' by simp
      have mem: "?k \<in> set (ac_idle a)"
        using idle_iff [OF inv, of ?k] rkeys_lookup [OF rk, of ?k] Some idle by (simp add: kpres_def)
      have dm: "set (ac_idle a) \<subseteq> dom ((ac_keys a)(?k \<mapsto> abs_slot sl ?slot))" using idle_in_dom [OF inv] by auto
      obtain s2 where p2: "idle_patch (iprev (keys s) ?k) (inext (keys s) ?k) ?s1 = Some s2"
        "rkeys (slab ?s1) (keys s2) ((ac_keys a)(?k \<mapsto> abs_slot sl ?slot))" "rlinks s2 (remove1 ?k (ac_idle a))" "frame ?s1 s2"
        by (rule unlink_ok [OF rl mem dm, of ?s1]) (use k1 in simp_all)
      have "idle s \<noteq> 0" using rl mem by (auto simp: rlinks_def)
      then have "admit it s = ring_push ?c ?k s2"
        using Some idle cl push p2(1) by (simp add: admit_def detach_def iprev_def inext_def)
      moreover have "slab s2 = sl" "ready s2 = ready s" using p2(4) by (simp_all add: frame_def)
      ultimately show ?thesis using cl rr p2(2,3,4) Some q asl idle
        by (simp add: ring_push_def refines_def rrest_def frame_def a_admit_def Let_def rlinks_def abs_slot_def)
    qed
  qed
qed

section \<open>Dispatch\<close>

lemma next_head_ok:
  assumes "rkeys_at k q sl ks m" and "contents sl q = xs" and "length (takeWhile (stale c now) xs) \<le> pend"
  shows "\<exists>sl' q'. next_head k c now sl q pend exps =
      Some (sl', q', pend - length (takeWhile (stale c now) xs),
            exps @ map (\<lambda>x. (k, it_class x, it_payload x)) (takeWhile (stale c now) xs),
            case dropWhile (stale c now) xs of [] \<Rightarrow> None | x # _ \<Rightarrow> if it_class x = c then Some x else None) \<and>
    rkeys_at k q' sl' ks m \<and>
    contents sl' q' = (case dropWhile (stale c now) xs of [] \<Rightarrow> [] | x # ys \<Rightarrow> if it_class x = c then ys else x # ys)"
  using assms
proof (induction xs arbitrary: sl q pend exps)
  case Nil
  then show ?case using rkeys_at_front [OF Nil(1)] by (simp add: next_head.simps [of k c now sl q])
next
  case (Cons x xs)
  note fr = rkeys_at_front [OF Cons.prems(1)]
  show ?case
  proof (cases "it_class x = c")
    case False
    then show ?thesis using fr Cons.prems by (simp add: next_head.simps [of k c now sl q] stale_def)
  next
    case c: True
    obtain sl' q' where pop: "slab_pop_front sl q = Some (sl', q', Some x)" "rkeys_at k q' sl' ks m" "contents sl' q' = xs"
      using rkeys_at_pop [OF Cons.prems(1,2)] by metis
    show ?thesis
    proof (cases "is_expired now x")
      case False
      then show ?thesis using fr Cons.prems(2) c pop by (simp add: next_head.simps [of k c now sl q] stale_def)
    next
      case True
      then have st: "stale c now x" using c by (simp add: stale_def)
      then have "length (takeWhile (stale c now) xs) \<le> pend - 1" "pend \<noteq> 0" using Cons.prems(3) by auto
      then show ?thesis
        using Cons.IH [OF pop(2,3), of "pend - 1" "exps @ [(k, it_class x, it_payload x)]"] fr Cons.prems(2) c pop(1) True st
        by (simp add: next_head.simps [of k c now sl q])
    qed
  qed
qed

lemma refines_slot:
  assumes "refines s a" and "ac_keys a k = Some asl"
  obtains slot where "map_of (keys s) k = Some slot" "asl = abs_slot (slab s) slot" "a_slot a k = abs_slot (slab s) slot"
    "rkeys_at k (queue slot) (slab s) (keys s) (ac_keys a)"
  using assms rkeys_Some [of "slab s" "keys s" "ac_keys a" k asl] rkeys_at_present
  by (metis a_slot_simps(1) refines_def)

lemma unlisted:
  assumes "refines s a" and "map_of (keys s) k = Some slot" and "k \<notin> set (ac_idle a)"
  shows "idle_prev slot = None" "idle_next slot = None"
  using assms by (auto simp: refines_def rlinks_def inext_def iprev_def)

text \<open>One turn of the loop in \<open>next\<close>, on either branch.\<close>

lemma next_turn_ok:
  assumes ref: "refines s a" and inv: "spec_inv a fl" and c: "c < a_classes a" and front: "ac_ready a ! c = k # rest"
  shows "if serves c (a_left k c now a)
    then \<exists>s'. next_loop c now s = Some (s', Some (snd (a_dispatch k c (a_left k c now a) (a_shed k c now rest a)))) \<and>
         refines s' (fst (a_dispatch k c (a_left k c now a) (a_shed k c now rest a)))
    else \<exists>s'. next_loop c now s = next_loop c now s' \<and>
         refines s' (a_place k (a_left k c now a) now (a_shed k c now rest a))"
proof -
  let ?left = "a_left k c now a" and ?a = "a_shed k c now rest a"
  have rl: "rlinks s (ac_idle a)" and rr: "rrest s a" using ref by (auto simp: refines_def)
  have "pres a k = Some (Ready c)" using ring_iff [OF inv, of k c] c front by auto
  then obtain asl where kasl: "ac_keys a k = Some asl" and pr: "as_presence asl = Ready c" by (auto simp: kpres_eq_Some)
  then have ni: "k \<notin> set (ac_idle a)" using idle_iff [OF inv, of k] by (auto simp: kpres_Some)
  obtain slot where k: "map_of (keys s) k = Some slot" and sl: "asl = abs_slot (slab s) slot"
      "a_slot a k = abs_slot (slab s) slot" and at: "rkeys_at k (queue slot) (slab s) (keys s) (ac_keys a)"
    using refines_slot [OF ref kasl] .
  let ?xs = "contents (slab s) (queue slot)"
  have "length (takeWhile (stale c now) ?xs) \<le> pending s"
    using ksum_del [OF keys_finite [OF inv], of queue_len k] kasl pending_eq [OF inv] sl rr
      length_takeWhile_le [of "stale c now" ?xs] by (simp add: rrest_def)
  from next_head_ok [OF at refl this, of "expired s"] obtain sl' q' where
    nh: "next_head k c now (slab s) (queue slot) (pending s) (expired s) =
      Some (sl', q', pending s - length (takeWhile (stale c now) ?xs),
            expired s @ map (\<lambda>x. (k, it_class x, it_payload x)) (takeWhile (stale c now) ?xs),
            case dropWhile (stale c now) ?xs of [] \<Rightarrow> None | x # _ \<Rightarrow> if it_class x = c then Some x else None)"
    and at': "rkeys_at k q' sl' (keys s) (ac_keys a)"
    and q': "contents sl' q' = (case dropWhile (stale c now) ?xs of [] \<Rightarrow> [] | x # ys \<Rightarrow> if it_class x = c then ys else x # ys)"
    by blast
  have cl: "c < length (ready s)" "ready s ! c = k # rest" using rr c front lengths [OF inv] by (auto simp: rrest_def)
  let ?s2 = "s\<lparr>ready := (ready s)[c := rest], slab := sl', pending := pending s - length (takeWhile (stale c now) ?xs),
    expired := expired s @ map (\<lambda>x. (k, it_class x, it_payload x)) (takeWhile (stale c now) ?xs)\<rparr>"
  have rr2: "rrest ?s2 ?a" and rl2: "rlinks ?s2 (ac_idle ?a)"
    using rr rl sl by (auto simp: rrest_def rlinks_def a_shed_def Let_def)
  have lq: "as_queue ?left = dropWhile (stale c now) ?xs" using sl by (simp add: a_left_def)
  show ?thesis
  proof (cases "serves c ?left")
    case True
    then obtain x ys where d: "dropWhile (stale c now) ?xs = x # ys" "it_class x = c"
      unfolding serves_def lq by (metis list.collapse)
    let ?slot = "slot\<lparr>queue := q', presence := InFlight, resident := None\<rparr>"
    let ?s' = "(set_slot k ?slot ?s2)\<lparr>inflight := (inflight s)[c := inflight s ! c + 1]\<rparr>"
    have "next_loop c now s = Some (?s', Some (snd (a_dispatch k c ?left ?a)))"
      using cl k nh d lq sl by (simp add: next_loop.simps [of c now s] a_dispatch_def a_left_def)
    moreover have "rlinks ?s' (ac_idle a)"
      using rlinks_relink [OF rl2, of k slot ?slot] k by (simp add: rlinks_def)
    moreover have "rkeys sl' (keys ?s') ((ac_keys a)(k \<mapsto> abs_slot sl' ?slot))"
      using rkeys_at_write [of k ?slot sl' "keys s" "ac_keys a"] at' by simp
    moreover have "abs_slot sl' ?slot = ?left\<lparr>as_queue := tl (as_queue ?left), as_presence := InFlight, as_resident := None\<rparr>"
      using q' d lq sl by (simp add: abs_slot_def a_left_def)
    ultimately show ?thesis using True rr2 by (auto simp: refines_def rrest_def a_dispatch_def)
  next
    case False
    let ?slot = "slot\<lparr>queue := q'\<rparr>"
    have cont: "contents sl' q' = dropWhile (stale c now) ?xs" and
      none: "(case dropWhile (stale c now) ?xs of [] \<Rightarrow> None | x # _ \<Rightarrow> if it_class x = c then Some x else None) = None"
      using False q' lq by (cases "dropWhile (stale c now) ?xs"; simp add: serves_def del: dropWhile_eq_Nil_conv)+
    have left: "abs_slot sl' ?slot = ?left" using cont sl by (simp add: abs_slot_def a_left_def)
    have idle: "idle_prev slot = None" "idle_next slot = None" using unlisted [OF ref k ni] by auto
    have "it_class x < length (ac_ready a)" if "x \<in> set (contents sl' q')" for x
      using that cont slot_classes [OF inv kasl] lengths [OF inv] sl by (auto dest: set_dropWhileD)
    then obtain slot' s' where "settle sl' ?slot = Some (slot', aim ?left)"
      "place k (aim ?left) now (set_slot k slot' ?s2) = Some s'" "refines s' (a_place k ?left now ?a)"
      using settle_place_ok [of k ?slot ?s2 ?a now] at' rl2 rr2 idle ni idle_in_dom [OF inv] left by auto
    moreover have "aim ?left \<noteq> Some c" using False by (auto simp: aim_def serves_def hd_opt_Some)
    ultimately have "next_loop c now s = next_loop c now s'"
      using cl k nh none by (simp add: next_loop.simps [of c now s])
    with False \<open>refines s' _\<close> show ?thesis by auto
  qed
qed

lemma next_loop_ok:
  assumes "refines s a" and "spec_inv a fl" and "c < a_classes a"
    and "ac_inflight a ! c < max_inflight (ac_cfg a) ! c"
  shows "\<exists>s'. next_loop c now s = Some (s', snd (a_next_loop c now a)) \<and> refines s' (fst (a_next_loop c now a))"
  using assms
proof (induction c now a arbitrary: s rule: a_next_loop.induct)
  case (1 c now a)
  note ref = "1.prems"(1) and inv = "1.prems"(2) and c = "1.prems"(3)
  have len: "c < length (ac_ready a)" using lengths [OF inv] c by simp
  show ?case
  proof (cases "ac_ready a ! c")
    case Nil
    then show ?thesis using ref len
      by (simp add: a_next_loop.simps [of c now a] next_loop.simps [of c now s] refines_def rrest_def)
  next
    case (Cons k rest)
    let ?sl = "a_left k c now a" and ?a = "a_shed k c now rest a"
    note turn = next_turn_ok [OF ref inv c Cons, of now]
    show ?thesis
    proof (cases "serves c ?sl")
      case True
      then show ?thesis using turn len Cons by (simp add: a_next_loop.simps [of c now a] Let_def)
    next
      case False
      then obtain s' where "next_loop c now s = next_loop c now s'" "refines s' (a_place k ?sl now ?a)"
        using turn by auto
      moreover have "a_next_loop c now a = a_next_loop c now (a_place k ?sl now ?a)"
        using len Cons False by (simp add: a_next_loop.simps [of c now a] Let_def)
      ultimately show ?thesis
        using "1.IH" [OF len Cons refl refl False _ a_requeue_inv [OF inv c Cons]] "1.prems"(3,4) by simp
    qed
  qed
qed

lemma next_dispatch_ok:
  assumes "refines s a" and "spec_inv a fl" and "c < a_classes a"
  shows "\<exists>s'. next_dispatch c now s = Some (s', snd (a_next c now a)) \<and> refines s' (fst (a_next c now a))"
proof -
  have "c < length (inflight s)" "c < length (max_inflight (cfg s))" "inflight s = ac_inflight a" "cfg s = ac_cfg a"
    using assms lengths [OF assms(2)] by (auto simp: refines_def rrest_def)
  then show ?thesis using next_loop_ok [OF assms, of now] assms(1) by (simp add: next_dispatch_def a_next_def)
qed

lemma pop_expired_ok:
  "refines s a \<Longrightarrow> snd (pop_expired s) = snd (a_pop_expired a) \<and> refines (fst (pop_expired s)) (fst (a_pop_expired a))"
  by (auto simp: refines_def rrest_def rlinks_def pop_expired_def a_pop_expired_def split: list.splits)

section \<open>Completion\<close>

lemma refines_place:
  assumes "refines s a" and "spec_inv a0 fl" and "ac_idle a = ac_idle a0" "ac_keys a = ac_keys a0"
    "ac_cfg a = ac_cfg a0" "ac_ready a = ac_ready a0"
    and "ac_keys a k = Some asl" and "map_of (keys s) k = Some slot" and "k \<notin> set (ac_idle a)" and "queue slot' = queue slot"
    and "idle_prev slot' = idle_prev slot" "idle_next slot' = idle_next slot"
  obtains slot'' s' where "settle (slab s) slot' = Some (slot'', aim (abs_slot (slab s) slot'))"
    "place k (aim (abs_slot (slab s) slot')) now (set_slot k slot'' s) = Some s'"
    "refines s' (a_place k (abs_slot (slab s) slot') now a)"
proof -
  have "asl = abs_slot (slab s) slot" using assms(1,7,8) by (auto simp: refines_def rkeys_lookup)
  then have "\<forall>x\<in>set (contents (slab s) (queue slot')). it_class x < length (ac_ready a)"
    using slot_classes [OF assms(2), of k asl] assms lengths [OF assms(2)] by simp
  moreover have "rkeys_at k (queue slot') (slab s) (keys s) (ac_keys a)"
    using assms(1,8,10) rkeys_at_present by (metis refines_def)
  ultimately show ?thesis
    using settle_place_ok [of k slot' s a now] that assms unlisted [OF assms(1,8,9)] idle_in_dom [OF assms(2)]
    by (metis refines_def)
qed

lemma complete_ok:
  assumes ref: "refines s a" and inv: "spec_inv a fl" and fl: "fl (co_key c) = Some (co_class c)"
  shows "\<exists>s'. complete c now s = Some s' \<and> refines s' (a_complete c now a)"
proof -
  let ?k = "co_key c" and ?c = "co_class c"
  obtain asl where k: "ac_keys a ?k = Some asl" and p: "as_presence asl = InFlight"
    using flight_iff [OF inv, of ?k] fl by (auto simp: kpres_eq_Some)
  have ni: "?k \<notin> set (ac_idle a)" using idle_iff [OF inv, of ?k] k p by (auto simp: kpres_Some)
  obtain slot where ks: "map_of (keys s) ?k = Some slot" "asl = abs_slot (slab s) slot" "a_slot a ?k = abs_slot (slab s) slot"
    using refines_slot [OF ref k] by metis
  let ?s1 = "s\<lparr>inflight := (inflight s)[?c := inflight s ! ?c - 1], pending := pending s - 1\<rparr>"
  let ?a1 = "a\<lparr>ac_inflight := (ac_inflight a)[?c := ac_inflight a ! ?c - 1], ac_pending := ac_pending a - 1\<rparr>"
  let ?slot = "slot\<lparr>resident := into_option (co_state c)\<rparr>"
  have r1: "refines ?s1 ?a1" using ref by (simp add: refines_def rrest_def rlinks_def)
  obtain slot' s' where "settle (slab s) ?slot = Some (slot', aim (abs_slot (slab s) ?slot))"
      "place ?k (aim (abs_slot (slab s) ?slot)) now (set_slot ?k slot' ?s1) = Some s'"
      "refines s' (a_place ?k (abs_slot (slab s) ?slot) now ?a1)"
    using refines_place [OF r1 inv, of ?k asl slot ?slot now] k ks ni by auto
  moreover have "?c < length (inflight s)" "inflight s ! ?c \<noteq> 0" "pending s \<noteq> 0"
    using completing [OF inv fl] ref lengths [OF inv] by (auto simp: refines_def rrest_def)
  ultimately show ?thesis using ks p by (simp add: complete_def a_complete_def Let_def)
qed

section \<open>Eviction\<close>

lemma finish_evict_ok:
  assumes ref: "refines s a" and inv: "spec_inv a fl" and ev: "pres a k = Some Evicting"
  shows "\<exists>s'. finish_evict k now s = Some s' \<and> refines s' (a_finish_evict k now a)"
proof -
  obtain asl where k: "ac_keys a k = Some asl" and p: "as_presence asl = Evicting" using ev by (auto simp: kpres_eq_Some)
  have ni: "k \<notin> set (ac_idle a)" using idle_iff [OF inv, of k] ev by auto
  obtain slot where ks: "map_of (keys s) k = Some slot" "asl = abs_slot (slab s) slot" "a_slot a k = abs_slot (slab s) slot"
    using refines_slot [OF ref k] by metis
  let ?s1 = "s\<lparr>evicting := evicting s - 1\<rparr>" and ?a1 = "a\<lparr>ac_evicting := ac_evicting a - 1\<rparr>"
  have r1: "refines ?s1 ?a1" using ref by (simp add: refines_def rrest_def rlinks_def)
  have ev0: "evicting s \<noteq> 0"
    using ksum_del [OF keys_finite [OF inv], of is_evicting k] k p evicting_eq [OF inv] ref
    by (simp add: is_evicting_def refines_def rrest_def)
  have emp: "list_is_empty (queue slot) \<longleftrightarrow> as_queue asl = []"
    using slab_ok_is_empty [of "slab s" "dom (map_of (keys s))" "kqueue (keys s)" k] ref ks
    by (simp add: refines_def rkeys_def kqueue_def domI)
  show ?thesis
  proof (cases "as_queue asl = []")
    case True
    have "rkeys (slab s) (AList.delete k (keys s)) ((ac_keys a)(k := None))"
      using rkeys_erase [of "slab s" "keys s" "ac_keys a" k slot] ref ks True by (simp add: refines_def)
    moreover have "rlinks (s\<lparr>keys := AList.delete k (keys s)\<rparr>) (ac_idle a)"
      using ref ni links_delete [of "keys s" k] by (auto simp: refines_def rlinks_def)
    ultimately show ?thesis using True emp ks p ev0 ref
      by (simp add: finish_evict_def a_finish_evict_def Let_def refines_def rrest_def rlinks_def)
  next
    case False
    obtain slot' s' where "settle (slab s) slot = Some (slot', aim (abs_slot (slab s) slot))"
        "place k (aim (abs_slot (slab s) slot)) now (set_slot k slot' ?s1) = Some s'"
        "refines s' (a_place k (abs_slot (slab s) slot) now ?a1)"
      using refines_place [OF r1 inv, of k asl slot slot now] k ks ni by auto
    then show ?thesis using False emp ks p ev0 by (simp add: finish_evict_def a_finish_evict_def Let_def)
  qed
qed

lemma idle_head_ok: "refines s a \<Longrightarrow> idle_head s = hd_opt (ac_idle a)"
  by (auto simp: refines_def rlinks_def dlist_def dest: chain_hd)

text \<open>Unlinking the head of the idle list and releasing it.\<close>

lemma unlink_release_ok:
  assumes ref: "refines s a" and inv: "spec_inv a fl" and ne: "ac_idle a = k # rest"
  shows "\<exists>s1 s2. idle_unlink_head s = Some s1 \<and> release k out s1 = Some (s2, out @ a_flushed k a) \<and>
    refines s2 (a_release k rest a)"
proof -
  have rk: "rkeys (slab s) (keys s) (ac_keys a)" and rl: "rlinks s (ac_idle a)" using ref by (auto simp: refines_def)
  obtain asl where kasl: "ac_keys a k = Some asl" and p: "as_presence asl = Idle"
    using idle_iff [OF inv, of k] ne by (auto simp: kpres_eq_Some)
  obtain slot where ks: "map_of (keys s) k = Some slot" "asl = abs_slot (slab s) slot" "a_slot a k = abs_slot (slab s) slot"
    using refines_slot [OF ref kasl] by metis
  have q: "contents (slab s) (queue slot) = []" using slot_okD [OF inv kasl] p ks by simp
  let ?slot = "slot\<lparr>idle_prev := None, idle_next := None\<rparr>"
  let ?s0 = "(set_slot k ?slot s)\<lparr>idle := idle s - 1\<rparr>"
  have r0: "rkeys (slab ?s0) (keys ?s0) (ac_keys a)" using rkeys_relink [OF rk ks(1), of ?slot] by simp
  obtain s1 where u: "idle_patch (iprev (keys s) k) (inext (keys s) k) ?s0 = Some s1"
    "rkeys (slab ?s0) (keys s1) (ac_keys a)" "rlinks s1 (remove1 k (ac_idle a))" "frame ?s0 s1"
    by (rule unlink_ok [OF rl _ idle_in_dom [OF inv], of k ?s0]) (use ne r0 in simp_all)
  have pv: "iprev (keys s) k = None" using rl ne by (simp add: rlinks_def dlist_def)
  have hd: "idle_head s = Some k" "idle s \<noteq> 0" using idle_head_ok [OF ref] ne rl by (auto simp: rlinks_def)
  have e: "idle_unlink_head s = Some s1"
    using u(1) pv hd ks(1) by (simp add: idle_unlink_head_def detach_def iprev_def inext_def)
  have sl1: "slab s1 = slab s" using u(4) by (simp add: frame_def)
  obtain slot1 where k1: "map_of (keys s1) k = Some slot1" "asl = abs_slot (slab s) slot1"
    using rkeys_Some [of "slab s" "keys s1" "ac_keys a" k asl] u(2) kasl by auto
  have nl: "k \<notin> set rest" "remove1 k (ac_idle a) = rest" using idle_distinct [OF inv] ne by auto
  show ?thesis
  proof (cases "as_resident asl")
    case None
    have "rkeys (slab s) (AList.delete k (keys s1)) ((ac_keys a)(k := None))"
      using rkeys_erase [of "slab s" "keys s1" "ac_keys a" k slot1] u(2) k1 q ks(2) by (simp add: abs_slot_def)
    moreover have "rlinks (s1\<lparr>keys := AList.delete k (keys s1)\<rparr>) rest"
      using u(3) nl links_delete [of "keys s1" k] by (auto simp: rlinks_def)
    ultimately show ?thesis using None e k1 ks p ref u(4) kasl
      by (simp add: release_def a_release_def a_flushed_def Let_def refines_def rrest_def frame_def)
  next
    case (Some st)
    let ?slot1 = "slot1\<lparr>resident := None, presence := Evicting\<rparr>"
    have "rkeys (slab s) (AList.update k ?slot1 (keys s1)) ((ac_keys a)(k \<mapsto> abs_slot (slab s) ?slot1))"
      using rkeys_write [of "slab s" "keys s1" "ac_keys a" k slot1 ?slot1] u(2) k1 by simp
    moreover have "rlinks (set_slot k ?slot1 s1) rest" using rlinks_relink [of s1 rest k slot1 ?slot1] u(3) nl k1 by simp
    ultimately show ?thesis using Some e k1 p ref u(4) kasl
      by (simp add: release_def a_release_def a_flushed_def Let_def refines_def rrest_def frame_def rlinks_def)
  qed
qed

lemma evicting_bound: "spec_inv a fl \<Longrightarrow> ac_evicting a \<le> card (dom (ac_keys a))"
proof -
  assume i: "spec_inv a fl"
  have "ksum is_evicting (ac_keys a) \<le> (\<Sum>k\<in>dom (ac_keys a). 1)"
    unfolding ksum_def by (rule sum_mono) (auto simp: is_evicting_def)
  then show ?thesis using evicting_eq [OF i] by simp
qed

lemma evict_loop_ok:
  assumes "refines s a" and "spec_inv a fl"
  shows "\<exists>s'. evict_loop n now s out = Some (s', out @ snd (a_evict_loop n now a)) \<and> refines s' (fst (a_evict_loop n now a))"
  using assms
proof (induction n arbitrary: s a out)
  case (Suc n)
  note ref = Suc.prems(1) and inv = Suc.prems(2)
  show ?case
  proof (cases "ac_idle a")
    case Nil
    then show ?thesis using ref idle_head_ok [OF ref] by simp
  next
    case (Cons k rest)
    obtain asl where kasl: "ac_keys a k = Some asl" using idle_iff [OF inv, of k] Cons by (auto simp: kpres_eq_Some)
    obtain slot where ks: "map_of (keys s) k = Some slot" "a_slot a k = abs_slot (slab s) slot"
      using refines_slot [OF ref kasl] by metis
    have len: "length (keys s) = card (dom (ac_keys a))" "\<not> length (keys s) < evicting s"
      "cfg s = ac_cfg a" "evicting s = ac_evicting a"
      using ref rkeys_length [of "slab s" "keys s"] evicting_bound [OF inv] by (auto simp: refines_def rrest_def)
    have hd: "idle_head s = Some k" using idle_head_ok [OF ref] Cons by simp
    show ?thesis
    proof (cases "a_evictable now k a")
      case False
      then show ?thesis using Cons hd ks len ref by (auto simp: a_evictable_def split: option.splits)
    next
      case True
      obtain s1 s2 where u: "idle_unlink_head s = Some s1" "release k out s1 = Some (s2, out @ a_flushed k a)"
        "refines s2 (a_release k rest a)"
        using unlink_release_ok [OF ref inv Cons] by blast
      have "evict_loop (Suc n) now s out = evict_loop n now s2 (out @ a_flushed k a)"
        using True hd ks len u by (auto simp: a_evictable_def split: option.splits)
      then show ?thesis
        using Suc.IH [OF u(3) a_release_inv [OF inv Cons], of "out @ a_flushed k a"] True Cons by auto
    qed
  qed
qed simp

lemma evict_ok:
  assumes "refines s a" and "spec_inv a fl"
  shows "\<exists>s'. evict now out s = Some (s', out @ snd (a_evict now a)) \<and> refines s' (fst (a_evict now a))"
  using evict_loop_ok [OF assms, of "evict_iters (ac_cfg a)" now out] assms(1)
  by (simp add: evict_def a_evict_def refines_def rrest_def)

lemma evict_all_ok:
  assumes "refines s a" and "spec_inv a fl"
  shows "\<exists>s'. evict_all out s = Some (s', out @ snd (a_evict_all a)) \<and> refines s' (fst (a_evict_all a))"
proof -
  have "\<exists>s'. evict_all out s = Some (s', out @ snd (a_evict_list ks a)) \<and> refines s' (fst (a_evict_list ks a))"
    if "ac_idle a = ks" "refines s a" "spec_inv a fl" for ks
    using that
  proof (induction ks arbitrary: s a out)
    case Nil
    then show ?case using idle_head_ok [OF Nil(2)] by (simp add: evict_all.simps [of out s])
  next
    case (Cons k ks)
    obtain s1 s2 where u: "idle_unlink_head s = Some s1" "release k out s1 = Some (s2, out @ a_flushed k a)"
      "refines s2 (a_release k ks a)"
      using unlink_release_ok [OF Cons.prems(2,3,1)] by blast
    have "ac_idle (a_release k ks a) = ks" by (simp add: a_release_def Let_def)
    moreover have "evict_all out s = evict_all (out @ a_flushed k a) s2"
      using u idle_head_ok [OF Cons.prems(2)] Cons.prems(1) by (simp add: evict_all.simps [of out s])
    ultimately show ?case
      using Cons.IH [OF _ u(3) a_release_inv [OF Cons.prems(3,1)], of "out @ a_flushed k a"] by auto
  qed
  from this [OF refl assms] show ?thesis by (simp add: a_evict_all_def)
qed

lemma new_ok: "refines (new c) (a_new c)"
  by (auto simp: refines_def new_def a_new_def rkeys_def rlinks_def rrest_def dlist_def inext_def iprev_def
      slab_ok_new last_opt_def)

section \<open>The self check\<close>

lemma total_map_of: "distinct (map fst ks) \<Longrightarrow> total f ks = ksum f (map_of ks)"
proof (induction ks)
  case (Cons kv ks)
  then have "map_of ks (fst kv) = None" by (simp add: map_of_eq_None_iff)
  then show ?case using Cons ksum_upd [OF finite_dom_map_of [of ks], of f "fst kv" "snd kv"]
    by (cases kv) (simp add: fun_upd_def)
qed (simp add: ksum_def)

lemma total_ksum:
  assumes "rkeys sl ks m" and "\<And>k slot. map_of ks k = Some slot \<Longrightarrow> f slot = g (abs_slot sl slot)"
  shows "total f ks = ksum g m"
proof -
  have "dom m = dom (map_of ks)" using assms(1) by (auto simp: rkeys_def dom_def)
  then have "ksum g m = ksum f (map_of ks)"
    unfolding ksum_def by (auto intro!: sum.cong simp: rkeys_lookup [OF assms(1)] assms(2))
  then show ?thesis using total_map_of [of ks f] assms(1) by (simp add: rkeys_def)
qed

lemma ksum_card: "finite (dom m) \<Longrightarrow> ksum (\<lambda>v. if P v then 1 else 0) m = card {k. \<exists>v. m k = Some v \<and> P v}"
proof -
  assume "finite (dom m)"
  then have "ksum (\<lambda>v. if P v then 1 else 0) m = card {k \<in> dom m. P (the (m k))}"
    unfolding ksum_def by (simp add: sum.If_cases Int_def)
  also have "{k \<in> dom m. P (the (m k))} = {k. \<exists>v. m k = Some v \<and> P v}" by auto
  finally show ?thesis .
qed

lemma count_presence_ok:
  assumes "refines s a" and "spec_inv a fl"
  shows "count_presence P s = card {k. \<exists>p. pres a k = Some p \<and> P p}"
proof -
  have rk: "rkeys (slab s) (keys s) (ac_keys a)" using assms(1) by (simp add: refines_def)
  have "count_presence P s = ksum (\<lambda>asl. if P (as_presence asl) then 1 else 0) (ac_keys a)"
    unfolding count_presence_def by (rule total_ksum [OF rk]) simp
  also have "\<dots> = card {k. \<exists>p. pres a k = Some p \<and> P p}"
    unfolding ksum_card [OF keys_finite [OF assms(2)]] by (rule arg_cong [of _ _ card]) (auto simp: kpres_def)
  finally show ?thesis .
qed

lemma sum_list_nth: "sum_list (map f xs) = (\<Sum>i<length xs. f (xs ! i))" for f :: "'a \<Rightarrow> nat"
  by (induction xs rule: rev_induct) (simp_all add: nth_append)

lemma flying_total: "spec_inv a fl \<Longrightarrow> sum_list (ac_inflight a) = card (dom fl)"
proof -
  assume inv: "spec_inv a fl"
  have fin: "finite {k. fl k = Some c}" for c
    using spec_inv_finite [OF inv] by (auto intro: rev_finite_subset [of "dom fl"])
  have "sum_list (ac_inflight a) = (\<Sum>c<a_classes a. card {k. fl k = Some c})"
    using sum_list_nth [of "\<lambda>n. n" "ac_inflight a"] lengths [OF inv] flight_count [OF inv] by simp
  also have "\<dots> = card (\<Union>c<a_classes a. {k. fl k = Some c})"
    by (rule card_UN_disjoint [symmetric]) (use fin in auto)
  also have "(\<Union>c<a_classes a. {k. fl k = Some c}) = dom fl" using flight_class [OF inv] by auto
  finally show ?thesis .
qed

lemma ready_total:
  assumes inv: "spec_inv a fl"
  shows "sum_list (map length (ac_ready a)) = card {k. \<exists>c. pres a k = Some (Ready c)}"
proof -
  have "sum_list (map length (ac_ready a)) = (\<Sum>c<a_classes a. card (set (ac_ready a ! c)))"
    using sum_list_nth [of length "ac_ready a"] lengths [OF inv] ring_distinct [OF inv] by (simp add: distinct_card)
  also have "\<dots> = card (\<Union>c<a_classes a. set (ac_ready a ! c))"
  proof (rule card_UN_disjoint [symmetric])
    show "\<forall>c\<in>{..<a_classes a}. \<forall>c'\<in>{..<a_classes a}. c \<noteq> c' \<longrightarrow> set (ac_ready a ! c) \<inter> set (ac_ready a ! c') = {}"
      using ring_iff [OF inv] by (metis disjoint_iff lessThan_iff option.inject presence.inject)
  qed auto
  also have "(\<Union>c<a_classes a. set (ac_ready a ! c)) = {k. \<exists>c. pres a k = Some (Ready c)}"
    using ring_iff [OF inv] by auto
  finally show ?thesis .
qed

lemma check_all_ok: "(\<And>x. x \<in> set xs \<Longrightarrow> f x = Inr ()) \<Longrightarrow> check_all f xs = Inr ()"
  by (induction xs) auto

lemma check_rings_ok:
  assumes ref: "refines s a" and inv: "spec_inv a fl"
  shows "check_rings s = Inr ()"
proof -
  have "check_ring_key s c k = Inr ()" if "c < length (ready s)" "k \<in> set (ready s ! c)" for c k
  proof -
    have "pres a k = Some (Ready c)"
      using ring_iff [OF inv, of k c] that ref lengths [OF inv] by (simp add: refines_def rrest_def)
    then obtain asl where k: "ac_keys a k = Some asl" and p: "as_presence asl = Ready c" by (auto simp: kpres_eq_Some)
    then have sv: "serves c asl" using slot_okD [OF inv k] by simp
    obtain slot where ks: "map_of (keys s) k = Some slot" "asl = abs_slot (slab s) slot"
      and at: "rkeys_at k (queue slot) (slab s) (keys s) (ac_keys a)"
      using refines_slot [OF ref k] by metis
    show ?thesis using ks p sv rkeys_at_front [OF at]
      by (cases "contents (slab s) (queue slot)") (simp_all add: check_ring_key_def serves_def)
  qed
  then show ?thesis unfolding check_rings_def by (intro check_all_ok) auto
qed

lemma check_slots_ok:
  assumes ref: "refines s a" and inv: "spec_inv a fl"
  shows "check_all (\<lambda>kv. check_slot (snd kv)) (keys s) = Inr ()"
proof (rule check_all_ok)
  fix kv assume "kv \<in> set (keys s)"
  moreover have rk: "rkeys (slab s) (keys s) (ac_keys a)" using ref by (simp add: refines_def)
  ultimately have k: "map_of (keys s) (fst kv) = Some (snd kv)" by (simp add: rkeys_def)
  then have ka: "ac_keys a (fst kv) = Some (abs_slot (slab s) (snd kv))" using rkeys_lookup [OF rk] by simp
  have "list_is_empty (queue (snd kv)) \<longleftrightarrow> contents (slab s) (queue (snd kv)) = []"
    using slab_ok_is_empty [of "slab s" "dom (map_of (keys s))" "kqueue (keys s)" "fst kv"] rk k
    by (simp add: rkeys_def kqueue_def domI)
  then show "check_slot (snd kv) = Inr ()"
    using slot_okD [OF inv ka] by (cases "presence (snd kv)") (simp_all add: check_slot_def)
qed

lemma check_walk_ok:
  assumes ref: "refines s a" and inv: "spec_inv a fl" and xs: "ac_idle a = as @ bs"
  shows "check_idle_walk s (length as) (last_opt as) (hd_opt bs) = Inr (length (ac_idle a), last_opt (ac_idle a))"
  using xs
proof (induction bs arbitrary: as)
  case Nil
  then show ?case by (simp add: check_idle_walk.simps [of s "length as"])
next
  case (Cons k bs)
  have d: "dlist (inext (keys s)) (iprev (keys s)) (idle_head s) (as @ k # bs) (idle_tail s)"
    using ref Cons.prems by (simp add: refines_def rlinks_def)
  obtain asl where ka: "ac_keys a k = Some asl" and p: "as_presence asl = Idle"
    using idle_iff [OF inv, of k] Cons.prems by (auto simp: kpres_eq_Some)
  obtain slot where ks: "map_of (keys s) k = Some slot" "asl = abs_slot (slab s) slot" using refines_slot [OF ref ka] by metis
  have lk: "idle_prev slot = last_opt as" "idle_next slot = hd_opt bs"
    using dlist_neighbours(1,2) [OF d] ks by (simp_all add: inext_def iprev_def)
  have "length (ac_idle a) = card (set (ac_idle a))" using idle_distinct [OF inv] by (simp add: distinct_card)
  also have "\<dots> \<le> card (dom (ac_keys a))" using idle_in_dom [OF inv] keys_finite [OF inv] by (rule card_mono [rotated])
  also have "\<dots> = length (keys s)" using ref rkeys_length [of "slab s" "keys s" "ac_keys a"] by (simp add: refines_def)
  finally have "\<not> length as > length (keys s)" using Cons.prems by simp
  moreover have "last_opt (as @ [k]) = Some k" by (simp add: last_opt_def)
  ultimately show ?case using ks p lk Cons.IH [of "as @ [k]"] Cons.prems
    by (simp add: check_idle_walk.simps [of s "length as"])
qed

text \<open>The self check accepts every state that represents a well-formed abstract one.\<close>

lemma check_invariants_ok:
  assumes ref: "refines s a" and inv: "spec_inv a fl"
  shows "check_invariants s = Inr ()"
proof -
  have rk: "rkeys (slab s) (keys s) (ac_keys a)" and rl: "rlinks s (ac_idle a)" and rr: "rrest s a"
    using ref by (auto simp: refines_def)
  have "total (\<lambda>slot. list_len (queue slot)) (keys s) = ksum queue_len (ac_keys a)"
  proof (rule total_ksum [OF rk])
    fix k slot assume "map_of (keys s) k = Some slot"
    then show "list_len (queue slot) = queue_len (abs_slot (slab s) slot)"
      using slab_ok_len [of "slab s" "dom (map_of (keys s))" "kqueue (keys s)" k] rk
      by (simp add: rkeys_def kqueue_def domI)
  qed
  moreover have "sum_list (inflight s) = card (dom fl)" using rr flying_total [OF inv] by (simp add: rrest_def)
  moreover have "{k. pres a k = Some InFlight} = dom fl" using flight_iff [OF inv] by auto
  moreover have "ac_evicting a = card {k. pres a k = Some Evicting}"
    using ksum_card [OF keys_finite [OF inv], of "\<lambda>asl. as_presence asl = Evicting"] evicting_eq [OF inv]
    by (simp add: is_evicting_def [abs_def] kpres_eq_Some)
  moreover have "{k. \<exists>p. pres a k = Some p \<and> is_ready p} = {k. \<exists>c. pres a k = Some (Ready c)}"
    by (auto elim: is_ready.elims)
  moreover have "card {k. pres a k = Some Idle} = length (ac_idle a)"
    using idle_iff [OF inv] distinct_card [OF idle_distinct [OF inv]] by (simp flip: idle_iff [OF inv])
  moreover have "check_idle_walk s 0 None (idle_head s) = Inr (length (ac_idle a), last_opt (ac_idle a))"
    using check_walk_ok [OF ref inv, of "[]" "ac_idle a"] idle_head_ok [OF ref] by (simp add: last_opt_def)
  moreover have "idle_tail s = last_opt (ac_idle a)" "idle s = length (ac_idle a)"
    using rl by (auto simp: rlinks_def dlist_def)
  ultimately show ?thesis
    using rr pending_eq [OF inv] ready_total [OF inv] check_rings_ok [OF ref inv] check_slots_ok [OF ref inv]
    by (simp add: check_invariants_def Let_def count_presence_ok [OF ref inv] rrest_def)
qed

end
