(* ===== verification/Machine.thy ===== *)
theory Machine
  imports Main
begin

text \<open>
  State machines shared by the components: reachability over labelled steps, invariants and
  simulations as interfaces. A component interprets \<open>invariant\<close> with its own step function or
  relation and invariant, and obtains the facts about every reachable state and every run.
\<close>

section \<open>Runs\<close>

text \<open>\<open>run step x evs y\<close>: the steps labelled \<open>evs\<close>, in order, lead from \<open>x\<close> to \<open>y\<close>.\<close>

inductive run :: "('s \<Rightarrow> 'e \<Rightarrow> 's \<Rightarrow> bool) \<Rightarrow> 's \<Rightarrow> 'e list \<Rightarrow> 's \<Rightarrow> bool" for step where
  run_nil: "run step x [] x"
| run_snoc: "run step x es y \<Longrightarrow> step y e z \<Longrightarrow> run step x (es @ [e]) z"

inductive_simps run_Nil_iff [simp]: "run step x [] y"

lemma run_trans:
  assumes "run step y fs z" and "run step x es y"
  shows "run step x (es @ fs) z"
  using assms
proof (induction rule: run.induct)
  case (run_snoc y fs y' e z)
  then show ?case using run.run_snoc [of step x "es @ fs"] by simp
qed simp

lemma run_single: "step x e y \<Longrightarrow> run step x [e] y"
  using run_snoc [OF run_nil] by fastforce

locale invariant =
  fixes init :: "'s \<Rightarrow> bool" and step :: "'s \<Rightarrow> 'e \<Rightarrow> 's \<Rightarrow> bool" and inv :: "'s \<Rightarrow> bool"
  assumes init_inv: "init x \<Longrightarrow> inv x"
    and step_inv: "inv x \<Longrightarrow> step x e y \<Longrightarrow> inv y"
begin

lemma run_inv: "run step x es y \<Longrightarrow> inv x \<Longrightarrow> inv y"
  by (induction rule: run.induct) (auto intro: step_inv)

lemma reachable_inv: "init x \<Longrightarrow> run step x es y \<Longrightarrow> inv y"
  by (auto intro: run_inv init_inv)

end

text \<open>A history variable: a function of the labels that stays equal to a view of the state.\<close>

locale history = invariant init step inv
  for init :: "'s \<Rightarrow> bool" and step :: "'s \<Rightarrow> 'e \<Rightarrow> 's \<Rightarrow> bool" and inv :: "'s \<Rightarrow> bool" +
  fixes given taken :: "'e \<Rightarrow> 'a list" and held :: "'s \<Rightarrow> 'a list"
  assumes init_held: "init x \<Longrightarrow> held x = []"
    and step_held: "inv x \<Longrightarrow> step x e y \<Longrightarrow> held x @ given e = taken e @ held y"
begin

text \<open>What was given is what was taken followed by what is still held, in order.\<close>

lemma run_fifo:
  assumes "init x" and "run step x es y"
  shows "concat (map given es) = concat (map taken es) @ held y"
  using assms(2,1)
proof (induction rule: run.induct)
  case (run_snoc x es y e z)
  have "inv y" using run_snoc by (intro reachable_inv)
  then show ?case using run_snoc step_held [of y e z] by simp
qed (simp add: init_held)

end

end
