(* ===== verification/Sched_Props.thy ===== *)
theory Sched_Props
  imports Sched_Refine Machine
begin

text \<open>
  What every run of the core scheduler guarantees. A run starts at \<open>new\<close> and is a sequence of
  the public operations, called the way the crate's documentation asks: a completion answers a
  dispatch, under its class, and \<open>finish_evict\<close> answers a state handed out by an eviction. The
  \<open>ledger\<close> is what the caller remembers of those obligations.
\<close>

section \<open>Runs of the scheduler\<close>

record 'k ledger =
  flying :: "'k \<rightharpoonup> class_id"
  flushing :: "'k set"

datatype ('k, 'p, 's) event =
    Admitted "('k, 'p) admit_item"
  | Dispatched class_id duration "('k \<times> class_id \<times> 'p) list" "('k, 'p, 's) dispatch option"
  | Popped "('k \<times> class_id \<times> 'p) option"
  | Completed "('k, 's) completion" duration
  | Evicted duration "('k \<times> 's) list"
  | Drained "('k \<times> 's) list"
  | Finished 'k duration

inductive sched_step ::
  "('k, 'p, 's) scheduler \<times> 'k ledger \<Rightarrow> ('k, 'p, 's) event \<Rightarrow> ('k, 'p, 's) scheduler \<times> 'k ledger \<Rightarrow> bool" where
  step_admit: "ad_class it < length (max_inflight (cfg s)) \<Longrightarrow> pending s < 2 ^ 32 - 1 \<Longrightarrow> admit it s = Some s' \<Longrightarrow>
    sched_step (s, L) (Admitted it) (s', L)"
| step_next: "c < length (max_inflight (cfg s)) \<Longrightarrow> next_dispatch c now s = Some (s', d) \<Longrightarrow>
    sched_step (s, L) (Dispatched c now (drop (length (expired s)) (expired s')) d)
      (s', L\<lparr>flying := fly d (flying L)\<rparr>)"
| step_pop: "pop_expired s = (s', e) \<Longrightarrow> sched_step (s, L) (Popped e) (s', L)"
| step_complete: "flying L (co_key c) = Some (co_class c) \<Longrightarrow> complete c now s = Some s' \<Longrightarrow>
    sched_step (s, L) (Completed c now) (s', L\<lparr>flying := (flying L)(co_key c := None)\<rparr>)"
| step_evict: "evict now [] s = Some (s', out) \<Longrightarrow>
    sched_step (s, L) (Evicted now out) (s', L\<lparr>flushing := flushing L \<union> fst ` set out\<rparr>)"
| step_evict_all: "evict_all [] s = Some (s', out) \<Longrightarrow>
    sched_step (s, L) (Drained out) (s', L\<lparr>flushing := flushing L \<union> fst ` set out\<rparr>)"
| step_finish: "k \<in> flushing L \<Longrightarrow> finish_evict k now s = Some s' \<Longrightarrow>
    sched_step (s, L) (Finished k now) (s', L\<lparr>flushing := flushing L - {k}\<rparr>)"

inductive_cases sched_step_cases: "sched_step (s, L) e (s', L')"

definition sched_init :: "config \<Rightarrow> ('k, 'p, 's) scheduler \<times> 'k ledger \<Rightarrow> bool" where
  "sched_init c x \<longleftrightarrow> x = (new c, \<lparr>flying = Map.empty, flushing = {}\<rparr>)"

definition reaches :: "config \<Rightarrow> ('k, 'p, 's) event list \<Rightarrow> ('k, 'p, 's) scheduler \<Rightarrow> 'k ledger \<Rightarrow> bool" where
  "reaches c es s L \<longleftrightarrow> run sched_step (new c, \<lparr>flying = Map.empty, flushing = {}\<rparr>) es (s, L)"

section \<open>The abstract state of a concrete one\<close>

definition abs_sched :: "('k, 'p, 's) scheduler \<Rightarrow> ('k, 'p, 's) asched" where
  "abs_sched s =
     \<lparr>ac_cfg = cfg s, ac_keys = (\<lambda>k. map_option (abs_slot (slab s)) (map_of (keys s) k)), ac_ready = ready s,
      ac_idle = follow (inext (keys s)) (idle_head s) (idle s), ac_expired = expired s,
      ac_inflight = inflight s, ac_pending = pending s, ac_evicting = evicting s\<rparr>"

lemma refines_abs: "refines s a \<Longrightarrow> abs_sched s = a"
proof -
  assume r: "refines s a"
  then have "follow (inext (keys s)) (idle_head s) (idle s) = ac_idle a"
    by (auto simp: refines_def rlinks_def dlist_def follow_chain)
  moreover have "(\<lambda>k. map_option (abs_slot (slab s)) (map_of (keys s) k)) = ac_keys a"
    using r by (auto simp: refines_def rkeys_def fun_eq_iff)
  ultimately show ?thesis using r by (simp add: abs_sched_def refines_def rrest_def)
qed

lemma abs_sched_fields [simp]:
  "ac_cfg (abs_sched s) = cfg s" "ac_ready (abs_sched s) = ready s" "ac_expired (abs_sched s) = expired s"
  "ac_inflight (abs_sched s) = inflight s" "ac_pending (abs_sched s) = pending s" "ac_evicting (abs_sched s) = evicting s"
  by (simp_all add: abs_sched_def)

definition evictings :: "('k, 'p, 's) asched \<Rightarrow> 'k set" where
  "evictings a = {k. pres a k = Some Evicting}"

definition sched_inv :: "('k, 'p, 's) scheduler \<times> 'k ledger \<Rightarrow> bool" where
  "sched_inv x = (case x of (s, L) \<Rightarrow>
     refines s (abs_sched s) \<and> spec_inv (abs_sched s) (flying L) \<and> flushing L = evictings (abs_sched s))"

section \<open>Which keys are being evicted\<close>

lemma evictings_place: "evictings (a_place k sl now a) = evictings a - {k}"
  by (auto simp: evictings_def a_place_def split: list.splits)

lemma evictings_cong: "ac_keys a = ac_keys b \<Longrightarrow> evictings a = evictings b"
  by (simp add: evictings_def)

lemma evictings_admit: "evictings (a_admit it a) = evictings a"
  by (cases "ac_keys a (ad_key it)") (auto simp: evictings_def a_admit_def Let_def kpres_def acold_def split: if_splits)

lemma evictings_complete:
  assumes "spec_inv a fl" and "fl (co_key c) = Some (co_class c)"
  shows "evictings (a_complete c now a) = evictings a"
  using flight_iff [OF assms(1), of "co_key c"] assms(2)
  by (auto simp: a_complete_def Let_def evictings_place) (auto simp: evictings_def)

lemma evictings_next_loop:
  assumes "spec_inv a fl" and "c < a_classes a"
  shows "evictings (fst (a_next_loop c now a)) = evictings a"
  using assms
proof (induction c now a rule: a_next_loop.induct)
  case (1 c now a)
  note inv = "1.prems"(1) and c = "1.prems"(2)
  have len: "c < length (ac_ready a)" using lengths [OF inv] c by simp
  show ?case
  proof (cases "ac_ready a ! c")
    case (Cons k rest)
    have p: "pres a k = Some (Ready c)" using ring_iff [OF inv, of k c] c Cons by auto
    show ?thesis
    proof (cases "serves c (a_left k c now a)")
      case True
      then show ?thesis using len Cons p
        by (auto simp: a_next_loop.simps [of c now a] Let_def a_dispatch_def evictings_def)
    next
      case False
      let ?a = "a_place k (a_left k c now a) now (a_shed k c now rest a)"
      have "evictings (fst (a_next_loop c now ?a)) = evictings ?a"
        using "1.IH" [OF len Cons refl refl False a_requeue_inv [OF inv c Cons]] c by simp
      moreover have "evictings ?a = evictings a"
        using p by (auto simp: evictings_place) (auto simp: evictings_def)
      moreover have "a_next_loop c now a = a_next_loop c now ?a"
        using len Cons False by (simp add: a_next_loop.simps [of c now a] Let_def)
      ultimately show ?thesis by simp
    qed
  qed (simp add: a_next_loop.simps [of c now a])
qed

lemma evictings_next: "spec_inv a fl \<Longrightarrow> c < a_classes a \<Longrightarrow> evictings (fst (a_next c now a)) = evictings a"
  by (simp add: a_next_def evictings_next_loop)

lemma evictings_release:
  assumes "spec_inv a fl" and "ac_idle a = k # rest"
  shows "evictings (a_release k rest a) = evictings a \<union> fst ` set (a_flushed k a)"
proof -
  have "pres a k = Some Idle" using idle_iff [OF assms(1), of k] assms(2) by auto
  then show ?thesis by (auto simp: evictings_def a_release_def a_flushed_def Let_def split: if_splits option.splits)
qed

lemma evictings_evict_loop:
  "spec_inv a fl \<Longrightarrow> evictings (fst (a_evict_loop n now a)) = evictings a \<union> fst ` set (snd (a_evict_loop n now a))"
proof (induction n arbitrary: a)
  case (Suc n)
  show ?case
  proof (cases "ac_idle a")
    case (Cons k rest)
    then show ?thesis
      using Suc.IH [OF a_release_inv [OF Suc.prems Cons]] evictings_release [OF Suc.prems Cons] by (auto simp: image_Un)
  qed simp
qed simp

lemma evictings_evict_list:
  "spec_inv a fl \<Longrightarrow> ac_idle a = ks \<Longrightarrow>
   evictings (fst (a_evict_list ks a)) = evictings a \<union> fst ` set (snd (a_evict_list ks a))"
proof (induction ks arbitrary: a)
  case (Cons k ks)
  moreover have "ac_idle (a_release k ks a) = ks" by (simp add: a_release_def Let_def)
  ultimately show ?case
    using Cons.IH [OF a_release_inv [OF Cons.prems]] evictings_release [OF Cons.prems] by (auto simp: image_Un)
qed simp

lemma evictings_finish: "evictings (a_finish_evict k now a) = evictings a - {k}"
  by (auto simp: a_finish_evict_def Let_def evictings_place) (auto simp: evictings_def split: if_splits)

section \<open>Every step succeeds and keeps the invariant\<close>

lemma sched_invD:
  assumes "sched_inv (s, L)"
  shows "refines s (abs_sched s)" "spec_inv (abs_sched s) (flying L)" "flushing L = evictings (abs_sched s)"
  using assms by (auto simp: sched_inv_def)

lemma sched_invI: "refines s a \<Longrightarrow> spec_inv a (flying L) \<Longrightarrow> flushing L = evictings a \<Longrightarrow> sched_inv (s, L)"
  by (simp add: sched_inv_def refines_abs)

lemma admit_run:
  assumes "sched_inv (s, L)" and "ad_class it < length (max_inflight (cfg s))" and "pending s < 2 ^ 32 - 1"
  shows "\<exists>s'. admit it s = Some s' \<and> abs_sched s' = a_admit it (abs_sched s) \<and> sched_inv (s', L)"
proof -
  note i = sched_invD [OF assms(1)]
  obtain s' where "admit it s = Some s'" "refines s' (a_admit it (abs_sched s))" using admit_ok [OF i(1,2)] assms by auto
  then show ?thesis using a_admit_inv [OF i(2), of it] assms(2) i(3) sched_invI [of s' _ L] evictings_admit refines_abs by fastforce
qed

lemma next_run:
  assumes "sched_inv (s, L)" and "c < length (max_inflight (cfg s))"
  shows "\<exists>s'. next_dispatch c now s = Some (s', snd (a_next c now (abs_sched s))) \<and>
    abs_sched s' = fst (a_next c now (abs_sched s)) \<and>
    sched_inv (s', L\<lparr>flying := fly (snd (a_next c now (abs_sched s))) (flying L)\<rparr>)"
proof -
  note i = sched_invD [OF assms(1)]
  obtain s' where s': "next_dispatch c now s = Some (s', snd (a_next c now (abs_sched s)))"
    "refines s' (fst (a_next c now (abs_sched s)))" using next_dispatch_ok [OF i(1,2)] assms(2) by auto
  have "spec_inv (fst (a_next c now (abs_sched s))) (fly (snd (a_next c now (abs_sched s))) (flying L))"
    using a_next_inv [OF i(2), of c now] assms(2) by (metis abs_sched_fields(1) prod.collapse)
  then show ?thesis using s' refines_abs [OF s'(2)] evictings_next [OF i(2)] assms(2) i(3)
    by (auto intro!: sched_invI)
qed

lemma complete_run:
  assumes "sched_inv (s, L)" and "flying L (co_key c) = Some (co_class c)"
  shows "\<exists>s'. complete c now s = Some s' \<and> abs_sched s' = a_complete c now (abs_sched s) \<and>
    sched_inv (s', L\<lparr>flying := (flying L)(co_key c := None)\<rparr>)"
proof -
  note i = sched_invD [OF assms(1)]
  obtain s' where s': "complete c now s = Some s'" "refines s' (a_complete c now (abs_sched s))"
    using complete_ok [OF i(1,2) assms(2)] by auto
  then show ?thesis
    using a_complete_inv [OF i(2) assms(2), of now] i(3) evictings_complete [OF i(2) assms(2), of now] refines_abs [OF s'(2)]
    by (auto intro!: sched_invI)
qed

lemma evict_run:
  assumes "sched_inv (s, L)"
  shows "\<exists>s'. evict now out s = Some (s', out @ snd (a_evict now (abs_sched s))) \<and>
    abs_sched s' = fst (a_evict now (abs_sched s)) \<and>
    sched_inv (s', L\<lparr>flushing := flushing L \<union> fst ` set (snd (a_evict now (abs_sched s)))\<rparr>)"
proof -
  note i = sched_invD [OF assms(1)]
  obtain s' where s': "evict now out s = Some (s', out @ snd (a_evict now (abs_sched s)))"
    "refines s' (fst (a_evict now (abs_sched s)))" using evict_ok [OF i(1,2)] by blast
  then show ?thesis
    using a_evict_loop_inv [OF i(2)] i(3) evictings_evict_loop [OF i(2)] refines_abs [OF s'(2)]
    by (auto intro!: sched_invI simp: a_evict_def)
qed

lemma evict_all_run:
  assumes "sched_inv (s, L)"
  shows "\<exists>s'. evict_all out s = Some (s', out @ snd (a_evict_all (abs_sched s))) \<and>
    abs_sched s' = fst (a_evict_all (abs_sched s)) \<and>
    sched_inv (s', L\<lparr>flushing := flushing L \<union> fst ` set (snd (a_evict_all (abs_sched s)))\<rparr>)"
proof -
  note i = sched_invD [OF assms(1)]
  obtain s' where s': "evict_all out s = Some (s', out @ snd (a_evict_all (abs_sched s)))"
    "refines s' (fst (a_evict_all (abs_sched s)))" using evict_all_ok [OF i(1,2)] by blast
  then show ?thesis
    using a_evict_list_inv [OF i(2) refl] i(3) evictings_evict_list [OF i(2) refl] refines_abs [OF s'(2)]
    by (auto intro!: sched_invI simp: a_evict_all_def)
qed

lemma finish_run:
  assumes "sched_inv (s, L)" and "k \<in> flushing L"
  shows "\<exists>s'. finish_evict k now s = Some s' \<and> abs_sched s' = a_finish_evict k now (abs_sched s) \<and>
    sched_inv (s', L\<lparr>flushing := flushing L - {k}\<rparr>)"
proof -
  note i = sched_invD [OF assms(1)]
  have p: "pres (abs_sched s) k = Some Evicting" using i(3) assms(2) by (simp add: evictings_def)
  obtain s' where s': "finish_evict k now s = Some s'" "refines s' (a_finish_evict k now (abs_sched s))"
    using finish_evict_ok [OF i(1,2) p] by auto
  then show ?thesis using a_finish_evict_inv [OF i(2) p, of now] i(3) evictings_finish [of k now "abs_sched s"] refines_abs [OF s'(2)]
    by (auto intro!: sched_invI)
qed

lemma pop_run:
  assumes "sched_inv (s, L)"
  shows "abs_sched (fst (pop_expired s)) = fst (a_pop_expired (abs_sched s)) \<and> sched_inv (fst (pop_expired s), L)"
proof -
  note i = sched_invD [OF assms]
  have r: "refines (fst (pop_expired s)) (fst (a_pop_expired (abs_sched s)))" using pop_expired_ok [OF i(1)] by simp
  moreover have "evictings (fst (a_pop_expired (abs_sched s))) = evictings (abs_sched s)"
    by (auto simp: a_pop_expired_def evictings_def split: list.splits)
  ultimately show ?thesis using a_pop_expired_inv [OF i(2)] i(3) refines_abs [OF r] by (auto intro!: sched_invI)
qed

lemma sched_inv_init: "sched_inv (new c, \<lparr>flying = Map.empty, flushing = {}\<rparr>)"
  by (rule sched_invI [OF new_ok]) (use spec_inv_new [of c] in \<open>simp_all add: evictings_def a_new_def kpres_def\<close>)

lemma sched_inv_step:
  assumes "sched_step x e y" and "sched_inv x"
  shows "sched_inv y"
  using assms
proof (induction x e y rule: sched_step.induct)
  case (step_admit it s s' L) then show ?case using admit_run [of s L it] by auto
next
  case (step_next c s now s' d L) then show ?case using next_run [of s L c now] by auto
next
  case (step_pop s s' e L) then show ?case using pop_run [of s L] by simp
next
  case (step_complete L c now s s') then show ?case using complete_run [of s L c now] by auto
next
  case (step_evict now s s' out L) then show ?case using evict_run [of s L now "[]"] by auto
next
  case (step_evict_all s s' out L) then show ?case using evict_all_run [of s L "[]"] by auto
next
  case (step_finish k L now s s') then show ?case using finish_run [of s L k now] by auto
qed

interpretation sched: invariant "sched_init c" sched_step sched_inv for c
  by unfold_locales (auto simp: sched_init_def sched_inv_init intro: sched_inv_step)

lemma reaches_inv: "reaches c es s L \<Longrightarrow> sched_inv (s, L)"
  using sched.reachable_inv [of c _ es "(s, L)"] by (simp add: reaches_def sched_init_def)

section \<open>What one call of \<open>next\<close> does\<close>

text \<open>
  The loop walks over a prefix \<open>xs\<close> of the ring, whose keys have nothing live of this class at
  the front of their queues, and dispatches the key behind it, or empties the ring. \<open>E\<close> is the
  work that left as expired.
\<close>

definition live :: "class_id \<Rightarrow> duration \<Rightarrow> ('k, 'p, 's) asched \<Rightarrow> 'k \<Rightarrow> bool" where
  "live c now a k \<longleftrightarrow> serves c (a_left k c now a)"

definition sheds :: "class_id \<Rightarrow> duration \<Rightarrow> ('k, 'p, 's) asched \<Rightarrow> 'k \<Rightarrow> ('k \<times> class_id \<times> 'p) list" where
  "sheds c now a k = map (\<lambda>x. (k, it_class x, it_payload x)) (takeWhile (stale c now) (as_queue (a_slot a k)))"

lemma a_slot_place: "a_slot (a_place k sl now a) j = (if j = k
    then if as_queue sl = [] then sl\<lparr>as_presence := Idle, as_since := now\<rparr> else sl\<lparr>as_presence := Ready (it_class (hd (as_queue sl)))\<rparr>
    else a_slot a j)"
  by (auto simp: a_slot_def a_place_def split: list.splits)

lemma a_slot_shed [simp]: "a_slot (a_shed k c now rest a) j = a_slot a j"
  by (simp add: a_slot_def)

lemma ready_place: "\<not> serves c sl \<Longrightarrow> ac_ready (a_place k sl now a) ! c = ac_ready a ! c"
  by (rule a_place_ring)

definition turn_over :: "class_id \<Rightarrow> duration \<Rightarrow> ('k, 'p, 's) asched \<Rightarrow> 'k list \<Rightarrow> ('k, 'p, 's) asched \<Rightarrow> ('k, 'p, 's) dispatch option \<Rightarrow> bool" where
  "turn_over c now a xs a' d \<longleftrightarrow>
     (\<forall>k\<in>set xs. \<not> live c now a k) \<and>
     (case d of
        None \<Rightarrow> ac_ready a ! c = xs \<and> ac_ready a' ! c = [] \<and> ac_expired a' = ac_expired a @ concat (map (sheds c now a) xs)
      | Some d \<Rightarrow> ac_ready a ! c = xs @ di_key d # ac_ready a' ! c \<and> live c now a (di_key d) \<and>
          ac_expired a' = ac_expired a @ concat (map (sheds c now a) (xs @ [di_key d])) \<and> di_class d = c \<and>
          di_state d = as_resident (a_slot a (di_key d)) \<and>
          di_payload d = it_payload (hd (as_queue (a_left (di_key d) c now a))) \<and>
          as_queue (a_slot a' (di_key d)) = tl (as_queue (a_left (di_key d) c now a))) \<and>
     (\<forall>k. (\<forall>d'. d = Some d' \<longrightarrow> k \<noteq> di_key d') \<longrightarrow>
        as_queue (a_slot a' k) = (if k \<in> set xs then as_queue (a_left k c now a) else as_queue (a_slot a k)))"

lemma a_next_loop_turn:
  assumes "spec_inv a fl" and "c < a_classes a"
  shows "\<exists>xs. turn_over c now a xs (fst (a_next_loop c now a)) (snd (a_next_loop c now a))"
  using assms
proof (induction c now a rule: a_next_loop.induct)
  case (1 c now a)
  note inv = "1.prems"(1) and c = "1.prems"(2)
  have len: "c < length (ac_ready a)" using lengths [OF inv] c by simp
  show ?case
  proof (cases "ac_ready a ! c")
    case Nil
    then show ?thesis using len by (intro exI [of _ "[]"]) (simp add: turn_over_def a_next_loop.simps [of c now a])
  next
    case (Cons k rest)
    let ?sl = "a_left k c now a" and ?a = "a_shed k c now rest a"
    show ?thesis
    proof (cases "serves c ?sl")
      case True
      have "ac_expired ?a = ac_expired a @ sheds c now a k" by (simp add: a_shed_def sheds_def Let_def)
      then have "turn_over c now a [] (fst (a_dispatch k c ?sl ?a)) (Some (snd (a_dispatch k c ?sl ?a)))"
        using True Cons len by (auto simp: turn_over_def a_dispatch_def live_def a_slot_def a_left_def)
      moreover have "a_next_loop c now a = apsnd Some (a_dispatch k c ?sl ?a)"
        using True Cons len by (simp add: a_next_loop.simps [of c now a] Let_def)
      ultimately show ?thesis by (intro exI [of _ "[]"]) simp
    next
      case False
      define b where "b = a_place k ?sl now ?a"
      have e: "a_next_loop c now a = a_next_loop c now b"
        using len Cons False by (simp add: a_next_loop.simps [of c now a] Let_def b_def)
      obtain xs where xs: "turn_over c now b xs (fst (a_next_loop c now b)) (snd (a_next_loop c now b))"
        using "1.IH" [OF len Cons refl refl False a_requeue_inv [OF inv c Cons]] c by (auto simp: b_def)
      have ring: "ac_ready b ! c = rest" using False Cons len by (simp add: ready_place b_def)
      have nk: "k \<notin> set rest" using ring_distinct [OF inv c] Cons by simp
      have same: "a_slot b j = a_slot a j" "a_left j c now b = a_left j c now a" "live c now b j = live c now a j"
        "sheds c now b j = sheds c now a j" if "j \<noteq> k" for j
        using that by (simp_all add: b_def a_slot_place a_left_def live_def sheds_def)
      have qk: "as_queue (a_slot b k) = as_queue ?sl" by (simp add: a_slot_place b_def)
      have ex: "ac_expired b = ac_expired a @ sheds c now a k" by (simp add: a_shed_def sheds_def Let_def b_def)
      have "\<exists>zs. rest = xs @ zs"
        using xs ring by (cases "snd (a_next_loop c now b)") (auto simp: turn_over_def intro: exI [of _ "_ # _"])
      then have sub: "set xs \<subseteq> set rest" by auto
      have lk: "\<not> live c now a k" using False by (simp add: live_def)
      have cc: "map (sheds c now b) xs = map (sheds c now a) xs"
        by (intro map_cong refl same(4)) (use sub nk in auto)
      have nx: "\<forall>j\<in>set xs. \<not> live c now a j" using xs sub nk same(3) unfolding turn_over_def by (metis subsetD)
      have qs: "as_queue (a_slot (fst (a_next_loop c now b)) j) =
          (if j \<in> set (k # xs) then as_queue (a_left j c now a) else as_queue (a_slot a j))"
        if j: "\<forall>d'. snd (a_next_loop c now b) = Some d' \<longrightarrow> j \<noteq> di_key d'" for j
      proof -
        have "as_queue (a_slot (fst (a_next_loop c now b)) j) =
            (if j \<in> set xs then as_queue (a_left j c now b) else as_queue (a_slot b j))"
          using xs j unfolding turn_over_def by blast
        then show ?thesis using qk sub nk same(1,2) [of j] by (cases "j = k") auto
      qed
      have "turn_over c now a (k # xs) (fst (a_next_loop c now b)) (snd (a_next_loop c now b))"
      proof (cases "snd (a_next_loop c now b)")
        case None
        then show ?thesis using xs Cons ring ex lk cc nx qs by (simp add: turn_over_def)
      next
        case (Some d)
        then have "di_key d \<in> set rest" using xs ring by (auto simp: turn_over_def)
        then have "di_key d \<noteq> k" using nk by auto
        then show ?thesis using Some xs Cons ring same [of "di_key d"] ex lk cc nx qs by (simp add: turn_over_def)
      qed
      then show ?thesis using e by auto
    qed
  qed
qed

end
