(* ===== verification/Sched_Theorems.thy ===== *)
theory Sched_Theorems
  imports Sched_Props
begin

text \<open>
  The properties of the core scheduler over all runs: the self check, absence of panics, the
  functional refinement, exactly-once delivery in order, budgets and exclusivity, the bound on
  waiting, eviction, and the high-water mark of the arena.
\<close>

section \<open>Queues never lose, repeat or reorder work\<close>

definition queue_of :: "'k \<Rightarrow> ('k, 'p, 's) scheduler \<Rightarrow> 'p item list" where
  "queue_of k s = contents (slab s) (kqueue (keys s) k)"

lemma queue_of_abs: "queue_of k s = as_queue (a_slot (abs_sched s) k)"
  by (cases "map_of (keys s) k") (auto simp: queue_of_def a_slot_def abs_sched_def kqueue_def acold_def)

definition given :: "'k \<Rightarrow> ('k, 'p, 's) event \<Rightarrow> (class_id \<times> 'p) list" where
  "given k e = (case e of Admitted it \<Rightarrow> if ad_key it = k then [(ad_class it, ad_payload it)] else [] | _ \<Rightarrow> [])"

definition taken :: "'k \<Rightarrow> ('k, 'p, 's) event \<Rightarrow> (class_id \<times> 'p) list" where
  "taken k e =
     (case e of
        Dispatched c now E d \<Rightarrow>
          map snd (filter (\<lambda>x. fst x = k) E) @
          (case d of None \<Rightarrow> [] | Some d \<Rightarrow> if di_key d = k then [(di_class d, di_payload d)] else [])
      | _ \<Rightarrow> [])"

definition view :: "'p item list \<Rightarrow> (class_id \<times> 'p) list" where
  "view xs = map (\<lambda>x. (it_class x, it_payload x)) xs"

lemma view_simps [simp]: "view [] = []" "view (x # xs) = (it_class x, it_payload x) # view xs" "view (xs @ ys) = view xs @ view ys"
  by (simp_all add: view_def)

definition held :: "'k \<Rightarrow> ('k, 'p, 's) scheduler \<times> 'k ledger \<Rightarrow> (class_id \<times> 'p) list" where
  "held k x = view (queue_of k (fst x))"

lemma sheds_filter: "map snd (filter (\<lambda>x. fst x = k) (sheds c now a j)) =
    (if j = k then view (takeWhile (stale c now) (as_queue (a_slot a k))) else [])"
  by (auto simp: sheds_def view_def filter_map o_def)

lemma sheds_concat: "distinct xs \<Longrightarrow> map snd (filter (\<lambda>x. fst x = k) (concat (map (sheds c now a) xs))) =
    (if k \<in> set xs then view (takeWhile (stale c now) (as_queue (a_slot a k))) else [])"
  by (induction xs) (auto simp: sheds_filter)

lemma view_split: "view (takeWhile P xs) @ view (dropWhile P xs) = view xs"
  by (simp flip: view_simps(3))

lemma turn_fifo:
  assumes t: "turn_over c now a xs a' d" and dist: "distinct (ac_ready a ! c)"
  shows "view (as_queue (a_slot a k)) =
    taken k (Dispatched c now (drop (length (ac_expired a)) (ac_expired a')) d) @ view (as_queue (a_slot a' k))"
proof (cases d)
  case None
  then show ?thesis using t dist view_split [of "stale c now" "as_queue (a_slot a k)"]
    by (auto simp: turn_over_def taken_def sheds_concat a_left_def)
next
  case (Some x)
  let ?ks = "xs @ [di_key x]"
  have r: "ac_ready a ! c = ?ks @ ac_ready a' ! c" and lv: "live c now a (di_key x)"
    and E: "ac_expired a' = ac_expired a @ concat (map (sheds c now a) ?ks)" using t Some by (auto simp: turn_over_def)
  have "distinct ?ks" using dist r by (metis distinct_append)
  then have ex: "map snd (filter (\<lambda>x. fst x = k) (drop (length (ac_expired a)) (ac_expired a'))) =
      (if k \<in> set ?ks then view (takeWhile (stale c now) (as_queue (a_slot a k))) else [])"
    unfolding E using sheds_concat [of ?ks k c now a] by simp
  note sp = view_split [of "stale c now" "as_queue (a_slot a k)"]
  show ?thesis
  proof (cases "k = di_key x")
    case True
    have ne: "as_queue (a_left k c now a) \<noteq> []" "it_class (hd (as_queue (a_left k c now a))) = c"
      using lv True by (auto simp: live_def serves_def)
    then have "view (dropWhile (stale c now) (as_queue (a_slot a k))) =
        (c, it_payload (hd (as_queue (a_left k c now a)))) # view (tl (as_queue (a_left k c now a)))"
      by (cases "as_queue (a_left k c now a)") (auto simp: a_left_def)
    then show ?thesis using t Some True ex sp by (simp add: taken_def turn_over_def)
  next
    case False
    then have "as_queue (a_slot a' k) = (if k \<in> set xs then as_queue (a_left k c now a) else as_queue (a_slot a k))"
      using t Some by (simp add: turn_over_def)
    then show ?thesis using Some False ex sp by (auto simp: taken_def a_left_def)
  qed
qed

lemma next_fifo:
  assumes "spec_inv a fl" and "c < a_classes a"
  shows "view (as_queue (a_slot a k)) =
    taken k (Dispatched c now (drop (length (ac_expired a)) (ac_expired (fst (a_next c now a)))) (snd (a_next c now a))) @
    view (as_queue (a_slot (fst (a_next c now a)) k))"
proof -
  obtain xs where "turn_over c now a xs (fst (a_next_loop c now a)) (snd (a_next_loop c now a))"
    using a_next_loop_turn [OF assms] by blast
  from turn_fifo [OF this ring_distinct [OF assms], of k] show ?thesis by (simp add: a_next_def taken_def)
qed

lemma queue_release:
  assumes "spec_inv a fl" and "ac_idle a = k # rest"
  shows "as_queue (a_slot (a_release k rest a) j) = as_queue (a_slot a j)"
proof -
  obtain sl where "ac_keys a k = Some sl" "as_presence sl = Idle"
    using idle_iff [OF assms(1), of k] assms(2) by (auto simp: kpres_eq_Some)
  moreover from this have "as_queue sl = []" using slot_okD [OF assms(1)] by force
  ultimately show ?thesis by (simp add: a_slot_def a_release_def Let_def acold_def)
qed

lemma queue_evict_loop:
  "spec_inv a fl \<Longrightarrow> as_queue (a_slot (fst (a_evict_loop n now a)) j) = as_queue (a_slot a j)"
proof (induction n arbitrary: a)
  case (Suc n)
  then show ?case using queue_release [OF Suc.prems] a_release_inv [OF Suc.prems] by (cases "ac_idle a") auto
qed simp

lemma queue_evict_list:
  "spec_inv a fl \<Longrightarrow> ac_idle a = ks \<Longrightarrow> as_queue (a_slot (fst (a_evict_list ks a)) j) = as_queue (a_slot a j)"
proof (induction ks arbitrary: a)
  case (Cons k ks)
  moreover have "ac_idle (a_release k ks a) = ks" by (simp add: a_release_def Let_def)
  ultimately show ?case using queue_release [OF Cons.prems] a_release_inv [OF Cons.prems] by simp
qed simp

lemma queue_admit: "as_queue (a_slot (a_admit it a) k) = as_queue (a_slot a k) @
    (if ad_key it = k then [\<lparr>it_class = ad_class it, it_expires_at = ad_expires_at it, it_payload = ad_payload it\<rparr>] else [])"
  by (auto simp: a_admit_def a_slot_def Let_def)

lemma queue_complete: "as_queue (a_slot (a_complete c now a) k) = as_queue (a_slot a k)"
  by (simp add: a_complete_def Let_def a_slot_place) (simp add: a_slot_def)

lemma queue_finish: "as_queue (a_slot (a_finish_evict j now a) k) = as_queue (a_slot a k)"
  by (auto simp: a_finish_evict_def Let_def a_slot_place) (auto simp: a_slot_def acold_def)

lemma queue_pop: "as_queue (a_slot (fst (a_pop_expired a)) k) = as_queue (a_slot a k)"
  by (auto simp: a_pop_expired_def a_slot_def split: list.splits)

lemma step_held:
  assumes "sched_step x e y" and "sched_inv x"
  shows "held k x @ given k e = taken k e @ held k y"
  using assms
proof (induction x e y rule: sched_step.induct)
  case (step_admit it s s' L)
  then show ?case using admit_run [of s L it] by (auto simp: held_def queue_of_abs queue_admit given_def taken_def)
next
  case (step_next c s now s' d L)
  note i = sched_invD [OF step_next(3)]
  show ?case using next_run [OF step_next(3,1), of now] step_next(2) next_fifo [OF i(2), of c k now] step_next(1)
    by (simp add: held_def queue_of_abs given_def) (metis abs_sched_fields(3))
next
  case (step_pop s s' e L)
  then show ?case using pop_run [of s L] by (simp add: held_def queue_of_abs queue_pop given_def taken_def)
next
  case (step_complete L c now s s')
  then show ?case using complete_run [of s L c now] by (auto simp: held_def queue_of_abs queue_complete given_def taken_def)
next
  case (step_evict now s s' out L)
  note i = sched_invD [OF step_evict(2)]
  show ?case using evict_run [OF step_evict(2), of now "[]"] step_evict(1) queue_evict_loop [OF i(2)]
    by (auto simp: held_def queue_of_abs given_def taken_def a_evict_def)
next
  case (step_evict_all s s' out L)
  note i = sched_invD [OF step_evict_all(2)]
  show ?case using evict_all_run [OF step_evict_all(2), of "[]"] step_evict_all(1) queue_evict_list [OF i(2) refl]
    by (auto simp: held_def queue_of_abs given_def taken_def a_evict_all_def)
next
  case (step_finish j L now s s')
  then show ?case using finish_run [of s L j now] by (auto simp: held_def queue_of_abs queue_finish given_def taken_def)
qed

interpretation delivery: history "sched_init c" sched_step sched_inv "given k" "taken k" "held k" for c k
  by unfold_locales (auto intro: step_held, auto simp: sched_init_def held_def queue_of_def new_def kqueue_def)

section \<open>The order of a ring\<close>

text \<open>Every call but \<open>next\<close> for its class leaves a ring as it is, or adds keys behind it.\<close>

definition extends :: "'a list \<Rightarrow> 'a list \<Rightarrow> bool" where
  "extends xs ys \<longleftrightarrow> (\<exists>zs. ys = xs @ zs)"

lemma extends_refl [simp]: "extends xs xs"
  by (simp add: extends_def)

lemma extends_trans: "extends xs ys \<Longrightarrow> extends ys zs \<Longrightarrow> extends xs zs"
  by (auto simp: extends_def)

lemma extends_upd: "extends (xs ! c) (xs[i := xs ! i @ zs] ! c)"
  by (cases "i < length xs") (auto simp: extends_def nth_list_update list_update_beyond)

lemma extends_place: "extends (ac_ready a ! c) (ac_ready (a_place k sl now a) ! c)"
proof (cases "as_queue sl")
  case (Cons x ys)
  then show ?thesis by (simp add: a_place_def extends_upd)
qed (simp add: a_place_def)

lemma extends_next_loop: "c' \<noteq> c \<Longrightarrow> extends (ac_ready a ! c) (ac_ready (fst (a_next_loop c' now a)) ! c)"
proof (induction c' now a rule: a_next_loop.induct)
  case (1 c' now a)
  show ?case
  proof (cases "c' < length (ac_ready a)")
    case len: True
    show ?thesis
    proof (cases "ac_ready a ! c'")
      case (Cons k rest)
      let ?sl = "a_left k c' now a" and ?a = "a_shed k c' now rest a"
      show ?thesis
      proof (cases "serves c' ?sl")
        case True
        then show ?thesis using len Cons "1.prems" by (simp add: a_next_loop.simps [of c' now a] Let_def a_dispatch_def)
      next
        case False
        have "extends (ac_ready a ! c) (ac_ready (a_place k ?sl now ?a) ! c)"
          using extends_place [of ?a c k ?sl now] "1.prems" by simp
        with "1.IH" [OF len Cons refl refl False "1.prems"] show ?thesis
          using len Cons False by (simp add: a_next_loop.simps [of c' now a] Let_def) (rule extends_trans)
      qed
    qed (simp add: a_next_loop.simps [of c' now a])
  qed (simp add: a_next_loop.simps [of c' now a])
qed

lemma extends_next: "c' \<noteq> c \<Longrightarrow> extends (ac_ready a ! c) (ac_ready (fst (a_next c' now a)) ! c)"
  by (simp add: a_next_def extends_next_loop)

lemma ready_release [simp]: "ac_ready (a_release k rest a) = ac_ready a"
  by (simp add: a_release_def Let_def)

lemma ready_evict_loop [simp]: "ac_ready (fst (a_evict_loop n now a)) = ac_ready a"
  by (induction n arbitrary: a) (auto split: list.splits)

lemma ready_evict_list [simp]: "ac_ready (fst (a_evict_list ks a)) = ac_ready a"
  by (induction ks arbitrary: a) auto

lemma extends_admit: "extends (ac_ready a ! c) (ac_ready (a_admit it a) ! c)"
  by (simp add: a_admit_def Let_def extends_upd)

lemma ring_step:
  assumes "sched_step (s, L) e (s', L')" and "sched_inv (s, L)" and "\<And>now E d. e \<noteq> Dispatched c now E d"
  shows "extends (ready s ! c) (ready s' ! c)"
  using assms(1)
proof (cases rule: sched_step_cases [consumes 1, case_names step_admit step_next step_pop step_complete step_evict step_evict_all step_finish])
  case (step_admit it)
  then have "abs_sched s' = a_admit it (abs_sched s)" using admit_run [OF assms(2), of it] by auto
  with extends_admit [of "abs_sched s" c it] show ?thesis by (metis abs_sched_fields(2))
next
  case (step_next c' now d)
  then have "abs_sched s' = fst (a_next c' now (abs_sched s))" "c' \<noteq> c" using next_run [OF assms(2), of c' now] assms(3) by auto
  with extends_next [of c' c "abs_sched s" now] show ?thesis by (metis abs_sched_fields(2))
next
  case (step_pop x)
  then show ?thesis by (auto simp: pop_expired_def split: list.splits)
next
  case (step_complete cp now)
  then have "abs_sched s' = a_complete cp now (abs_sched s)" using complete_run [OF assms(2), of cp now] by auto
  then have "extends (ac_ready (abs_sched s) ! c) (ac_ready (abs_sched s') ! c)"
    using extends_place [of "(abs_sched s)\<lparr>ac_inflight := i, ac_pending := p\<rparr>" c for i p]
    by (simp add: a_complete_def Let_def)
  then show ?thesis by simp
next
  case (step_evict now out)
  then have "abs_sched s' = fst (a_evict now (abs_sched s))" using evict_run [OF assms(2), of now "[]"] by auto
  then show ?thesis by (metis a_evict_def abs_sched_fields(2) extends_refl ready_evict_loop)
next
  case (step_evict_all out)
  then have "abs_sched s' = fst (a_evict_all (abs_sched s))" using evict_all_run [OF assms(2), of "[]"] by auto
  then show ?thesis by (metis a_evict_all_def abs_sched_fields(2) extends_refl ready_evict_list)
next
  case (step_finish k now)
  then have "abs_sched s' = a_finish_evict k now (abs_sched s)" using finish_run [OF assms(2), of k now] by auto
  then have "extends (ac_ready (abs_sched s) ! c) (ac_ready (abs_sched s') ! c)"
    using extends_place [of "(abs_sched s)\<lparr>ac_evicting := i\<rparr>" c for i] by (simp add: a_finish_evict_def Let_def)
  then show ?thesis by simp
qed

text \<open>\<open>next\<close> for its class, seen from the ring: the keys passed over lost expired work.\<close>

lemma next_ring:
  assumes "sched_inv (s, L)" and "c < length (max_inflight (cfg s))" and "next_dispatch c now s = Some (s', d)"
  shows "inflight s ! c \<ge> max_inflight (cfg s) ! c \<and> s' = s \<and> d = None \<or>
    inflight s ! c < max_inflight (cfg s) ! c \<and> (\<exists>xs. turn_over c now (abs_sched s) xs (abs_sched s') d)"
proof -
  note i = sched_invD [OF assms(1)]
  have e: "d = snd (a_next c now (abs_sched s))" "abs_sched s' = fst (a_next c now (abs_sched s))"
    using next_run [OF assms(1,2), of now] assms(3) by auto
  show ?thesis
  proof (cases "inflight s ! c \<ge> max_inflight (cfg s) ! c")
    case True
    then show ?thesis using assms(3) by (auto simp: next_dispatch_def split: if_splits)
  next
    case False
    then show ?thesis using e a_next_loop_turn [OF i(2), of c now] assms(2) by (simp add: a_next_def)
  qed
qed

lemma ring_sheds:
  assumes "spec_inv a fl" and "c < a_classes a" and "k \<in> set (ac_ready a ! c)" and "\<not> live c now a k"
  shows "\<exists>p. (k, c, p) \<in> set (sheds c now a k)"
proof -
  have "pres a k = Some (Ready c)" using ring_iff [OF assms(1), of k c] assms(2,3) by simp
  then obtain sl where k: "ac_keys a k = Some sl" and "as_presence sl = Ready c" by (auto simp: kpres_eq_Some)
  then have sv: "serves c sl" using slot_okD [OF assms(1) k] by simp
  then obtain x ys where q: "as_queue sl = x # ys" "it_class x = c" by (cases "as_queue sl") (auto simp: serves_def)
  then have "stale c now x" using assms(4) k by (auto simp: live_def serves_def a_left_def split: if_splits)
  then show ?thesis using k q by (auto simp: sheds_def)
qed

definition dispatches :: "class_id \<Rightarrow> ('k, 'p, 's) event list \<Rightarrow> nat" where
  "dispatches c es =
     length (filter (\<lambda>e. case e of Dispatched c' _ _ d \<Rightarrow> c' = c \<and> d \<noteq> None | _ \<Rightarrow> False) es)"

definition served :: "'k \<Rightarrow> class_id \<Rightarrow> ('k, 'p, 's) event list \<Rightarrow> bool" where
  "served k c es \<longleftrightarrow> (\<exists>now E d. Dispatched c now E (Some d) \<in> set es \<and> di_key d = k)"

definition shed_in :: "'k \<Rightarrow> class_id \<Rightarrow> ('k, 'p, 's) event list \<Rightarrow> bool" where
  "shed_in k c es \<longleftrightarrow> (\<exists>now E d p. Dispatched c now E d \<in> set es \<and> (k, c, p) \<in> set E)"

text \<open>One step moves a waiting key towards the front, or takes it.\<close>

lemma wait_step:
  assumes "sched_step (s, L) e (s', L')" and inv: "sched_inv (s, L)" and c: "c < length (max_inflight (cfg s))"
    and at: "ready s ! c = xs @ k # ys"
  shows "served k c [e] \<or> shed_in k c [e] \<or>
    (\<exists>xs' ys'. ready s' ! c = xs' @ k # ys' \<and> length xs' + dispatches c [e] \<le> length xs)"
proof (cases "\<exists>now E d. e = Dispatched c now E d")
  case False
  then have "extends (ready s ! c) (ready s' ! c)" using ring_step [OF assms(1) inv] by blast
  moreover have "dispatches c [e] = 0" using False by (auto simp: dispatches_def split: event.splits)
  ultimately show ?thesis using at by (auto simp: extends_def)
next
  case True
  then obtain now E d where e: "e = Dispatched c now E d" by blast
  then have nx: "next_dispatch c now s = Some (s', d)" and E: "E = drop (length (expired s)) (expired s')"
    using assms(1) by (auto elim!: sched_step_cases)
  note i = sched_invD [OF inv]
  show ?thesis
  proof (cases "inflight s ! c \<ge> max_inflight (cfg s) ! c")
    case True
    then show ?thesis using next_ring [OF inv c nx] at e by (auto simp: dispatches_def)
  next
    case False
    then obtain zs where t: "turn_over c now (abs_sched s) zs (abs_sched s') d" using next_ring [OF inv c nx] by auto
    have sh: "shed_in k c [e]" if "k \<in> set zs"
    proof -
      have "\<exists>p. (k, c, p) \<in> set (sheds c now (abs_sched s) k)"
        using ring_sheds [OF i(2), of c k now] c at that t by (simp add: turn_over_def)
      then have "\<exists>p. (k, c, p) \<in> set E" using t that unfolding E turn_over_def by (fastforce split: option.splits)
      then show ?thesis by (auto simp: shed_in_def e)
    qed
    show ?thesis
    proof (cases d)
      case None
      then have "zs = xs @ k # ys" using t at by (simp add: turn_over_def)
      with sh show ?thesis by simp
    next
      case (Some x)
      have r: "xs @ k # ys = zs @ di_key x # ready s' ! c" using t at Some by (simp add: turn_over_def)
      then show ?thesis
      proof (cases "length xs < length zs")
        case True
        then have "k \<in> set zs" using r by (auto simp: append_eq_append_conv2 Cons_eq_append_conv)
        with sh show ?thesis by simp
      next
        case False
        then show ?thesis
        proof (cases "length xs = length zs")
          case True
          then have "di_key x = k" using r by simp
          then show ?thesis using e Some by (auto simp: served_def)
        next
          case neq: False
          with False r obtain vs where vs: "xs = zs @ vs" "vs @ k # ys = di_key x # ready s' ! c" "vs \<noteq> []"
            by (auto simp: append_eq_append_conv2 Cons_eq_append_conv)
          then obtain us where "xs = zs @ di_key x # us" "ready s' ! c = us @ k # ys" by (cases vs) auto
          then show ?thesis using e Some by (intro disjI2 exI [of _ us] exI [of _ ys]) (simp add: dispatches_def)
        qed
      qed
    qed
  qed
qed

lemma dispatches_append [simp]: "dispatches c (es @ fs) = dispatches c es + dispatches c fs"
  by (simp add: dispatches_def)

lemma served_append [simp]: "served k c (es @ fs) \<longleftrightarrow> served k c es \<or> served k c fs"
  unfolding served_def set_append Un_iff by blast

lemma shed_in_append [simp]: "shed_in k c (es @ fs) \<longleftrightarrow> shed_in k c es \<or> shed_in k c fs"
  unfolding shed_in_def set_append Un_iff by blast

lemma cfg_next_loop [simp]: "ac_cfg (fst (a_next_loop c now a)) = ac_cfg a"
proof (induction c now a rule: a_next_loop.induct)
  case (1 c now a)
  then show ?case by (auto simp: a_next_loop.simps [of c now a] Let_def a_dispatch_def split: list.splits)
qed

lemma cfg_evict_loop [simp]: "ac_cfg (fst (a_evict_loop n now a)) = ac_cfg a"
  by (induction n arbitrary: a) (auto simp: a_release_def Let_def split: list.splits)

lemma cfg_evict_list [simp]: "ac_cfg (fst (a_evict_list ks a)) = ac_cfg a"
  by (induction ks arbitrary: a) (auto simp: a_release_def Let_def)

lemma cfg_ops [simp]:
  "ac_cfg (a_admit it a) = ac_cfg a" "ac_cfg (fst (a_next c now a)) = ac_cfg a" "ac_cfg (a_complete cp now a) = ac_cfg a"
  "ac_cfg (fst (a_evict now a)) = ac_cfg a" "ac_cfg (fst (a_evict_all a)) = ac_cfg a" "ac_cfg (a_finish_evict k now a) = ac_cfg a"
  "ac_cfg (fst (a_pop_expired a)) = ac_cfg a"
  by (auto simp: a_admit_def a_next_def a_complete_def a_evict_def a_evict_all_def a_finish_evict_def a_pop_expired_def
      Let_def split: list.splits)

text \<open>A step of the scheduler is a step of its specification, and keeps the configuration.\<close>

definition a_step :: "('k, 'p, 's) event \<Rightarrow> ('k, 'p, 's) asched \<Rightarrow> ('k, 'p, 's) asched" where
  "a_step e a =
     (case e of
        Admitted it \<Rightarrow> a_admit it a
      | Dispatched c now _ _ \<Rightarrow> fst (a_next c now a)
      | Popped _ \<Rightarrow> fst (a_pop_expired a)
      | Completed cp now \<Rightarrow> a_complete cp now a
      | Evicted now _ \<Rightarrow> fst (a_evict now a)
      | Drained _ \<Rightarrow> fst (a_evict_all a)
      | Finished k now \<Rightarrow> a_finish_evict k now a)"

lemma abs_step:
  assumes "sched_step x e y" and "sched_inv x"
  shows "abs_sched (fst y) = a_step e (abs_sched (fst x))"
  using assms
proof (induction x e y rule: sched_step.induct)
  case (step_admit it s s' L) then show ?case using admit_run [of s L it] by (auto simp: a_step_def)
next
  case (step_next c s now s' d L) then show ?case using next_run [of s L c now] by (auto simp: a_step_def)
next
  case (step_pop s s' e L) then show ?case using pop_run [of s L] by (simp add: a_step_def)
next
  case (step_complete L c now s s') then show ?case using complete_run [of s L c now] by (auto simp: a_step_def)
next
  case (step_evict now s s' out L) then show ?case using evict_run [of s L now "[]"] by (auto simp: a_step_def)
next
  case (step_evict_all s s' out L) then show ?case using evict_all_run [of s L "[]"] by (auto simp: a_step_def)
next
  case (step_finish k L now s s') then show ?case using finish_run [of s L k now] by (auto simp: a_step_def)
qed

lemma step_cfg: "sched_step (s, L) e (s', L') \<Longrightarrow> sched_inv (s, L) \<Longrightarrow> cfg s' = cfg s"
  using abs_step [of "(s, L)" e "(s', L')"] abs_sched_fields(1) [of s] abs_sched_fields(1) [of s']
  by (cases e) (simp_all add: a_step_def)

lemma wait_run:
  assumes "run sched_step (s, L) es y" and "sched_inv (s, L)" and "c < length (max_inflight (cfg s))"
    and "ready s ! c = xs @ k # ys"
  shows "cfg (fst y) = cfg s \<and> sched_inv y \<and> (served k c es \<or> shed_in k c es \<or>
    (\<exists>xs' ys'. ready (fst y) ! c = xs' @ k # ys' \<and> length xs' + dispatches c es \<le> length xs))"
  using assms
proof (induction "(s, L)" es y rule: run.induct)
  case run_nil
  then show ?case by (auto simp: dispatches_def)
next
  case (run_snoc es y e z)
  obtain s1 L1 s2 L2 where yz: "y = (s1, L1)" "z = (s2, L2)" by (cases y, cases z) auto
  note IH = run_snoc.hyps(2) [OF run_snoc.prems]
  have st: "sched_step (s1, L1) e (s2, L2)" and i1: "sched_inv (s1, L1)" and c1: "cfg s1 = cfg s"
    using run_snoc.hyps(3) IH yz by auto
  have "cfg s2 = cfg s" "sched_inv (s2, L2)" using step_cfg [OF st i1] c1 sched_inv_step [OF st i1] by auto
  moreover have "served k c (es @ [e]) \<or> shed_in k c (es @ [e]) \<or>
      (\<exists>xs' ys'. ready s2 ! c = xs' @ k # ys' \<and> length xs' + dispatches c (es @ [e]) \<le> length xs)"
  proof (cases "served k c es \<or> shed_in k c es")
    case True
    then show ?thesis by auto
  next
    case False
    then obtain xs1 ys1 where a1: "ready s1 ! c = xs1 @ k # ys1" "length xs1 + dispatches c es \<le> length xs"
      using IH yz by auto
    from wait_step [OF st i1 _ a1(1)] run_snoc.prems(2) c1 a1(2) show ?thesis by fastforce
  qed
  ultimately show ?case using yz by simp
qed

section \<open>Eviction takes the longest idle keys\<close>

definition a_resident :: "('k, 'p, 's) asched \<Rightarrow> nat" where
  "a_resident a = card (dom (ac_keys a)) - ac_evicting a"

lemma a_release_facts:
  assumes "spec_inv a fl" and "ac_idle a = k # rest"
  shows "a_resident (a_release k rest a) = a_resident a - 1" and "k \<notin> set rest"
    and "\<And>j. j \<noteq> k \<Longrightarrow> a_slot (a_release k rest a) j = a_slot a j"
    and "ac_cfg (a_release k rest a) = ac_cfg a" and "ac_idle (a_release k rest a) = rest"
proof -
  have "k \<in> dom (ac_keys a)" using idle_in_dom [OF assms(1)] assms(2) by auto
  then have "insert k (dom (ac_keys a)) = dom (ac_keys a)" "card (dom (ac_keys a) - {k}) = card (dom (ac_keys a)) - 1"
    using keys_finite [OF assms(1)] by auto
  then show "a_resident (a_release k rest a) = a_resident a - 1" by (simp add: a_resident_def a_release_def Let_def)
  show "k \<notin> set rest" using idle_distinct [OF assms(1)] assms(2) by simp
  show "a_slot (a_release k rest a) j = a_slot a j" if "j \<noteq> k" for j
    using that by (simp add: a_slot_def a_release_def Let_def)
qed (simp_all add: a_release_def Let_def)

definition idle_long :: "duration \<Rightarrow> ('k, 'p, 's) asched \<Rightarrow> 'k \<Rightarrow> bool" where
  "idle_long now a k \<longleftrightarrow> now - as_since (a_slot a k) \<ge> evict_after (ac_cfg a)"

text \<open>Over the resident bound, counting \<open>i\<close> keys as released already.\<close>

definition over_capacity :: "nat \<Rightarrow> ('k, 'p, 's) asched \<Rightarrow> bool" where
  "over_capacity i a \<longleftrightarrow> (case max_resident (ac_cfg a) of Some m \<Rightarrow> a_resident a - i > m | None \<Rightarrow> False)"

lemma a_evictable_alt: "a_evictable now k a \<longleftrightarrow> idle_long now a k \<or> over_capacity 0 a"
  by (cases "max_resident (ac_cfg a)") (simp_all add: a_evictable_def idle_long_def over_capacity_def a_resident_def)

lemma a_flushed_cong: "a_slot b j = a_slot a j \<Longrightarrow> a_flushed j b = a_flushed j a"
  by (simp only: a_flushed_def)

definition quiesced :: "('p, 's) aslot \<Rightarrow> ('p, 's) aslot option" where
  "quiesced sl = (if as_resident sl = None then None else Some (sl\<lparr>as_resident := None, as_presence := Evicting\<rparr>))"

text \<open>
  \<open>evicted now n a ks a' out\<close>: a prefix \<open>ks\<close> of the idle list went, oldest first. The keys released before
  position \<open>i\<close> no longer count as resident when the key at position \<open>i\<close> is looked at.
\<close>

definition evicted :: "duration \<Rightarrow> nat \<Rightarrow> ('k, 'p, 's) asched \<Rightarrow> 'k list \<Rightarrow> ('k, 'p, 's) asched \<Rightarrow> ('k \<times> 's) list \<Rightarrow> bool" where
  "evicted now n a ks a' out \<longleftrightarrow>
     ac_idle a = ks @ ac_idle a' \<and> length ks \<le> n \<and> out = concat (map (\<lambda>k. a_flushed k a) ks) \<and>
     ac_keys a' = (\<lambda>k. if k \<in> set ks then quiesced (a_slot a k) else ac_keys a k) \<and>
     a_resident a' = a_resident a - length ks \<and>
     (\<forall>i<length ks. idle_long now a (ks ! i) \<or> over_capacity i a) \<and>
     (length ks < n \<longrightarrow> ac_idle a' = [] \<or> \<not> idle_long now a (hd (ac_idle a')) \<and> \<not> over_capacity (length ks) a)"

lemma evictedD:
  assumes "evicted now n a ks a' out"
  shows "ac_idle a = ks @ ac_idle a'" "out = concat (map (\<lambda>k. a_flushed k a) ks)"
  using assms by (simp_all add: evicted_def)

lemma evicted_Cons:
  assumes inv: "spec_inv a fl" and k: "ac_idle a = k # rest" "a_evictable now k a"
    and ks: "evicted now n (a_release k rest a) ks a' out"
  shows "evicted now (Suc n) a (k # ks) a' (a_flushed k a @ out)"
proof -
  define b where "b = a_release k rest a"
  note f = a_release_facts [OF inv k(1), folded b_def] and ks = ks [folded b_def]
  note d = evictedD [OF ks]
  have ne: "j \<noteq> k" if "j \<in> set (ks @ ac_idle a')" for j using that f(2,5) d(1) by metis
  then have same: "a_slot b j = a_slot a j" if "j \<in> set (ks @ ac_idle a')" for j using f(3) that by blast
  have il: "idle_long now b j = idle_long now a j" if "j \<in> set (ks @ ac_idle a')" for j
    using same [OF that] f(4) by (simp add: idle_long_def)
  have oc: "over_capacity i b = over_capacity (Suc i) a" for i using f(1,4) by (simp add: over_capacity_def split: option.splits)
  have fl: "map (\<lambda>k. a_flushed k b) ks = map (\<lambda>k. a_flushed k a) ks" using same by (simp add: a_flushed_def)
  have keys: "ac_keys b = (ac_keys a)(k := quiesced (a_slot a k))" by (simp add: b_def a_release_def Let_def quiesced_def)
  have "ac_keys a' = (\<lambda>j. if j \<in> set (k # ks) then quiesced (a_slot a j) else ac_keys a j)"
    using ks same ne by (fastforce simp: evicted_def keys)
  moreover have "\<forall>i<length (k # ks). idle_long now a ((k # ks) ! i) \<or> over_capacity i a"
  proof (intro allI impI)
    fix i assume "i < length (k # ks)"
    then show "idle_long now a ((k # ks) ! i) \<or> over_capacity i a"
      using k(2) ks il oc by (cases i) (auto simp: a_evictable_alt evicted_def)
  qed
  moreover have "idle_long now b (hd (ac_idle a')) = idle_long now a (hd (ac_idle a'))" if "ac_idle a' \<noteq> []"
    using il that by simp
  ultimately show ?thesis using ks fl k(1) f(1,5) oc by (auto simp: evicted_def)
qed

lemma a_evict_loop_evicted:
  "spec_inv a fl \<Longrightarrow> \<exists>ks. evicted now n a ks (fst (a_evict_loop n now a)) (snd (a_evict_loop n now a))"
proof (induction n arbitrary: a)
  case 0
  then show ?case by (intro exI [of _ "[]"]) (simp add: evicted_def)
next
  case (Suc n)
  show ?case
  proof (cases "\<exists>k rest. ac_idle a = k # rest \<and> a_evictable now k a")
    case False
    then have "a_evict_loop (Suc n) now a = (a, [])" by (auto split: list.splits)
    moreover have "evicted now (Suc n) a [] a []" using False by (cases "ac_idle a") (auto simp: evicted_def a_evictable_alt)
    ultimately show ?thesis by auto
  next
    case True
    then obtain k rest where k: "ac_idle a = k # rest" "a_evictable now k a" by blast
    obtain ks where ks: "evicted now n (a_release k rest a) ks (fst (a_evict_loop n now (a_release k rest a)))
        (snd (a_evict_loop n now (a_release k rest a)))"
      using Suc.IH [OF a_release_inv [OF Suc.prems k(1)]] by auto
    have "a_evict_loop (Suc n) now a = apsnd (\<lambda>out. a_flushed k a @ out) (a_evict_loop n now (a_release k rest a))"
      using k by simp
    then show ?thesis using evicted_Cons [OF Suc.prems k ks] by auto
  qed
qed

lemma a_evict_list_char:
  assumes "spec_inv a fl" and "ac_idle a = ks"
  shows "ac_idle (fst (a_evict_list ks a)) = [] \<and> snd (a_evict_list ks a) = concat (map (\<lambda>k. a_flushed k a) ks)"
  using assms
proof (induction ks arbitrary: a)
  case (Cons k ks)
  define b where "b = a_release k ks a"
  note f = a_release_facts [OF Cons.prems, folded b_def]
  have "map (\<lambda>k. a_flushed k b) ks = map (\<lambda>k. a_flushed k a) ks" using f(2,3) a_flushed_cong by (metis (no_types, lifting) map_cong)
  moreover have "ac_idle (fst (a_evict_list ks b)) = [] \<and> snd (a_evict_list ks b) = concat (map (\<lambda>k. a_flushed k b) ks)"
    using Cons.IH [of b] a_release_inv [OF Cons.prems] f(5) by (simp add: b_def)
  ultimately show ?case by (simp flip: b_def del: map_eq_conv)
qed simp

section \<open>The arena grows only when full\<close>

lemma slab_node_set_length [simp]: "length (s_nodes (slab_node_set sl i n)) = length (s_nodes sl)"
  by (simp add: slab_node_set_def)

lemma slab_pop_front_capacity:
  "slab_pop_front sl q = Some (sl', q', x) \<Longrightarrow> length (s_nodes sl') = length (s_nodes sl)"
  by (auto simp: slab_pop_front_def Let_def slab_node_set_def split: if_splits bind_splits option.splits)

lemma next_head_capacity:
  "next_head k c now sl q pend exps = Some (sl', q', pend', exps', x) \<Longrightarrow> length (s_nodes sl') = length (s_nodes sl)"
proof (induction k c now sl q pend exps rule: next_head.induct)
  case (1 k c now sl q pend exps)
  show ?case using "1.prems" "1.IH"
    by (subst (asm) next_head.simps) (auto split: option.splits if_splits dest: slab_pop_front_capacity)
qed

lemma idle_link_slab: "idle_link k now s = Some s' \<Longrightarrow> slab s' = slab s"
  by (auto simp: idle_link_def Let_def split: if_splits option.splits bind_splits)

lemma idle_patch_slab: "idle_patch p n s = Some s' \<Longrightarrow> slab s' = slab s"
  by (auto simp: idle_patch_def split: option.splits bind_splits)

lemma place_slab: "place k t now s = Some s' \<Longrightarrow> slab s' = slab s"
  by (auto simp: place_def ring_push_def split: option.splits if_splits dest: idle_link_slab)

lemma next_loop_turn_capacity:
  assumes "next_loop c now s = Some (s', d)"
  shows "length (s_nodes (slab s')) = length (s_nodes (slab s)) \<or>
    (\<exists>s3. next_loop c now s3 = Some (s', d) \<and> length (ready s3 ! c) < length (ready s ! c) \<and>
       length (s_nodes (slab s3)) = length (s_nodes (slab s)))"
  using assms
  by (subst (asm) next_loop.simps)
    (fastforce simp: Let_def split: if_splits list.splits option.splits prod.splits
      dest: next_head_capacity place_slab place_ready)

lemma next_loop_capacity: "next_loop c now s = Some (s', d) \<Longrightarrow> length (s_nodes (slab s')) = length (s_nodes (slab s))"
proof (induction "length (ready s ! c)" arbitrary: s rule: less_induct)
  case less
  then show ?case using next_loop_turn_capacity [OF less.prems] by fastforce
qed

lemma release_slab: "release k out s = Some (s', out') \<Longrightarrow> slab s' = slab s"
  by (auto simp: release_def split: if_splits option.splits bind_splits)

lemma unlink_slab: "idle_unlink_head s = Some s' \<Longrightarrow> slab s' = slab s"
  by (auto simp: idle_unlink_head_def detach_def split: if_splits bind_splits dest!: idle_patch_slab)

lemma evict_loop_slab: "evict_loop n now s out = Some (s', out') \<Longrightarrow> slab s' = slab s"
  by (induction n arbitrary: s out)
    (auto simp: Let_def split: option.splits if_splits bind_splits dest!: unlink_slab release_slab)

lemma evict_all_slab: "evict_all out s = Some (s', out') \<Longrightarrow> slab s' = slab s"
proof (induction out s rule: evict_all.induct)
  case (1 out s)
  then show ?case
    by (subst (asm) (2) evict_all.simps) (auto split: option.splits prod.splits dest!: unlink_slab release_slab)
qed

lemma settle_place_slab: "settle sl slot = Some (slot', t) \<Longrightarrow> place k t now (set_slot k slot' s) = Some s' \<Longrightarrow> slab s' = slab s"
  by (auto dest: place_slab)

lemma step_capacity:
  assumes "sched_step (s, L) e (s', L')" and "\<And>it. e \<noteq> Admitted it"
  shows "slab_capacity (slab s') = slab_capacity (slab s)"
  using assms(1)
proof (cases rule: sched_step_cases [consumes 1, case_names step_admit step_next step_pop step_complete step_evict step_evict_all step_finish])
  case (step_next c' now d)
  then show ?thesis by (auto simp: next_dispatch_def slab_capacity_def split: if_splits dest: next_loop_capacity)
next
  case (step_complete cp now)
  then show ?thesis by (auto simp: complete_def Let_def split: if_splits bind_splits dest: settle_place_slab)
next
  case (step_evict now out)
  then show ?thesis by (auto simp: evict_def dest: evict_loop_slab)
next
  case (step_finish k now)
  then show ?thesis by (auto simp: finish_evict_def Let_def split: if_splits bind_splits dest: settle_place_slab)
qed (use assms(2) in \<open>auto simp: pop_expired_def split: list.splits dest: evict_all_slab\<close>)

definition queued :: "('k, 'p, 's) scheduler \<Rightarrow> nat" where
  "queued s = total (\<lambda>slot. list_len (queue slot)) (keys s)"

lemma queued_abs: "sched_inv (s, L) \<Longrightarrow> queued s = ksum queue_len (ac_keys (abs_sched s))"
proof -
  assume i: "sched_inv (s, L)"
  have rk: "rkeys (slab s) (keys s) (ac_keys (abs_sched s))" using sched_invD(1) [OF i] by (simp add: refines_def)
  show ?thesis unfolding queued_def
  proof (rule total_ksum [OF rk])
    fix k slot assume "map_of (keys s) k = Some slot"
    then show "list_len (queue slot) = queue_len (abs_slot (slab s) slot)"
      using slab_ok_len [of "slab s" "dom (map_of (keys s))" "kqueue (keys s)" k] rk by (simp add: rkeys_def kqueue_def domI)
  qed
qed

lemma queued_le_capacity:
  assumes i: "sched_inv (s, L)"
  shows "queued s \<le> slab_capacity (slab s)" and "s_free (slab s) = NIL \<Longrightarrow> queued s = slab_capacity (slab s)"
proof -
  have rk: "rkeys (slab s) (keys s) (ac_keys (abs_sched s))" using sched_invD(1) [OF i] by (simp add: refines_def)
  have ok: "slab_ok (slab s) (dom (map_of (keys s))) (kqueue (keys s))" using rk by (simp add: rkeys_def)
  have d: "dom (map_of (keys s)) = dom (ac_keys (abs_sched s))" using rk by (auto simp: rkeys_def dom_def)
  have "(\<Sum>k\<in>dom (map_of (keys s)). length (contents (slab s) (kqueue (keys s) k))) = ksum queue_len (ac_keys (abs_sched s))"
    unfolding ksum_def d by (rule sum.cong) (auto simp: kqueue_def rkeys_lookup [OF rk])
  then show "queued s \<le> slab_capacity (slab s)" "s_free (slab s) = NIL \<Longrightarrow> queued s = slab_capacity (slab s)"
    using slab_live_le [OF ok finite_dom_map_of] queued_abs [OF i] by (auto simp: slab_capacity_def)
qed

lemma slab_push_back_capacity:
  "slab_push_back sl q x = Some (sl', q') \<Longrightarrow>
   length (s_nodes sl') = length (s_nodes sl) + (if s_free sl = NIL then 1 else 0)"
  by (auto simp: slab_push_back_def slab_alloc_def Let_def split: if_splits bind_splits option.splits)

lemma admit_capacity:
  assumes "admit it s = Some s'"
  shows "slab_capacity (slab s') = slab_capacity (slab s) + (if s_free (slab s) = NIL then 1 else 0)"
proof -
  have ring: "slab s2 = slab s1" if "ring_push c k s1 = Some s2" for c k and s1 s2 :: "('a, 'b, 'c) scheduler"
    using that by (auto simp: ring_push_def split: if_splits)
  show ?thesis using assms
    by (auto simp: admit_def Let_def slab_capacity_def split: if_splits bind_splits option.splits prod.splits presence.splits
        dest!: slab_push_back_capacity idle_patch_slab ring)
qed

lemma ksum_admit:
  assumes "spec_inv a fl"
  shows "ksum queue_len (ac_keys (a_admit it a)) = ksum queue_len (ac_keys a) + 1"
proof -
  obtain v where v: "ac_keys (a_admit it a) = (ac_keys a)(ad_key it \<mapsto> v)" "queue_len v = queue_len (a_slot a (ad_key it)) + 1"
    by (cases "as_presence (a_slot a (ad_key it)) = Idle") (auto simp: a_admit_def Let_def)
  then show ?thesis using ksum_upd [OF keys_finite [OF assms], of queue_len "ad_key it" v]
    by (cases "ac_keys a (ad_key it)") (auto simp: acold_def)
qed

section \<open>Properties\<close>

text \<open>A run to try the properties on: two keys are admitted, in class 0 of two, and the first is dispatched.\<close>

definition demo_cfg :: config where
  "demo_cfg = \<lparr>max_inflight = [1, 2], max_pending = 8, max_resident = Some 1, evict_after = 3, evict_iters = 2,
     queue_reserve = 0\<rparr>"

definition demo_item :: "nat \<Rightarrow> (nat, nat) admit_item" where
  "demo_item k = \<lparr>ad_key = k, ad_class = 0, ad_expires_at = None, ad_payload = k + 100\<rparr>"

definition demo1 :: "(nat, nat, nat) scheduler" where
  "demo1 = the (admit (demo_item 1) (new demo_cfg))"

definition demo2 :: "(nat, nat, nat) scheduler" where
  "demo2 = the (admit (demo_item 2) demo1)"

definition demo3 :: "(nat, nat, nat) scheduler \<times> (nat, nat, nat) dispatch option" where
  "demo3 = the (next_dispatch 0 5 demo2)"

definition demo4 :: "(nat, nat, nat) scheduler" where
  "demo4 = the (complete \<lparr>co_key = 1, co_class = 0, co_state = Keep 7\<rparr> 9 (fst demo3))"

text \<open>The second key is dispatched and given back too, so that both are idle, over the resident bound of one.\<close>

definition demo5 :: "(nat, nat, nat) scheduler \<times> (nat, nat, nat) dispatch option" where
  "demo5 = the (next_dispatch 0 9 demo4)"

definition demo6 :: "(nat, nat, nat) scheduler" where
  "demo6 = the (complete \<lparr>co_key = 2, co_class = 0, co_state = Keep 8\<rparr> 10 (fst demo5))"

lemmas demo_defs = demo_cfg_def demo_item_def demo1_def demo2_def demo3_def demo4_def demo5_def demo6_def

abbreviation ledger0 :: "nat ledger" where
  "ledger0 \<equiv> \<lparr>flying = Map.empty, flushing = {}\<rparr>"

abbreviation ledger1 :: "nat ledger" where
  "ledger1 \<equiv> ledger0\<lparr>flying := fly (snd demo3) (flying ledger0)\<rparr>"

definition demo_events :: "(nat, nat, nat) event list" where
  "demo_events = [Admitted (demo_item 1), Admitted (demo_item 2),
     Dispatched 0 5 (drop (length (expired demo2)) (expired (fst demo3))) (snd demo3)]"

lemma demo_admit:
  "admit (demo_item 1) (new demo_cfg :: (nat, nat, nat) scheduler) = Some demo1" "admit (demo_item 2) demo1 = Some demo2"
proof -
  have "admit (demo_item 1) (new demo_cfg :: (nat, nat, nat) scheduler) \<noteq> None" "admit (demo_item 2) demo1 \<noteq> None" by code_simp+
  then show "admit (demo_item 1) (new demo_cfg :: (nat, nat, nat) scheduler) = Some demo1" "admit (demo_item 2) demo1 = Some demo2"
    by (auto simp: demo1_def demo2_def)
qed

lemma demo_next: "next_dispatch 0 5 demo2 = Some demo3"
proof -
  have "next_dispatch 0 5 demo2 \<noteq> None" by code_simp
  then show ?thesis by (auto simp: demo3_def)
qed

lemma demo_reach1: "reaches demo_cfg [Admitted (demo_item 1)] demo1 ledger0"
  unfolding reaches_def
  by (rule run_single, rule step_admit [OF _ _ demo_admit(1)]) (simp_all add: new_def demo_cfg_def demo_item_def)

lemma demo_step2: "sched_step (demo1, ledger0) (Admitted (demo_item 2)) (demo2, ledger0)"
proof (rule step_admit [OF _ _ demo_admit(2)])
  have "pending demo1 = 1" by code_simp
  then show "pending demo1 < 2 ^ 32 - 1" by simp
qed code_simp

lemma demo_reach2: "reaches demo_cfg [Admitted (demo_item 1), Admitted (demo_item 2)] demo2 ledger0"
  using run_snoc [OF demo_reach1 [unfolded reaches_def] demo_step2] by (simp add: reaches_def)

lemma demo_step3: "sched_step (demo2, ledger0)
    (Dispatched 0 5 (drop (length (expired demo2)) (expired (fst demo3))) (snd demo3)) (fst demo3, ledger1)"
proof -
  have "0 < length (max_inflight (cfg demo2))" by code_simp
  then show ?thesis using step_next [of 0 demo2 5 "fst demo3" "snd demo3" ledger0] demo_next by simp
qed

lemma demo_reach3: "reaches demo_cfg demo_events (fst demo3) ledger1"
  using run_snoc [OF demo_reach2 [unfolded reaches_def] demo_step3] by (simp add: reaches_def demo_events_def)

lemma demo_reach6: "\<exists>es L. reaches demo_cfg es demo6 L"
proof -
  have "complete \<lparr>co_key = 1, co_class = 0, co_state = Keep 7\<rparr> 9 (fst demo3) \<noteq> None" and f: "flying ledger1 1 = Some 0" by code_simp+
  then have "complete \<lparr>co_key = 1, co_class = 0, co_state = Keep 7\<rparr> 9 (fst demo3) = Some demo4" by (auto simp: demo4_def)
  from step_complete [of ledger1, OF _ this] f
  obtain e4 L4 where s4: "sched_step (fst demo3, ledger1) e4 (demo4, L4)" by fastforce
  have "next_dispatch 0 9 demo4 \<noteq> None" "0 < length (max_inflight (cfg demo4))" and d: "map_option di_key (snd demo5) = Some 2"
    "map_option di_class (snd demo5) = Some 0" by code_simp+
  then obtain e5 where s5: "sched_step (demo4, L4) e5 (fst demo5, L4\<lparr>flying := fly (snd demo5) (flying L4)\<rparr>)"
    using step_next [of 0 demo4 9 "fst demo5" "snd demo5" L4] by (auto simp: demo5_def)
  have fl: "flying (L4\<lparr>flying := fly (snd demo5) (flying L4)\<rparr>) 2 = Some 0" using d by (auto simp: fly_def)
  have "complete \<lparr>co_key = 2, co_class = 0, co_state = Keep 8\<rparr> 10 (fst demo5) \<noteq> None" by code_simp
  then have "complete \<lparr>co_key = 2, co_class = 0, co_state = Keep 8\<rparr> 10 (fst demo5) = Some demo6" by (auto simp: demo6_def)
  from step_complete [of "L4\<lparr>flying := fly (snd demo5) (flying L4)\<rparr>", OF _ this] fl
  obtain e6 L6 where s6: "sched_step (fst demo5, L4\<lparr>flying := fly (snd demo5) (flying L4)\<rparr>) e6 (demo6, L6)" by fastforce
  from run_snoc [OF run_snoc [OF run_snoc [OF demo_reach3 [unfolded reaches_def] s4] s5] s6] show ?thesis unfolding reaches_def by blast
qed

text \<open>C1: in every state the scheduler can reach, its own self check \<open>check_invariants\<close> succeeds: the
  counters, the rings, the slots and the idle list agree.\<close>

theorem sched_selfcheck: "reaches c es s L \<Longrightarrow> check_invariants s = Inr ()"
  using check_invariants_ok [OF sched_invD(1,2)] reaches_inv by metis

theorem sched_selfcheck_witness:
  "reaches demo_cfg demo_events (fst demo3) ledger1 \<and> check_invariants (fst demo3) = Inr ()"
  using sched_selfcheck [OF demo_reach3] demo_reach3 by simp

text \<open>C2: on every reachable state no operation hits an \<open>expect\<close>, a debug assertion, an index out of range
  or a counter below zero, as long as the caller keeps its side: a class that exists, fewer than
  \<open>2 ^ 32 - 1\<close> pending items, completions for what was dispatched, \<open>finish_evict\<close> for what was handed out.\<close>

theorem sched_no_panic:
  assumes "reaches c es s L"
  shows "(ad_class it < length (max_inflight (cfg s)) \<and> pending s < 2 ^ 32 - 1 \<longrightarrow> admit it s \<noteq> None) \<and>
    (cl < length (max_inflight (cfg s)) \<longrightarrow> next_dispatch cl now s \<noteq> None) \<and>
    (flying L (co_key cp) = Some (co_class cp) \<longrightarrow> complete cp now s \<noteq> None) \<and>
    evict now out s \<noteq> None \<and> evict_all out s \<noteq> None \<and> (k \<in> flushing L \<longrightarrow> finish_evict k now s \<noteq> None)"
  using admit_run [OF reaches_inv [OF assms], of it] next_run [OF reaches_inv [OF assms], of cl now]
    complete_run [OF reaches_inv [OF assms], of cp now] evict_run [OF reaches_inv [OF assms], of now out]
    evict_all_run [OF reaches_inv [OF assms], of out] finish_run [OF reaches_inv [OF assms], of k now]
  by auto

theorem sched_no_panic_witness: "reaches demo_cfg demo_events (fst demo3) ledger1 \<and>
    complete \<lparr>co_key = 1, co_class = 0, co_state = Keep 7\<rparr> 9 (fst demo3) \<noteq> None"
proof -
  have "snd demo3 = Some \<lparr>di_key = 1, di_class = 0, di_state = None, di_payload = 101\<rparr>" by code_simp
  then have "flying ledger1 1 = Some 0" by (simp add: fly_def)
  then show ?thesis
    using sched_no_panic [OF demo_reach3, where cp = "\<lparr>co_key = 1, co_class = 0, co_state = Keep 7\<rparr>" and now = 9] demo_reach3
    by simp
qed

text \<open>What a call hands out, besides the new state.\<close>

definition a_output :: "('k, 'p, 's) event \<Rightarrow> ('k, 'p, 's) asched \<Rightarrow> bool" where
  "a_output e a \<longleftrightarrow>
     (case e of
        Dispatched c now _ d \<Rightarrow> d = snd (a_next c now a)
      | Popped x \<Rightarrow> x = snd (a_pop_expired a)
      | Evicted now out \<Rightarrow> out = snd (a_evict now a)
      | Drained out \<Rightarrow> out = snd (a_evict_all a)
      | _ \<Rightarrow> True)"

lemma output_step:
  assumes "sched_step x e y" and "sched_inv x"
  shows "a_output e (abs_sched (fst x))"
  using assms
proof (induction x e y rule: sched_step.induct)
  case (step_next c s now s' d L) then show ?case using next_run [of s L c now] by (auto simp: a_output_def)
next
  case (step_pop s s' e L)
  then show ?case using pop_expired_ok [OF sched_invD(1)] by (fastforce simp: a_output_def)
next
  case (step_evict now s s' out L) then show ?case using evict_run [of s L now "[]"] by (auto simp: a_output_def)
next
  case (step_evict_all s s' out L) then show ?case using evict_all_run [of s L "[]"] by (auto simp: a_output_def)
qed (simp_all add: a_output_def)

text \<open>C3: the concrete scheduler refines its specification: it starts at the abstract start, and on every
  reachable state each operation's new state, read through \<open>abs_sched\<close>, and each operation's output are
  what the abstract operation gives.\<close>

theorem sched_refinement:
  assumes "reaches c es s L"
  shows "abs_sched (new c) = a_new c \<and>
    (sched_step (s, L) e (s', L') \<longrightarrow> abs_sched s' = a_step e (abs_sched s) \<and> a_output e (abs_sched s))"
  using abs_step [of "(s, L)" e "(s', L')"] output_step [of "(s, L)" e "(s', L')"] reaches_inv [OF assms]
    refines_abs [OF new_ok, of c] by simp

theorem sched_refinement_witness:
  "reaches demo_cfg [Admitted (demo_item 1)] demo1 ledger0 \<and> abs_sched demo2 = a_admit (demo_item 2) (abs_sched demo1)"
  using sched_refinement [OF demo_reach1] demo_step2 demo_reach1 by (fastforce simp: a_step_def)

text \<open>C4: exactly-once delivery in order. For every key, what was admitted so far, in order, is what left its
  queue so far, dispatched or expired, followed by what its queue holds: nothing is lost, repeated or
  overtaken within a key, whatever the other keys, completions and evictions do.\<close>

theorem sched_delivery:
  assumes "reaches c es s L"
  shows "concat (map (given k) es) = concat (map (taken k) es) @ view (queue_of k s)"
  using delivery.run_fifo [of c _ es "(s, L)" k] assms by (simp add: reaches_def sched_init_def held_def)

theorem sched_delivery_witness: "reaches demo_cfg demo_events (fst demo3) ledger1 \<and>
    concat (map (given 1) demo_events) = concat (map (taken 1) demo_events) @ view (queue_of 1 (fst demo3))"
  using sched_delivery [OF demo_reach3] demo_reach3 by blast

definition resident_of :: "'k \<Rightarrow> ('k, 'p, 's) scheduler \<Rightarrow> 's option" where
  "resident_of k s = Option.bind (map_of (keys s) k) resident"

lemma resident_of_abs: "resident_of k s = as_resident (a_slot (abs_sched s) k)"
  by (cases "map_of (keys s) k") (auto simp: resident_of_def a_slot_def abs_sched_def acold_def)

lemma flown_slot:
  assumes "sched_inv (s, L)" and "flying L k = Some c"
  shows "map_option presence (map_of (keys s) k) = Some InFlight \<and> resident_of k s = None"
proof -
  note i = sched_invD [OF assms(1)]
  obtain sl where k: "ac_keys (abs_sched s) k = Some sl" and p: "as_presence sl = InFlight"
    using flight_iff [OF i(2), of k] assms(2) by (auto simp: kpres_eq_Some)
  then have "as_resident sl = None" using slot_okD [OF i(2) k] by simp
  then show ?thesis using k p by (auto simp: resident_of_def abs_sched_def)
qed

text \<open>C5: exclusivity. A key that \<open>next\<close> hands out was neither in flight nor being evicted; the class had
  room; the dispatch carries the state the key held, which the scheduler no longer holds.\<close>

theorem sched_exclusive:
  assumes "reaches c es s L" and "cl < length (max_inflight (cfg s))" and "next_dispatch cl now s = Some (s', Some d)"
  shows "di_key d \<notin> dom (flying L) \<and> di_key d \<notin> flushing L \<and> di_class d = cl \<and>
    inflight s ! cl < max_inflight (cfg s) ! cl \<and> di_state d = resident_of (di_key d) s \<and>
    map_option presence (map_of (keys s') (di_key d)) = Some InFlight \<and> resident_of (di_key d) s' = None"
proof -
  note inv = reaches_inv [OF assms(1)] and i = sched_invD [OF reaches_inv [OF assms(1)]]
  obtain xs where lt: "inflight s ! cl < max_inflight (cfg s) ! cl" and t: "turn_over cl now (abs_sched s) xs (abs_sched s') (Some d)"
    using next_ring [OF inv assms(2,3)] by auto
  have "di_key d \<in> set (ready s ! cl)" using t by (simp add: turn_over_def)
  then have p: "pres (abs_sched s) (di_key d) = Some (Ready cl)" using ring_iff [OF i(2), of "di_key d" cl] assms(2) by simp
  have "sched_inv (s', L\<lparr>flying := fly (Some d) (flying L)\<rparr>)" using next_run [OF inv assms(2), of now] assms(3) by auto
  from flown_slot [OF this, of "di_key d" "di_class d"]
  have "map_option presence (map_of (keys s') (di_key d)) = Some InFlight \<and> resident_of (di_key d) s' = None" by (simp add: fly_def)
  then show ?thesis using t p lt i(3) flight_iff [OF i(2), of "di_key d"] by (auto simp: turn_over_def evictings_def resident_of_abs)
qed

theorem sched_exclusive_witness: "reaches demo_cfg [Admitted (demo_item 1), Admitted (demo_item 2)] demo2 ledger0 \<and>
    di_key (the (snd demo3)) \<notin> dom (flying ledger0) \<and> resident_of 1 (fst demo3) = None"
proof -
  have d: "snd demo3 = Some \<lparr>di_key = 1, di_class = 0, di_state = None, di_payload = 101\<rparr>" and c: "0 < length (max_inflight (cfg demo2))"
    by code_simp+
  then have "next_dispatch 0 5 demo2 = Some (fst demo3, Some \<lparr>di_key = 1, di_class = 0, di_state = None, di_payload = 101\<rparr>)"
    using demo_next by (metis prod.collapse)
  from sched_exclusive [OF demo_reach2 c this] show ?thesis using d demo_reach2 by simp
qed

text \<open>C6: class budgets. The in-flight counter of a class is the number of keys the caller holds in it, and
  never exceeds the class's budget.\<close>

theorem sched_budget:
  assumes "reaches c es s L" and "cl < length (max_inflight (cfg s))"
  shows "inflight s ! cl = card {k. flying L k = Some cl} \<and> inflight s ! cl \<le> max_inflight (cfg s) ! cl"
  using flight_count [OF sched_invD(2) [OF reaches_inv [OF assms(1)]], of cl]
    flight_budget [OF sched_invD(2) [OF reaches_inv [OF assms(1)]], of cl] assms(2) by simp

theorem sched_budget_witness: "inflight (fst demo3) ! 0 \<le> max_inflight (cfg (fst demo3)) ! 0"
proof -
  have "0 < length (max_inflight (cfg (fst demo3)))" by code_simp
  from sched_budget [OF demo_reach3 this] show ?thesis by simp
qed

text \<open>C7: the bound on waiting. A key at position \<open>length xs\<close> of a ring is dispatched, or sheds expired work
  of that class, before or at the dispatch number \<open>length xs + 1\<close> of that class, whatever else
  happens in between.\<close>

theorem sched_waiting_bound:
  assumes "reaches c es s L" and "cl < length (max_inflight (cfg s))" and "ready s ! cl = xs @ k # ys"
    and "run sched_step (s, L) fs (s', L')" and "length xs < dispatches cl fs"
  shows "served k cl fs \<or> shed_in k cl fs"
  using wait_run [OF assms(4) reaches_inv [OF assms(1)] assms(2,3)] assms(5) by auto

theorem sched_waiting_bound_witness:
  "served 1 0 [Dispatched 0 5 (drop (length (expired demo2)) (expired (fst demo3))) (snd demo3)] \<or>
   shed_in 1 0 [Dispatched 0 5 (drop (length (expired demo2)) (expired (fst demo3))) (snd demo3)]"
proof -
  have c: "0 < length (max_inflight (cfg demo2))" and r: "ready demo2 ! 0 = [] @ 1 # [2]" and d: "snd demo3 \<noteq> None" by code_simp+
  show ?thesis
    by (rule sched_waiting_bound [OF demo_reach2 c r run_single [of sched_step, OF demo_step3]]) (use d in \<open>auto simp: dispatches_def\<close>)
qed



text \<open>C9: \<open>evict\<close> releases a prefix of the idle list, oldest first, at most \<open>evict_iters\<close> keys of it. The resident
  bound is tested anew for every key: the key at position \<open>i\<close> went because it was idle for the window or
  because the resident keys, less the \<open>i\<close> released before it, still exceeded the bound; the sweep stops early
  only at a key that is neither, so it never evicts past the bound. What it hands out is exactly the states the
  released keys held, in that order; a released key is quiesced, or gone when it held none, the other keys are
  as they were, and the number of resident keys falls by one for each.\<close>

theorem sched_evict_lru:
  assumes "reaches c es s L" and "evict now [] s = Some (s', out)"
  shows "\<exists>ks. evicted now (evict_iters (cfg s)) (abs_sched s) ks (abs_sched s') out"
  using a_evict_loop_evicted [OF sched_invD(2) [OF reaches_inv [OF assms(1)]], of now "evict_iters (cfg s)"]
    evict_run [OF reaches_inv [OF assms(1)], of now "[]"] assms(2) by (auto simp: a_evict_def)

text \<open>Of two keys too young to go, over a bound of one, only the first is released.\<close>

theorem sched_evict_lru_witness:
  "\<exists>s'. evict 11 [] demo6 = Some (s', [(1, 7)]) \<and> evicted 11 2 (abs_sched demo6) [1] (abs_sched s') [(1, 7)] \<and>
     ac_idle (abs_sched demo6) = [1, 2]"
proof -
  have "map_option snd (evict 11 [] demo6) = Some [(1, 7)]" and i: "evict_iters (cfg demo6) = 2"
    and k: "ac_idle (abs_sched demo6) = [1, 2]" and k': "map_option (ac_idle \<circ> abs_sched \<circ> fst) (evict 11 [] demo6) = Some [2]" by code_simp+
  then obtain s' where s': "evict 11 [] demo6 = Some (s', [(1, 7)])" by auto
  obtain es L where "reaches demo_cfg es demo6 L" using demo_reach6 by blast
  from sched_evict_lru [OF this s'] obtain ks where ks: "evicted 11 2 (abs_sched demo6) ks (abs_sched s') [(1, 7)]" by (auto simp: i)
  moreover have "ks = [1]" using evictedD(1) [OF ks] k k' s' by (simp add: append_eq_Cons_conv)
  ultimately show ?thesis using s' k by blast
qed

text \<open>C10: \<open>evict_all\<close> empties the idle list and hands out the state of every idle key that held one, in
  the order of the idle list.\<close>

theorem sched_drain:
  assumes "reaches c es s L" and "evict_all [] s = Some (s', out)"
  shows "ac_idle (abs_sched s') = [] \<and> idle s' = 0 \<and>
    out = concat (map (\<lambda>k. case resident_of k s of None \<Rightarrow> [] | Some st \<Rightarrow> [(k, st)]) (ac_idle (abs_sched s)))"
proof -
  note inv = reaches_inv [OF assms(1)] and i = sched_invD [OF reaches_inv [OF assms(1)]]
  have e: "abs_sched s' = fst (a_evict_all (abs_sched s))" "out = snd (a_evict_all (abs_sched s))"
    and ref: "refines s' (abs_sched s')"
    using evict_all_run [OF inv, of "[]"] assms(2) by (auto simp: sched_inv_def)
  have ch: "ac_idle (abs_sched s') = []" "out = concat (map (\<lambda>k. a_flushed k (abs_sched s)) (ac_idle (abs_sched s)))"
    using a_evict_list_char [OF i(2) refl] e by (simp_all add: a_evict_all_def)
  then have "idle s' = 0" using ref by (simp add: refines_def rlinks_def)
  then show ?thesis using ch by (simp add: a_flushed_def resident_of_abs)
qed

theorem sched_drain_witness: "\<exists>s'. evict_all [] demo6 = Some (s', [(1, 7), (2, 8)]) \<and> idle s' = 0 \<and> ac_idle (abs_sched demo6) = [1, 2]"
proof -
  have "map_option snd (evict_all [] demo6) = Some [(1, 7), (2, 8)]" and k: "ac_idle (abs_sched demo6) = [1, 2]" by code_simp+
  then obtain s' where s': "evict_all [] demo6 = Some (s', [(1, 7), (2, 8)])" by auto
  obtain es L where "reaches demo_cfg es demo6 L" using demo_reach6 by blast
  from sched_drain [OF this s'] show ?thesis using s' k by auto
qed

text \<open>C11: the arena is as large as the most items ever queued at once: a step leaves its capacity alone unless
  the new number of queued items exceeds it, and then makes it that number.\<close>

theorem sched_high_water:
  assumes "reaches c es s L" and "sched_step (s, L) e (s', L')"
  shows "slab_capacity (slab s') \<ge> queued s' \<and>
    slab_capacity (slab s') = (if (\<exists>it. e = Admitted it) then max (slab_capacity (slab s)) (queued s') else slab_capacity (slab s))"
proof -
  note inv = reaches_inv [OF assms(1)]
  have inv': "sched_inv (s', L')" using sched_inv_step [OF assms(2) inv] .
  show ?thesis
  proof (cases "\<exists>it. e = Admitted it")
    case False
    then show ?thesis using step_capacity [OF assms(2)] queued_le_capacity(1) [OF inv'] by auto
  next
    case True
    then obtain it where it: "e = Admitted it" by blast
    then have ad: "admit it s = Some s'" using assms(2) by (auto elim!: sched_step_cases)
    have "abs_sched s' = a_admit it (abs_sched s)" using abs_step [OF assms(2) inv] it by (simp add: a_step_def)
    then have "queued s' = queued s + 1"
      using ksum_admit [OF sched_invD(2) [OF inv]] queued_abs [OF inv] queued_abs [OF inv'] by simp
    then show ?thesis
      using True admit_capacity [OF ad] queued_le_capacity [OF inv] queued_le_capacity(1) [OF inv'] by (auto split: if_splits)
  qed
qed

theorem sched_high_water_witness: "slab_capacity (slab demo2) = max (slab_capacity (slab demo1)) (queued demo2)"
  using sched_high_water [OF demo_reach1 demo_step2] by simp

text \<open>C12: a completion gives the key back its state, or drops it, and touches no other key's state; the key
  returns to the ring of its queue head's class or, with an empty queue, to the newest end of the idle list.\<close>

theorem sched_complete_state:
  assumes "reaches c es s L" and "flying L (co_key cp) = Some (co_class cp)" and "complete cp now s = Some s'"
  shows "resident_of (co_key cp) s' = into_option (co_state cp) \<and>
    (\<forall>k. k \<noteq> co_key cp \<longrightarrow> resident_of k s' = resident_of k s) \<and>
    (case queue_of (co_key cp) s of
       [] \<Rightarrow> ac_idle (abs_sched s') = ac_idle (abs_sched s) @ [co_key cp] \<and> ready s' = ready s
     | x # _ \<Rightarrow> ready s' = (ready s)[it_class x := ready s ! it_class x @ [co_key cp]] \<and>
         ac_idle (abs_sched s') = ac_idle (abs_sched s))"
proof -
  have e: "abs_sched s' = a_complete cp now (abs_sched s)"
    using complete_run [OF reaches_inv [OF assms(1)] assms(2), of now] assms(3) by auto
  have r: "ready s' = ac_ready (a_complete cp now (abs_sched s))" using e by (metis abs_sched_fields(2))
  show ?thesis unfolding resident_of_abs queue_of_abs r e
    by (auto simp: a_complete_def Let_def a_slot_place a_place_def a_slot_def split: list.splits)
qed

theorem sched_complete_state_witness: "resident_of 1 demo4 = Some 7"
proof -
  have "snd demo3 = Some \<lparr>di_key = 1, di_class = 0, di_state = None, di_payload = 101\<rparr>" by code_simp
  then have f: "flying ledger1 (co_key \<lparr>co_key = 1, co_class = 0, co_state = Keep 7\<rparr>) = Some (co_class \<lparr>co_key = 1 :: nat, co_class = 0, co_state = Keep (7 :: nat)\<rparr>)"
    by (simp add: fly_def)
  have "complete \<lparr>co_key = 1, co_class = 0, co_state = Keep 7\<rparr> 9 (fst demo3) \<noteq> None" by code_simp
  then have "complete \<lparr>co_key = 1, co_class = 0, co_state = Keep 7\<rparr> 9 (fst demo3) = Some demo4" by (auto simp: demo4_def)
  from sched_complete_state [OF demo_reach3 f this] show ?thesis by simp
qed

end
