(* ===== verification/Bits.thy ===== *)
theory Bits
  imports Prelude
begin

unbundle bit_operations_syntax

text \<open>
  Bitmaps in 64-bit words, shared by the timer wheel and the outstanding set: the position of the lowest
  set bit, masks, and the reading of a word as the set of its bit positions, under which the bitwise
  operations are set operations.
\<close>

section \<open>The lowest set bit\<close>

text \<open>\<open>trailing_zeros\<close> of a nonzero mask.\<close>

definition trailing_zeros :: "u64 \<Rightarrow> nat" where
  "trailing_zeros x = (case find (\<lambda>n. x AND push_bit n 1 \<noteq> 0) [0..<64] of Some n \<Rightarrow> n | None \<Rightarrow> 64)"

lemma mask_bit: "(x AND push_bit n 1 \<noteq> 0) = bit x n" if "n < 64" for x :: u64
proof -
  have "x AND push_bit n 1 = (if bit x n then push_bit n 1 else 0)"
    by (rule bit_word_eqI) (auto simp: bit_simps)
  moreover have "bit (push_bit n (1 :: u64)) n" using that by (simp add: bit_simps)
  then have "push_bit n (1 :: u64) \<noteq> 0" by (metis bit_0_eq bot_apply bot_bool_def)
  ultimately show ?thesis by simp
qed

lemma mask_nonzero: "(x \<noteq> 0) = (\<exists>n<64. bit x n)" for x :: u64
proof -
  have "x = 0" if "\<forall>n<64. \<not> bit x n" by (rule bit_word_eqI) (use that in simp)
  then show ?thesis by auto
qed

lemma trailing_zeros_bit:
  assumes "x \<noteq> 0"
  shows "trailing_zeros x < 64" "bit x (trailing_zeros x)" "\<And>m. m < trailing_zeros x \<Longrightarrow> \<not> bit x m"
proof -
  obtain n where n: "n < 64" "bit x n" using assms mask_nonzero by auto
  let ?P = "\<lambda>n. x AND push_bit n 1 \<noteq> 0"
  have "find ?P [0..<64] \<noteq> None" unfolding find_None_iff using n mask_bit by auto
  then obtain m where m: "find ?P [0..<64] = Some m" by blast
  then obtain i where "i < 64" "m = i" "?P i" "\<forall>j<i. \<not> ?P j" unfolding find_Some_iff by auto
  then have "m < 64" "bit x m" "\<forall>j<m. \<not> bit x j" using mask_bit [of _ x] by (auto simp del: push_bit_of_1)
  moreover have "trailing_zeros x = m" using m by (simp add: trailing_zeros_def)
  ultimately show "trailing_zeros x < 64" "bit x (trailing_zeros x)" "\<And>m. m < trailing_zeros x \<Longrightarrow> \<not> bit x m" by auto
qed

section \<open>A word as a set of positions\<close>

definition bits :: "u64 \<Rightarrow> nat set" where
  "bits x = {n. n < 64 \<and> bit x n}"

definition low_mask :: "nat \<Rightarrow> u64" where
  "low_mask n = (if n = 0 then 0 else if n \<ge> 64 then - 1 else push_bit n 1 - 1)"

lemma bits_low_mask [simp]: "bits (low_mask n) = {..<n} \<inter> {..<64}"
proof -
  have "bit (push_bit n 1 - 1 :: u64) k \<longleftrightarrow> k < n" if "n < 64" "k < 64" for k
  proof -
    have "(push_bit n 1 - 1 :: u64) = mask n" by (simp add: mask_eq_exp_minus_1)
    then show ?thesis using that by (simp add: bit_simps)
  qed
  then show ?thesis by (auto simp: bits_def low_mask_def)
qed

lemma bits_simps [simp]:
  "bits 0 = {}" "bits (- 1) = {..<64}" "bits (x AND y) = bits x \<inter> bits y" "bits (x OR y) = bits x \<union> bits y"
  "bits (NOT x) = {..<64} - bits x" "n < 64 \<Longrightarrow> bits (2 ^ n) = {n}"
  by (auto simp: bits_def bit_simps)

lemma bits_less [dest]: "n \<in> bits x \<Longrightarrow> n < 64"
  by (simp add: bits_def)

lemma bits_empty [simp]: "bits x = {} \<longleftrightarrow> x = 0"
  using mask_nonzero [of x] by (auto simp: bits_def)

lemma finite_bits [simp]: "finite (bits x)"
  by (simp add: bits_def)

lemma trailing_in [simp]: "x \<noteq> 0 \<Longrightarrow> trailing_zeros x \<in> bits x"
  using trailing_zeros_bit [of x] by (simp add: bits_def)

lemma trailing_less [simp]: "x \<noteq> 0 \<Longrightarrow> trailing_zeros x < 64"
  by (rule trailing_zeros_bit(1))

lemma clear_bit: "n < 64 \<Longrightarrow> bits (x AND NOT (push_bit n 1)) = bits x - {n}"
  by auto

text \<open>\<open>x & (x - 1)\<close> clears the lowest set bit.\<close>

lemma clear_lowest:
  assumes "x \<noteq> 0"
  shows "bits (x AND (x - 1)) = bits x - {trailing_zeros x}"
proof -
  define t where "t = trailing_zeros x"
  note tz = trailing_zeros_bit [OF assms, folded t_def]
  have lo: "unat x mod 2 ^ t = 0"
  proof -
    have "take_bit t x = 0" by (rule bit_word_eqI) (use tz(3) in \<open>auto simp: bit_simps\<close>)
    then have "unat (take_bit t x) = 0" by simp
    then have "take_bit t (unat x) = 0" by (simp only: unsigned_take_bit_eq)
    then show ?thesis by (simp only: take_bit_eq_mod)
  qed
  define q where "q = unat x div 2 ^ t div 2"
  have q: "unat x = 2 ^ t * (2 * q + 1)"
  proof -
    have "bit (unat x) t" using tz(2) by (simp add: bit_unsigned_iff)
    then have "odd (unat x div 2 ^ t)" unfolding bit_iff_odd .
    then have "unat x div 2 ^ t = 2 * q + 1" unfolding q_def using odd_two_times_div_two_succ [of "unat x div 2 ^ t"] by metis
    then show ?thesis using lo by (metis mod_0_imp_dvd dvd_mult_div_cancel)
  qed
  have pos: "1 \<le> unat x" using assms by (simp add: Suc_le_eq word_neq_0_conv unat_gt_0)
  then have u1: "unat (x - 1) = unat x - 1" by (simp add: unat_sub word_le_nat_alt)
  have "bit (x - 1) n \<longleftrightarrow> bit x n \<and> n \<noteq> t" if "t \<le> n" "n < 64" for n
  proof -
    have split: "unat (x - 1) = 2 ^ t * (2 * q) + (2 ^ t - 1)" using u1 q by (simp add: algebra_simps)
    moreover have "(0 :: nat) < 2 ^ t" by simp
    ultimately have "2 ^ t * (2 * q) \<le> unat (x - 1)" "unat (x - 1) < 2 ^ t * Suc (2 * q)" unfolding mult_Suc_right by linarith+
    then have "unat (x - 1) div 2 ^ t = 2 * q" by (rule div_nat_eqI)
    moreover have "unat x div 2 ^ t = 2 * q + 1" using q by simp
    moreover have "m div 2 ^ n = m div 2 ^ t div 2 ^ (n - t)" for m :: nat using that(1) by (simp flip: div_mult2_eq power_add)
    ultimately have "unat (x - 1) div 2 ^ n = 2 * q div 2 ^ (n - t)" "unat x div 2 ^ n = (2 * q + 1) div 2 ^ (n - t)" by simp_all
    moreover have "(2 * q + 1) div 2 ^ (n - t) = 2 * q div 2 ^ (n - t)" if "t < n"
      using that by (cases "n - t") (auto simp: div_mult2_eq)
    ultimately have "odd (unat (x - 1) div 2 ^ n) \<longleftrightarrow> odd (unat x div 2 ^ n) \<and> n \<noteq> t" using that(1) by (cases "n = t") auto
    then have "bit (unat (x - 1)) n \<longleftrightarrow> bit (unat x) n \<and> n \<noteq> t" by (simp only: bit_iff_odd)
    then show ?thesis using that(2) by (simp add: bit_unsigned_iff)
  qed
  moreover have "\<not> bit x n" if "n < t" for n using tz(3) that .
  ultimately show ?thesis unfolding t_def [symmetric] bits_def by (auto simp: bit_simps not_less) (metis linorder_not_le)+
qed

lemma lowest_card: "x \<noteq> 0 \<Longrightarrow> card (bits (x AND (x - 1))) < card (bits x)"
  unfolding clear_lowest by (rule card_Diff1_less [OF finite_bits trailing_in])

end
