(* ===== verification/Wheel.thy ===== *)
theory Wheel
  imports Bits "HOL-Library.Log_Nat"
begin

unbundle bit_operations_syntax

text \<open>
  The hierarchical timer wheel of \<^verbatim>\<open>crates/grommet-core/src/timer.rs\<close>: eight levels of
  sixty-four slots over a fixed slab of entries, occupancy masks, a cursor and a cached next
  event. Ticks are natural numbers below \<open>2 ^ 64\<close>, with the saturating and the rejected cases
  written out; a shift or mask by a level is the division or remainder it computes. Slab
  indices and generations are the words of the code, occupancy masks are 64-bit words, and a
  handle is the packed 128-bit word.
\<close>

section \<open>Constants and handles\<close>

type_synonym tick = nat

abbreviation LEVELS :: nat where "LEVELS \<equiv> 8"
abbreviation SLOT_BITS :: nat where "SLOT_BITS \<equiv> 6"
abbreviation SLOTS :: nat where "SLOTS \<equiv> 64"

definition SPAN_TICKS :: tick where "SPAN_TICKS = 2 ^ (SLOT_BITS * LEVELS)"
definition MAX_DELAY_TICKS :: tick where "MAX_DELAY_TICKS = SPAN_TICKS - 1"
definition TICK_NONE :: tick where "TICK_NONE = 2 ^ 64 - 1"
definition MAX_TICK :: tick where "MAX_TICK = TICK_NONE - 1"
definition FREE_LEVEL :: nat where "FREE_LEVEL = 254"
definition RETIRED_LEVEL :: nat where "RETIRED_LEVEL = 255"
definition MAX_SHIFT :: nat where "MAX_SHIFT = 29"

text \<open>The process-wide counter of wheel identities; exhausting it panics.\<close>

definition allocate_wheel_id :: "u32 \<Rightarrow> (u32 \<times> u32) option" where
  "allocate_wheel_id current = (if current = - 1 then None else Some (current, current + 1))"

type_synonym timer_id = "128 word"

definition id_new :: "u32 \<Rightarrow> u64 \<Rightarrow> u32 \<Rightarrow> timer_id option" where
  "id_new wheel generation index =
     (if wheel = 0 \<or> generation = 0 \<or> index = NIL then None
      else Some (push_bit 96 (ucast wheel) OR push_bit 32 (ucast generation) OR ucast (index + 1)))"

definition id_parts :: "timer_id \<Rightarrow> (u32 \<times> u64 \<times> u32) option" where
  "id_parts raw =
     (let wheel = ucast (drop_bit 96 raw); generation = ucast (drop_bit 32 raw); encoded = ucast raw in
      if wheel = 0 \<or> generation = 0 \<or> encoded = 0 then None else Some (wheel, generation, encoded - 1))"

definition id_from_raw :: "timer_id \<Rightarrow> timer_id option" where
  "id_from_raw raw = (if raw = 0 \<or> id_parts raw = None then None else Some raw)"

section \<open>Data\<close>

datatype insert_error_kind = Full | DeadlineTooFar | TimeOutOfRange

datatype reschedule_error = RStaleId | RDeadlineTooFar | RTimeOutOfRange

record 't entry =
  e_deadline :: tick
  e_generation :: u64
  e_token :: "'t option"
  e_next :: u32
  e_prev :: u32
  e_level :: nat
  e_slot :: nat

record 't wheel =
  w_entries :: "'t entry list"
  w_free :: u32
  w_live :: nat
  w_retired :: nat
  w_heads :: "u32 list list"
  w_occupied :: "u64 list"
  w_cursor :: tick
  w_next_event :: tick
  w_wheel_id :: u32

section \<open>Construction and conversions\<close>

definition wheel_with_capacity_at_tick :: "nat \<Rightarrow> tick \<Rightarrow> u32 \<Rightarrow> 't wheel option" where
  "wheel_with_capacity_at_tick capacity now wheel_id =
     (if capacity \<le> unat NIL \<and> now \<le> MAX_TICK then
        Some \<lparr>w_entries = map (\<lambda>index. \<lparr>e_deadline = 0, e_generation = 0, e_token = None,
                e_next = (if index + 1 < capacity then of_nat (index + 1) else NIL), e_prev = NIL,
                e_level = FREE_LEVEL, e_slot = 0\<rparr>) [0..<capacity],
              w_free = (if capacity = 0 then NIL else 0), w_live = 0, w_retired = 0,
              w_heads = replicate LEVELS (replicate SLOTS NIL), w_occupied = replicate LEVELS 0,
              w_cursor = now, w_next_event = TICK_NONE, w_wheel_id = wheel_id\<rparr>
      else None)"

text \<open>A \<open>Duration\<close> is its nanoseconds, so \<open>as_secs * 10 ^ 9 + subsec_nanos\<close> is the number itself.\<close>

definition duration_to_tick_floor :: "nat \<Rightarrow> duration \<Rightarrow> tick option" where
  "duration_to_tick_floor shift dur =
     (let ticks = dur div 2 ^ shift in if ticks \<le> MAX_TICK then Some ticks else None)"

definition duration_to_tick_ceil :: "nat \<Rightarrow> duration \<Rightarrow> tick option" where
  "duration_to_tick_ceil shift dur =
     (let ticks = dur div 2 ^ shift + (if dur mod 2 ^ shift \<noteq> 0 then 1 else 0) in
      if ticks \<le> MAX_TICK then Some ticks else None)"

definition tick_to_duration :: "nat \<Rightarrow> tick \<Rightarrow> duration option" where
  "tick_to_duration shift tick = (if tick \<le> MAX_TICK then Some (tick * 2 ^ shift) else None)"

definition granularity :: "nat \<Rightarrow> duration" where
  "granularity shift = 2 ^ shift"

definition max_delay :: "nat \<Rightarrow> duration" where
  "max_delay shift = MAX_DELAY_TICKS * 2 ^ shift"

definition wheel_with_capacity_at_duration :: "nat \<Rightarrow> nat \<Rightarrow> duration \<Rightarrow> u32 \<Rightarrow> 't wheel option option" where
  "wheel_with_capacity_at_duration shift capacity now wheel_id =
     (case duration_to_tick_floor shift now of
        None \<Rightarrow> Some None
      | Some now \<Rightarrow> map_option Some (wheel_with_capacity_at_tick capacity now wheel_id))"

definition wheel_capacity :: "'t wheel \<Rightarrow> nat" where
  "wheel_capacity w = length (w_entries w)"

definition wheel_available :: "'t wheel \<Rightarrow> nat" where
  "wheel_available w = length (w_entries w) - w_live w - w_retired w"

definition wheel_is_empty :: "'t wheel \<Rightarrow> bool" where
  "wheel_is_empty w \<longleftrightarrow> w_live w = 0"

definition is_due_at :: "tick \<Rightarrow> 't wheel \<Rightarrow> bool" where
  "is_due_at now w \<longleftrightarrow> now \<ge> w_next_event w"

definition is_due_duration :: "nat \<Rightarrow> duration \<Rightarrow> 't wheel \<Rightarrow> bool" where
  "is_due_duration shift now w =
     (case duration_to_tick_floor shift now of Some now \<Rightarrow> is_due_at now w | None \<Rightarrow> \<not> wheel_is_empty w)"

definition next_wakeup_tick :: "'t wheel \<Rightarrow> tick option" where
  "next_wakeup_tick w = (if w_next_event w \<noteq> TICK_NONE then Some (w_next_event w) else None)"

definition next_wakeup_duration :: "nat \<Rightarrow> 't wheel \<Rightarrow> duration option option" where
  "next_wakeup_duration shift w =
     (case next_wakeup_tick w of None \<Rightarrow> Some None | Some tick \<Rightarrow> map_option Some (tick_to_duration shift tick))"

section \<open>Slots\<close>

definition deadline_fits :: "'t wheel \<Rightarrow> tick \<Rightarrow> bool" where
  "deadline_fits w deadline \<longleftrightarrow> deadline \<le> w_cursor w \<or> deadline - w_cursor w \<le> MAX_DELAY_TICKS"

text \<open>The start of the next occurrence of a slot, at or after the cursor.\<close>

definition wakeup_at :: "tick \<Rightarrow> nat \<Rightarrow> nat \<Rightarrow> tick" where
  "wakeup_at cursor level slot =
     (let width = 2 ^ (level * SLOT_BITS); rotation = width * SLOTS;
          within_rotation = cursor mod rotation; slot_start = slot * width;
          distance = (if slot_start \<ge> within_rotation then slot_start - within_rotation
                      else rotation - within_rotation + slot_start) in
      min (cursor + distance) TICK_NONE)"

definition slot_wakeup :: "'t wheel \<Rightarrow> nat \<Rightarrow> nat \<Rightarrow> tick" where
  "slot_wakeup w level slot = wakeup_at (w_cursor w) level slot"

text \<open>\<open>u64::BITS - 1 - leading_zeros\<close> of a nonzero word is the position of its highest bit.\<close>

definition placement_at :: "tick \<Rightarrow> tick \<Rightarrow> nat \<times> nat" where
  "placement_at cursor deadline =
     (if deadline \<le> cursor then (0, cursor mod SLOTS)
      else
        (let differing = floorlog 2 (cursor XOR deadline) - 1;
             level = min (differing div SLOT_BITS) (LEVELS - 1);
             slot = deadline div 2 ^ (level * SLOT_BITS) mod SLOTS in
         (level, slot)))"

definition placement :: "'t wheel \<Rightarrow> tick \<Rightarrow> (nat \<times> nat) option" where
  "placement w deadline =
     (if deadline \<le> w_cursor w then Some (placement_at (w_cursor w) deadline)
      else if \<not> deadline_fits w deadline then None
      else
        (let (level, slot) = placement_at (w_cursor w) deadline in
         if slot_wakeup w level slot \<le> deadline then Some (level, slot) else None))"

definition head_of :: "'t wheel \<Rightarrow> nat \<Rightarrow> nat \<Rightarrow> u32" where
  "head_of w level slot = w_heads w ! level ! slot"

definition set_head :: "nat \<Rightarrow> nat \<Rightarrow> u32 \<Rightarrow> 't wheel \<Rightarrow> 't wheel" where
  "set_head level slot i w = w\<lparr>w_heads := (w_heads w)[level := (w_heads w ! level)[slot := i]]\<rparr>"

definition occupied_at :: "'t wheel \<Rightarrow> nat \<Rightarrow> nat \<Rightarrow> bool" where
  "occupied_at w level slot \<longleftrightarrow> w_occupied w ! level AND push_bit slot 1 \<noteq> 0"

definition occupy :: "nat \<Rightarrow> nat \<Rightarrow> 't wheel \<Rightarrow> 't wheel" where
  "occupy level slot w = w\<lparr>w_occupied := (w_occupied w)[level := w_occupied w ! level OR push_bit slot 1]\<rparr>"

definition vacate :: "nat \<Rightarrow> nat \<Rightarrow> 't wheel \<Rightarrow> 't wheel" where
  "vacate level slot w = w\<lparr>w_occupied := (w_occupied w)[level := w_occupied w ! level AND NOT (push_bit slot 1)]\<rparr>"

definition get_entry :: "'t wheel \<Rightarrow> u32 \<Rightarrow> 't entry option" where
  "get_entry w index = (if unat index < length (w_entries w) then Some (w_entries w ! unat index) else None)"

definition put_entry :: "u32 \<Rightarrow> 't entry \<Rightarrow> 't wheel \<Rightarrow> 't wheel" where
  "put_entry index e w = w\<lparr>w_entries := (w_entries w)[unat index := e]\<rparr>"

definition wheel_file :: "u32 \<Rightarrow> tick \<Rightarrow> 't wheel \<Rightarrow> 't wheel option" where
  "wheel_file index deadline w = do {
     (level, slot) \<leftarrow> placement w deadline;
     let head = head_of w level slot;
     entry \<leftarrow> get_entry w index;
     let w = put_entry index (entry\<lparr>e_deadline := deadline, e_next := head, e_prev := NIL,
                                    e_level := level, e_slot := slot\<rparr>) w;
     w \<leftarrow> (if head \<noteq> NIL then do {
             entry \<leftarrow> get_entry w head;
             Some (put_entry head (entry\<lparr>e_prev := index\<rparr>) w)
           } else Some w);
     let w = occupy level slot (set_head level slot index w);
     let wakeup = slot_wakeup w level slot;
     Some (if wakeup < w_next_event w then w\<lparr>w_next_event := wakeup\<rparr> else w)
   }"

definition level_event :: "'t wheel \<Rightarrow> nat \<Rightarrow> tick \<Rightarrow> tick" where
  "level_event w level soonest =
     (let occupied = w_occupied w ! level in
      if occupied = 0 then soonest
      else
        (let here = w_cursor w div 2 ^ (level * SLOT_BITS) mod SLOTS;
             other = occupied AND NOT (push_bit here 1);
             soonest =
               (if other \<noteq> 0 then
                  (let ahead = trailing_zeros (word_rotr here other);
                       slot = (here + ahead) mod SLOTS in
                   min soonest (slot_wakeup w level slot))
                else soonest) in
         if occupied AND push_bit here 1 \<noteq> 0 then min soonest (slot_wakeup w level here) else soonest))"

definition compute_next_event :: "'t wheel \<Rightarrow> tick option" where
  "compute_next_event w =
     (let soonest = fold (level_event w) [0..<LEVELS] TICK_NONE in
      if soonest \<noteq> TICK_NONE then Some soonest else None)"

definition refresh :: "'t wheel \<Rightarrow> 't wheel" where
  "refresh w = w\<lparr>w_next_event := (case compute_next_event w of Some e \<Rightarrow> e | None \<Rightarrow> TICK_NONE)\<rparr>"

section \<open>The fixed slab\<close>

definition wheel_allocate :: "tick \<Rightarrow> 't \<Rightarrow> 't wheel \<Rightarrow> ('t wheel \<times> u32) option" where
  "wheel_allocate deadline token w =
     (let index = w_free w in
      if index = NIL then None
      else do {
        entry \<leftarrow> get_entry w index;
        if e_token entry \<noteq> None \<or> e_level entry \<noteq> FREE_LEVEL \<or> e_generation entry = - 1 then None
        else
          Some ((put_entry index (entry\<lparr>e_deadline := deadline, e_generation := e_generation entry + 1,
                   e_token := Some token, e_next := NIL, e_prev := NIL\<rparr>) w)
                  \<lparr>w_free := e_next entry, w_live := w_live w + 1\<rparr>, index)
      })"

definition wheel_release :: "u32 \<Rightarrow> 't wheel \<Rightarrow> 't wheel option" where
  "wheel_release index w = do {
     entry \<leftarrow> get_entry w index;
     if e_token entry \<noteq> None \<or> w_live w = 0 then None
     else do {
       let entry = entry\<lparr>e_prev := NIL, e_slot := 0\<rparr>;
       let w = w\<lparr>w_live := w_live w - 1\<rparr>;
       if e_generation entry = - 1 then
         Some ((put_entry index (entry\<lparr>e_next := NIL, e_level := RETIRED_LEVEL\<rparr>) w)\<lparr>w_retired := w_retired w + 1\<rparr>)
       else
         Some ((put_entry index (entry\<lparr>e_next := w_free w, e_level := FREE_LEVEL\<rparr>) w)\<lparr>w_free := index\<rparr>)
     }
   }"

definition live_index :: "timer_id \<Rightarrow> 't wheel \<Rightarrow> u32 option" where
  "live_index tid w = do {
     (wheel, generation, index) \<leftarrow> id_parts tid;
     if wheel \<noteq> w_wheel_id w then None
     else do {
       entry \<leftarrow> get_entry w index;
       if e_generation entry = generation \<and> e_token entry \<noteq> None then Some index else None
     }
   }"

definition wheel_take :: "nat \<Rightarrow> nat \<Rightarrow> 't wheel \<Rightarrow> 't wheel \<times> u32" where
  "wheel_take level slot w = (vacate level slot (set_head level slot NIL w), head_of w level slot)"

definition wheel_unlink :: "u32 \<Rightarrow> 't wheel \<Rightarrow> 't wheel option" where
  "wheel_unlink index w = do {
     entry \<leftarrow> get_entry w index;
     let level = e_level entry;
     let slot = e_slot entry;
     let prev = e_prev entry;
     let next = e_next entry;
     w \<leftarrow> (if prev = NIL then
             if level < LEVELS \<and> slot < SLOTS then
               (let w = set_head level slot next w in
                Some (if next = NIL then vacate level slot w else w))
             else None
           else do {
             entry \<leftarrow> get_entry w prev;
             Some (put_entry prev (entry\<lparr>e_next := next\<rparr>) w)
           });
     if next \<noteq> NIL then do {
       entry \<leftarrow> get_entry w next;
       Some (put_entry next (entry\<lparr>e_prev := prev\<rparr>) w)
     } else Some w
   }"

section \<open>Scheduling\<close>

definition try_insert_at :: "tick \<Rightarrow> 't \<Rightarrow> 't wheel \<Rightarrow> ('t wheel \<times> (insert_error_kind \<times> 't + timer_id)) option" where
  "try_insert_at deadline token w =
     (if deadline > MAX_TICK then Some (w, Inl (TimeOutOfRange, token))
      else if \<not> deadline_fits w deadline then Some (w, Inl (DeadlineTooFar, token))
      else if w_free w = NIL then Some (w, Inl (Full, token))
      else do {
        (w, index) \<leftarrow> wheel_allocate deadline token w;
        w \<leftarrow> wheel_file index deadline w;
        entry \<leftarrow> get_entry w index;
        tid \<leftarrow> id_new (w_wheel_id w) (e_generation entry) index;
        Some (w, Inr tid)
      })"

definition try_insert_duration ::
  "nat \<Rightarrow> duration \<Rightarrow> 't \<Rightarrow> 't wheel \<Rightarrow> ('t wheel \<times> (insert_error_kind \<times> 't + timer_id)) option" where
  "try_insert_duration shift deadline token w =
     (case duration_to_tick_ceil shift deadline of
        None \<Rightarrow> Some (w, Inl (TimeOutOfRange, token))
      | Some deadline \<Rightarrow> try_insert_at deadline token w)"

definition wheel_contains :: "timer_id \<Rightarrow> 't wheel \<Rightarrow> bool" where
  "wheel_contains tid w \<longleftrightarrow> live_index tid w \<noteq> None"

text \<open>Whether taking this entry out empties the slot the cached next event came from.\<close>

definition removes_earliest :: "'t entry \<Rightarrow> 't wheel \<Rightarrow> bool" where
  "removes_earliest entry w \<longleftrightarrow>
     e_prev entry = NIL \<and> e_next entry = NIL \<and> slot_wakeup w (e_level entry) (e_slot entry) = w_next_event w"

definition cancel :: "timer_id \<Rightarrow> 't wheel \<Rightarrow> ('t wheel \<times> 't option) option" where
  "cancel tid w =
     (case live_index tid w of
        None \<Rightarrow> Some (w, None)
      | Some index \<Rightarrow> do {
          entry \<leftarrow> get_entry w index;
          let removed_earliest = removes_earliest entry w;
          w \<leftarrow> wheel_unlink index w;
          entry \<leftarrow> get_entry w index;
          token \<leftarrow> e_token entry;
          let w = put_entry index (entry\<lparr>e_token := None\<rparr>) w;
          w \<leftarrow> wheel_release index w;
          Some (if removed_earliest then refresh w else w, Some token)
        })"

definition reschedule_at :: "timer_id \<Rightarrow> tick \<Rightarrow> 't wheel \<Rightarrow> ('t wheel \<times> (reschedule_error + unit)) option" where
  "reschedule_at tid deadline w =
     (if deadline > MAX_TICK then Some (w, Inl RTimeOutOfRange)
      else if \<not> deadline_fits w deadline then Some (w, Inl RDeadlineTooFar)
      else
        (case live_index tid w of
           None \<Rightarrow> Some (w, Inl RStaleId)
         | Some index \<Rightarrow> do {
             entry \<leftarrow> get_entry w index;
             let removed_earliest = removes_earliest entry w;
             w \<leftarrow> wheel_unlink index w;
             entry \<leftarrow> get_entry w index;
             let w = put_entry index (entry\<lparr>e_deadline := deadline\<rparr>) w;
             w \<leftarrow> wheel_file index deadline w;
             Some (if removed_earliest then refresh w else w, Inr ())
           }))"

definition reschedule_duration ::
  "nat \<Rightarrow> timer_id \<Rightarrow> duration \<Rightarrow> 't wheel \<Rightarrow> ('t wheel \<times> (reschedule_error + unit)) option" where
  "reschedule_duration shift tid deadline w =
     (case duration_to_tick_ceil shift deadline of
        None \<Rightarrow> Some (w, Inl RTimeOutOfRange)
      | Some deadline \<Rightarrow> reschedule_at tid deadline w)"

section \<open>Sweeping\<close>

text \<open>The \<open>while\<close> loops follow links that the loop body rewrites, so they are partial functions:
  not returning is \<open>None\<close>, like a panic.\<close>

partial_function (option) refile :: "u32 \<Rightarrow> 't wheel \<Rightarrow> 't wheel option" where
  "refile index w =
     (if index = NIL then Some w
      else do {
        entry \<leftarrow> get_entry w index;
        w \<leftarrow> wheel_file index (e_deadline entry) w;
        refile (e_next entry) w
      })"

definition cascade_level :: "nat \<Rightarrow> 't wheel \<Rightarrow> 't wheel option" where
  "cascade_level level w =
     (let slot = w_cursor w div 2 ^ (level * SLOT_BITS) mod SLOTS in
      if \<not> occupied_at w level slot then Some w
      else (let (w, index) = wheel_take level slot w in refile index w))"

primrec cascade_levels :: "nat list \<Rightarrow> 't wheel \<Rightarrow> 't wheel option" where
  "cascade_levels [] w = Some w"
| "cascade_levels (l # ls) w = do { w \<leftarrow> cascade_level l w; cascade_levels ls w }"

definition cascade :: "'t wheel \<Rightarrow> 't wheel option" where
  "cascade w = cascade_levels (rev [1..<LEVELS]) w"

partial_function (option) fire_list :: "u32 \<Rightarrow> 't list \<Rightarrow> 't wheel \<Rightarrow> ('t wheel \<times> 't list) option" where
  "fire_list index out w =
     (if index = NIL then Some (w, out)
      else do {
        entry \<leftarrow> get_entry w index;
        if \<not> e_deadline entry \<le> w_cursor w then None
        else do {
          token \<leftarrow> e_token entry;
          w \<leftarrow> wheel_release index (put_entry index (entry\<lparr>e_token := None\<rparr>) w);
          fire_list (e_next entry) (out @ [token]) w
        }
      })"

definition fire :: "'t list \<Rightarrow> 't wheel \<Rightarrow> ('t wheel \<times> 't list) option" where
  "fire out w =
     (let slot = w_cursor w mod SLOTS in
      if \<not> occupied_at w 0 slot then Some (w, out)
      else (let (w, index) = wheel_take 0 slot w in fire_list index out w))"

partial_function (option) advance_loop :: "tick \<Rightarrow> 't list \<Rightarrow> 't wheel \<Rightarrow> ('t wheel \<times> 't list) option" where
  "advance_loop target out w =
     (let event = w_next_event w in
      if event = TICK_NONE \<or> event > target then Some (w\<lparr>w_cursor := target\<rparr>, out)
      else if event < w_cursor w then None
      else do {
        w \<leftarrow> cascade (w\<lparr>w_cursor := event\<rparr>);
        (w, out) \<leftarrow> fire out w;
        advance_loop target out (refresh w)
      })"

text \<open>\<open>advance_to_with\<close> with the emitting callback appending to \<open>out\<close>: the number of tokens it
  returns is the growth of \<open>out\<close>.\<close>

definition advance_to :: "tick \<Rightarrow> 't list \<Rightarrow> 't wheel \<Rightarrow> ('t wheel \<times> 't list) option" where
  "advance_to target out w =
     (if target > MAX_TICK then None
      else if target < w_cursor w then Some (w, out)
      else if target < w_next_event w then Some (w\<lparr>w_cursor := target\<rparr>, out)
      else advance_loop target out w)"

definition advance_duration :: "nat \<Rightarrow> duration \<Rightarrow> 't list \<Rightarrow> 't wheel \<Rightarrow> ('t wheel \<times> 't list) option option" where
  "advance_duration shift now out w =
     (case duration_to_tick_floor shift now of None \<Rightarrow> Some None | Some now \<Rightarrow> map_option Some (advance_to now out w))"

section \<open>Diagnostics\<close>

text \<open>\<open>check_invariants\<close>: every slot list, the free list and the retired entries, with the bytes of
  \<open>seen\<close> recording where each slab position was met. The errors are the strings of the code.\<close>

partial_function (option) walk_slot ::
  "'t wheel \<Rightarrow> nat \<Rightarrow> nat \<Rightarrow> u32 \<Rightarrow> u32 \<Rightarrow> nat list \<Rightarrow> nat \<Rightarrow> (string + nat list \<times> nat) option" where
  "walk_slot w level slot index prev seen live =
     (if index = NIL then Some (Inr (seen, live))
      else
        (case get_entry w index of
           None \<Rightarrow> Some (Inl ''slot list contains an out-of-range index'')
         | Some entry \<Rightarrow>
             if seen ! unat index \<noteq> 0 then Some (Inl ''an entry appears more than once or a list cycles'')
             else if e_token entry = None then Some (Inl ''a filed entry holds no token'')
             else if e_generation entry = 0 then Some (Inl ''a live entry has never been issued'')
             else if e_level entry \<noteq> level \<or> e_slot entry \<noteq> slot then Some (Inl ''an entry disagrees with its slot'')
             else if e_prev entry \<noteq> prev then Some (Inl ''slot back-link disagrees with forward linkage'')
             else if slot_wakeup w level slot > max (e_deadline entry) (w_cursor w) then
               Some (Inl ''a slot would be visited after its deadline'')
             else walk_slot w level slot (e_next entry) index (seen[unat index := 1]) (live + 1)))"

primrec walk_slots :: "'t wheel \<Rightarrow> (nat \<times> nat) list \<Rightarrow> nat list \<Rightarrow> nat \<Rightarrow> (string + nat list \<times> nat) option" where
  "walk_slots w [] seen live = Some (Inr (seen, live))"
| "walk_slots w (p # ps) seen live =
     (let (level, slot) = p; head = head_of w level slot in
      if occupied_at w level slot \<noteq> (head \<noteq> NIL) then Some (Inl ''occupancy disagrees with slot head'')
      else
        (case walk_slot w level slot head NIL seen live of
           None \<Rightarrow> None
         | Some (Inl e) \<Rightarrow> Some (Inl e)
         | Some (Inr (seen, live)) \<Rightarrow> walk_slots w ps seen live))"

partial_function (option) walk_free :: "'t wheel \<Rightarrow> u32 \<Rightarrow> nat list \<Rightarrow> nat \<Rightarrow> (string + nat list \<times> nat) option" where
  "walk_free w index seen free =
     (if index = NIL then Some (Inr (seen, free))
      else
        (case get_entry w index of
           None \<Rightarrow> Some (Inl ''free list contains an out-of-range index'')
         | Some entry \<Rightarrow>
             if seen ! unat index \<noteq> 0 then
               Some (Inl ''an entry appears in both a slot and the free list, or the free list cycles'')
             else if e_token entry \<noteq> None \<or> e_level entry \<noteq> FREE_LEVEL then Some (Inl ''a free entry has live state'')
             else walk_free w (e_next entry) (seen[unat index := 2]) (free + 1)))"

primrec walk_retired :: "'t entry list \<Rightarrow> nat \<Rightarrow> nat list \<Rightarrow> nat \<Rightarrow> string + nat list \<times> nat" where
  "walk_retired [] index seen retired = Inr (seen, retired)"
| "walk_retired (entry # es) index seen retired =
     (if e_level entry = RETIRED_LEVEL then
        if seen ! index \<noteq> 0 \<or> e_token entry \<noteq> None \<or> e_generation entry \<noteq> - 1 then
          Inl ''a retired entry has inconsistent state''
        else walk_retired es (Suc index) (seen[index := 3]) (retired + 1)
      else walk_retired es (Suc index) seen retired)"

definition wheel_check_invariants :: "'t wheel \<Rightarrow> (string + unit) option" where
  "wheel_check_invariants w =
     (case walk_slots w (List.product [0..<LEVELS] [0..<SLOTS]) (replicate (length (w_entries w)) 0) 0 of
        None \<Rightarrow> None
      | Some (Inl e) \<Rightarrow> Some (Inl e)
      | Some (Inr (seen, live)) \<Rightarrow>
          if live \<noteq> w_live w then Some (Inl ''live counter disagrees with filed entries'')
          else
            (case walk_free w (w_free w) seen 0 of
               None \<Rightarrow> None
             | Some (Inl e) \<Rightarrow> Some (Inl e)
             | Some (Inr (seen, free)) \<Rightarrow>
                 (case walk_retired (w_entries w) 0 seen 0 of
                    Inl e \<Rightarrow> Some (Inl e)
                  | Inr (seen, retired) \<Rightarrow>
                      Some (if retired \<noteq> w_retired w then Inl ''retired counter disagrees with retired entries''
                            else if free + live + retired \<noteq> length (w_entries w) \<or> 0 \<in> set seen then
                              Inl ''the slab contains an unreachable entry''
                            else if wheel_available w \<noteq> free then Inl ''available count disagrees with the free list''
                            else if (case compute_next_event w of Some e \<Rightarrow> e | None \<Rightarrow> TICK_NONE) \<noteq> w_next_event w then
                              Inl ''cached next event is not exact''
                            else if w_next_event w < w_cursor w then Inl ''cached next event is behind the cursor''
                            else Inr ()))))"

end
