(* ===== verification/Wheel_Math.thy ===== *)
theory Wheel_Math
  imports Wheel
begin

text \<open>
  The arithmetic of the timer wheel, free of its data structures: when a slot comes round, that
  a deadline is filed in a slot that comes round in time, that the cached next event is the
  earliest visit any occupied slot needs, and the bit patterns of occupancy masks and handles.
\<close>

section \<open>When a slot comes round\<close>

definition width :: "nat \<Rightarrow> nat" where
  "width level = 2 ^ (level * SLOT_BITS)"

lemma width_pos [simp]: "0 < width l" "width l \<noteq> 0"
  by (simp_all add: width_def)

lemma width_Suc: "width (Suc l) = width l * SLOTS"
  by (simp add: width_def power_add)

lemma width_0 [simp]: "width 0 = 1"
  by (simp add: width_def)

text \<open>The unsaturated start of the next occurrence.\<close>

definition visit :: "tick \<Rightarrow> nat \<Rightarrow> nat \<Rightarrow> tick" where
  "visit cursor l s =
     cursor + (if s * width l \<ge> cursor mod (width l * SLOTS) then s * width l - cursor mod (width l * SLOTS)
               else width l * SLOTS - cursor mod (width l * SLOTS) + s * width l)"

lemma wakeup_visit: "wakeup_at cursor l s = min (visit cursor l s) TICK_NONE"
  by (simp add: wakeup_at_def visit_def width_def Let_def)

lemma visit_ge: "cursor \<le> visit cursor l s"
  by (simp add: visit_def)

lemma visit_less: "s < SLOTS \<Longrightarrow> visit cursor l s < cursor + width l * SLOTS"
proof -
  assume s: "s < SLOTS"
  have m: "cursor mod (width l * SLOTS) < width l * SLOTS" by simp
  have x: "s * width l < width l * SLOTS" using s by (simp add: mult.commute)
  show ?thesis
  proof (cases "s * width l \<ge> cursor mod (width l * SLOTS)")
    case True
    then show ?thesis unfolding visit_def if_P [OF True] using x by linarith
  next
    case False
    then show ?thesis unfolding visit_def if_not_P [OF False] using m by linarith
  qed
qed

lemma visit_mod: "s < SLOTS \<Longrightarrow> visit cursor l s mod (width l * SLOTS) = s * width l"
proof -
  assume s: "s < SLOTS"
  let ?R = "width l * SLOTS"
  have sw: "s * width l < ?R" using s by (simp add: mult.commute)
  have m: "cursor mod ?R < ?R" by simp
  obtain q where q: "cursor = q * ?R + cursor mod ?R" by (metis div_mult_mod_eq)
  have "visit cursor l s = q * ?R + s * width l \<or> visit cursor l s = (q + 1) * ?R + s * width l"
  proof (cases "s * width l \<ge> cursor mod ?R")
    case True
    then have "visit cursor l s = q * ?R + cursor mod ?R + (s * width l - cursor mod ?R)" using q by (simp add: visit_def)
    then show ?thesis using True by simp
  next
    case False
    then have "visit cursor l s = q * ?R + cursor mod ?R + (?R - cursor mod ?R + s * width l)" using q by (simp add: visit_def)
    then show ?thesis using m by (simp add: algebra_simps)
  qed
  then show ?thesis using sw by (metis mod_less mod_mult_self3)
qed

lemma visit_unique:
  assumes "s < SLOTS" and "cursor \<le> t" and "t < cursor + width l * SLOTS" and "t mod (width l * SLOTS) = s * width l"
  shows "visit cursor l s = t"
proof (rule ccontr)
  let ?R = "width l * SLOTS"
  assume ne: "visit cursor l s \<noteq> t"
  have eq: "visit cursor l s mod ?R = t mod ?R" using visit_mod [OF assms(1)] assms(4) by simp
  have v: "cursor \<le> visit cursor l s" "visit cursor l s < cursor + ?R" using visit_ge visit_less [OF assms(1)] by auto
  show False
  proof (cases "visit cursor l s < t")
    case True
    then have "?R dvd t - visit cursor l s" using eq by (metis mod_eq_dvd_iff_nat less_imp_le)
    then have "?R \<le> t - visit cursor l s" using True by (intro dvd_imp_le) auto
    then show False using v assms(3) by linarith
  next
    case False
    then have lt: "t < visit cursor l s" using ne by simp
    then have "?R dvd visit cursor l s - t" using eq by (metis mod_eq_dvd_iff_nat less_imp_le)
    then have "?R \<le> visit cursor l s - t" using lt by (intro dvd_imp_le) auto
    then show False using v assms(2) by linarith
  qed
qed

lemma visit_shift:
  assumes "s < SLOTS" and "cursor \<le> cursor'" and "cursor' \<le> visit cursor l s"
  shows "visit cursor' l s = visit cursor l s"
  by (rule visit_unique [OF assms(1) assms(3)]) (use assms visit_less [OF assms(1), of cursor l] visit_mod [OF assms(1)] in auto)

lemma visit_now: "s < SLOTS \<Longrightarrow> visit cursor l s = cursor \<Longrightarrow> s = cursor div width l mod SLOTS"
proof -
  assume s: "s < SLOTS" and "visit cursor l s = cursor"
  then have "cursor mod (width l * SLOTS) = s * width l" using visit_mod [OF s, of cursor l] by simp
  then have "cursor mod (width l * SLOTS) div width l = s" by simp
  moreover have "cursor mod (width l * SLOTS) = width l * (cursor div width l mod SLOTS) + cursor mod width l"
    by (simp add: mod_mult2_eq)
  ultimately show ?thesis by (simp add: div_mult2_eq)
qed

section \<open>Filing a deadline\<close>

text \<open>An entry with deadline \<open>d\<close> may stay in slot \<open>s\<close> of level \<open>l\<close>: the slot comes round no later than
  the deadline (or now, when it has passed) and less than one width before it.\<close>

definition in_time :: "tick \<Rightarrow> nat \<Rightarrow> nat \<Rightarrow> tick \<Rightarrow> bool" where
  "in_time cursor l s d \<longleftrightarrow>
     l < LEVELS \<and> s < SLOTS \<and> visit cursor l s \<le> max d cursor \<and> d < visit cursor l s + width l"

lemma floorlog_xor: "floorlog 2 (a XOR b) \<le> n \<longleftrightarrow> a div 2 ^ n = b div 2 ^ n" for a b :: nat
proof -
  have "a div 2 ^ n = b div 2 ^ n \<longleftrightarrow> drop_bit n a = drop_bit n b" by (simp add: drop_bit_eq_div)
  also have "\<dots> \<longleftrightarrow> drop_bit n a XOR drop_bit n b = 0" by (metis bit_eqI bit_xor_iff bit_0_eq bot_apply bot_bool_def)
  also have "\<dots> \<longleftrightarrow> (a XOR b) div 2 ^ n = 0" by (metis drop_bit_eq_div drop_bit_xor)
  also have "\<dots> \<longleftrightarrow> a XOR b < 2 ^ n" by (simp add: div_eq_0_iff)
  also have "\<dots> \<longleftrightarrow> floorlog 2 (a XOR b) \<le> n" by (simp add: floorlog_le_iff)
  finally show ?thesis by simp
qed

lemma width_div: "d div width l div SLOTS = d div width (Suc l)"
  by (simp add: width_Suc div_mult2_eq)

lemma div_window: "0 < w \<Longrightarrow> d < d div w * w + w" "0 < w \<Longrightarrow> d < (d div w + 1) * w" for d w :: nat
  using dividend_less_div_times [of w d] by simp_all

lemma placement_late: "d \<le> cursor \<Longrightarrow> placement_at cursor d = (l, s) \<Longrightarrow>
    in_time cursor l s d \<and> l = 0 \<and> visit cursor l s = cursor"
proof -
  assume d: "d \<le> cursor" and p: "placement_at cursor d = (l, s)"
  have ls: "l = 0" "s = cursor mod SLOTS" using p d by (auto simp: placement_at_def)
  have "visit cursor 0 (cursor mod SLOTS) = cursor" by (simp add: visit_def)
  then show ?thesis using ls d by (simp add: in_time_def)
qed

lemma placement_future:
  assumes d: "cursor < d" and fits: "d - cursor \<le> MAX_DELAY_TICKS" and p: "placement_at cursor d = (l, s)"
  shows "in_time cursor l s d \<and> cursor < visit cursor l s \<and> visit cursor l s \<le> d"
proof -
  define n where "n = floorlog 2 (cursor XOR d) - 1"
  have ne: "cursor XOR d \<noteq> 0" using d by (metis bit_eqI bit_xor_iff bit_0_eq bot_apply bot_bool_def less_irrefl)
  then have pos: "0 < floorlog 2 (cursor XOR d)" by (simp add: floorlog_def)
  then have diff: "cursor div 2 ^ n \<noteq> d div 2 ^ n" and same: "cursor div 2 ^ Suc n = d div 2 ^ Suc n"
    using floorlog_xor [of cursor d n] floorlog_xor [of cursor d "Suc n"] by (auto simp: n_def)
  have l: "l = min (n div 6) 7" and s: "s = d div width l mod SLOTS"
    using p d by (auto simp: placement_at_def n_def width_def Let_def)
  have l8: "l < LEVELS" and s64: "s < SLOTS" using l s by auto
  have le: "l * 6 \<le> n" using l by (metis div_times_less_eq_dividend le_trans min.cobounded1 mult_le_mono1)
  have "cursor div width l \<noteq> d div width l"
  proof
    assume "cursor div width l = d div width l"
    then have "cursor div width l div 2 ^ (n - l * 6) = d div width l div 2 ^ (n - l * 6)" by simp
    then have "cursor div 2 ^ n = d div 2 ^ n" using le by (simp add: width_def flip: div_mult2_eq power_add)
    with diff show False by simp
  qed
  moreover have "cursor div width l \<le> d div width l" using d by (simp add: div_le_mono)
  ultimately have lt: "cursor div width l + 1 \<le> d div width l" by simp
  let ?t = "d div width l * width l"
  have td: "?t \<le> d" "d < ?t + width l" using div_window(1) [of "width l" d] by simp_all
  have ct: "cursor < ?t"
  proof -
    have "cursor < (cursor div width l + 1) * width l" by (rule div_window(2)) simp
    also have "\<dots> \<le> ?t" using lt by (rule mult_le_mono1)
    finally show ?thesis .
  qed
  have "?t < cursor + width l * SLOTS"
  proof (cases "n div 6 \<le> 7")
    case True
    then have "l = n div 6" using l by simp
    then have "Suc n \<le> Suc l * 6" using div_mod_decomp [of n 6] mod_less_divisor [of 6 n] by simp
    then have "cursor div width (Suc l) = d div width (Suc l)"
      using same by (metis (no_types, lifting) div_mult2_eq le_add_diff_inverse power_add width_def)
    then have "d < (cursor div width (Suc l) + 1) * width (Suc l)"
      using div_window(2) [of "width (Suc l)" d] by simp
    also have "\<dots> \<le> cursor + width (Suc l)" by simp
    finally have "d < cursor + width l * SLOTS" by (simp add: width_Suc)
    with td(1) show ?thesis by (rule le_less_trans)
  next
    case False
    then have "l = 7" using l by simp
    then have "width l * SLOTS = SPAN_TICKS" by (simp add: width_def SPAN_TICKS_def)
    moreover have "0 < SPAN_TICKS" by (simp add: SPAN_TICKS_def)
    ultimately have "d < cursor + width l * SLOTS" using fits d by (simp add: MAX_DELAY_TICKS_def)
    with td(1) show ?thesis by (rule le_less_trans)
  qed
  moreover have "?t mod (width l * SLOTS) = s * width l"
    using s by (metis mod_mult_mult1 mult.commute)
  ultimately have v: "visit cursor l s = ?t" using ct s64 by (intro visit_unique) auto
  then show ?thesis using l8 s64 td ct by (simp add: in_time_def max.coboundedI1)
qed

lemma placement_in_time:
  assumes "d \<le> cursor \<or> d - cursor \<le> MAX_DELAY_TICKS" and "placement_at cursor d = (l, s)"
  shows "in_time cursor l s d" "0 < l \<Longrightarrow> cursor < visit cursor l s" "cursor < d \<Longrightarrow> visit cursor l s \<le> d"
  using placement_late [OF _ assms(2)] placement_future [OF _ _ assms(2)] assms(1) by (cases "d \<le> cursor"; force)+

text \<open>Moving the cursor up to the visit of the slot keeps the entry in time.\<close>

lemma in_time_shift:
  assumes "in_time cursor l s d" and "cursor \<le> cursor'" and "cursor' \<le> visit cursor l s"
  shows "in_time cursor' l s d" "visit cursor' l s = visit cursor l s"
proof -
  have s: "s < SLOTS" using assms(1) by (simp add: in_time_def)
  show v: "visit cursor' l s = visit cursor l s" by (rule visit_shift [OF s assms(2,3)])
  show "in_time cursor' l s d" using assms(1,2) unfolding in_time_def v by auto
qed

section \<open>Occupancy masks and the next event\<close>

text \<open>Slots other than the current one are visited in cyclic order.\<close>

definition here :: "tick \<Rightarrow> nat \<Rightarrow> nat" where
  "here cursor l = cursor div width l mod SLOTS"

lemma visit_ahead:
  assumes "0 < k" and "k < SLOTS"
  shows "visit cursor l ((here cursor l + k) mod SLOTS) = (cursor div width l + k) * width l"
proof (rule visit_unique)
  let ?q = "cursor div width l"
  have "cursor < (?q + 1) * width l" by (rule div_window(2)) simp
  also have "\<dots> \<le> (?q + k) * width l" using assms(1) by (intro mult_le_mono1) simp
  finally show "cursor \<le> (?q + k) * width l" by simp
  have "(?q + k) * width l < (?q + SLOTS) * width l" using assms(2) by simp
  also have "\<dots> \<le> cursor + width l * SLOTS" by (simp add: add_mult_distrib)
  finally show "(?q + k) * width l < cursor + width l * SLOTS" .
  show "(?q + k) * width l mod (width l * SLOTS) = (here cursor l + k) mod SLOTS * width l"
    by (metis here_def mod_add_left_eq mod_mult_mult1 mult.commute)
qed simp

lemma ahead_exists:
  assumes "s < SLOTS" and "s \<noteq> h" and "h < SLOTS"
  obtains k where "0 < k" "k < SLOTS" "s = (h + k) mod SLOTS"
proof (cases "h < s")
  case True
  then show ?thesis using assms that [of "s - h"] by simp
next
  case False
  then show ?thesis using assms that [of "s + SLOTS - h"] by simp
qed

text \<open>\<open>level_event\<close> is the minimum over the occupied slots of its level.\<close>

definition events :: "'t wheel \<Rightarrow> nat \<Rightarrow> tick set" where
  "events w l = {slot_wakeup w l s | s. s < SLOTS \<and> bit (w_occupied w ! l) s}"

lemma finite_events [simp]: "finite (events w l)"
  by (simp add: events_def)

lemma rotr_bit: "bit (word_rotr h x) n = (n < 64 \<and> bit x ((n + h) mod 64))" for x :: u64
  by (simp add: bit_word_rotr_iff)

lemma visit_mono_ahead: "0 < k \<Longrightarrow> k \<le> k' \<Longrightarrow> k' < SLOTS \<Longrightarrow>
    visit cursor l ((here cursor l + k) mod SLOTS) \<le> visit cursor l ((here cursor l + k') mod SLOTS)"
  by (simp add: visit_ahead)

lemma level_event_other:
  assumes o: "other = w_occupied w ! l AND NOT (push_bit (here (w_cursor w) l) 1)" and ne: "other \<noteq> 0"
    and a: "ahead = trailing_zeros (word_rotr (here (w_cursor w) l) other)"
  shows "0 < ahead" "ahead < SLOTS" "bit (w_occupied w ! l) ((here (w_cursor w) l + ahead) mod SLOTS)"
    "\<And>k. 0 < k \<Longrightarrow> k < SLOTS \<Longrightarrow> bit (w_occupied w ! l) ((here (w_cursor w) l + k) mod SLOTS) \<Longrightarrow> ahead \<le> k"
proof -
  let ?h = "here (w_cursor w) l"
  have h: "?h < 64" by (simp add: here_def)
  have ob: "bit other n = (bit (w_occupied w ! l) n \<and> n \<noteq> ?h)" if "n < 64" for n
    using that by (simp add: o bit_simps)
  have rb: "bit (word_rotr ?h other) n = (bit (w_occupied w ! l) ((?h + n) mod 64) \<and> (?h + n) mod 64 \<noteq> ?h)" if "n < 64" for n
    using that ob [of "(n + ?h) mod 64"] by (simp add: rotr_bit add.commute)
  obtain m where m: "m < 64" "bit other m" using ne mask_nonzero by auto
  have "word_rotr ?h other \<noteq> 0"
  proof -
    have "((m + 64 - ?h) mod 64 + ?h) mod 64 = m" using m(1) h by (metis add.commute add_diff_inverse_nat diff_add_inverse2 le_add2 linorder_not_le mod_add_left_eq mod_add_self2 mod_less nat_less_le order_trans)
    then have "bit (word_rotr ?h other) ((m + 64 - ?h) mod 64)" using m(2) by (simp add: rotr_bit)
    then show ?thesis by (metis bit_0_eq bot_apply bot_bool_def)
  qed
  note tz = trailing_zeros_bit [OF this, folded a]
  have "ahead \<noteq> 0"
  proof
    assume "ahead = 0"
    with tz(2) rb [of 0] h show False by simp
  qed
  then show "0 < ahead" "ahead < SLOTS" "bit (w_occupied w ! l) ((?h + ahead) mod SLOTS)"
    using tz(1,2) rb [of ahead] by auto
  show "ahead \<le> k" if "0 < k" "k < SLOTS" "bit (w_occupied w ! l) ((?h + k) mod SLOTS)" for k
  proof (rule ccontr)
    assume "\<not> ahead \<le> k"
    then have "\<not> bit (word_rotr ?h other) k" using tz(3) by simp
    then have "(?h + k) mod 64 = ?h" using rb [of k] that by simp
    then show False using that h by (cases "?h + k < 64") (auto simp: mod_if split: if_splits)
  qed
qed

lemma Min_insert_le: "finite A \<Longrightarrow> a \<in> A \<Longrightarrow> (\<And>x. x \<in> A \<Longrightarrow> a \<le> x) \<Longrightarrow> Min (insert m A) = min m a"
  for m a :: nat
  by (metis Min_eqI Min_insert empty_iff)

lemma level_event_min: "level_event w l m = Min (insert m (events w l))"
proof (cases "w_occupied w ! l = 0")
  case True
  then show ?thesis by (simp add: level_event_def events_def)
next
  case False
  define h where "h = here (w_cursor w) l"
  have h64: "h < 64" by (simp add: h_def here_def)
  define other where "other = w_occupied w ! l AND NOT (push_bit h 1)"
  define ahead where "ahead = trailing_zeros (word_rotr h other)"
  let ?s = "(h + ahead) mod SLOTS"
  let ?O = "{slot_wakeup w l s | s. s < SLOTS \<and> bit (w_occupied w ! l) s \<and> s \<noteq> h}"
  have O: "Min (insert n ?O) = (if other \<noteq> 0 then min n (slot_wakeup w l ?s) else n)" for n
  proof (cases "other = 0")
    case True
    have "\<not> (bit (w_occupied w ! l) s \<and> s \<noteq> h)" if "s < 64" for s
    proof -
      have "bit other s = (bit (w_occupied w ! l) s \<and> s \<noteq> h)" using that by (simp add: other_def bit_simps)
      then show ?thesis using True by simp
    qed
    then have e: "?O = {}" by blast
    show ?thesis unfolding e using True by simp
  next
    case ne: False
    note ev = level_event_other [OF other_def [unfolded h_def] ne ahead_def [unfolded h_def], folded h_def]
    have "?s \<noteq> h" using ev(1,2) h64 by (auto simp: mod_if split: if_splits)
    then have "slot_wakeup w l ?s \<in> ?O" using ev(3) by (intro CollectI exI [of _ ?s]) simp
    moreover have "slot_wakeup w l ?s \<le> x" if x: "x \<in> ?O" for x
    proof -
      obtain s where s: "x = slot_wakeup w l s" "s < SLOTS" "bit (w_occupied w ! l) s" "s \<noteq> h" using x by blast
      obtain k where k: "0 < k" "k < SLOTS" "s = (h + k) mod SLOTS" using ahead_exists [OF s(2,4) h64] .
      have "ahead \<le> k" using ev(4) k s(3) by simp
      then have "visit (w_cursor w) l ?s \<le> visit (w_cursor w) l s"
        using visit_mono_ahead [of ahead k "w_cursor w" l] ev(1) k by (simp add: h_def)
      then show ?thesis unfolding s(1) slot_wakeup_def wakeup_visit by simp
    qed
    ultimately have "Min (insert n ?O) = min n (slot_wakeup w l ?s)" by (intro Min_insert_le) auto
    with ne show ?thesis by simp
  qed
  have split: "insert m (events w l) = insert (if bit (w_occupied w ! l) h then slot_wakeup w l h else m) (insert m ?O)"
    using h64 by (auto simp: events_def)
  have "Min (insert m (events w l)) =
      min (if bit (w_occupied w ! l) h then slot_wakeup w l h else m) (Min (insert m ?O))"
    unfolding split by (rule Min_insert) auto
  also have "\<dots> = level_event w l m"
    unfolding O level_event_def Let_def if_not_P [OF False] width_def [symmetric] here_def [symmetric] h_def [symmetric]
      other_def [symmetric] ahead_def [symmetric] mask_bit [OF h64]
    by (simp add: min.commute min.left_commute)
  finally show ?thesis by simp
qed

definition all_events :: "'t wheel \<Rightarrow> tick set" where
  "all_events w = (\<Union>l<LEVELS. events w l)"

lemma next_event_min: "(case compute_next_event w of Some e \<Rightarrow> e | None \<Rightarrow> TICK_NONE) = Min (insert TICK_NONE (all_events w))"
proof -
  have "fold (level_event w) ls m = Min (insert m (\<Union>l\<in>set ls. events w l))" for ls m
  proof (induction ls arbitrary: m)
    case (Cons l ls)
    have "insert m (\<Union>l\<in>set (l # ls). events w l) = insert m (events w l) \<union> (\<Union>l\<in>set ls. events w l)" by auto
    moreover have "Min (insert m (events w l) \<union> (\<Union>l\<in>set ls. events w l)) =
        Min (insert (Min (insert m (events w l))) (\<Union>l\<in>set ls. events w l))"
    proof (cases "(\<Union>l\<in>set ls. events w l) = {}")
      case False
      have "Min (insert m (events w l) \<union> (\<Union>l\<in>set ls. events w l)) =
          min (Min (insert m (events w l))) (Min (\<Union>l\<in>set ls. events w l))"
        by (rule Min_Un) (use False in auto)
      also have "\<dots> = Min (insert (Min (insert m (events w l))) (\<Union>l\<in>set ls. events w l))"
        by (rule Min_insert [symmetric]) (use False in auto)
      finally show ?thesis .
    qed simp
    ultimately show ?case using Cons.IH by (simp add: level_event_min)
  qed simp
  then have "fold (level_event w) [0..<LEVELS] TICK_NONE = Min (insert TICK_NONE (all_events w))"
    by (simp add: all_events_def atLeast0LessThan del: upt_rec_numeral)
  then show ?thesis by (simp add: compute_next_event_def Let_def del: upt_rec_numeral)
qed

section \<open>Handles\<close>

lemma id_roundtrip:
  assumes "id_new wheel generation index = Some raw"
  shows "id_parts raw = Some (wheel, generation, index)"
proof -
  have raw: "raw = push_bit 96 (ucast wheel) OR push_bit 32 (ucast generation) OR ucast (index + 1)"
    and nz: "wheel \<noteq> 0" "generation \<noteq> 0" "index \<noteq> NIL" using assms by (auto simp: id_new_def split: if_splits)
  have "ucast (drop_bit 96 raw) = wheel" "ucast (drop_bit 32 raw) = generation" "ucast raw = index + 1"
    unfolding raw by (rule bit_word_eqI; fastforce simp: bit_simps dest: bit_imp_le_length)+
  moreover have "index + 1 \<noteq> 0" using nz(3) by (metis NIL_def add.commute add_eq_0_iff)
  ultimately show ?thesis using nz by (simp add: id_parts_def)
qed

end
