(* ===== verification/Wheel_Rep.thy ===== *)
theory Wheel_Rep
  imports Wheel_Math
begin

text \<open>
  The representation invariant of the timer wheel and its preservation: every slot is a doubly
  linked list of the entries that name it, the free list holds the free entries, occupancy
  masks and counters agree, and every entry is filed where it comes round in time. Operations
  move entries one by one, so the invariant is stated with a set \<open>K\<close> of entries in transit.
\<close>

section \<open>Views\<close>

definition valid :: "'t wheel \<Rightarrow> u32 \<Rightarrow> bool" where
  "valid w i \<longleftrightarrow> unat i < length (w_entries w)"

definition ent :: "'t wheel \<Rightarrow> u32 \<Rightarrow> 't entry" where
  "ent w i = w_entries w ! unat i"

definition enext :: "'t wheel \<Rightarrow> u32 \<Rightarrow> u32 option" where
  "enext w i = ptr (e_next (ent w i))"

definition eprev :: "'t wheel \<Rightarrow> u32 \<Rightarrow> u32 option" where
  "eprev w i = ptr (e_prev (ent w i))"

lemma get_entry_valid [simp]: "valid w i \<Longrightarrow> get_entry w i = Some (ent w i)"
  by (simp add: get_entry_def valid_def ent_def)

lemma put_entry_simps [simp]:
  "valid (put_entry i e w) j = valid w j" "head_of (put_entry i e w) l s = head_of w l s"
  "w_occupied (put_entry i e w) = w_occupied w" "w_cursor (put_entry i e w) = w_cursor w"
  "w_next_event (put_entry i e w) = w_next_event w" "w_wheel_id (put_entry i e w) = w_wheel_id w"
  "w_free (put_entry i e w) = w_free w" "w_live (put_entry i e w) = w_live w" "w_retired (put_entry i e w) = w_retired w"
  "w_heads (put_entry i e w) = w_heads w" "length (w_entries (put_entry i e w)) = length (w_entries w)"
  by (simp_all add: put_entry_def valid_def head_of_def)

lemma ent_put [simp]: "valid w i \<Longrightarrow> ent (put_entry i e w) j = (if j = i then e else ent w j)"
  by (auto simp: ent_def put_entry_def valid_def)

lemma links_put [simp]:
  "valid w i \<Longrightarrow> enext (put_entry i e w) = (enext w)(i := ptr (e_next e))"
  "valid w i \<Longrightarrow> eprev (put_entry i e w) = (eprev w)(i := ptr (e_prev e))"
  by (auto simp: enext_def eprev_def)

lemma set_head_simps [simp]:
  "valid (set_head l s i w) j = valid w j" "ent (set_head l s i w) j = ent w j"
  "enext (set_head l s i w) = enext w" "eprev (set_head l s i w) = eprev w"
  "w_occupied (set_head l s i w) = w_occupied w" "w_cursor (set_head l s i w) = w_cursor w"
  "w_next_event (set_head l s i w) = w_next_event w" "w_wheel_id (set_head l s i w) = w_wheel_id w"
  "w_free (set_head l s i w) = w_free w" "w_live (set_head l s i w) = w_live w" "w_retired (set_head l s i w) = w_retired w"
  "w_entries (set_head l s i w) = w_entries w"
  by (simp_all add: set_head_def valid_def ent_def enext_def eprev_def fun_eq_iff)

lemma occ_simps [simp]:
  "valid (occupy l s w) j = valid w j" "ent (occupy l s w) j = ent w j" "enext (occupy l s w) = enext w"
  "eprev (occupy l s w) = eprev w" "head_of (occupy l s w) = head_of w" "w_cursor (occupy l s w) = w_cursor w"
  "w_next_event (occupy l s w) = w_next_event w" "w_wheel_id (occupy l s w) = w_wheel_id w"
  "w_free (occupy l s w) = w_free w" "w_live (occupy l s w) = w_live w" "w_retired (occupy l s w) = w_retired w"
  "w_entries (occupy l s w) = w_entries w" "w_heads (occupy l s w) = w_heads w"
  "valid (vacate l s w) j = valid w j" "ent (vacate l s w) j = ent w j" "enext (vacate l s w) = enext w"
  "eprev (vacate l s w) = eprev w" "head_of (vacate l s w) = head_of w" "w_cursor (vacate l s w) = w_cursor w"
  "w_next_event (vacate l s w) = w_next_event w" "w_wheel_id (vacate l s w) = w_wheel_id w"
  "w_free (vacate l s w) = w_free w" "w_live (vacate l s w) = w_live w" "w_retired (vacate l s w) = w_retired w"
  "w_entries (vacate l s w) = w_entries w" "w_heads (vacate l s w) = w_heads w"
  by (simp_all add: occupy_def vacate_def valid_def ent_def enext_def eprev_def head_of_def fun_eq_iff)

definition shape_ok :: "'t wheel \<Rightarrow> bool" where
  "shape_ok w \<longleftrightarrow>
     length (w_entries w) \<le> 2 ^ 32 - 1 \<and> length (w_heads w) = LEVELS \<and> (\<forall>l<LEVELS. length (w_heads w ! l) = SLOTS) \<and>
     length (w_occupied w) = LEVELS \<and> w_cursor w \<le> MAX_TICK \<and> w_wheel_id w \<noteq> 0"

lemma head_set_head:
  "shape_ok w \<Longrightarrow> l < LEVELS \<Longrightarrow> s < SLOTS \<Longrightarrow>
   head_of (set_head l s i w) l' s' = (if l' = l \<and> s' = s then i else head_of w l' s')"
  by (cases "l' = l"; cases "s' = s") (auto simp: shape_ok_def head_of_def set_head_def nth_list_update)

definition occ :: "'t wheel \<Rightarrow> nat \<Rightarrow> nat \<Rightarrow> bool" where
  "occ w l s \<longleftrightarrow> bit (w_occupied w ! l) s"

lemma occ_put [simp]: "occ (put_entry i e w) = occ w" "occ (set_head l s i w) = occ w"
  by (simp_all add: occ_def fun_eq_iff)

lemma occ_occupy: "shape_ok w \<Longrightarrow> l < LEVELS \<Longrightarrow> s < SLOTS \<Longrightarrow> s' < SLOTS \<Longrightarrow>
    occ (occupy l s w) l' s' = (occ w l' s' \<or> l' = l \<and> s' = s)"
  by (cases "l' = l") (auto simp: shape_ok_def occ_def occupy_def bit_simps nth_list_update)

lemma occ_vacate: "shape_ok w \<Longrightarrow> l < LEVELS \<Longrightarrow> s < SLOTS \<Longrightarrow> s' < SLOTS \<Longrightarrow>
    occ (vacate l s w) l' s' = (occ w l' s' \<and> \<not> (l' = l \<and> s' = s))"
  by (cases "l' = l") (auto simp: shape_ok_def occ_def vacate_def bit_simps nth_list_update)

lemma occupied_at_occ: "s < SLOTS \<Longrightarrow> occupied_at w l s = occ w l s"
  using mask_bit [of s "w_occupied w ! l"] by (simp add: occupied_at_def occ_def)

lemma shape_simps [simp]:
  "shape_ok (put_entry i e w) = shape_ok w" "shape_ok (occupy l s w) = shape_ok w" "shape_ok (vacate l s w) = shape_ok w"
  by (simp_all add: shape_ok_def occupy_def vacate_def put_entry_def)

lemma shape_set_head [simp]: "shape_ok w \<Longrightarrow> l < LEVELS \<Longrightarrow> shape_ok (set_head l s i w)"
  by (auto simp: shape_ok_def set_head_def nth_list_update)

section \<open>The invariant\<close>

definition fits :: "tick \<Rightarrow> tick \<Rightarrow> bool" where
  "fits c d \<longleftrightarrow> d \<le> MAX_TICK \<and> (d \<le> c \<or> d - c \<le> MAX_DELAY_TICKS)"

definition filed_ok :: "tick \<Rightarrow> 't entry \<Rightarrow> bool" where
  "filed_ok c e \<longleftrightarrow> e_level e < LEVELS \<and> e_token e \<noteq> None \<and> e_generation e \<noteq> 0 \<and>
     in_time c (e_level e) (e_slot e) (e_deadline e) \<and> fits c (e_deadline e)"

definition entry_ok :: "tick \<Rightarrow> 't entry \<Rightarrow> bool" where
  "entry_ok c e \<longleftrightarrow> filed_ok c e \<or>
     e_level e = FREE_LEVEL \<and> e_token e = None \<and> e_generation e \<noteq> - 1 \<or>
     e_level e = RETIRED_LEVEL \<and> e_token e = None \<and> e_generation e = - 1"

definition slot_rep :: "u32 set \<Rightarrow> 't wheel \<Rightarrow> nat \<Rightarrow> nat \<Rightarrow> u32 list \<Rightarrow> bool" where
  "slot_rep K w l s xs \<longleftrightarrow>
     chain (enext w) (ptr (head_of w l s)) xs \<and> backs (eprev w) None xs \<and>
     set xs = {i. valid w i \<and> i \<notin> K \<and> e_level (ent w i) = l \<and> e_slot (ent w i) = s} \<and>
     (occ w l s \<longleftrightarrow> xs \<noteq> [])"

definition wbut :: "u32 set \<Rightarrow> 't wheel \<Rightarrow> (nat \<Rightarrow> nat \<Rightarrow> u32 list) \<Rightarrow> u32 list \<Rightarrow> bool" where
  "wbut K w S F \<longleftrightarrow>
     shape_ok w \<and> (\<forall>i\<in>K. valid w i) \<and> (\<forall>l<LEVELS. \<forall>s<SLOTS. slot_rep K w l s (S l s)) \<and>
     chain (enext w) (ptr (w_free w)) F \<and> set F = {i. valid w i \<and> i \<notin> K \<and> e_level (ent w i) = FREE_LEVEL} \<and>
     (\<forall>i. valid w i \<and> i \<notin> K \<longrightarrow> entry_ok (w_cursor w) (ent w i)) \<and>
     w_live w = card {i. valid w i \<and> i \<notin> K \<and> e_level (ent w i) < LEVELS} + card K \<and>
     w_retired w = card {i. valid w i \<and> i \<notin> K \<and> e_level (ent w i) = RETIRED_LEVEL}"

lemma wbutD:
  assumes "wbut K w S F"
  shows "shape_ok w" "\<And>i. i \<in> K \<Longrightarrow> valid w i"
    "\<And>l s. l < LEVELS \<Longrightarrow> s < SLOTS \<Longrightarrow> slot_rep K w l s (S l s)"
    "chain (enext w) (ptr (w_free w)) F" "set F = {i. valid w i \<and> i \<notin> K \<and> e_level (ent w i) = FREE_LEVEL}"
    "\<And>i. valid w i \<Longrightarrow> i \<notin> K \<Longrightarrow> entry_ok (w_cursor w) (ent w i)"
    "w_live w = card {i. valid w i \<and> i \<notin> K \<and> e_level (ent w i) < LEVELS} + card K"
    "w_retired w = card {i. valid w i \<and> i \<notin> K \<and> e_level (ent w i) = RETIRED_LEVEL}"
  using assms by (auto simp: wbut_def)

lemma levels_distinct [simp]:
  "\<not> FREE_LEVEL < LEVELS" "\<not> RETIRED_LEVEL < LEVELS" "FREE_LEVEL \<noteq> RETIRED_LEVEL" "RETIRED_LEVEL \<noteq> FREE_LEVEL"
  by (simp_all add: FREE_LEVEL_def RETIRED_LEVEL_def)

lemma valid_not_NIL: "shape_ok w \<Longrightarrow> valid w i \<Longrightarrow> i \<noteq> NIL"
  using unat_bound_NIL [of i "length (w_entries w)"] by (auto simp: shape_ok_def valid_def)

lemma finite_valid [simp]: "finite {i. valid w i \<and> P i}"
  by simp

section \<open>Filing an entry\<close>

definition core :: "'t entry \<Rightarrow> tick \<times> u64 \<times> 't option \<times> nat \<times> nat" where
  "core e = (e_deadline e, e_generation e, e_token e, e_level e, e_slot e)"

lemma core_eq: "core e = core e' \<longleftrightarrow> e_deadline e = e_deadline e' \<and> e_generation e = e_generation e' \<and>
    e_token e = e_token e' \<and> e_level e = e_level e' \<and> e_slot e = e_slot e'"
  by (simp add: core_def)

lemma entry_ok_core: "core e = core e' \<Longrightarrow> entry_ok c e = entry_ok c e'"
  by (simp add: core_eq entry_ok_def filed_ok_def)

lemma slot_mem: "wbut K w S F \<Longrightarrow> l < LEVELS \<Longrightarrow> s < SLOTS \<Longrightarrow>
    j \<in> set (S l s) \<longleftrightarrow> valid w j \<and> j \<notin> K \<and> e_level (ent w j) = l \<and> e_slot (ent w j) = s"
  using wbutD(3) [of K w S F l s] by (simp add: slot_rep_def)

lemma wbut_finite: "wbut K w S F \<Longrightarrow> finite K"
  by (meson finite_code)

definition add_slot :: "nat \<Rightarrow> nat \<Rightarrow> u32 list \<Rightarrow> (nat \<Rightarrow> nat \<Rightarrow> u32 list) \<Rightarrow> nat \<Rightarrow> nat \<Rightarrow> u32 list" where
  "add_slot l s xs S l' s' = (if l' = l \<and> s' = s then xs else S l' s')"

lemma wbut_file:
  assumes inv: "wbut K w S F" and i: "i \<in> K" and ls: "l < LEVELS" "s < SLOTS"
    and frame: "shape_ok w'" "\<And>j. valid w' j = valid w j" "w_cursor w' = w_cursor w" "w_free w' = w_free w"
      "w_live w' = w_live w" "w_retired w' = w_retired w"
    and core: "\<And>j. j \<noteq> i \<Longrightarrow> core (ent w' j) = core (ent w j)"
    and ei: "filed_ok (w_cursor w) (ent w' i)" "e_level (ent w' i) = l" "e_slot (ent w' i) = s"
    and nx: "enext w' = (enext w)(i := ptr (head_of w l s))"
    and pv: "\<And>j. eprev w' j = (if j = i then None else if ptr (head_of w l s) = Some j then Some i else eprev w j)"
    and hd: "\<And>l' s'. l' < LEVELS \<Longrightarrow> s' < SLOTS \<Longrightarrow> head_of w' l' s' = (if l' = l \<and> s' = s then i else head_of w l' s')"
    and oc: "\<And>l' s'. l' < LEVELS \<Longrightarrow> s' < SLOTS \<Longrightarrow> occ w' l' s' = (occ w l' s' \<or> l' = l \<and> s' = s)"
  shows "wbut (K - {i}) w' (add_slot l s (i # S l s) S) F"
proof -
  note D = wbutD [OF inv]
  have vi: "valid w i" "i \<noteq> NIL" using D(2) [OF i] valid_not_NIL [OF D(1)] by auto
  have lev: "e_level (ent w' j) = e_level (ent w j)" "e_slot (ent w' j) = e_slot (ent w j)" if "j \<noteq> i" for j
    using core [OF that] by (simp_all add: core_eq)
  have ne: "ptr (head_of w l s) = hd_opt (S l s)" "chain (enext w) (ptr (head_of w l s)) (S l s)" "backs (eprev w) None (S l s)"
    using D(3) [OF ls] by (auto simp: slot_rep_def dest: chain_hd)
  have slots: "slot_rep (K - {i}) w' l' s' (add_slot l s (i # S l s) S l' s')" if l': "l' < LEVELS" "s' < SLOTS" for l' s'
  proof (cases "l' = l \<and> s' = s")
    case True
    have im: "i \<notin> set (S l s)" using slot_mem [OF inv ls] i by simp
    have "chain (enext w') (ptr i) (i # S l s)" using vi ne(2) im by (simp add: nx chain_upd)
    moreover have "backs (eprev w') None (i # S l s)"
    proof (cases "S l s")
      case (Cons h t)
      then have "h \<notin> set t" using chain_distinct [OF ne(2)] by simp
      then have "backs (eprev w') (Some h) t = backs (eprev w) (Some h) t"
        using im Cons ne(1) by (intro backs_cong) (auto simp: pv)
      then show ?thesis using Cons ne(1,3) im by (auto simp: pv)
    qed (simp add: pv)
    moreover have "set (i # S l s) = {j. valid w' j \<and> j \<notin> K - {i} \<and> e_level (ent w' j) = l \<and> e_slot (ent w' j) = s}"
    proof (intro set_eqI)
      fix j
      show "j \<in> set (i # S l s) \<longleftrightarrow> j \<in> {j. valid w' j \<and> j \<notin> K - {i} \<and> e_level (ent w' j) = l \<and> e_slot (ent w' j) = s}"
        using slot_mem [OF inv ls, of j] ei(2,3) lev [of j] frame(2) vi by (cases "j = i") auto
    qed
    ultimately show ?thesis using True l' hd [OF l'] oc [OF l'] by (simp add: slot_rep_def add_slot_def)
  next
    case False
    let ?xs = "S l' s'"
    note r = D(3) [OF l', unfolded slot_rep_def]
    have im: "i \<notin> set ?xs" using slot_mem [OF inv l'] i by simp
    have "h \<notin> set ?xs" if "ptr (head_of w l s) = Some h" for h
    proof -
      have "h \<in> set (S l s)" using that ne(1) by (simp add: hd_opt_Some) auto
      then show ?thesis using slot_mem [OF inv ls] slot_mem [OF inv l'] False by auto
    qed
    then have "backs (eprev w') None ?xs = backs (eprev w) None ?xs" using im by (intro backs_cong) (auto simp: pv)
    moreover have "set ?xs = {j. valid w' j \<and> j \<notin> K - {i} \<and> e_level (ent w' j) = l' \<and> e_slot (ent w' j) = s'}"
    proof (intro set_eqI)
      fix j
      show "j \<in> set ?xs \<longleftrightarrow> j \<in> {j. valid w' j \<and> j \<notin> K - {i} \<and> e_level (ent w' j) = l' \<and> e_slot (ent w' j) = s'}"
        using slot_mem [OF inv l', of j] ei(2,3) lev [of j] frame(2) i False by (cases "j = i") auto
    qed
    ultimately show ?thesis using r False hd [OF l'] oc [OF l'] im by (auto simp: slot_rep_def add_slot_def nx chain_upd)
  qed
  have iF: "i \<notin> set F" using D(5) i by simp
  have sF: "set F = {j. valid w' j \<and> j \<notin> K - {i} \<and> e_level (ent w' j) = FREE_LEVEL}"
  proof (intro set_eqI)
    fix j
    show "j \<in> set F \<longleftrightarrow> j \<in> {j. valid w' j \<and> j \<notin> K - {i} \<and> e_level (ent w' j) = FREE_LEVEL}"
      using D(5) iF ei(2) lev(1) [of j] frame(2) ls i by (cases "j = i") (auto simp: FREE_LEVEL_def)
  qed
  have sL: "{j. valid w' j \<and> j \<notin> K - {i} \<and> e_level (ent w' j) < LEVELS} =
      insert i {j. valid w j \<and> j \<notin> K \<and> e_level (ent w j) < LEVELS}"
  proof (intro set_eqI)
    fix j
    show "j \<in> {j. valid w' j \<and> j \<notin> K - {i} \<and> e_level (ent w' j) < LEVELS} \<longleftrightarrow>
        j \<in> insert i {j. valid w j \<and> j \<notin> K \<and> e_level (ent w j) < LEVELS}"
      using ei(2) lev(1) [of j] frame(2) ls vi by (cases "j = i") auto
  qed
  have cK: "card K = Suc (card (K - {i}))" using card.remove [OF wbut_finite [OF inv] i] .
  have sR: "{j. valid w' j \<and> j \<notin> K - {i} \<and> e_level (ent w' j) = RETIRED_LEVEL} =
      {j. valid w j \<and> j \<notin> K \<and> e_level (ent w j) = RETIRED_LEVEL}"
  proof (intro set_eqI)
    fix j
    show "j \<in> {j. valid w' j \<and> j \<notin> K - {i} \<and> e_level (ent w' j) = RETIRED_LEVEL} \<longleftrightarrow>
        j \<in> {j. valid w j \<and> j \<notin> K \<and> e_level (ent w j) = RETIRED_LEVEL}"
      using ei(2) lev(1) [of j] frame(2) ls i by (cases "j = i") (auto simp: RETIRED_LEVEL_def)
  qed
  have eo: "entry_ok (w_cursor w') (ent w' j)" if "valid w' j" "j \<notin> K - {i}" for j
    using that D(6) [of j] ei(1) entry_ok_core [OF core, of j] frame(2,3) by (cases "j = i") (auto simp: entry_ok_def)
  have cF: "chain (enext w') (ptr (w_free w')) F" using D(4) iF frame(4) by (simp add: nx chain_upd)
  have vK: "\<forall>j\<in>K - {i}. valid w' j" using D(2) frame(2) by auto
  have "w_live w' = card {j. valid w' j \<and> j \<notin> K - {i} \<and> e_level (ent w' j) < LEVELS} + card (K - {i})"
    unfolding sL frame(5) D(7) cK by (subst card_insert_disjoint) (use i in auto)
  moreover have "w_retired w' = card {j. valid w' j \<and> j \<notin> K - {i} \<and> e_level (ent w' j) = RETIRED_LEVEL}"
    unfolding sR frame(6) by (rule D(8))
  ultimately show ?thesis unfolding wbut_def using frame(1) slots vK cF sF eo by blast
qed

lemma wakeup_in_time: "in_time c l s d \<Longrightarrow> c \<le> MAX_TICK \<Longrightarrow> d \<le> MAX_TICK \<Longrightarrow> wakeup_at c l s = visit c l s \<and> visit c l s \<le> MAX_TICK"
  by (auto simp: in_time_def wakeup_visit MAX_TICK_def)

lemma placement_ok:
  assumes "fits (w_cursor w) d" and "w_cursor w \<le> MAX_TICK"
  obtains l s where "placement w d = Some (l, s)" "placement_at (w_cursor w) d = (l, s)" "in_time (w_cursor w) l s d"
    "0 < l \<Longrightarrow> w_cursor w < visit (w_cursor w) l s" "slot_wakeup w l s = visit (w_cursor w) l s"
proof -
  obtain l s where p: "placement_at (w_cursor w) d = (l, s)" by fastforce
  have f: "d \<le> w_cursor w \<or> d - w_cursor w \<le> MAX_DELAY_TICKS" and dm: "d \<le> MAX_TICK" using assms(1) by (auto simp: fits_def)
  note t = placement_in_time [OF f p]
  have v: "slot_wakeup w l s = visit (w_cursor w) l s"
    using wakeup_in_time [OF t(1) assms(2) dm] by (simp add: slot_wakeup_def)
  have "placement w d = Some (l, s)"
  proof (cases "d \<le> w_cursor w")
    case True
    then show ?thesis using p by (simp add: placement_def)
  next
    case False
    then show ?thesis using p f t(3) v by (simp add: placement_def deadline_fits_def)
  qed
  with p t v that show ?thesis by blast
qed

text \<open>What \<open>file\<close> does to an entry in transit.\<close>

lemma wheel_file_ok:
  assumes inv: "wbut K w S F" and i: "i \<in> K" and d: "fits (w_cursor w) d"
    and tok: "e_token (ent w i) \<noteq> None" "e_generation (ent w i) \<noteq> 0"
  obtains w' l s where "wheel_file i d w = Some w'" "wbut (K - {i}) w' (add_slot l s (i # S l s) S) F"
    "l < LEVELS" "s < SLOTS" "0 < l \<Longrightarrow> w_cursor w < visit (w_cursor w) l s"
    "e_deadline (ent w' i) = d" "e_token (ent w' i) = e_token (ent w i)" "e_generation (ent w' i) = e_generation (ent w i)"
    "e_level (ent w' i) = l" "e_slot (ent w' i) = s"
    "\<And>j. j \<noteq> i \<Longrightarrow> core (ent w' j) = core (ent w j)" "\<And>j. j \<noteq> i \<Longrightarrow> enext w' j = enext w j"
    "w_cursor w' = w_cursor w" "w_wheel_id w' = w_wheel_id w" "\<And>j. valid w' j = valid w j"
    "w_next_event w' = min (w_next_event w) (visit (w_cursor w) l s)"
proof -
  note D = wbutD [OF inv]
  have c: "w_cursor w \<le> MAX_TICK" using D(1) by (simp add: shape_ok_def)
  obtain l s where p: "placement w d = Some (l, s)" and t: "in_time (w_cursor w) l s d"
    and fut: "0 < l \<Longrightarrow> w_cursor w < visit (w_cursor w) l s" and v: "slot_wakeup w l s = visit (w_cursor w) l s"
    using placement_ok [OF d c] by metis
  have ls: "l < LEVELS" "s < SLOTS" using t by (auto simp: in_time_def)
  have vi: "valid w i" using D(2) [OF i] .
  let ?h = "head_of w l s"
  let ?e = "(ent w i)\<lparr>e_deadline := d, e_next := ?h, e_prev := NIL, e_level := l, e_slot := s\<rparr>"
  define w1 where "w1 = put_entry i ?e w"
  have hS: "hd_opt (S l s) = ptr ?h" using D(3) [OF ls] by (auto simp: slot_rep_def dest: chain_hd)
  have hv: "valid w ?h \<and> ?h \<noteq> i" if "?h \<noteq> NIL"
  proof -
    have "ptr ?h = Some ?h" using that by simp
    then have "?h \<in> set (S l s)" using hS by (cases "S l s") (simp_all add: ptr_def)
    then show ?thesis using slot_mem [OF inv ls] i by auto
  qed
  define w2 where "w2 = (if ?h \<noteq> NIL then put_entry ?h ((ent w1 ?h)\<lparr>e_prev := i\<rparr>) w1 else w1)"
  define w3 where "w3 = occupy l s (set_head l s i w2)"
  define w4 where "w4 = (if slot_wakeup w3 l s < w_next_event w3 then w3\<lparr>w_next_event := slot_wakeup w3 l s\<rparr> else w3)"
  have e: "wheel_file i d w = Some w4"
    using p vi hv by (simp add: wheel_file_def w1_def [symmetric] Let_def) (auto simp: w4_def w3_def w2_def w1_def)
  have sw: "slot_wakeup w3 l s = visit (w_cursor w) l s" using v by (simp add: slot_wakeup_def w3_def w2_def w1_def)
  have sh: "shape_ok w4" using D(1) ls by (auto simp: w4_def w3_def w2_def w1_def shape_ok_def set_head_def occupy_def put_entry_def nth_list_update)
  have vd: "valid w4 j = valid w j" for j by (simp add: w4_def w3_def w2_def w1_def valid_def)
  have fr: "w_cursor w4 = w_cursor w" "w_free w4 = w_free w" "w_live w4 = w_live w" "w_retired w4 = w_retired w"
    "w_wheel_id w4 = w_wheel_id w" by (simp_all add: w4_def w3_def w2_def w1_def)
  have en: "ent w4 j = (if j = i then ?e else if ?h \<noteq> NIL \<and> j = ?h then (ent w ?h)\<lparr>e_prev := i\<rparr> else ent w j)" for j
  proof -
    have "ent w4 j = ent w2 j" by (simp add: w4_def w3_def ent_def occupy_def set_head_def)
    also have "\<dots> = (if j = i then ?e else if ?h \<noteq> NIL \<and> j = ?h then (ent w ?h)\<lparr>e_prev := i\<rparr> else ent w j)"
      using hv vi by (auto simp: w2_def w1_def)
    finally show ?thesis .
  qed
  have iN: "i \<noteq> NIL" using valid_not_NIL [OF D(1) vi] .
  have ne: "w_next_event w4 = min (w_next_event w) (visit (w_cursor w) l s)"
    using sw by (simp add: w4_def) (simp add: w3_def w2_def w1_def min_def)
  have wb: "wbut (K - {i}) w4 (add_slot l s (i # S l s) S) F"
  proof (rule wbut_file [OF inv i ls sh vd fr(1,2,3,4)])
    show "core (ent w4 j) = core (ent w j)" if "j \<noteq> i" for j using that by (simp add: en core_def)
    show "filed_ok (w_cursor w) (ent w4 i)" using ls tok t d by (simp add: en filed_ok_def)
    show "e_level (ent w4 i) = l" "e_slot (ent w4 i) = s" by (simp_all add: en)
    show "enext w4 = (enext w)(i := ptr ?h)" using hv by (auto simp: enext_def en fun_eq_iff)
    show "eprev w4 j = (if j = i then None else if ptr ?h = Some j then Some i else eprev w j)" for j
      using hv iN by (auto simp: eprev_def en)
    show "head_of w4 l' s' = (if l' = l \<and> s' = s then i else head_of w l' s')" if "l' < LEVELS" "s' < SLOTS" for l' s'
    proof -
      have "head_of w4 l' s' = head_of (set_head l s i w2) l' s'" by (simp add: w4_def w3_def head_of_def)
      also have "\<dots> = (if l' = l \<and> s' = s then i else head_of w2 l' s')"
        using D(1) by (intro head_set_head ls) (simp add: w2_def w1_def)
      also have "head_of w2 l' s' = head_of w l' s'" by (simp add: w2_def w1_def)
      finally show ?thesis .
    qed
    show "occ w4 l' s' = (occ w l' s' \<or> l' = l \<and> s' = s)" if "l' < LEVELS" "s' < SLOTS" for l' s'
    proof -
      have "occ w4 l' s' = occ (occupy l s (set_head l s i w2)) l' s'" by (simp add: w4_def w3_def occ_def)
      also have "\<dots> = (occ (set_head l s i w2) l' s' \<or> l' = l \<and> s' = s)"
        using D(1) ls by (intro occ_occupy ls that shape_set_head) (simp add: w2_def w1_def)
      also have "occ (set_head l s i w2) l' s' = occ w l' s'" by (simp add: w2_def w1_def)
      finally show ?thesis .
    qed
  qed
  show ?thesis
    by (rule that [OF e wb ls fut]) (use fr ne vd in \<open>auto simp: en core_def enext_def\<close>)
qed

section \<open>Taking entries out\<close>

lemma wbut_next_event [simp]: "wbut K (w\<lparr>w_next_event := e\<rparr>) S F = wbut K w S F"
proof -
  have "enext (w\<lparr>w_next_event := e\<rparr>) = enext w" "eprev (w\<lparr>w_next_event := e\<rparr>) = eprev w" "ent (w\<lparr>w_next_event := e\<rparr>) = ent w"
    "valid (w\<lparr>w_next_event := e\<rparr>) = valid w" "head_of (w\<lparr>w_next_event := e\<rparr>) = head_of w" "occ (w\<lparr>w_next_event := e\<rparr>) = occ w"
    by (simp_all add: enext_def eprev_def ent_def valid_def head_of_def occ_def fun_eq_iff)
  then show ?thesis by (simp add: wbut_def slot_rep_def shape_ok_def)
qed

text \<open>Detaching part of one slot: the entries of \<open>X\<close> leave the slot, whose list becomes \<open>ys\<close>; the cores of
  all entries stay, the links of the other slots and of the free list stay.\<close>

lemma wbut_detach:
  assumes inv: "wbut K w S F" and ls: "l < LEVELS" "s < SLOTS" and X: "X \<subseteq> set (S l s)" and ys: "set ys = set (S l s) - X"
    and frame: "shape_ok w'" "\<And>j. valid w' j = valid w j" "w_cursor w' = w_cursor w" "w_free w' = w_free w"
      "w_live w' = w_live w" "w_retired w' = w_retired w"
    and core: "\<And>j. core (ent w' j) = core (ent w j)"
    and nx: "\<And>j. j \<notin> set (S l s) \<Longrightarrow> enext w' j = enext w j" and pv: "\<And>j. j \<notin> set (S l s) \<Longrightarrow> eprev w' j = eprev w j"
    and hd: "\<And>l' s'. l' < LEVELS \<Longrightarrow> s' < SLOTS \<Longrightarrow> \<not> (l' = l \<and> s' = s) \<Longrightarrow> head_of w' l' s' = head_of w l' s' \<and> occ w' l' s' = occ w l' s'"
    and slot: "chain (enext w') (ptr (head_of w' l s)) ys" "backs (eprev w') None ys" "occ w' l s \<longleftrightarrow> ys \<noteq> []"
  shows "wbut (K \<union> X) w' (add_slot l s ys S) F"
proof -
  note D = wbutD [OF inv]
  have lev: "e_level (ent w' j) = e_level (ent w j)" "e_slot (ent w' j) = e_slot (ent w j)" for j
    using core [of j] by (simp_all add: core_eq)
  have mem: "j \<in> set (S l s) \<longleftrightarrow> valid w j \<and> j \<notin> K \<and> e_level (ent w j) = l \<and> e_slot (ent w j) = s" for j
    by (rule slot_mem [OF inv ls])
  have "slot_rep (K \<union> X) w' l' s' (add_slot l s ys S l' s')" if l': "l' < LEVELS" "s' < SLOTS" for l' s'
  proof (cases "l' = l \<and> s' = s")
    case True
    then show ?thesis using slot ys mem by (auto simp: slot_rep_def add_slot_def lev frame(2))
  next
    case False
    have dis: "j \<notin> set (S l s)" if "j \<in> set (S l' s')" for j using that slot_mem [OF inv l'] mem False by auto
    have "chain (enext w') p (S l' s') = chain (enext w) p (S l' s')" "backs (eprev w') None (S l' s') = backs (eprev w) None (S l' s')" for p
      using nx pv dis by (auto intro!: chain_cong backs_cong)
    moreover have "set (S l' s') = {i. valid w' i \<and> i \<notin> K \<union> X \<and> e_level (ent w' i) = l' \<and> e_slot (ent w' i) = s'}"
      using slot_mem [OF inv l'] X mem False by (auto simp: lev frame(2))
    moreover have "add_slot l s ys S l' s' = S l' s'" using False by (auto simp: add_slot_def)
    ultimately show ?thesis using D(3) [OF l'] hd [OF l' False] by (simp add: slot_rep_def)
  qed
  moreover have fS: "j \<notin> set (S l s)" if "j \<in> set F" for j using that D(5) mem ls by (auto simp: FREE_LEVEL_def)
  then have "chain (enext w') (ptr (w_free w')) F" using D(4) nx chain_cong [of F "enext w'" "enext w"] by (simp add: frame(4))
  moreover have "set F = {i. valid w' i \<and> i \<notin> K \<union> X \<and> e_level (ent w' i) = FREE_LEVEL}"
    using D(5) X fS mem ls by (auto simp: lev frame(2) FREE_LEVEL_def)
  moreover have "entry_ok (w_cursor w') (ent w' i)" if "valid w' i" "i \<notin> K \<union> X" for i
    using that D(6) [of i] entry_ok_core [OF core, of _ i] by (simp add: frame(2,3))
  moreover have "w_live w' = card {i. valid w' i \<and> i \<notin> K \<union> X \<and> e_level (ent w' i) < LEVELS} + card (K \<union> X)"
  proof -
    let ?A = "{i. valid w i \<and> i \<notin> K \<union> X \<and> e_level (ent w i) < LEVELS}"
    have "{i. valid w i \<and> i \<notin> K \<and> e_level (ent w i) < LEVELS} = ?A \<union> X" using X mem ls by auto
    moreover have "card (?A \<union> X) = card ?A + card X" by (intro card_Un_disjoint) auto
    moreover have "card (K \<union> X) = card K + card X" using X mem by (intro card_Un_disjoint) auto
    ultimately show ?thesis using D(7) by (simp add: lev frame(2,5))
  qed
  moreover have "w_retired w' = card {i. valid w' i \<and> i \<notin> K \<union> X \<and> e_level (ent w' i) = RETIRED_LEVEL}"
  proof -
    have "{i. valid w i \<and> i \<notin> K \<union> X \<and> e_level (ent w i) = RETIRED_LEVEL} = {i. valid w i \<and> i \<notin> K \<and> e_level (ent w i) = RETIRED_LEVEL}"
      using X mem ls by (auto simp: RETIRED_LEVEL_def)
    then show ?thesis using D(8) by (simp add: lev frame(2,6))
  qed
  moreover have "\<forall>i\<in>K \<union> X. valid w' i" using D(2) X mem by (auto simp: frame(2))
  ultimately show ?thesis unfolding wbut_def using frame(1) by blast
qed

lemma wheel_take_ok:
  assumes inv: "wbut K w S F" and ls: "l < LEVELS" "s < SLOTS" and t: "wheel_take l s w = (w', i)"
  shows "wbut (K \<union> set (S l s)) w' (add_slot l s [] S) F" "chain (enext w') (ptr i) (S l s)" "w_cursor w' = w_cursor w"
    "w_wheel_id w' = w_wheel_id w" "\<And>j. ent w' j = ent w j" "\<And>j. valid w' j = valid w j" "w_next_event w' = w_next_event w"
    "\<And>j. enext w' j = enext w j"
proof -
  note D = wbutD [OF inv]
  have w': "w' = vacate l s (set_head l s NIL w)" and i: "i = head_of w l s" using t by (auto simp: wheel_take_def)
  show "chain (enext w') (ptr i) (S l s)" using D(3) [OF ls] by (simp add: w' i slot_rep_def)
  show "wbut (K \<union> set (S l s)) w' (add_slot l s [] S) F"
    by (rule wbut_detach [OF inv ls]) (use D(1) ls in \<open>auto simp: w' head_set_head occ_vacate\<close>)
qed (use t in \<open>auto simp: wheel_take_def\<close>)

lemma wheel_unlink_ok:
  assumes inv: "wbut K w S F" and i: "i \<in> set (S l s)" and ls: "l < LEVELS" "s < SLOTS"
  obtains w' ys where "wheel_unlink i w = Some w'" "wbut (insert i K) w' (add_slot l s ys S) F"
    "ys = [] \<longleftrightarrow> e_prev (ent w i) = NIL \<and> e_next (ent w i) = NIL" "set ys = set (S l s) - {i}"
    "\<And>j. core (ent w' j) = core (ent w j)" "w_cursor w' = w_cursor w" "w_wheel_id w' = w_wheel_id w"
    "w_next_event w' = w_next_event w" "\<And>j. valid w' j = valid w j"
proof -
  note D = wbutD [OF inv]
  note r = D(3) [OF ls, unfolded slot_rep_def]
  have lev: "e_level (ent w i) = l" "e_slot (ent w i) = s" and vi: "valid w i" using slot_mem [OF inv ls] i by auto
  obtain as bs where S: "S l s = as @ i # bs" using i by (meson split_list)
  have d: "dlist (enext w) (eprev w) (ptr (head_of w l s)) (as @ i # bs) (last_opt (as @ i # bs))"
    using r S by (simp add: dlist_def)
  have dist: "distinct (as @ i # bs)" by (rule dlist_distinct [OF d])
  have nb: "eprev w i = last_opt as" "enext w i = hd_opt bs" using dlist_neighbours [OF d] by auto
  let ?p = "e_prev (ent w i)" and ?n = "e_next (ent w i)"
  have pn: "ptr ?p = last_opt as" "ptr ?n = hd_opt bs" using nb by (simp_all add: enext_def eprev_def)
  have vS: "valid w j" if "j \<in> set (S l s)" for j using slot_mem [OF inv ls] that by simp
  have pmem: "?p \<in> set as" "valid w ?p" "?p \<noteq> i" "ptr ?p = Some ?p" if "?p \<noteq> NIL"
  proof -
    show "ptr ?p = Some ?p" using that by simp
    then show "?p \<in> set as" using pn(1) by (cases as rule: rev_cases) (auto simp: last_opt_def)
    then show "valid w ?p" "?p \<noteq> i" using vS S dist by auto
  qed
  have nmem: "?n \<in> set bs" "valid w ?n" "?n \<noteq> i" "ptr ?n = Some ?n" if "?n \<noteq> NIL"
  proof -
    show "ptr ?n = Some ?n" using that by simp
    then show "?n \<in> set bs" using pn(2) by (cases bs) auto
    then show "valid w ?n" "?n \<noteq> i" using vS S dist by auto
  qed
  define w1 where "w1 = (if ?p = NIL then (if ?n = NIL then vacate l s (set_head l s ?n w) else set_head l s ?n w)
    else put_entry ?p ((ent w ?p)\<lparr>e_next := ?n\<rparr>) w)"
  define w2 where "w2 = (if ?n \<noteq> NIL then put_entry ?n ((ent w1 ?n)\<lparr>e_prev := ?p\<rparr>) w1 else w1)"
  have v1: "valid w1 j = valid w j" for j by (simp add: w1_def)
  have e: "wheel_unlink i w = Some w2"
    using vi lev ls pmem nmem v1 by (simp add: wheel_unlink_def Let_def) (auto simp: w2_def w1_def)
  have as0: "as = [] \<longleftrightarrow> ?p = NIL" "bs = [] \<longleftrightarrow> ?n = NIL" using pn by (metis last_opt_eq_None ptr_eq_None, metis hd_opt_eq_None ptr_eq_None)
  have en1: "ent w1 j = (if ?p \<noteq> NIL \<and> j = ?p then (ent w j)\<lparr>e_next := ?n\<rparr> else ent w j)" for j
    using pmem by (auto simp: w1_def)
  have en2: "ent w2 j = (if ?n \<noteq> NIL \<and> j = ?n then (ent w1 j)\<lparr>e_prev := ?p\<rparr> else ent w1 j)" for j
    using nmem v1 by (auto simp: w2_def)
  have pne: "?p \<noteq> ?n" if "?p \<noteq> NIL" using that pmem(1) nmem(1) dist by (cases "?n = NIL") auto
  have nx: "enext w2 y = (if last_opt as = Some y then enext w i else enext w y)" for y
    using pn pne pmem(4) by (auto simp: enext_def en1 en2)
  have pv: "eprev w2 y = (if hd_opt bs = Some y then eprev w i else eprev w y)" for y
    using pn pne nmem(4) by (auto simp: eprev_def en1 en2)
  have fr: "valid w2 j = valid w j" "w_cursor w2 = w_cursor w" "w_free w2 = w_free w" "w_live w2 = w_live w"
    "w_retired w2 = w_retired w" "w_wheel_id w2 = w_wheel_id w" "w_next_event w2 = w_next_event w" for j
    by (simp_all add: w2_def w1_def)
  have sh: "shape_ok w2" using D(1) ls by (simp add: w2_def w1_def)
  have cr: "core (ent w2 j) = core (ent w j)" for j by (simp add: core_def en1 en2)
  have ho: "head_of w2 l' s' = (if as = [] \<and> l' = l \<and> s' = s then ?n else head_of w l' s') \<and>
      occ w2 l' s' = (occ w l' s' \<and> \<not> (as @ bs = [] \<and> l' = l \<and> s' = s))" if "s' < SLOTS" for l' s'
    using D(1) ls that as0 by (auto simp: w2_def w1_def head_set_head occ_vacate)
  have "dlist (enext w2) (eprev w2) (if as = [] then enext w i else ptr (head_of w l s)) (as @ bs)
      (if bs = [] then eprev w i else last_opt (as @ i # bs))"
    by (rule dlist_unlink [OF d]) (simp_all add: nx pv)
  then have sl: "chain (enext w2) (ptr (head_of w2 l s)) (as @ bs)" "backs (eprev w2) None (as @ bs)"
    using ho [OF ls(2), of l] by (auto simp: dlist_def enext_def split: if_splits)
  have oc: "occ w2 l s \<longleftrightarrow> as @ bs \<noteq> []" using ho [OF ls(2), of l] r S by auto
  have "wbut (K \<union> {i}) w2 (add_slot l s (as @ bs) S) F"
  proof (rule wbut_detach [OF inv ls, where w' = w2 and X = "{i}", OF _ _ sh fr(1,2,3,4,5) cr _ _ _ sl oc])
    show "enext w2 j = enext w j" if "j \<notin> set (S l s)" for j
      using that S nx [of j] by (auto simp: last_opt_def split: if_splits)
    show "eprev w2 j = eprev w j" if "j \<notin> set (S l s)" for j
      using that S pv [of j] by (auto simp: hd_opt_def split: list.splits)
  qed (use i S dist ho in auto)
  moreover have "as @ bs = [] \<longleftrightarrow> ?p = NIL \<and> ?n = NIL" using as0 by simp
  moreover have "set (as @ bs) = set (S l s) - {i}" using S dist by auto
  ultimately show ?thesis using that [OF e, of "as @ bs"] cr fr by simp
qed

section \<open>The free list\<close>

text \<open>Rewriting one entry that no slot holds leaves every slot as it is.\<close>

lemma slot_rep_put:
  assumes "slot_rep K w l s xs" and "i \<notin> set xs" and "valid w i" and "\<not> (e_level e = l \<and> e_slot e = s) \<or> i \<in> K'" and "K' - {i} = K - {i}"
  shows "slot_rep K' (put_entry i e w) l s xs"
proof -
  have "chain ((enext w)(i := n)) p xs = chain (enext w) p xs" "backs ((eprev w)(i := n)) None xs = backs (eprev w) None xs" for n p
    using assms(2) by (simp_all add: chain_upd backs_upd)
  moreover have "set xs = {j. valid w j \<and> j \<notin> K' \<and> e_level (if j = i then e else ent w j) = l \<and> e_slot (if j = i then e else ent w j) = s}"
  proof (intro set_eqI)
    fix j
    have "j \<in> K' \<longleftrightarrow> j \<in> K" if "j \<noteq> i" using assms(5) that by blast
    then show "j \<in> set xs \<longleftrightarrow> j \<in> {j. valid w j \<and> j \<notin> K' \<and> e_level (if j = i then e else ent w j) = l \<and> e_slot (if j = i then e else ent w j) = s}"
      using assms(1,2,4) by (cases "j = i") (auto simp: slot_rep_def)
  qed
  ultimately show ?thesis using assms(1,3) by (simp add: slot_rep_def)
qed

lemma slot_rep_cong: "w_entries w' = w_entries w \<Longrightarrow> w_heads w' = w_heads w \<Longrightarrow> w_occupied w' = w_occupied w \<Longrightarrow>
    slot_rep K w' l s xs = slot_rep K w l s xs"
proof -
  assume "w_entries w' = w_entries w" "w_heads w' = w_heads w" "w_occupied w' = w_occupied w"
  then have "enext w' = enext w" "eprev w' = eprev w" "ent w' = ent w" "valid w' = valid w" "head_of w' = head_of w" "occ w' = occ w"
    by (simp_all add: enext_def eprev_def ent_def valid_def head_of_def occ_def fun_eq_iff)
  then show ?thesis by (simp add: slot_rep_def)
qed

lemma wheel_release_ok:
  assumes inv: "wbut K w S F" and i: "i \<in> K" and tok: "e_token (ent w i) = None"
  obtains w' F' where "wheel_release i w = Some w'" "wbut (K - {i}) w' S F'" "w_cursor w' = w_cursor w"
    "w_wheel_id w' = w_wheel_id w" "w_next_event w' = w_next_event w" "\<And>j. valid w' j = valid w j"
    "\<And>j. j \<noteq> i \<Longrightarrow> ent w' j = ent w j" "e_token (ent w' i) = None" "\<And>l s. occ w' l s = occ w l s"
    "e_generation (ent w' i) = e_generation (ent w i)"
proof -
  note D = wbutD [OF inv]
  have vi: "valid w i" using D(2) [OF i] .
  have iN: "i \<noteq> NIL" using valid_not_NIL [OF D(1) vi] .
  have cK: "card K = Suc (card (K - {i}))" using card.remove [OF wbut_finite [OF inv] i] .
  have nS: "i \<notin> set (S l s)" if "l < LEVELS" "s < SLOTS" for l s using slot_mem [OF inv that] i by simp
  have nF: "i \<notin> set F" using D(5) i by simp
  let ?g = "e_generation (ent w i)"
  define e where "e = (if ?g = - 1 then (ent w i)\<lparr>e_prev := NIL, e_slot := 0, e_next := NIL, e_level := RETIRED_LEVEL\<rparr>
    else (ent w i)\<lparr>e_prev := NIL, e_slot := 0, e_next := w_free w, e_level := FREE_LEVEL\<rparr>)"
  define w' where "w' = (put_entry i e w)\<lparr>w_live := w_live w - 1, w_retired := (if ?g = - 1 then w_retired w + 1 else w_retired w),
    w_free := (if ?g = - 1 then w_free w else i)\<rparr>"
  define F' where "F' = (if ?g = - 1 then F else i # F)"
  have e': "wheel_release i w = Some w'"
    using vi tok D(7) cK by (simp add: wheel_release_def w'_def e_def put_entry_def)
  have en: "ent w' j = (if j = i then e else ent w j)" "valid w' j = valid w j" for j
    using vi ent_put [OF vi, of e j] by (simp_all add: w'_def ent_def valid_def put_entry_def)
  have lv: "e_level e = (if ?g = - 1 then RETIRED_LEVEL else FREE_LEVEL)" "e_token e = None" "e_generation e = ?g"
    "ptr (e_next e) = (if ?g = - 1 then None else ptr (w_free w))" using tok by (simp_all add: e_def)
  have nx: "enext w' = (enext w)(i := ptr (e_next e))" by (auto simp: enext_def en)
  have slots: "slot_rep (K - {i}) w' l s (S l s)" if "l < LEVELS" "s < SLOTS" for l s
  proof -
    have "slot_rep (K - {i}) (put_entry i e w) l s (S l s)"
      by (rule slot_rep_put [OF D(3) [OF that] nS [OF that] vi]) (use that lv in \<open>auto simp: FREE_LEVEL_def RETIRED_LEVEL_def\<close>)
    then show ?thesis using slot_rep_cong [of w' "put_entry i e w"] by (simp add: w'_def)
  qed
  have cF: "chain (enext w') (ptr (w_free w')) F'"
  proof -
    have "w_free w' = (if ?g = - 1 then w_free w else i)" by (simp add: w'_def)
    then show ?thesis using D(4) nF iN lv(4) by (simp add: nx F'_def chain_upd)
  qed
  have mem: "valid w' j \<and> j \<notin> K - {i} \<and> P (e_level (ent w' j)) \<longleftrightarrow> (valid w j \<and> j \<notin> K \<and> P (e_level (ent w j))) \<or> j = i \<and> P (e_level e)" for j P
    using i vi by (cases "j = i") (auto simp: en)
  have "set F' = {j. valid w' j \<and> j \<notin> K - {i} \<and> e_level (ent w' j) = FREE_LEVEL}"
    unfolding mem [of _ "\<lambda>x. x = FREE_LEVEL"] using D(5) lv(1) by (auto simp: F'_def)
  moreover have "w_live w' = card {j. valid w' j \<and> j \<notin> K - {i} \<and> e_level (ent w' j) < LEVELS} + card (K - {i})"
  proof -
    have "{j. valid w' j \<and> j \<notin> K - {i} \<and> e_level (ent w' j) < LEVELS} = {j. valid w j \<and> j \<notin> K \<and> e_level (ent w j) < LEVELS}"
      unfolding mem [of _ "\<lambda>x. x < LEVELS"] using lv(1) by (auto split: if_splits)
    then show ?thesis using D(7) cK by (simp add: w'_def)
  qed
  moreover have "w_retired w' = card {j. valid w' j \<and> j \<notin> K - {i} \<and> e_level (ent w' j) = RETIRED_LEVEL}"
  proof -
    have "{j. valid w' j \<and> j \<notin> K - {i} \<and> e_level (ent w' j) = RETIRED_LEVEL} =
        (if ?g = - 1 then insert i {j. valid w j \<and> j \<notin> K \<and> e_level (ent w j) = RETIRED_LEVEL}
         else {j. valid w j \<and> j \<notin> K \<and> e_level (ent w j) = RETIRED_LEVEL})"
      unfolding mem [of _ "\<lambda>x. x = RETIRED_LEVEL"] using lv(1) by auto
    then show ?thesis using D(8) i by (simp add: w'_def)
  qed
  moreover have cu: "w_cursor w' = w_cursor w" by (simp add: w'_def)
  moreover have "entry_ok (w_cursor w') (ent w' j)" if "valid w' j" "j \<notin> K - {i}" for j
  proof (cases "j = i")
    case True
    then show ?thesis using lv by (simp add: en entry_ok_def)
  next
    case False
    then show ?thesis using that D(6) [of j] by (simp add: en cu)
  qed
  moreover have "shape_ok w'" "\<forall>j\<in>K - {i}. valid w' j"
    using D(1,2) by (auto simp: w'_def shape_ok_def put_entry_def valid_def)
  ultimately have "wbut (K - {i}) w' S F'" unfolding wbut_def using slots cF by blast
  then show ?thesis by (rule that [OF e']) (simp_all add: en lv, simp_all add: w'_def occ_def)
qed

lemma wheel_allocate_ok:
  assumes inv: "wbut K w S F" and free: "w_free w \<noteq> NIL"
  obtains w' i F' where "wheel_allocate d tok w = Some (w', i)" "wbut (insert i K) w' S F'" "i \<notin> K" "valid w i"
    "e_token (ent w i) = None" "e_token (ent w' i) = Some tok" "e_generation (ent w' i) = e_generation (ent w i) + 1"
    "e_generation (ent w' i) \<noteq> 0" "\<And>j. j \<noteq> i \<Longrightarrow> ent w' j = ent w j" "w_cursor w' = w_cursor w" "w_wheel_id w' = w_wheel_id w"
    "w_next_event w' = w_next_event w" "\<And>j. valid w' j = valid w j" "\<And>l s. occ w' l s = occ w l s"
proof -
  note D = wbutD [OF inv]
  let ?i = "w_free w"
  obtain F' where F: "F = ?i # F'" using D(4) free by (cases F) (auto simp: ptr_def split: if_splits)
  have i: "valid w ?i" "?i \<notin> K" "e_level (ent w ?i) = FREE_LEVEL" using D(5) F by auto
  have eo: "e_token (ent w ?i) = None" "e_generation (ent w ?i) \<noteq> - 1"
    using D(6) [OF i(1,2)] i(3) by (auto simp: entry_ok_def filed_ok_def)
  have g0: "e_generation (ent w ?i) + 1 \<noteq> 0" using eo(2) by (metis add.commute add_eq_0_iff)
  define e where "e = (ent w ?i)\<lparr>e_deadline := d, e_generation := e_generation (ent w ?i) + 1, e_token := Some tok, e_next := NIL, e_prev := NIL\<rparr>"
  define w' where "w' = (put_entry ?i e w)\<lparr>w_free := e_next (ent w ?i), w_live := w_live w + 1\<rparr>"
  have e': "wheel_allocate d tok w = Some (w', ?i)" using free i eo by (simp add: wheel_allocate_def w'_def e_def Let_def)
  have en: "ent w' j = (if j = ?i then e else ent w j)" "valid w' j = valid w j" for j
    using i(1) ent_put [OF i(1), of e j] by (simp_all add: w'_def ent_def valid_def put_entry_def)
  have nx: "enext w' = (enext w)(?i := None)" by (auto simp: enext_def en e_def)
  have nS: "?i \<notin> set (S l s)" if "l < LEVELS" "s < SLOTS" for l s using slot_mem [OF inv that] i that by (auto simp: FREE_LEVEL_def)
  have slots: "slot_rep (insert ?i K) w' l s (S l s)" if "l < LEVELS" "s < SLOTS" for l s
  proof -
    have "slot_rep (insert ?i K) (put_entry ?i e w) l s (S l s)"
      by (rule slot_rep_put [OF D(3) [OF that] nS [OF that] i(1)]) auto
    then show ?thesis using slot_rep_cong [of w' "put_entry ?i e w"] by (simp add: w'_def)
  qed
  have dF: "?i \<notin> set F'" using chain_distinct [OF D(4)] F by simp
  have cF: "chain (enext w') (ptr (w_free w')) F'"
  proof -
    have "ptr (w_free w') = enext w ?i" by (simp add: w'_def enext_def)
    then show ?thesis using D(4) F dF by (simp add: nx chain_upd)
  qed
  have mem: "valid w' j \<and> j \<notin> insert ?i K \<and> P (e_level (ent w' j)) \<longleftrightarrow> valid w j \<and> j \<notin> K \<and> j \<noteq> ?i \<and> P (e_level (ent w j))" for j P
    by (auto simp: en)
  have "set F' = {j. valid w' j \<and> j \<notin> insert ?i K \<and> e_level (ent w' j) = FREE_LEVEL}"
    unfolding mem [of _ "\<lambda>x. x = FREE_LEVEL"] using D(5) F dF by auto
  moreover have "w_live w' = card {j. valid w' j \<and> j \<notin> insert ?i K \<and> e_level (ent w' j) < LEVELS} + card (insert ?i K)"
  proof -
    have "{j. valid w' j \<and> j \<notin> insert ?i K \<and> e_level (ent w' j) < LEVELS} = {j. valid w j \<and> j \<notin> K \<and> e_level (ent w j) < LEVELS}"
      unfolding mem [of _ "\<lambda>x. x < LEVELS"] using i(3) by auto
    then show ?thesis using D(7) i(2) wbut_finite [OF inv] by (simp add: w'_def)
  qed
  moreover have "w_retired w' = card {j. valid w' j \<and> j \<notin> insert ?i K \<and> e_level (ent w' j) = RETIRED_LEVEL}"
  proof -
    have "{j. valid w' j \<and> j \<notin> insert ?i K \<and> e_level (ent w' j) = RETIRED_LEVEL} = {j. valid w j \<and> j \<notin> K \<and> e_level (ent w j) = RETIRED_LEVEL}"
      unfolding mem [of _ "\<lambda>x. x = RETIRED_LEVEL"] using i(3) by auto
    then show ?thesis using D(8) by (simp add: w'_def)
  qed
  moreover have cu: "w_cursor w' = w_cursor w" by (simp add: w'_def)
  moreover have "entry_ok (w_cursor w') (ent w' j)" if "valid w' j" "j \<notin> insert ?i K" for j
    using that D(6) [of j] by (simp add: en cu)
  moreover have "shape_ok w'" "\<forall>j\<in>insert ?i K. valid w' j"
    using D(1,2) i(1) by (auto simp: w'_def shape_ok_def put_entry_def valid_def)
  ultimately have "wbut (insert ?i K) w' S F'" unfolding wbut_def using slots cF by blast
  then show ?thesis
    by (rule that [OF e' _ i(2,1) eo(1)]) (use g0 in \<open>simp_all add: en e_def, simp_all add: w'_def occ_def\<close>)
qed

text \<open>The token and the deadline of an entry in transit may change.\<close>

lemma wbut_transit:
  assumes inv: "wbut K w S F" and i: "i \<in> K" and e: "e_next e = e_next (ent w i)" "e_level e = e_level (ent w i)"
  shows "wbut K (put_entry i e w) S F"
proof -
  note D = wbutD [OF inv]
  let ?w = "put_entry i e w"
  have vi: "valid w i" using D(2) [OF i] .
  have nx: "enext ?w = enext w" using vi e by (auto simp: enext_def)
  have lv: "e_level (ent ?w j) = e_level (ent w j)" for j using vi e by simp
  have "slot_rep K ?w l s (S l s)" if "l < LEVELS" "s < SLOTS" for l s
    by (rule slot_rep_put [OF D(3) [OF that] _ vi]) (use slot_mem [OF inv that] i in auto)
  moreover have "entry_ok (w_cursor ?w) (ent ?w j)" if "valid ?w j" "j \<notin> K" for j
    using that D(6) [of j] i vi by auto
  ultimately show ?thesis using D unfolding wbut_def nx lv by simp
qed

end
