(* ===== verification/Wheel_Props.thy ===== *)
theory Wheel_Props
  imports Wheel_Rep Machine
begin

text \<open>
  The timer wheel as its user sees it: a partial map from handles to deadlines and tokens.
  Insertion, cancellation and rescheduling update the map; advancing the cursor fires exactly
  the timers that are due, in the order of their deadlines, and never one early.
\<close>

section \<open>The invariant of the public operations\<close>

definition ev :: "(nat \<Rightarrow> nat \<Rightarrow> u32 list) \<Rightarrow> tick \<Rightarrow> tick set" where
  "ev S c = {visit c l s | l s. l < LEVELS \<and> s < SLOTS \<and> S l s \<noteq> []}"

definition wheel_inv :: "'t wheel \<Rightarrow> bool" where
  "wheel_inv w \<longleftrightarrow> (\<exists>S F. wbut {} w S F) \<and> w_next_event w = Min (insert TICK_NONE (all_events w))"

lemma slot_entry:
  assumes "wbut K w S F" and "l < LEVELS" "s < SLOTS" and "i \<in> set (S l s)"
  shows "valid w i" "i \<notin> K" "filed_ok (w_cursor w) (ent w i)" "e_level (ent w i) = l" "e_slot (ent w i) = s"
    "in_time (w_cursor w) l s (e_deadline (ent w i))" "fits (w_cursor w) (e_deadline (ent w i))"
    "slot_wakeup w l s = visit (w_cursor w) l s"
proof -
  show m: "valid w i" "i \<notin> K" "e_level (ent w i) = l" "e_slot (ent w i) = s" using slot_mem [OF assms(1,2,3)] assms(4) by auto
  show f: "filed_ok (w_cursor w) (ent w i)"
    using wbutD(6) [OF assms(1) m(1,2)] m(3) assms(2) by (auto simp: entry_ok_def FREE_LEVEL_def RETIRED_LEVEL_def)
  then show t: "in_time (w_cursor w) l s (e_deadline (ent w i))" and ft: "fits (w_cursor w) (e_deadline (ent w i))"
    using m by (auto simp: filed_ok_def)
  have "w_cursor w \<le> MAX_TICK" using wbutD(1) [OF assms(1)] by (simp add: shape_ok_def)
  then show "slot_wakeup w l s = visit (w_cursor w) l s" using wakeup_in_time [OF t] ft by (simp add: slot_wakeup_def fits_def)
qed

lemma live_slot:
  assumes "wbut K w S F" and "valid w i" and "i \<notin> K" and "e_token (ent w i) \<noteq> None"
  obtains l s where "l < LEVELS" "s < SLOTS" "i \<in> set (S l s)"
proof -
  have f: "filed_ok (w_cursor w) (ent w i)" using wbutD(6) [OF assms(1,2,3)] assms(4) by (auto simp: entry_ok_def)
  then have "e_level (ent w i) < LEVELS" "e_slot (ent w i) < SLOTS" by (auto simp: filed_ok_def in_time_def)
  then show ?thesis using that slot_mem [OF assms(1)] assms(2,3) by blast
qed

lemma all_events_ev:
  assumes "wbut K w S F"
  shows "all_events w = ev S (w_cursor w)"
proof -
  have "slot_wakeup w l s = visit (w_cursor w) l s" if "l < LEVELS" "s < SLOTS" "S l s \<noteq> []" for l s
    using slot_entry(8) [OF assms that(1,2), of "hd (S l s)"] that(3) by simp
  moreover have "bit (w_occupied w ! l) s \<longleftrightarrow> S l s \<noteq> []" if "l < LEVELS" "s < SLOTS" for l s
    using wbutD(3) [OF assms that] by (simp add: slot_rep_def occ_def)
  ultimately have "x \<in> all_events w \<longleftrightarrow> x \<in> ev S (w_cursor w)" for x
    unfolding all_events_def events_def ev_def UN_iff mem_Collect_eq lessThan_iff Bex_def by metis
  then show ?thesis by blast
qed

lemma finite_ev [simp]: "finite (ev S c)"
proof -
  have "ev S c \<subseteq> (\<lambda>(l, s). visit c l s) ` ({..<LEVELS} \<times> {..<SLOTS})" by (auto simp: ev_def image_iff)
  then show ?thesis by (rule finite_subset) simp
qed

lemma ev_add: "l < LEVELS \<Longrightarrow> s < SLOTS \<Longrightarrow> xs \<noteq> [] \<Longrightarrow> ev (add_slot l s xs S) c = insert (visit c l s) (ev S c)"
  by (auto simp: ev_def add_slot_def)

lemma ev_same: "l < LEVELS \<Longrightarrow> s < SLOTS \<Longrightarrow> xs \<noteq> [] \<Longrightarrow> S l s \<noteq> [] \<Longrightarrow> ev (add_slot l s xs S) c = ev S c"
  by (auto simp: ev_def add_slot_def)

lemma ev_clear: "l < LEVELS \<Longrightarrow> s < SLOTS \<Longrightarrow> S l s \<noteq> [] \<Longrightarrow> ev S c = insert (visit c l s) (ev (add_slot l s [] S) c)"
  by (auto simp: ev_def add_slot_def)

lemma refresh_exact: "wbut K w S F \<Longrightarrow> w_next_event (refresh w) = Min (insert TICK_NONE (ev S (w_cursor w)))"
  using all_events_ev [of K w S F] by (simp add: refresh_def next_event_min)

lemma refresh_wbut [simp]: "wbut K (refresh w) S F = wbut K w S F" "w_cursor (refresh w) = w_cursor w"
  "ent (refresh w) = ent w" "valid (refresh w) = valid w" "w_wheel_id (refresh w) = w_wheel_id w"
  by (simp_all add: refresh_def ent_def valid_def fun_eq_iff)

lemma wheel_invI:
  "wbut {} w S F \<Longrightarrow> w_next_event w = Min (insert TICK_NONE (ev S (w_cursor w))) \<Longrightarrow> wheel_inv w"
  by (auto simp: wheel_inv_def all_events_ev)

lemma wheel_invD:
  assumes "wheel_inv w"
  obtains S F where "wbut {} w S F" "w_next_event w = Min (insert TICK_NONE (ev S (w_cursor w)))"
  using assms by (auto simp: wheel_inv_def all_events_ev)

section \<open>The timers of a wheel\<close>

text \<open>By slab position: the generation, the deadline and the token of a live entry.\<close>

definition tm :: "'t wheel \<Rightarrow> u32 \<Rightarrow> (u64 \<times> tick \<times> 't) option" where
  "tm w i = (if valid w i then map_option (\<lambda>t. (e_generation (ent w i), e_deadline (ent w i), t)) (e_token (ent w i)) else None)"

text \<open>The generation counters of all slab positions, live or free.\<close>

definition gens :: "'t wheel \<Rightarrow> u32 \<Rightarrow> u64" where
  "gens w i = e_generation (ent w i)"

text \<open>By handle.\<close>

definition timers :: "'t wheel \<Rightarrow> timer_id \<rightharpoonup> tick \<times> 't" where
  "timers w tid = Option.bind (live_index tid w) (\<lambda>i. map_option snd (tm w i))"

lemma tm_cong: "(\<And>j. core (ent w' j) = core (ent w j)) \<Longrightarrow> (\<And>j. valid w' j = valid w j) \<Longrightarrow> tm w' = tm w"
  by (simp add: tm_def fun_eq_iff core_eq)

lemma live_index_tm: "live_index tid w = (case id_parts tid of None \<Rightarrow> None | Some (wheel, generation, index) \<Rightarrow>
    if wheel = w_wheel_id w \<and> (\<exists>d t. tm w index = Some (generation, d, t)) then Some index else None)"
  by (auto simp: live_index_def tm_def get_entry_def valid_def ent_def split: option.splits)

lemma timers_alt: "timers w tid = (case id_parts tid of None \<Rightarrow> None | Some (wheel, generation, index) \<Rightarrow>
    if wheel = w_wheel_id w then (case tm w index of Some (g, d, t) \<Rightarrow> if g = generation then Some (d, t) else None | None \<Rightarrow> None)
    else None)"
  by (auto simp: timers_def live_index_tm split: option.splits prod.splits)

text \<open>Distinct handles name distinct positions or generations, so updating one position updates one handle.\<close>

lemma id_parts_inj:
  assumes "id_parts a = Some (wh, g, i)" and "id_parts b = Some (wh, g, i)"
  shows "a = b"
proof -
  have p: "ucast (drop_bit 96 a) = wh" "ucast (drop_bit 32 a) = g" "ucast a = i + 1"
    "ucast (drop_bit 96 b) = wh" "ucast (drop_bit 32 b) = g" "ucast b = i + 1"
    using assms by (auto simp: id_parts_def Let_def split: if_splits)
  show ?thesis
  proof (rule bit_word_eqI)
    fix n assume n: "n < LENGTH(128)"
    consider "n < 32" | "32 \<le> n" "n < 96" | "96 \<le> n" by linarith
    then show "bit a n = bit b n"
    proof cases
      case 1
      have "bit (ucast a :: u32) n = bit (ucast b :: u32) n" using p by simp
      then show ?thesis using 1 by (simp add: bit_simps)
    next
      case 2
      have "bit (ucast (drop_bit 32 a) :: u64) (n - 32) = bit (ucast (drop_bit 32 b) :: u64) (n - 32)" using p by simp
      moreover have "n - 32 < 64" using 2 by simp
      ultimately show ?thesis using 2 by (simp add: bit_simps)
    next
      case 3
      have "bit (ucast (drop_bit 96 a) :: u32) (n - 96) = bit (ucast (drop_bit 96 b) :: u32) (n - 96)" using p by simp
      moreover have "n - 96 < 32" using 3 n by simp
      ultimately show ?thesis using 3 n by (simp add: bit_simps)
    qed
  qed
qed

lemma timers_upd:
  assumes "w_wheel_id w' = w_wheel_id w" and "id_parts tid = Some (w_wheel_id w, g, i)"
    and "\<And>j. j \<noteq> i \<Longrightarrow> tm w' j = tm w j"
    and "tm w' i = map_option (\<lambda>(d, t). (g, d, t)) v" and "\<And>g' d t. tm w i = Some (g', d, t) \<Longrightarrow> g' = g"
  shows "timers w' = (timers w)(tid := v)"
proof
  fix x
  show "timers w' x = ((timers w)(tid := v)) x"
  proof (cases "x = tid")
    case True
    then show ?thesis using assms(1,2,4) by (auto simp: timers_alt split: option.splits)
  next
    case False
    show ?thesis
    proof (cases "id_parts x")
      case (Some y)
      obtain wh g' j where y: "y = (wh, g', j)" by (cases y)
      show ?thesis
      proof (cases "j = i \<and> wh = w_wheel_id w")
        case True
        then have "g' \<noteq> g" using id_parts_inj Some y assms(2) False by metis
        then show ?thesis using Some y True False assms(1,4,5) by (auto simp: timers_alt split: option.splits)
      next
        case ne: False
        then show ?thesis using Some y False assms(1) assms(3) [of j] by (auto simp: timers_alt)
      qed
    qed (use False in \<open>simp add: timers_alt\<close>)
  qed
qed

section \<open>Insertion, cancellation, rescheduling\<close>

lemma tm_other: "core (ent w' j) = core (ent w j) \<Longrightarrow> valid w' j = valid w j \<Longrightarrow> tm w' j = tm w j"
  by (simp add: tm_def core_eq)

lemma id_new_ok: "wh \<noteq> 0 \<Longrightarrow> g \<noteq> 0 \<Longrightarrow> i \<noteq> NIL \<Longrightarrow> \<exists>tid. id_new wh g i = Some tid \<and> id_parts tid = Some (wh, g, i)"
  using id_roundtrip [of wh g i] by (auto simp: id_new_def)

lemma Min_insert_second: "finite A \<Longrightarrow> Min (insert t (insert v A)) = min (Min (insert t A)) v" for t v :: nat
  using Min_insert [of "insert t A" v] by (simp add: insert_commute min.commute del: Min_insert)

text \<open>On a well-formed wheel \<open>try_insert_at\<close> reports exactly the documented errors, and otherwise returns a
  fresh handle that names the new timer.\<close>

lemma insert_ok:
  assumes inv: "wheel_inv w" and fit: "fits (w_cursor w) d" and free: "w_free w \<noteq> NIL"
  obtains w' tid where "try_insert_at d tok w = Some (w', Inr tid)" "wheel_inv w'" "timers w tid = None"
    "timers w' = (timers w)(tid \<mapsto> (d, tok))" "w_cursor w' = w_cursor w" "w_wheel_id w' = w_wheel_id w"
    "\<exists>i. id_parts tid = Some (w_wheel_id w, gens w i + 1, i) \<and> gens w i \<noteq> - 1 \<and> gens w' = (gens w)(i := gens w i + 1)"
proof -
  obtain S F where wb: "wbut {} w S F" and ex: "w_next_event w = Min (insert TICK_NONE (ev S (w_cursor w)))" using wheel_invD [OF inv] .
  obtain w1 i F' where a: "wheel_allocate d tok w = Some (w1, i)" and b1: "wbut {i} w1 S F'" and vi: "valid w i"
    and t0: "e_token (ent w i) = None" and t1: "e_token (ent w1 i) = Some tok" and g1: "e_generation (ent w1 i) \<noteq> 0" "e_generation (ent w1 i) = e_generation (ent w i) + 1"
    and o1: "\<And>j. j \<noteq> i \<Longrightarrow> ent w1 j = ent w j" and c1: "w_cursor w1 = w_cursor w" "w_wheel_id w1 = w_wheel_id w"
      "w_next_event w1 = w_next_event w" and v1: "\<And>j. valid w1 j = valid w j"
    using wheel_allocate_ok [OF wb free, of d tok] by metis
  obtain w2 l s where f: "wheel_file i d w1 = Some w2" and b2: "wbut ({i} - {i}) w2 (add_slot l s (i # S l s) S) F'"
    and ls: "l < LEVELS" "s < SLOTS" and d2: "e_deadline (ent w2 i) = d" "e_token (ent w2 i) = e_token (ent w1 i)"
      "e_generation (ent w2 i) = e_generation (ent w1 i)" and o2: "\<And>j. j \<noteq> i \<Longrightarrow> core (ent w2 j) = core (ent w1 j)"
    and c2: "w_cursor w2 = w_cursor w1" "w_wheel_id w2 = w_wheel_id w1" "\<And>j. valid w2 j = valid w1 j"
      "w_next_event w2 = min (w_next_event w1) (visit (w_cursor w1) l s)"
    by (rule wheel_file_ok [OF b1, of i d]) (use fit c1(1) t1 g1 in auto)
  have wid: "w_wheel_id w \<noteq> 0" and iN: "i \<noteq> NIL"
    using wbutD(1) [OF wb] valid_not_NIL [OF wbutD(1) [OF wb] vi] by (auto simp: shape_ok_def)
  let ?g = "e_generation (ent w1 i)"
  obtain tid where n: "id_new (w_wheel_id w) ?g i = Some tid" and p: "id_parts tid = Some (w_wheel_id w, ?g, i)"
    using id_new_ok [OF wid g1(1) iN] by blast
  have "try_insert_at d tok w = Some (w2, Inr tid)"
    using fit free a f n c1 c2 d2(3) v1 vi by (simp add: try_insert_at_def fits_def deadline_fits_def)
  moreover have "wheel_inv w2"
  proof (rule wheel_invI)
    show "wbut {} w2 (add_slot l s (i # S l s) S) F'" using b2 by simp
    show "w_next_event w2 = Min (insert TICK_NONE (ev (add_slot l s (i # S l s) S) (w_cursor w2)))"
      unfolding ev_add [OF ls list.distinct(2)] c2 c1 ex by (rule Min_insert_second [symmetric]) simp
  qed
  moreover have "timers w2 = (timers w)(tid \<mapsto> (d, tok))"
  proof (rule timers_upd [OF _ p])
    show "tm w2 j = tm w j" if "j \<noteq> i" for j using o1 [OF that] o2 [OF that] c2(3) v1 by (intro tm_other) simp_all
    show "tm w2 i = map_option (\<lambda>(d, t). (?g, d, t)) (Some (d, tok))" using vi v1 c2(3) t1 d2 by (simp add: tm_def)
    show "g' = ?g" if "tm w i = Some (g', d', t)" for g' d' t using that t0 by (simp add: tm_def split: if_splits)
  qed (simp add: c1 c2)
  moreover have "timers w tid = None" using p t0 by (simp add: timers_alt tm_def)
  moreover have "gens w2 = (gens w)(i := gens w i + 1)" using g1(2) d2(3) o1 o2 by (auto simp: gens_def fun_eq_iff core_eq)
  moreover have "gens w i \<noteq> - 1" using g1 by (auto simp: gens_def)
  ultimately show ?thesis using that [of w2 tid] c1 c2 p g1(2) by (simp add: gens_def)
qed

lemma insert_errors:
  "d > MAX_TICK \<Longrightarrow> try_insert_at d tok w = Some (w, Inl (TimeOutOfRange, tok))"
  "d \<le> MAX_TICK \<Longrightarrow> \<not> fits (w_cursor w) d \<Longrightarrow> try_insert_at d tok w = Some (w, Inl (DeadlineTooFar, tok))"
  "fits (w_cursor w) d \<Longrightarrow> w_free w = NIL \<Longrightarrow> try_insert_at d tok w = Some (w, Inl (Full, tok))"
  by (auto simp: try_insert_at_def fits_def deadline_fits_def)

lemma Min_insert_drop: "finite A \<Longrightarrow> Min (insert t (insert v A)) \<noteq> v \<Longrightarrow> Min (insert t (insert v A)) = Min (insert t A)"
  for t v :: nat
  by (metis Min_insert finite_insert insert_commute insert_not_empty min_def)

text \<open>Unlinking keeps the cached event exact unless the caller refreshes it.\<close>

lemma unlink_exact:
  assumes wb: "wbut {} w S F" and ex: "w_next_event w = Min (insert TICK_NONE (ev S (w_cursor w)))"
    and i: "i \<in> set (S l s)" and ls: "l < LEVELS" "s < SLOTS" and ys: "ys = [] \<longleftrightarrow> e_prev (ent w i) = NIL \<and> e_next (ent w i) = NIL"
    and no: "\<not> removes_earliest (ent w i) w"
  shows "w_next_event w = Min (insert TICK_NONE (ev (add_slot l s ys S) (w_cursor w)))"
proof (cases "ys = []")
  case False
  then show ?thesis using ex i ls by (metis empty_iff ev_same list.set(1))
next
  case True
  have ne: "S l s \<noteq> []" using i by auto
  have "slot_wakeup w l s \<noteq> w_next_event w" using no ys True slot_entry(4,5) [OF wb ls i] by (simp add: removes_earliest_def)
  then have "visit (w_cursor w) l s \<noteq> Min (insert TICK_NONE (ev S (w_cursor w)))" using slot_entry(8) [OF wb ls i] ex by simp
  then show ?thesis using ex True Min_insert_drop [of "ev (add_slot l s [] S) (w_cursor w)" TICK_NONE "visit (w_cursor w) l s"]
    unfolding ev_clear [of l s S "w_cursor w", OF ls ne] by simp
qed

lemma live_index_D:
  assumes "wbut {} w S F" and "live_index tid w = Some i"
  obtains g tok l s where "id_parts tid = Some (w_wheel_id w, g, i)" "valid w i" "e_token (ent w i) = Some tok"
    "e_generation (ent w i) = g" "l < LEVELS" "s < SLOTS" "i \<in> set (S l s)"
proof -
  obtain g d t where p: "id_parts tid = Some (w_wheel_id w, g, i)" "tm w i = Some (g, d, t)"
    using assms(2) by (auto simp: live_index_tm split: option.splits if_splits)
  then have v: "valid w i" "e_token (ent w i) = Some t" "e_generation (ent w i) = g" by (auto simp: tm_def split: if_splits)
  obtain l s where "l < LEVELS" "s < SLOTS" "i \<in> set (S l s)" using live_slot [OF assms(1) v(1)] v(2) by auto
  with p v that show ?thesis by blast
qed

lemma cancel_ok:
  assumes inv: "wheel_inv w"
  obtains w' where "cancel tid w = Some (w', map_option snd (timers w tid))" "wheel_inv w'" "timers w' = (timers w)(tid := None)"
    "w_cursor w' = w_cursor w" "w_wheel_id w' = w_wheel_id w" "gens w' = gens w"
proof (cases "live_index tid w")
  case None
  then have "timers w tid = None" by (simp add: timers_def)
  then show ?thesis using that [of w] None inv by (simp add: cancel_def fun_upd_idem)
next
  case (Some i)
  obtain S F where wb: "wbut {} w S F" and ex: "w_next_event w = Min (insert TICK_NONE (ev S (w_cursor w)))" using wheel_invD [OF inv] .
  obtain g tok l s where p: "id_parts tid = Some (w_wheel_id w, g, i)" and vi: "valid w i" and tk: "e_token (ent w i) = Some tok"
    and g: "e_generation (ent w i) = g" and ls: "l < LEVELS" "s < SLOTS" and i: "i \<in> set (S l s)"
    using live_index_D [OF wb Some] .
  obtain w1 ys where u: "wheel_unlink i w = Some w1" and b1: "wbut {i} w1 (add_slot l s ys S) F"
    and ys: "ys = [] \<longleftrightarrow> e_prev (ent w i) = NIL \<and> e_next (ent w i) = NIL"
    and o1: "\<And>j. core (ent w1 j) = core (ent w j)" and c1: "w_cursor w1 = w_cursor w" "w_wheel_id w1 = w_wheel_id w"
      "w_next_event w1 = w_next_event w" "\<And>j. valid w1 j = valid w j"
    using wheel_unlink_ok [OF wb i ls] by metis
  define w2 where "w2 = put_entry i ((ent w1 i)\<lparr>e_token := None\<rparr>) w1"
  have b2: "wbut {i} w2 (add_slot l s ys S) F" unfolding w2_def by (rule wbut_transit [OF b1]) simp_all
  have e2: "ent w2 j = (if j = i then (ent w1 i)\<lparr>e_token := None\<rparr> else ent w1 j)" for j using vi c1(4) by (simp add: w2_def)
  obtain w3 F3 where r: "wheel_release i w2 = Some w3" and b3: "wbut ({i} - {i}) w3 (add_slot l s ys S) F3" and c3: "w_cursor w3 = w_cursor w2"
    "w_wheel_id w3 = w_wheel_id w2" "w_next_event w3 = w_next_event w2" "\<And>j. valid w3 j = valid w2 j"
    and o3: "\<And>j. j \<noteq> i \<Longrightarrow> ent w3 j = ent w2 j" "e_token (ent w3 i) = None" "e_generation (ent w3 i) = e_generation (ent w2 i)"
    by (rule wheel_release_ok [OF b2, of i]) (auto simp: e2)
  let ?re = "removes_earliest (ent w i) w"
  let ?w = "if ?re then refresh w3 else w3"
  have tk1: "e_token (ent w1 i) = Some tok" using o1 [of i] tk by (simp add: core_eq)
  have "cancel tid w = Some (?w, Some tok)"
    using Some vi u c1(4) tk1 r by (simp add: cancel_def w2_def [symmetric])
  moreover have "timers w tid = Some (e_deadline (ent w i), tok)" using p vi tk g by (simp add: timers_alt tm_def)
  moreover have "wheel_inv ?w"
  proof (rule wheel_invI)
    show "wbut {} ?w (add_slot l s ys S) F3" using b3 by simp
    show "w_next_event ?w = Min (insert TICK_NONE (ev (add_slot l s ys S) (w_cursor ?w)))"
      using unlink_exact [OF wb ex i ls ys] refresh_exact [OF b3] c1 c3 by (simp add: w2_def)
  qed
  moreover have "timers ?w = (timers w)(tid := None)"
  proof (rule timers_upd [OF _ p])
    have tv: "tm ?w = tm w3" by (simp add: tm_def fun_eq_iff)
    show "tm ?w j = tm w j" if "j \<noteq> i" for j
      unfolding tv using that o3(1) [OF that] o1 [of j] e2 [of j] c1(4) c3(4) by (intro tm_other) (simp_all add: w2_def)
    show "tm ?w i = map_option (\<lambda>(d, t). (g, d, t)) None" unfolding tv using o3(2) by (simp add: tm_def)
    show "g' = g" if "tm w i = Some (g', d', t)" for g' d' t using that g by (simp add: tm_def split: if_splits)
  qed (simp add: c1 c3 w2_def)
  moreover have "gens ?w j = gens w j" for j
    using o1 [of j] o3(1) [of j] o3(3) e2 [of j] by (cases "j = i") (simp_all add: gens_def core_eq)
  ultimately show ?thesis using that [of ?w] c1 c3 by (simp add: w2_def fun_eq_iff)
qed

lemma timers_Some:
  "timers w tid = Some (d, t) \<Longrightarrow> \<exists>i. live_index tid w = Some i \<and> e_deadline (ent w i) = d \<and> e_token (ent w i) = Some t"
  by (auto simp: timers_def tm_def split: bind_splits if_splits)

lemma timers_None: "timers w tid = None \<longleftrightarrow> live_index tid w = None"
  by (auto simp: timers_alt live_index_tm split: option.splits prod.splits if_splits)

lemma reschedule_ok:
  assumes inv: "wheel_inv w" and fit: "fits (w_cursor w) d" and live: "timers w tid = Some (d0, tok)"
  obtains w' where "reschedule_at tid d w = Some (w', Inr ())" "wheel_inv w'" "timers w' = (timers w)(tid \<mapsto> (d, tok))"
    "w_cursor w' = w_cursor w" "w_wheel_id w' = w_wheel_id w" "gens w' = gens w"
proof -
  obtain i where li: "live_index tid w = Some i" and tk: "e_token (ent w i) = Some tok" using timers_Some [OF live] by blast
  obtain S F where wb: "wbut {} w S F" and ex: "w_next_event w = Min (insert TICK_NONE (ev S (w_cursor w)))" using wheel_invD [OF inv] .
  obtain g l s where p: "id_parts tid = Some (w_wheel_id w, g, i)" and vi: "valid w i"
    and g: "e_generation (ent w i) = g" and ls: "l < LEVELS" "s < SLOTS" and i: "i \<in> set (S l s)"
    using live_index_D [OF wb li] .
  obtain w1 ys where u: "wheel_unlink i w = Some w1" and b1: "wbut {i} w1 (add_slot l s ys S) F"
    and ys: "ys = [] \<longleftrightarrow> e_prev (ent w i) = NIL \<and> e_next (ent w i) = NIL"
    and o1: "\<And>j. core (ent w1 j) = core (ent w j)" and c1: "w_cursor w1 = w_cursor w" "w_wheel_id w1 = w_wheel_id w"
      "w_next_event w1 = w_next_event w" "\<And>j. valid w1 j = valid w j"
    using wheel_unlink_ok [OF wb i ls] by metis
  define w2 where "w2 = put_entry i ((ent w1 i)\<lparr>e_deadline := d\<rparr>) w1"
  have b2: "wbut {i} w2 (add_slot l s ys S) F" unfolding w2_def by (rule wbut_transit [OF b1]) simp_all
  have e2: "ent w2 j = (if j = i then (ent w1 i)\<lparr>e_deadline := d\<rparr> else ent w1 j)" for j using vi c1(4) by (simp add: w2_def)
  have c2: "w_cursor w2 = w_cursor w" "w_wheel_id w2 = w_wheel_id w" "w_next_event w2 = w_next_event w" "\<And>j. valid w2 j = valid w j"
    using c1 by (simp_all add: w2_def)
  have k: "e_token (ent w2 i) = Some tok" "e_generation (ent w2 i) = g" using o1 [of i] tk g by (simp_all add: e2 core_eq)
  have "g \<noteq> 0" using slot_entry(3) [OF wb ls i] g by (simp add: filed_ok_def)
  let ?S = "add_slot l s ys S"
  obtain w3 l' s' where f: "wheel_file i d w2 = Some w3" and b3: "wbut ({i} - {i}) w3 (add_slot l' s' (i # ?S l' s') ?S) F"
    and ls': "l' < LEVELS" "s' < SLOTS" and d3: "e_deadline (ent w3 i) = d" "e_token (ent w3 i) = e_token (ent w2 i)"
      "e_generation (ent w3 i) = e_generation (ent w2 i)" and o3: "\<And>j. j \<noteq> i \<Longrightarrow> core (ent w3 j) = core (ent w2 j)"
    and c3: "w_cursor w3 = w_cursor w2" "w_wheel_id w3 = w_wheel_id w2" "\<And>j. valid w3 j = valid w2 j"
      "w_next_event w3 = min (w_next_event w2) (visit (w_cursor w2) l' s')"
    by (rule wheel_file_ok [OF b2, of i d]) (use fit c2 k \<open>g \<noteq> 0\<close> in auto)
  let ?re = "removes_earliest (ent w i) w"
  let ?w = "if ?re then refresh w3 else w3"
  have "reschedule_at tid d w = Some (?w, Inr ())"
    using fit li vi u c1(4) f by (simp add: reschedule_at_def fits_def deadline_fits_def w2_def [symmetric])
  moreover have "wheel_inv ?w"
  proof (rule wheel_invI)
    show "wbut {} ?w (add_slot l' s' (i # ?S l' s') ?S) F" using b3 by simp
    show "w_next_event ?w = Min (insert TICK_NONE (ev (add_slot l' s' (i # ?S l' s') ?S) (w_cursor ?w)))"
      using unlink_exact [OF wb ex i ls ys] refresh_exact [OF b3]
        Min_insert_second [of "ev ?S (w_cursor w)" TICK_NONE "visit (w_cursor w) l' s'"]
      unfolding ev_add [OF ls' list.distinct(2)] by (simp add: c2 c3)
  qed
  moreover have "timers ?w = (timers w)(tid \<mapsto> (d, tok))"
  proof (rule timers_upd [OF _ p])
    have tv: "tm ?w = tm w3" by (simp add: tm_def fun_eq_iff)
    show "tm ?w j = tm w j" if "j \<noteq> i" for j
      unfolding tv using that o3 [OF that] o1 [of j] e2 [of j] c2(4) c3(3) by (intro tm_other) simp_all
    show "tm ?w i = map_option (\<lambda>(d, t). (g, d, t)) (Some (d, tok))" unfolding tv using d3 k vi c2(4) c3(3) by (simp add: tm_def)
    show "g' = g" if "tm w i = Some (g', d', t)" for g' d' t using that g by (simp add: tm_def split: if_splits)
  qed (simp add: c2 c3)
  moreover have "gens ?w j = gens w j" for j
    using o1 [of j] o3 [of j] d3(3) e2 [of j] by (cases "j = i") (simp_all add: gens_def core_eq)
  ultimately show ?thesis using that [of ?w] c2 c3 by (simp add: fun_eq_iff)
qed

lemma reschedule_errors:
  "d > MAX_TICK \<Longrightarrow> reschedule_at tid d w = Some (w, Inl RTimeOutOfRange)"
  "d \<le> MAX_TICK \<Longrightarrow> \<not> fits (w_cursor w) d \<Longrightarrow> reschedule_at tid d w = Some (w, Inl RDeadlineTooFar)"
  "fits (w_cursor w) d \<Longrightarrow> timers w tid = None \<Longrightarrow> reschedule_at tid d w = Some (w, Inl RStaleId)"
  by (auto simp: reschedule_at_def fits_def deadline_fits_def timers_None)

end
