(* ===== verification/Wheel_Sweep.thy ===== *)
theory Wheel_Sweep
  imports Wheel_Props
begin

text \<open>
  Advancing the timer wheel: cascading redistributes the slots the cursor reaches, firing empties
  the slot of the current tick, and the sweep from event to event returns and fires exactly the
  timers that are due, in the order of their deadlines.
\<close>

section \<open>Moving the cursor\<close>

lemma wbut_cursor_bound: "wbut K w S F \<Longrightarrow> w_cursor w \<le> MAX_TICK"
  using wbutD(1) by (auto simp: shape_ok_def)

lemma ev_le_MAX: "wbut K w S F \<Longrightarrow> v \<in> ev S (w_cursor w) \<Longrightarrow> v \<le> MAX_TICK"
proof -
  assume wb: "wbut K w S F" and v: "v \<in> ev S (w_cursor w)"
  obtain l s where ls: "v = visit (w_cursor w) l s" "l < LEVELS" "s < SLOTS" "S l s \<noteq> []" using v by (auto simp: ev_def)
  let ?i = "hd (S l s)"
  have "?i \<in> set (S l s)" using ls(4) by simp
  note e = slot_entry [OF wb ls(2,3) this]
  show ?thesis using wakeup_in_time [OF e(6) wbut_cursor_bound [OF wb]] e(7) ls(1) by (simp add: fits_def)
qed

lemma fits_mono: "fits c d \<Longrightarrow> c \<le> c' \<Longrightarrow> fits c' d"
  by (auto simp: fits_def)

lemma visit_in_ev: "l < LEVELS \<Longrightarrow> s < SLOTS \<Longrightarrow> i \<in> set (S l s) \<Longrightarrow> visit c l s \<in> ev S c"
  by (force simp: ev_def)

lemma ev_shift:
  assumes "c \<le> c'" and "\<And>v. v \<in> ev S c \<Longrightarrow> c' \<le> v"
  shows "ev S c' = ev S c"
proof -
  have "visit c' l s = visit c l s" if "l < LEVELS" "s < SLOTS" "S l s \<noteq> []" for l s
    by (rule visit_shift [OF that(2) assms(1)]) (use assms(2) that in \<open>auto simp: ev_def\<close>)
  then have "x \<in> ev S c' \<longleftrightarrow> x \<in> ev S c" for x unfolding ev_def mem_Collect_eq by metis
  then show ?thesis by blast
qed

lemma wbut_cursor:
  assumes inv: "wbut {} w S F" and c: "w_cursor w \<le> c'" "c' \<le> MAX_TICK" and v: "\<And>v. v \<in> ev S (w_cursor w) \<Longrightarrow> c' \<le> v"
  shows "wbut {} (w\<lparr>w_cursor := c'\<rparr>) S F"
proof -
  note D = wbutD [OF inv]
  let ?w = "w\<lparr>w_cursor := c'\<rparr>"
  have same: "valid ?w = valid w" "ent ?w = ent w" "enext ?w = enext w" "eprev ?w = eprev w" "occ ?w = occ w" "head_of ?w = head_of w"
    by (simp_all add: valid_def ent_def enext_def eprev_def occ_def head_of_def fun_eq_iff)
  have "entry_ok c' (ent w i)" if vi: "valid w i" for i
  proof (cases "e_level (ent w i) < LEVELS")
    case True
    then have f: "filed_ok (w_cursor w) (ent w i)" using D(6) [OF vi] by (auto simp: entry_ok_def)
    let ?l = "e_level (ent w i)" and ?s = "e_slot (ent w i)"
    have t: "in_time (w_cursor w) ?l ?s (e_deadline (ent w i))" using f by (simp add: filed_ok_def)
    then have "?s < SLOTS" by (simp add: in_time_def)
    then have "i \<in> set (S ?l ?s)" using slot_mem [OF inv True] vi by simp
    then have "c' \<le> visit (w_cursor w) ?l ?s" using v visit_in_ev True \<open>?s < SLOTS\<close> by blast
    then have "in_time c' ?l ?s (e_deadline (ent w i))" using in_time_shift(1) [OF t c(1)] by simp
    then show ?thesis using f fits_mono [OF _ c(1)] by (auto simp: entry_ok_def filed_ok_def)
  qed (use D(6) [OF vi] in \<open>auto simp: entry_ok_def filed_ok_def\<close>)
  moreover have "slot_rep {} ?w l s xs = slot_rep {} w l s xs" for l s xs by (simp add: slot_rep_def same)
  moreover have "shape_ok ?w" using D(1) c(2) by (simp add: shape_ok_def)
  ultimately show ?thesis using D unfolding wbut_def same by simp
qed

section \<open>Cascading\<close>

text \<open>Entries in the levels from \<open>m\<close> upward are not visited at the current tick.\<close>

definition clear :: "nat \<Rightarrow> u32 set \<Rightarrow> 't wheel \<Rightarrow> bool" where
  "clear m K w \<longleftrightarrow> (\<forall>i. valid w i \<and> i \<notin> K \<and> m \<le> e_level (ent w i) \<and> e_level (ent w i) < LEVELS \<longrightarrow>
     w_cursor w < visit (w_cursor w) (e_level (ent w i)) (e_slot (ent w i)))"

lemma refile_ok:
  assumes "wbut K w S F" and "chain (enext w) (ptr i) xs" and "set xs \<subseteq> K" and "0 < m" and "clear m K w"
    and "\<And>j. j \<in> set xs \<Longrightarrow> fits (w_cursor w) (e_deadline (ent w j)) \<and> e_token (ent w j) \<noteq> None \<and> e_generation (ent w j) \<noteq> 0"
  shows "\<exists>w' S'. refile i w = Some w' \<and> wbut (K - set xs) w' S' F \<and> tm w' = tm w \<and> clear m (K - set xs) w' \<and>
    w_cursor w' = w_cursor w \<and> w_wheel_id w' = w_wheel_id w \<and> gens w' = gens w"
  using assms
proof (induction xs arbitrary: i w K S)
  case Nil
  then show ?case by (auto simp: refile.simps [of i] ptr_def split: if_splits)
next
  case (Cons x xs)
  have ix: "i = x" "i \<noteq> NIL" and ch: "chain (enext w) (enext w x) xs" using Cons.prems(2) by (auto simp: ptr_def split: if_splits)
  have dx: "x \<notin> set xs" using chain_distinct [OF Cons.prems(2)] by simp
  have xK: "x \<in> K" and vx: "valid w x" using Cons.prems(3) wbutD(2) [OF Cons.prems(1)] by auto
  let ?d = "e_deadline (ent w x)"
  obtain w1 l s where f: "wheel_file x ?d w = Some w1" and b: "wbut (K - {x}) w1 (add_slot l s (x # S l s) S) F"
    and ls: "0 < l \<Longrightarrow> w_cursor w < visit (w_cursor w) l s" and d1: "e_deadline (ent w1 x) = ?d"
    "e_token (ent w1 x) = e_token (ent w x)" "e_generation (ent w1 x) = e_generation (ent w x)" "e_level (ent w1 x) = l" "e_slot (ent w1 x) = s"
    and o1: "\<And>j. j \<noteq> x \<Longrightarrow> core (ent w1 j) = core (ent w j)" "\<And>j. j \<noteq> x \<Longrightarrow> enext w1 j = enext w j"
    and c1: "w_cursor w1 = w_cursor w" "w_wheel_id w1 = w_wheel_id w" "\<And>j. valid w1 j = valid w j"
    by (rule wheel_file_ok [OF Cons.prems(1) xK, of ?d]) (use Cons.prems(6) in auto)
  have g1: "gens w1 j = gens w j" for j by (cases "j = x") (use d1 o1(1) in \<open>auto simp: gens_def core_eq\<close>)
  have t1: "tm w1 j = tm w j" for j by (cases "j = x") (use d1 c1 o1(1) in \<open>auto simp: tm_def core_eq\<close>)
  have "\<And>y. y \<in> set xs \<Longrightarrow> enext w1 y = enext w y" using o1(2) dx by metis
  then have ch1: "chain (enext w1) (enext w x) xs" using ch chain_cong by metis
  have "\<exists>w' S'. refile (e_next (ent w x)) w1 = Some w' \<and> wbut (K - {x} - set xs) w' S' F \<and> tm w' = tm w1 \<and>
      clear m (K - {x} - set xs) w' \<and> w_cursor w' = w_cursor w1 \<and> w_wheel_id w' = w_wheel_id w1 \<and> gens w' = gens w1"
  proof (rule Cons.IH [OF b])
    show "chain (enext w1) (ptr (e_next (ent w x))) xs"
      using ch1 by (simp add: enext_def)
    show "clear m (K - {x}) w1" unfolding clear_def
    proof (intro allI impI)
      fix j assume j: "valid w1 j \<and> j \<notin> K - {x} \<and> m \<le> e_level (ent w1 j) \<and> e_level (ent w1 j) < LEVELS"
      show "w_cursor w1 < visit (w_cursor w1) (e_level (ent w1 j)) (e_slot (ent w1 j))"
      proof (cases "j = x")
        case True
        then show ?thesis using ls d1 c1 j Cons.prems(4) by simp
      next
        case False
        then show ?thesis using o1(1) [OF False] j Cons.prems(5) c1 by (auto simp: clear_def core_eq)
      qed
    qed
    show "fits (w_cursor w1) (e_deadline (ent w1 j)) \<and> e_token (ent w1 j) \<noteq> None \<and> e_generation (ent w1 j) \<noteq> 0" if "j \<in> set xs" for j
    proof -
      have "j \<noteq> x" using that dx by blast
      then show ?thesis using o1(1) [of j] Cons.prems(6) [of j] that c1 by (simp add: core_eq)
    qed
  qed (use Cons.prems dx in auto)
  moreover have "K - {x} - set xs = K - set (x # xs)" by auto
  moreover have "refile i w = refile (e_next (ent w x)) w1" unfolding refile.simps [of i] using ix vx f by simp
  ultimately show ?case using c1 t1 g1 by (auto simp: fun_eq_iff)
qed

lemma cascade_level_ok:
  assumes inv: "wbut {} w S F" and l: "0 < l" "l < LEVELS" and cl: "clear (Suc l) {} w"
  shows "\<exists>w' S'. cascade_level l w = Some w' \<and> wbut {} w' S' F \<and> tm w' = tm w \<and> clear l {} w' \<and>
    w_cursor w' = w_cursor w \<and> w_wheel_id w' = w_wheel_id w \<and> gens w' = gens w"
proof -
  define s where "s = w_cursor w div 2 ^ (l * SLOT_BITS) mod SLOTS"
  have s: "s < SLOTS" "s = w_cursor w div width l mod SLOTS" by (simp_all add: s_def width_def)
  obtain w1 i where tk: "wheel_take l s w = (w1, i)" by (cases "wheel_take l s w")
  note t = wheel_take_ok [OF inv l(2) s(1) tk]
  have rest: "w_cursor w < visit (w_cursor w) l (e_slot (ent w j))" if "valid w j" "j \<notin> set (S l s)" "e_level (ent w j) = l" for j
  proof -
    have f: "filed_ok (w_cursor w) (ent w j)"
      using wbutD(6) [OF inv that(1)] that(3) l(2) by (auto simp: entry_ok_def FREE_LEVEL_def RETIRED_LEVEL_def)
    then have sl: "e_slot (ent w j) < SLOTS" by (simp add: filed_ok_def in_time_def)
    have "e_slot (ent w j) \<noteq> s" using that slot_mem [OF inv l(2) s(1)] by auto
    then have "visit (w_cursor w) l (e_slot (ent w j)) \<noteq> w_cursor w" using visit_now [OF sl] s(2) by metis
    with visit_ge show ?thesis by (metis le_neq_implies_less)
  qed
  have cl1: "clear l (set (S l s)) w1" unfolding clear_def
  proof (intro allI impI)
    fix j assume j: "valid w1 j \<and> j \<notin> set (S l s) \<and> l \<le> e_level (ent w1 j) \<and> e_level (ent w1 j) < LEVELS"
    show "w_cursor w1 < visit (w_cursor w1) (e_level (ent w1 j)) (e_slot (ent w1 j))"
      using j rest [of j] cl t(3,5,6) by (cases "e_level (ent w j) = l") (auto simp: clear_def)
  qed
  show ?thesis
  proof (cases "occupied_at w l s")
    case True
    have "\<exists>w' S'. refile i w1 = Some w' \<and> wbut ({} \<union> set (S l s) - set (S l s)) w' S' F \<and> tm w' = tm w1 \<and>
        clear l ({} \<union> set (S l s) - set (S l s)) w' \<and> w_cursor w' = w_cursor w1 \<and> w_wheel_id w' = w_wheel_id w1 \<and> gens w' = gens w1"
    proof (rule refile_ok [OF t(1,2) _ l(1)])
      show "fits (w_cursor w1) (e_deadline (ent w1 j)) \<and> e_token (ent w1 j) \<noteq> None \<and> e_generation (ent w1 j) \<noteq> 0" if "j \<in> set (S l s)" for j
        using slot_entry(3) [OF inv l(2) s(1) that] t(3,5) by (auto simp: filed_ok_def)
    qed (use cl1 in auto)
    moreover have "cascade_level l w = refile i w1" using True tk by (simp add: cascade_level_def Let_def s_def)
    moreover have "tm w1 = tm w" "gens w1 = gens w" using t(5,6) by (simp_all add: tm_def gens_def fun_eq_iff)
    ultimately show ?thesis using t(3,4) by auto
  next
    case False
    then have "S l s = []" using wbutD(3) [OF inv l(2) s(1)] by (simp add: slot_rep_def occupied_at_occ s)
    then have "clear l {} w" using cl1 t(3,5,6) by (simp add: clear_def)
    moreover have "cascade_level l w = Some w" using False by (simp add: cascade_level_def Let_def s_def)
    ultimately show ?thesis using inv by auto
  qed
qed

lemma cascade_ok:
  assumes inv: "wbut {} w S F"
  shows "\<exists>w' S'. cascade w = Some w' \<and> wbut {} w' S' F \<and> tm w' = tm w \<and> clear 1 {} w' \<and>
    w_cursor w' = w_cursor w \<and> w_wheel_id w' = w_wheel_id w \<and> gens w' = gens w"
proof -
  have "\<exists>w' S'. cascade_levels (rev [1..<n]) w = Some w' \<and> wbut {} w' S' F \<and> tm w' = tm w \<and> clear 1 {} w' \<and>
      w_cursor w' = w_cursor w \<and> w_wheel_id w' = w_wheel_id w \<and> gens w' = gens w"
    if "wbut {} w S F" "1 \<le> n" "n \<le> LEVELS" "clear n {} w" for n and w :: "'a wheel" and S
    using that(2,1,3,4)
  proof (induction n arbitrary: w S rule: dec_induct)
    case base
    then show ?case by auto
  next
    case (step n)
    obtain w1 S1 where 1: "cascade_level n w = Some w1" "wbut {} w1 S1 F" "tm w1 = tm w" "clear n {} w1"
      "w_cursor w1 = w_cursor w" "w_wheel_id w1 = w_wheel_id w" "gens w1 = gens w"
      using cascade_level_ok [OF step.prems(1), of n] step by auto
    then show ?case using step.IH [OF 1(2) _ 1(4)] step.hyps step.prems(2) by auto
  qed
  from this [of w S 8] inv show ?thesis by (simp add: cascade_def clear_def)
qed

section \<open>Firing\<close>

definition tok_of :: "'t wheel \<Rightarrow> u32 \<Rightarrow> 't" where
  "tok_of w j = the (e_token (ent w j))"

lemma fire_list_ok:
  assumes "wbut K w S F" and "chain (enext w) (ptr i) xs" and "set xs \<subseteq> K"
    and "\<And>j. j \<in> set xs \<Longrightarrow> e_deadline (ent w j) \<le> w_cursor w \<and> e_token (ent w j) \<noteq> None"
  shows "\<exists>w' F'. fire_list i out w = Some (w', out @ map (tok_of w) xs) \<and> wbut (K - set xs) w' S F' \<and>
    (\<forall>j. j \<notin> set xs \<longrightarrow> ent w' j = ent w j) \<and> (\<forall>j\<in>set xs. e_token (ent w' j) = None) \<and>
    w_cursor w' = w_cursor w \<and> w_wheel_id w' = w_wheel_id w \<and> (\<forall>j. valid w' j = valid w j) \<and> gens w' = gens w"
  using assms
proof (induction xs arbitrary: i w K F out)
  case Nil
  then show ?case by (auto simp: fire_list.simps [of i] ptr_def split: if_splits)
next
  case (Cons x xs)
  have ix: "i = x" "i \<noteq> NIL" and ch: "chain (enext w) (enext w x) xs" using Cons.prems(2) by (auto simp: ptr_def split: if_splits)
  have dx: "x \<notin> set xs" using chain_distinct [OF Cons.prems(2)] by simp
  have xK: "x \<in> K" and vx: "valid w x" using Cons.prems(3) wbutD(2) [OF Cons.prems(1)] by auto
  define w1 where "w1 = put_entry x ((ent w x)\<lparr>e_token := None\<rparr>) w"
  have b1: "wbut K w1 S F" unfolding w1_def by (rule wbut_transit [OF Cons.prems(1) xK]) simp_all
  have e1: "ent w1 j = (if j = x then (ent w x)\<lparr>e_token := None\<rparr> else ent w j)" for j using vx by (simp add: w1_def)
  have c1: "w_cursor w1 = w_cursor w" "w_wheel_id w1 = w_wheel_id w" "\<And>j. valid w1 j = valid w j" by (simp_all add: w1_def)
  have "e_token (ent w1 x) = None" by (simp add: e1)
  then obtain w2 F2 where r: "wheel_release x w1 = Some w2" and b2: "wbut (K - {x}) w2 S F2" and c2: "w_cursor w2 = w_cursor w1"
    "w_wheel_id w2 = w_wheel_id w1" "\<And>j. valid w2 j = valid w1 j"
    and o2: "\<And>j. j \<noteq> x \<Longrightarrow> ent w2 j = ent w1 j" "e_token (ent w2 x) = None" "e_generation (ent w2 x) = e_generation (ent w1 x)"
    using wheel_release_ok [OF b1 xK] by metis
  have same: "ent w2 y = ent w y" if "y \<in> set xs" for y using that dx o2(1) [of y] e1 [of y] by (cases "y = x") auto
  then have "\<And>y. y \<in> set xs \<Longrightarrow> enext w2 y = enext w y" by (simp add: enext_def)
  then have ch2: "chain (enext w2) (ptr (e_next (ent w x))) xs" using ch chain_cong [of xs "enext w2"] by (metis enext_def)
  have due: "e_deadline (ent w2 j) \<le> w_cursor w2 \<and> e_token (ent w2 j) \<noteq> None" if "j \<in> set xs" for j
    using same [OF that] Cons.prems(4) [of j] that c1 c2 by simp
  obtain w' F' where h: "fire_list (e_next (ent w x)) (out @ [tok_of w x]) w2 = Some (w', (out @ [tok_of w x]) @ map (tok_of w2) xs)"
    "wbut (K - {x} - set xs) w' S F'" "\<forall>j. j \<notin> set xs \<longrightarrow> ent w' j = ent w2 j" "\<forall>j\<in>set xs. e_token (ent w' j) = None"
    "w_cursor w' = w_cursor w2" "w_wheel_id w' = w_wheel_id w2" "\<forall>j. valid w' j = valid w2 j" "gens w' = gens w2"
    using Cons.IH [OF b2 ch2 _ due, of "out @ [tok_of w x]"] Cons.prems(3) dx by fastforce
  have "gens w2 j = gens w j" for j using o2(1) [of j] o2(3) e1 [of j] by (cases "j = x") (simp_all add: gens_def)
  then have "gens w2 = gens w" by (simp add: fun_eq_iff)
  moreover have "map (tok_of w2) xs = map (tok_of w) xs" using same by (simp add: tok_of_def)
  moreover have "K - {x} - set xs = K - set (x # xs)" by auto
  moreover have "fire_list i out w = fire_list (e_next (ent w x)) (out @ [tok_of w x]) w2"
    unfolding fire_list.simps [of i] using ix vx r Cons.prems(4) [of x] by (auto simp: w1_def tok_of_def)
  moreover have "ent w' j = ent w j" if "j \<notin> set (x # xs)" for j using that h(3) o2(1) [of j] e1 [of j] by simp
  moreover have "e_token (ent w' j) = None" if "j \<in> set (x # xs)" for j using that h(3,4) o2(2) dx by auto
  ultimately show ?case using h c1 c2 by auto
qed

text \<open>After cascading, the slot of the current tick holds exactly what is due.\<close>

lemma visit_due: "visit c 0 (c mod SLOTS) = c"
  by (simp add: visit_def)

lemma due_slot:
  assumes inv: "wbut {} w S F" and cl: "clear 1 {} w" and tm: "tm w j = Some (g, d, t)"
  shows "d \<le> w_cursor w \<longleftrightarrow> j \<in> set (S 0 (w_cursor w mod SLOTS))"
proof -
  have v: "valid w j" "e_token (ent w j) = Some t" "e_deadline (ent w j) = d" using tm by (auto simp: tm_def split: if_splits)
  obtain l s where ls: "l < LEVELS" "s < SLOTS" "j \<in> set (S l s)" using live_slot [OF inv v(1)] v(2) by auto
  note e = slot_entry [OF inv ls]
  have t: "in_time (w_cursor w) l s d" using e(6) v(3) by simp
  show ?thesis
  proof
    assume "d \<le> w_cursor w"
    then have vis: "visit (w_cursor w) l s = w_cursor w" using t visit_ge [of "w_cursor w" l s] by (simp add: in_time_def)
    then have "l = 0" using cl e(1,4,5) ls(1) unfolding clear_def by fastforce
    then show "j \<in> set (S 0 (w_cursor w mod SLOTS))" using visit_now [OF ls(2) vis] ls(3) by simp
  next
    assume j: "j \<in> set (S 0 (w_cursor w mod SLOTS))"
    have "in_time (w_cursor w) 0 (w_cursor w mod SLOTS) d" using slot_entry(6) [OF inv _ _ j] v(3) by simp
    then show "d \<le> w_cursor w" by (simp add: in_time_def visit_due)
  qed
qed

lemma fire_ok:
  assumes inv: "wbut {} w S F" and cl: "clear 1 {} w"
  shows "\<exists>w' S' F' xs. fire out w = Some (w', out @ map (tok_of w) xs) \<and> wbut {} w' S' F' \<and> distinct xs \<and>
    set xs = {j. \<exists>g d t. tm w j = Some (g, d, t) \<and> d \<le> w_cursor w} \<and>
    tm w' = tm w |` (- set xs) \<and> (\<forall>v\<in>ev S' (w_cursor w). w_cursor w < v) \<and>
    w_cursor w' = w_cursor w \<and> w_wheel_id w' = w_wheel_id w \<and> gens w' = gens w"
proof -
  define s where "s = w_cursor w mod SLOTS"
  have l: "(0 :: nat) < LEVELS" and s: "s < SLOTS" by (simp_all add: s_def)
  obtain w1 i where tk: "wheel_take 0 s w = (w1, i)" by (cases "wheel_take 0 s w")
  note t = wheel_take_ok [OF inv l s tk]
  let ?xs = "S 0 s"
  have mem: "valid w j \<and> e_token (ent w j) \<noteq> None" if "j \<in> set ?xs" for j using slot_entry(1,3) [OF inv l s that] by (simp add: filed_ok_def)
  have due: "set ?xs = {j. \<exists>g d t. tm w j = Some (g, d, t) \<and> d \<le> w_cursor w}" (is "_ = ?D")
  proof (intro set_eqI iffI)
    fix j assume j: "j \<in> set ?xs"
    obtain g d t where "tm w j = Some (g, d, t)" using mem [OF j] by (auto simp: tm_def)
    then show "j \<in> ?D" using due_slot [OF inv cl] j by (auto simp: s_def)
  next
    fix j assume "j \<in> ?D"
    then show "j \<in> set ?xs" using due_slot [OF inv cl] by (auto simp: s_def)
  qed
  have ds: "distinct ?xs" using t(2) by (rule chain_distinct)
  have later: "w_cursor w < v" if ve: "v \<in> ev (add_slot 0 s [] S) (w_cursor w)" for v
  proof -
    obtain l' s' where v: "v = visit (w_cursor w) l' s'" "l' < LEVELS" "s' < SLOTS" "add_slot 0 s [] S l' s' \<noteq> []" using ve by (auto simp: ev_def)
    then have S': "S l' s' \<noteq> []" and ne: "\<not> (l' = 0 \<and> s' = s)" by (auto simp: add_slot_def split: if_splits)
    then have j: "hd (S l' s') \<in> set (S l' s')" by simp
    have "visit (w_cursor w) l' s' \<noteq> w_cursor w"
    proof
      assume vis: "visit (w_cursor w) l' s' = w_cursor w"
      then have "l' = 0" using cl slot_entry(1,4,5) [OF inv v(2,3) j] v(2) unfolding clear_def by fastforce
      then show False using ne visit_now [OF v(3) vis] by (simp add: s_def)
    qed
    then show ?thesis using v(1) visit_ge [of "w_cursor w" l' s'] by simp
  qed
  show ?thesis
  proof (cases "occupied_at w 0 s")
    case True
    have dl: "e_deadline (ent w1 j) \<le> w_cursor w1 \<and> e_token (ent w1 j) \<noteq> None" if "j \<in> set ?xs" for j
      using that mem [OF that] due t(3,5) by (auto simp: tm_def split: if_splits)
    obtain w' F' where h: "fire_list i out w1 = Some (w', out @ map (tok_of w1) ?xs)" "wbut ({} \<union> set ?xs - set ?xs) w' (add_slot 0 s [] S) F'"
      "\<forall>j. j \<notin> set ?xs \<longrightarrow> ent w' j = ent w1 j" "\<forall>j\<in>set ?xs. e_token (ent w' j) = None" "w_cursor w' = w_cursor w1" "w_wheel_id w' = w_wheel_id w1"
      "\<forall>j. valid w' j = valid w1 j" "gens w' = gens w1"
      using fire_list_ok [OF t(1,2) _ dl, of out] by fastforce
    have tm': "tm w' = tm w |` (- set ?xs)" using h(3,4,7) t(5,6) by (auto simp: tm_def restrict_map_def fun_eq_iff)
    have "tok_of w1 = tok_of w" "gens w1 = gens w" using t(5) by (simp_all add: tok_of_def gens_def fun_eq_iff)
    then have "fire out w = Some (w', out @ map (tok_of w) ?xs)" using True h(1) tk by (simp add: fire_def Let_def s_def)
    moreover have "wbut {} w' (add_slot 0 s [] S) F'" using h(2) by simp
    ultimately show ?thesis using h(5,6,8) \<open>gens w1 = gens w\<close> t(3,4) due ds tm' later
      by (intro exI [of _ w'] exI [of _ "add_slot 0 s [] S"] exI [of _ F'] exI [of _ ?xs] conjI ballI) simp_all
  next
    case False
    then have e: "?xs = []" using wbutD(3) [OF inv l s] by (simp add: slot_rep_def occupied_at_occ s)
    then have "add_slot 0 s [] S = S" by (auto simp: add_slot_def fun_eq_iff)
    moreover have "fire out w = Some (w, out @ map (tok_of w) [])" using False by (simp add: fire_def Let_def s_def)
    moreover have "tm w = tm w |` (- set [])" by (simp add: restrict_map_def fun_eq_iff)
    ultimately show ?thesis using inv due later e
      by (intro exI [of _ w] exI [of _ S] exI [of _ F] exI [of _ "[]"] conjI ballI) simp_all
  qed
qed

section \<open>The sweep\<close>

definition due :: "'t wheel \<Rightarrow> tick \<Rightarrow> u32 set" where
  "due w target = {j. \<exists>g d t. tm w j = Some (g, d, t) \<and> d \<le> target}"

definition dl_of :: "'t wheel \<Rightarrow> u32 \<Rightarrow> tick" where
  "dl_of w j = e_deadline (ent w j)"

lemma tm_fields: "tm w j = Some (g, d, t) \<Longrightarrow> tok_of w j = t \<and> dl_of w j = d"
  by (auto simp: tm_def tok_of_def dl_of_def split: if_splits)

text \<open>A live timer's slot is visited no later than its deadline, or now.\<close>

lemma live_visit:
  assumes "wbut {} w S F" and "tm w j = Some (g, d, t)"
  obtains v where "v \<in> ev S (w_cursor w)" "v \<le> max d (w_cursor w)"
proof -
  have v: "valid w j" "e_token (ent w j) = Some t" "e_deadline (ent w j) = d" using assms(2) by (auto simp: tm_def split: if_splits)
  obtain l s where ls: "l < LEVELS" "s < SLOTS" "j \<in> set (S l s)" using live_slot [OF assms(1) v(1)] v(2) by auto
  show ?thesis using that visit_in_ev [OF ls(1,2), where S = S, OF ls(3)] slot_entry(6) [OF assms(1) ls] v(3) by (auto simp: in_time_def)
qed

lemma Min_event:
  assumes "wbut K w S F" and "e = Min (insert TICK_NONE (ev S (w_cursor w)))" and "v \<in> ev S (w_cursor w)"
  shows "e \<le> v" "e \<noteq> TICK_NONE"
proof -
  show le: "e \<le> v" using assms(2,3) by simp
  show "e \<noteq> TICK_NONE" using le ev_le_MAX [OF assms(1,3)] by (simp add: MAX_TICK_def TICK_NONE_def)
qed

text \<open>Moving the cursor short of every event fires nothing, and nothing is due.\<close>

lemma advance_idle:
  assumes inv: "wbut {} w S F" and ex: "w_next_event w = Min (insert TICK_NONE (ev S (w_cursor w)))"
    and t: "w_cursor w \<le> target" "target \<le> MAX_TICK" and e: "w_next_event w = TICK_NONE \<or> target < w_next_event w"
  shows "wheel_inv (w\<lparr>w_cursor := target\<rparr>)" "due w target = {}" "tm (w\<lparr>w_cursor := target\<rparr>) = tm w"
proof -
  have later: "target < v" if "v \<in> ev S (w_cursor w)" for v using Min_event [OF inv ex that] e by linarith
  then have le: "target \<le> v" if "v \<in> ev S (w_cursor w)" for v using that by (simp add: less_imp_le)
  show "wheel_inv (w\<lparr>w_cursor := target\<rparr>)"
    by (rule wheel_invI [OF wbut_cursor [OF inv t le]]) (simp_all add: ex ev_shift [OF t(1) le])
  show "due w target = {}"
  proof (rule ccontr)
    assume "due w target \<noteq> {}"
    then obtain j g d tok where j: "tm w j = Some (g, d, tok)" "d \<le> target" by (auto simp: due_def)
    obtain v where v: "v \<in> ev S (w_cursor w)" "v \<le> max d (w_cursor w)" using live_visit [OF inv j(1)] .
    then show False using later [OF v(1)] j(2) t(1) by simp
  qed
  show "tm (w\<lparr>w_cursor := target\<rparr>) = tm w" by (simp add: tm_def valid_def ent_def fun_eq_iff)
qed

definition swept :: "tick \<Rightarrow> 't wheel \<Rightarrow> u32 list \<Rightarrow> 't wheel \<Rightarrow> bool" where
  "swept target w xs w' \<longleftrightarrow> wheel_inv w' \<and> w_cursor w' = target \<and> w_wheel_id w' = w_wheel_id w \<and> gens w' = gens w \<and> distinct xs \<and>
     set xs = due w target \<and> tm w' = tm w |` (- set xs) \<and> sorted (map (\<lambda>j. max (dl_of w j) (w_cursor w)) xs)"

lemma swept_idle:
  assumes "wbut {} w S F" and "w_next_event w = Min (insert TICK_NONE (ev S (w_cursor w)))"
    and "w_cursor w \<le> target" "target \<le> MAX_TICK" and "w_next_event w = TICK_NONE \<or> target < w_next_event w"
  shows "swept target w [] (w\<lparr>w_cursor := target\<rparr>)"
  using advance_idle [OF assms] by (simp add: swept_def restrict_map_def fun_eq_iff gens_def ent_def)

text \<open>One event of the sweep: everything due at the event is fired, nothing else.\<close>

lemma event_ok:
  assumes inv: "wbut {} w S F" and ex: "w_next_event w = Min (insert TICK_NONE (ev S (w_cursor w)))"
    and e: "event = w_next_event w" "event \<noteq> TICK_NONE"
  shows "w_cursor w \<le> event" "\<exists>w1 w2 S2 F2 xs. cascade (w\<lparr>w_cursor := event\<rparr>) = Some w1 \<and>
    fire out w1 = Some (w2, out @ map (tok_of w) xs) \<and> wbut {} w2 S2 F2 \<and> distinct xs \<and> set xs = due w event \<and>
    tm w2 = tm w |` (- set xs) \<and> (\<forall>v\<in>ev S2 event. event < v) \<and> w_cursor w2 = event \<and> w_wheel_id w2 = w_wheel_id w \<and> gens w2 = gens w"
proof -
  have mem: "event \<in> ev S (w_cursor w)" using Min_in [of "insert TICK_NONE (ev S (w_cursor w))"] e ex by auto
  then show ce: "w_cursor w \<le> event" using visit_ge by (auto simp: ev_def)
  have le: "event \<le> v" if "v \<in> ev S (w_cursor w)" for v using Min_event(1) [OF inv ex that] e by simp
  let ?w = "w\<lparr>w_cursor := event\<rparr>"
  have b: "wbut {} ?w S F" by (rule wbut_cursor [OF inv ce ev_le_MAX [OF inv mem] le])
  have t0: "tm ?w = tm w" "gens ?w = gens w" by (simp_all add: tm_def gens_def valid_def ent_def fun_eq_iff)
  obtain w1 S1 where 1: "cascade ?w = Some w1" "wbut {} w1 S1 F" "tm w1 = tm ?w" "clear 1 {} w1" "w_cursor w1 = event" "w_wheel_id w1 = w_wheel_id w" "gens w1 = gens ?w"
    using cascade_ok [OF b] by auto
  obtain w2 S2 F2 xs where 2: "fire out w1 = Some (w2, out @ map (tok_of w1) xs)" "wbut {} w2 S2 F2" "distinct xs"
    "set xs = {j. \<exists>g d t. tm w1 j = Some (g, d, t) \<and> d \<le> w_cursor w1}" "tm w2 = tm w1 |` (- set xs)"
    "\<forall>v\<in>ev S2 (w_cursor w1). w_cursor w1 < v" "w_cursor w2 = w_cursor w1" "w_wheel_id w2 = w_wheel_id w1" "gens w2 = gens w1"
    using fire_ok [OF 1(2,4), of out] by (elim exE conjE)
  have d: "set xs = due w event" using 2(4) 1(3,5) t0 by (simp add: due_def)
  have "tok_of w1 j = tok_of w j" if "j \<in> set xs" for j
  proof -
    obtain g dl t where "tm w j = Some (g, dl, t)" using \<open>j \<in> set xs\<close> d by (auto simp: due_def)
    then show ?thesis using tm_fields [of w j] tm_fields [of w1 j] 1(3) t0 by simp
  qed
  then have "map (tok_of w1) xs = map (tok_of w) xs" by simp
  then show "\<exists>w1 w2 S2 F2 xs. cascade ?w = Some w1 \<and>
    fire out w1 = Some (w2, out @ map (tok_of w) xs) \<and> wbut {} w2 S2 F2 \<and> distinct xs \<and> set xs = due w event \<and>
    tm w2 = tm w |` (- set xs) \<and> (\<forall>v\<in>ev S2 event. event < v) \<and> w_cursor w2 = event \<and> w_wheel_id w2 = w_wheel_id w \<and> gens w2 = gens w"
    using 1(1,3,5,6,7) 2 t0 d by (intro exI [of _ w1] exI [of _ w2] exI [of _ S2] exI [of _ F2] exI [of _ xs] conjI) simp_all
qed

lemma due_max:
  assumes "wbut {} w S F" and "w_next_event w = Min (insert TICK_NONE (ev S (w_cursor w)))"
    and "event = w_next_event w" "w_cursor w \<le> event" and "j \<in> due w event"
  shows "max (dl_of w j) (w_cursor w) = event"
proof -
  obtain g d t where j: "tm w j = Some (g, d, t)" "d \<le> event" using assms(5) by (auto simp: due_def)
  obtain v where v: "v \<in> ev S (w_cursor w)" "v \<le> max d (w_cursor w)" using live_visit [OF assms(1) j(1)] .
  have "event \<le> v" using Min_event(1) [OF assms(1,2) v(1)] assms(3) by simp
  then show ?thesis using v(2) j(2) assms(4) tm_fields [OF j(1)] by simp
qed

text \<open>Two sweeps in a row are one sweep.\<close>

lemma swept_step:
  assumes xs: "distinct xs" "set xs = due w event" "tm w2 = tm w |` (- set xs)" "w_cursor w2 = event" "w_wheel_id w2 = w_wheel_id w" "gens w2 = gens w"
    and mx: "\<And>j. j \<in> due w event \<Longrightarrow> max (dl_of w j) (w_cursor w) = event" and ce: "w_cursor w \<le> event" "event \<le> target"
    and ys: "swept target w2 ys w'"
  shows "swept target w (xs @ ys) w'" "map (tok_of w2) ys = map (tok_of w) ys"
proof -
  have y: "set ys = due w2 target" and disj: "set xs \<inter> set ys = {}"
    using ys xs(3) by (auto simp: swept_def due_def restrict_map_def split: if_splits)
  have dy: "\<exists>g d t. tm w2 j = Some (g, d, t) \<and> tm w j = Some (g, d, t) \<and> event < d" if jy: "j \<in> set ys" for j
  proof -
    obtain g d t where j: "tm w2 j = Some (g, d, t)" using jy y by (auto simp: due_def)
    then have "tm w j = Some (g, d, t)" "j \<notin> set xs" using xs(3) by (auto simp: restrict_map_def split: if_splits)
    then show ?thesis using j xs(2) by (fastforce simp: due_def)
  qed
  have f: "tok_of w2 j = tok_of w j \<and> dl_of w2 j = dl_of w j \<and> event < dl_of w j" if "j \<in> set ys" for j
    using dy [OF that] tm_fields [of w j] tm_fields [of w2 j] by auto
  then show "map (tok_of w2) ys = map (tok_of w) ys" by simp
  have my: "max (dl_of w2 j) (w_cursor w2) = max (dl_of w j) (w_cursor w) \<and> event < max (dl_of w j) (w_cursor w)" if "j \<in> set ys" for j
    using f [OF that] xs(4) ce(1) by auto
  have "sorted (map (\<lambda>j. max (dl_of w2 j) (w_cursor w2)) ys)" using ys by (simp add: swept_def)
  moreover have "map (\<lambda>j. max (dl_of w2 j) (w_cursor w2)) ys = map (\<lambda>j. max (dl_of w j) (w_cursor w)) ys" using my by simp
  moreover have "sorted (map (\<lambda>j. max (dl_of w j) (w_cursor w)) xs)"
    using mx xs(2) by (subst map_cong [OF refl, of _ _ "\<lambda>_. event"]) (auto simp: sorted_iff_nth_mono)
  ultimately have so: "sorted (map (\<lambda>j. max (dl_of w j) (w_cursor w)) (xs @ ys))"
    using mx xs(2) my by (auto simp: sorted_append less_imp_le)
  have "set (xs @ ys) = due w target"
    using xs(2,3) y ce(2) by (auto simp: due_def restrict_map_def split: if_splits)
  moreover have "tm w' = tm w |` (- set (xs @ ys))" using ys xs(3) by (auto simp: swept_def restrict_map_def fun_eq_iff)
  ultimately show "swept target w (xs @ ys) w'" using ys xs(1,5,6) disj so by (simp add: swept_def)
qed

lemma advance_loop_ok:
  assumes "wbut {} w S F" and "w_next_event w = Min (insert TICK_NONE (ev S (w_cursor w)))"
    and "w_cursor w \<le> target" and "target \<le> MAX_TICK"
  shows "\<exists>w' xs. advance_loop target out w = Some (w', out @ map (tok_of w) xs) \<and> swept target w xs w'"
  using assms
proof (induction "Suc target - w_next_event w" arbitrary: w S F out rule: less_induct)
  case less
  note [simp] = Let_def
  show ?case
  proof (cases "w_next_event w = TICK_NONE \<or> target < w_next_event w")
    case True
    then have "advance_loop target out w = Some (w\<lparr>w_cursor := target\<rparr>, out @ map (tok_of w) [])"
      by (subst advance_loop.simps) auto
    then show ?thesis using swept_idle [OF less.prems True] by blast
  next
    case False
    define event where "event = w_next_event w"
    have et: "event \<le> target" "event \<noteq> TICK_NONE" using False by (auto simp: event_def)
    note ev = event_ok(1) [OF less.prems(1,2) event_def et(2)] event_ok(2) [OF less.prems(1,2) event_def et(2), of out]
    obtain w1 w2 S2 F2 xs where 1: "cascade (w\<lparr>w_cursor := event\<rparr>) = Some w1" "fire out w1 = Some (w2, out @ map (tok_of w) xs)"
      and b2: "wbut {} w2 S2 F2" and xs: "distinct xs" "set xs = due w event" "tm w2 = tm w |` (- set xs)"
      and gt: "\<forall>v\<in>ev S2 event. event < v" and c2: "w_cursor w2 = event" "w_wheel_id w2 = w_wheel_id w" "gens w2 = gens w"
      using ev(2) by metis
    let ?w = "refresh w2"
    have tr: "tm ?w = tm w2" "gens ?w = gens w2" by (simp_all add: tm_def gens_def fun_eq_iff)
    have nx: "w_next_event ?w = Min (insert TICK_NONE (ev S2 (w_cursor ?w)))" using refresh_exact [OF b2] by simp
    have "event < TICK_NONE" using et less.prems(4) by (simp add: MAX_TICK_def TICK_NONE_def)
    then have "event < w_next_event ?w" using nx gt c2 by (subst nx) (auto simp: Min_gr_iff)
    then have "Suc target - w_next_event ?w < Suc target - w_next_event w" using et(1) unfolding event_def by linarith
    then obtain w' ys where y: "advance_loop target (out @ map (tok_of w) xs) ?w = Some (w', (out @ map (tok_of w) xs) @ map (tok_of ?w) ys)"
      "swept target ?w ys w'"
      using less.hyps [where w = ?w and S = S2 and F = F2 and out = "out @ map (tok_of w) xs"] b2 nx c2 et(1) less.prems(4) by auto
    have "advance_loop target out w = Some (w', (out @ map (tok_of w) xs) @ map (tok_of ?w) ys)"
      using 1 y(1) False ev(1) by (subst advance_loop.simps) (simp add: event_def)
    moreover have "swept target w (xs @ ys) w'" "map (tok_of ?w) ys = map (tok_of w) ys"
      using swept_step [OF xs(1,2) _ _ _ _ due_max [OF less.prems(1,2) event_def ev(1)] ev(1) et(1) y(2)] xs(3) tr c2 by auto
    ultimately show ?thesis by (metis append_assoc map_append)
  qed
qed

lemma advance_ok:
  assumes "wheel_inv w" and "w_cursor w \<le> target" and "target \<le> MAX_TICK"
  shows "\<exists>w' xs. advance_to target out w = Some (w', out @ map (tok_of w) xs) \<and> swept target w xs w'"
proof -
  obtain S F where inv: "wbut {} w S F" and ex: "w_next_event w = Min (insert TICK_NONE (ev S (w_cursor w)))" using wheel_invD [OF assms(1)] .
  show ?thesis
  proof (cases "target < w_next_event w")
    case True
    then have "advance_to target out w = Some (w\<lparr>w_cursor := target\<rparr>, out @ map (tok_of w) [])" using assms by (simp add: advance_to_def)
    then show ?thesis using swept_idle [OF inv ex assms(2,3)] True by blast
  next
    case False
    then show ?thesis using advance_loop_ok [OF inv ex assms(2,3), of out] assms by (simp add: advance_to_def)
  qed
qed

end
