(* ===== verification/Wheel_Check.thy ===== *)
theory Wheel_Check
  imports Wheel_Sweep
begin

text \<open>
  The diagnostic \<open>check_invariants\<close> of the timer wheel returns and accepts every wheel that
  satisfies the invariant: the walk of every slot list, of the free list and of the retired
  entries meets each slab position exactly once.
\<close>

section \<open>Marking\<close>

definition mark :: "nat \<Rightarrow> u32 list \<Rightarrow> nat list \<Rightarrow> nat list" where
  "mark v xs seen = fold (\<lambda>i s. s[unat i := v]) xs seen"

lemma mark_simps [simp]: "mark v [] seen = seen" "mark v (x # xs) seen = mark v xs (seen[unat x := v])"
  "mark v (xs @ ys) seen = mark v ys (mark v xs seen)"
  by (simp_all add: mark_def)

lemma length_mark [simp]: "length (mark v xs seen) = length seen"
  by (induction xs arbitrary: seen) simp_all

lemma mark_nth: "unat j < length seen \<Longrightarrow> mark v xs seen ! unat j = (if j \<in> set xs then v else seen ! unat j)"
  by (induction xs arbitrary: seen) (auto simp: nth_list_update)

lemma ptr_inj: "ptr a = ptr b \<longleftrightarrow> a = b"
  by (auto simp: ptr_def)

section \<open>The walks\<close>

lemma walk_slot_ok:
  assumes "chain (enext w) (ptr index) xs" and "backs (eprev w) (ptr prev) xs"
    and "\<And>i. i \<in> set xs \<Longrightarrow> valid w i \<and> seen ! unat i = 0 \<and> e_token (ent w i) \<noteq> None \<and> e_generation (ent w i) \<noteq> 0 \<and>
      e_level (ent w i) = level \<and> e_slot (ent w i) = slot \<and> slot_wakeup w level slot \<le> max (e_deadline (ent w i)) (w_cursor w)"
    and "length seen = length (w_entries w)"
  shows "walk_slot w level slot index prev seen live = Some (Inr (mark 1 xs seen, live + length xs))"
  using assms
proof (induction xs arbitrary: index prev seen live)
  case Nil
  then show ?case by (subst walk_slot.simps) (simp add: ptr_def split: if_splits)
next
  case (Cons x xs)
  have ix: "index = x" "x \<noteq> NIL" and ch': "chain (enext w) (enext w x) xs" using Cons.prems(1)
    by (auto simp: ptr_def split: if_splits)
  then have ch: "chain (enext w) (ptr (e_next (ent w x))) xs" by (metis enext_def)
  have x: "x \<notin> set xs" using chain_distinct [OF Cons.prems(1)] by simp
  have pv: "e_prev (ent w x) = prev" using Cons.prems(2) by (simp add: eprev_def ptr_inj)
  note e = Cons.prems(3) [of x, simplified]
  have "walk_slot w level slot (e_next (ent w x)) x (seen[unat x := 1]) (live + 1) =
      Some (Inr (mark 1 xs (seen[unat x := 1]), live + 1 + length xs))"
  proof (rule Cons.IH [OF ch])
    show "backs (eprev w) (ptr x) xs" using Cons.prems(2) ix by (simp add: ptr_def)
    fix i assume i: "i \<in> set xs"
    then have "unat i \<noteq> unat x" using x by (metis word_unat_eq_iff)
    then show "valid w i \<and> seen[unat x := 1] ! unat i = 0 \<and> e_token (ent w i) \<noteq> None \<and> e_generation (ent w i) \<noteq> 0 \<and>
      e_level (ent w i) = level \<and> e_slot (ent w i) = slot \<and> slot_wakeup w level slot \<le> max (e_deadline (ent w i)) (w_cursor w)"
      using Cons.prems(3) [of i] i by simp
  qed (use Cons.prems in simp)
  then show ?case using ix e pv by (subst walk_slot.simps) (auto simp: not_less)
qed

lemma walk_free_ok:
  assumes "chain (enext w) (ptr index) xs"
    and "\<And>i. i \<in> set xs \<Longrightarrow> valid w i \<and> seen ! unat i = 0 \<and> e_token (ent w i) = None \<and> e_level (ent w i) = FREE_LEVEL"
    and "length seen = length (w_entries w)"
  shows "walk_free w index seen free = Some (Inr (mark 2 xs seen, free + length xs))"
  using assms
proof (induction xs arbitrary: index seen free)
  case Nil
  then show ?case by (subst walk_free.simps) (simp add: ptr_def split: if_splits)
next
  case (Cons x xs)
  have ix: "index = x" "x \<noteq> NIL" and ch': "chain (enext w) (enext w x) xs" using Cons.prems(1)
    by (auto simp: ptr_def split: if_splits)
  then have ch: "chain (enext w) (ptr (e_next (ent w x))) xs" by (metis enext_def)
  have x: "x \<notin> set xs" using chain_distinct [OF Cons.prems(1)] by simp
  note e = Cons.prems(2) [of x, simplified]
  have "walk_free w (e_next (ent w x)) (seen[unat x := 2]) (free + 1) =
      Some (Inr (mark 2 xs (seen[unat x := 2]), free + 1 + length xs))"
  proof (rule Cons.IH [OF ch])
    fix i assume i: "i \<in> set xs"
    then have "unat i \<noteq> unat x" using x by (metis word_unat_eq_iff)
    then show "valid w i \<and> seen[unat x := 2] ! unat i = 0 \<and> e_token (ent w i) = None \<and> e_level (ent w i) = FREE_LEVEL"
      using Cons.prems(2) [of i] i by simp
  qed (use Cons.prems in simp)
  then show ?case using ix e by (subst walk_free.simps) simp
qed

lemma walk_slots_ok:
  assumes inv: "wbut {} w S F" and "distinct ps" and "set ps \<subseteq> {..<LEVELS} \<times> {..<SLOTS}"
    and "\<And>l s i. (l, s) \<in> set ps \<Longrightarrow> i \<in> set (S l s) \<Longrightarrow> seen ! unat i = 0" and "length seen = length (w_entries w)"
  shows "walk_slots w ps seen live = Some (Inr (mark 1 (concat (map (case_prod S) ps)) seen, live + length (concat (map (case_prod S) ps))))"
  using assms(2-)
proof (induction ps arbitrary: seen live)
  case (Cons p ps)
  obtain l s where p: "p = (l, s)" by (cases p)
  have ls: "l < LEVELS" "s < SLOTS" using Cons.prems(2) p by auto
  note r = wbutD(3) [OF inv ls, unfolded slot_rep_def]
  have occ: "occupied_at w l s \<longleftrightarrow> head_of w l s \<noteq> NIL"
  proof -
    have "S l s \<noteq> [] \<longleftrightarrow> head_of w l s \<noteq> NIL" using r by (cases "S l s") (auto simp: ptr_def split: if_splits)
    then show ?thesis using r occupied_at_occ [OF ls(2), of w l] by simp
  qed
  have one: "walk_slot w l s (head_of w l s) NIL seen live = Some (Inr (mark 1 (S l s) seen, live + length (S l s)))"
  proof (rule walk_slot_ok)
    fix i assume i: "i \<in> set (S l s)"
    note e = slot_entry [OF inv ls i]
    show "valid w i \<and> seen ! unat i = 0 \<and> e_token (ent w i) \<noteq> None \<and> e_generation (ent w i) \<noteq> 0 \<and>
      e_level (ent w i) = l \<and> e_slot (ent w i) = s \<and> slot_wakeup w l s \<le> max (e_deadline (ent w i)) (w_cursor w)"
      using e Cons.prems(3) [of l s i] p i by (auto simp: filed_ok_def in_time_def)
  qed (use r Cons.prems(4) in auto)
  have "walk_slots w ps (mark 1 (S l s) seen) (live + length (S l s)) =
    Some (Inr (mark 1 (concat (map (case_prod S) ps)) (mark 1 (S l s) seen), live + length (S l s) + length (concat (map (case_prod S) ps))))"
  proof (rule Cons.IH)
    fix l' s' i assume m: "(l', s') \<in> set ps" "i \<in> set (S l' s')"
    then have ls': "l' < LEVELS" "s' < SLOTS" and ne: "(l', s') \<noteq> (l, s)" using Cons.prems(1,2) p by auto
    have "i \<notin> set (S l s)" using slot_entry(4,5) [OF inv ls' m(2)] slot_entry(4,5) [OF inv ls, of i] ne by auto
    then show "mark 1 (S l s) seen ! unat i = 0"
      using mark_nth [of i seen] slot_entry(1) [OF inv ls' m(2)] Cons.prems(3) [of l' s' i] Cons.prems(4) m by (simp add: valid_def)
  qed (use Cons.prems in auto)
  then show ?case using one occ by (simp add: p)
qed simp

lemma slots_distinct:
  assumes inv: "wbut {} w S F" and "distinct ps" and "set ps \<subseteq> {..<LEVELS} \<times> {..<SLOTS}"
  shows "distinct (concat (map (case_prod S) ps))"
  using assms(2,3)
proof (induction ps)
  case (Cons p ps)
  obtain l s where p: "p = (l, s)" by (cases p)
  have ls: "l < LEVELS" "s < SLOTS" using Cons.prems(2) p by auto
  have "distinct (S l s)" using wbutD(3) [OF inv ls] chain_distinct by (auto simp: slot_rep_def)
  moreover have "set (S l s) \<inter> set (S l' s') = {}" if "(l', s') \<in> set ps" for l' s'
  proof -
    have ls': "l' < LEVELS" "s' < SLOTS" and ne: "(l', s') \<noteq> (l, s)" using Cons.prems(1,2) p that by auto
    show ?thesis using slot_entry(4,5) [OF inv ls'] slot_entry(4,5) [OF inv ls] ne by blast
  qed
  ultimately show ?case using Cons p by fastforce
qed simp

lemma walk_retired_ok:
  assumes "\<And>k. k < length es \<Longrightarrow> e_level (es ! k) = RETIRED_LEVEL \<Longrightarrow>
      seen ! (n + k) = 0 \<and> e_token (es ! k) = None \<and> e_generation (es ! k) = - 1"
  shows "\<exists>seen'. walk_retired es n seen retired = Inr (seen', retired + card {k. k < length es \<and> e_level (es ! k) = RETIRED_LEVEL}) \<and>
    length seen' = length seen \<and>
    (\<forall>k < length seen. seen' ! k = (if n \<le> k \<and> k < n + length es \<and> e_level (es ! (k - n)) = RETIRED_LEVEL then 3 else seen ! k))"
  using assms
proof (induction es arbitrary: n seen retired)
  case (Cons e es)
  let ?R = "{k. k < length es \<and> e_level (es ! k) = RETIRED_LEVEL}"
  have split: "{k. k < length (e # es) \<and> e_level ((e # es) ! k) = RETIRED_LEVEL} =
      (if e_level e = RETIRED_LEVEL then insert 0 (Suc ` ?R) else Suc ` ?R)" (is "?L = ?Q")
  proof -
    have "k \<in> ?L \<longleftrightarrow> k \<in> ?Q" for k by (cases k) auto
    then show ?thesis by blast
  qed
  have cS: "card (Suc ` ?R) = card ?R" "finite (Suc ` ?R)" by (auto intro: card_image)
  define seen1 where "seen1 = (if e_level e = RETIRED_LEVEL then seen[n := 3] else seen)"
  have pre: "seen1 ! (Suc n + k) = 0 \<and> e_token (es ! k) = None \<and> e_generation (es ! k) = - 1"
    if "k < length es" "e_level (es ! k) = RETIRED_LEVEL" for k
    using Cons.prems [of "Suc k"] that by (simp add: seen1_def)
  let ?r = "retired + (if e_level e = RETIRED_LEVEL then 1 else 0)"
  obtain seen' where s: "walk_retired es (Suc n) seen1 ?r = Inr (seen', ?r + card ?R)" "length seen' = length seen1"
    "\<forall>k < length seen1. seen' ! k = (if Suc n \<le> k \<and> k < Suc n + length es \<and> e_level (es ! (k - Suc n)) = RETIRED_LEVEL then 3 else seen1 ! k)"
    using Cons.IH [of seen1 "Suc n" ?r, OF pre] by blast
  have "walk_retired (e # es) n seen retired = Inr (seen', ?r + card ?R)"
    using s(1) Cons.prems [of 0] by (cases "e_level e = RETIRED_LEVEL") (simp_all add: seen1_def)
  moreover have "?r + card ?R = retired + card {k. k < length (e # es) \<and> e_level ((e # es) ! k) = RETIRED_LEVEL}"
    unfolding split using cS by simp
  moreover have "seen' ! k = (if n \<le> k \<and> k < n + length (e # es) \<and> e_level ((e # es) ! (k - n)) = RETIRED_LEVEL then 3 else seen ! k)"
    if "k < length seen" for k
    using s(3) that by (cases "k = n") (auto simp: seen1_def nth_Cons' Suc_le_eq nth_list_update)
  ultimately show ?case using s(2) by (auto simp: seen1_def)
qed simp

section \<open>The whole diagnostic\<close>

lemma card_valid: "shape_ok w \<Longrightarrow> card {k. k < length (w_entries w) \<and> P (w_entries w ! k)} = card {i. valid w i \<and> P (ent w i)}"
proof -
  assume sh: "shape_ok w"
  have "bij_betw unat {i. valid w i \<and> P (ent w i)} {k. k < length (w_entries w) \<and> P (w_entries w ! k)}"
  proof (rule bij_betwI')
    fix k assume k: "k \<in> {k. k < length (w_entries w) \<and> P (w_entries w ! k)}"
    then have "k < 2 ^ 32" using sh by (auto simp: shape_ok_def)
    then have "unat (of_nat k :: u32) = k" by (simp add: unat_of_nat take_bit_nat_eq_self)
    then show "\<exists>i\<in>{i. valid w i \<and> P (ent w i)}. k = unat i" using k by (intro bexI [of _ "of_nat k"]) (auto simp: valid_def ent_def)
  qed (auto simp: valid_def ent_def word_unat_eq_iff)
  then show ?thesis using bij_betw_same_card by fastforce
qed

text \<open>Filed, free and retired entries partition the slab.\<close>

lemma slab_partition:
  assumes inv: "wbut {} w S F"
  shows "length (w_entries w) = card {i. valid w i \<and> e_level (ent w i) < LEVELS} + length F + w_retired w"
    "w_live w = card {i. valid w i \<and> e_level (ent w i) < LEVELS}" "length F = card {i. valid w i \<and> e_level (ent w i) = FREE_LEVEL}"
proof -
  note D = wbutD [OF inv]
  show live: "w_live w = card {i. valid w i \<and> e_level (ent w i) < LEVELS}" using D(7) by simp
  show free: "length F = card {i. valid w i \<and> e_level (ent w i) = FREE_LEVEL}"
    using D(5) distinct_card [OF chain_distinct [OF D(4)]] by simp
  let ?A = "{i. valid w i \<and> e_level (ent w i) < LEVELS}" and ?B = "{i. valid w i \<and> e_level (ent w i) = FREE_LEVEL}"
  let ?C = "{i. valid w i \<and> e_level (ent w i) = RETIRED_LEVEL}"
  have fin: "finite ?A" "finite ?B" "finite ?C" by simp_all
  have "{i. valid w i \<and> True} = ?A \<union> (?B \<union> ?C)" using D(6) by (auto simp: entry_ok_def filed_ok_def)
  moreover have "?A \<inter> (?B \<union> ?C) = {}" "?B \<inter> ?C = {}" by auto
  ultimately have "card {i. valid w i \<and> True} = card ?A + (card ?B + card ?C)"
    using card_Un_disjoint [of ?A "?B \<union> ?C"] card_Un_disjoint [of ?B ?C] fin by simp
  moreover have "card {i. valid w i \<and> True} = length (w_entries w)" using card_valid [OF D(1), of "\<lambda>_. True"] by simp
  ultimately show "length (w_entries w) = card ?A + length F + w_retired w" using free D(8) by simp
qed

lemma concat_slots:
  assumes inv: "wbut {} w S F"
  shows "set (concat (map (case_prod S) (List.product [0..<LEVELS] [0..<SLOTS]))) = {i. valid w i \<and> e_level (ent w i) < LEVELS}"
proof -
  have "i \<in> (\<Union>l\<in>{..<LEVELS}. \<Union>s\<in>{..<SLOTS}. set (S l s)) \<longleftrightarrow> valid w i \<and> e_level (ent w i) < LEVELS" for i
  proof
    assume "i \<in> (\<Union>l\<in>{..<LEVELS}. \<Union>s\<in>{..<SLOTS}. set (S l s))"
    then show "valid w i \<and> e_level (ent w i) < LEVELS" using slot_entry(1,4) [OF inv] by blast
  next
    assume v: "valid w i \<and> e_level (ent w i) < LEVELS"
    then have "e_token (ent w i) \<noteq> None" using wbutD(6) [OF inv, of i] by (auto simp: entry_ok_def filed_ok_def)
    then obtain l s where "l < LEVELS" "s < SLOTS" "i \<in> set (S l s)" using live_slot [OF inv, of i] v by auto
    then show "i \<in> (\<Union>l\<in>{..<LEVELS}. \<Union>s\<in>{..<SLOTS}. set (S l s))" by blast
  qed
  moreover have "set (concat (map (case_prod S) (List.product [0..<LEVELS] [0..<SLOTS]))) = (\<Union>l\<in>{..<LEVELS}. \<Union>s\<in>{..<SLOTS}. set (S l s))"
    by (auto simp del: upt_rec_numeral simp: atLeast0LessThan)
  ultimately show ?thesis by blast
qed

lemma wheel_check_ok:
  assumes "wheel_inv w"
  shows "wheel_check_invariants w = Some (Inr ())"
proof -
  obtain S F where inv: "wbut {} w S F" and ex: "w_next_event w = Min (insert TICK_NONE (ev S (w_cursor w)))" using wheel_invD [OF assms] .
  note D = wbutD [OF inv]
  define ps where "ps = List.product [0..<LEVELS] [0..<SLOTS]"
  define xs where "xs = concat (map (case_prod S) ps)"
  define s0 where "s0 = replicate (length (w_entries w)) (0 :: nat)"
  define s1 where "s1 = mark 1 xs s0"
  define s2 where "s2 = mark 2 F s1"
  have ps: "distinct ps" "set ps \<subseteq> {..<LEVELS} \<times> {..<SLOTS}" by (auto simp: ps_def distinct_product simp del: upt_rec_numeral)
  have setx: "set xs = {i. valid w i \<and> e_level (ent w i) < LEVELS}" using concat_slots [OF inv] by (simp add: xs_def ps_def)
  have len: "length s0 = length (w_entries w)" "length s1 = length (w_entries w)" "length s2 = length (w_entries w)"
    by (simp_all add: s0_def s1_def s2_def)
  have z: "s0 ! unat i = 0" if "valid w i" for i using that by (simp add: s0_def valid_def)
  have n1: "s1 ! unat i = (if e_level (ent w i) < LEVELS then 1 else 0)" if "valid w i" for i
    using that mark_nth [of i s0 1 xs] z [OF that] setx by (simp add: s1_def len valid_def)
  have n2: "s2 ! unat i = (if e_level (ent w i) = FREE_LEVEL then 2 else if e_level (ent w i) < LEVELS then 1 else 0)" if "valid w i" for i
    using that mark_nth [of i s1 2 F] n1 [OF that] D(5) by (simp add: s2_def len valid_def)
  have 1: "walk_slots w ps s0 0 = Some (Inr (s1, w_live w))"
  proof -
    have "s0 ! unat i = 0" if "(l, s) \<in> set ps" "i \<in> set (S l s)" for l s i
      using z slot_entry(1) [OF inv _ _ that(2)] that(1) ps(2) by blast
    moreover have "length xs = w_live w"
      using distinct_card [OF slots_distinct [OF inv ps]] setx slab_partition(2) [OF inv] by (simp add: xs_def)
    ultimately show ?thesis using walk_slots_ok [OF inv ps _ len(1), of 0] unfolding s1_def xs_def by simp
  qed
  have 2: "walk_free w (w_free w) s1 0 = Some (Inr (s2, length F))"
  proof -
    have "valid w i \<and> s1 ! unat i = 0 \<and> e_token (ent w i) = None \<and> e_level (ent w i) = FREE_LEVEL" if "i \<in> set F" for i
      using that D(5) D(6) [of i] n1 [of i] by (auto simp: entry_ok_def filed_ok_def)
    then show ?thesis using walk_free_ok [OF D(4), of s1 0] len by (simp add: s2_def)
  qed
  have idx: "\<exists>i. valid w i \<and> unat i = k \<and> ent w i = w_entries w ! k" if "k < length (w_entries w)" for k
  proof -
    have "unat (of_nat k :: u32) = k" using that D(1) by (simp add: shape_ok_def unat_of_nat take_bit_nat_eq_self)
    then show ?thesis using that by (intro exI [of _ "of_nat k"]) (simp add: valid_def ent_def)
  qed
  have pre: "s2 ! (0 + k) = 0 \<and> e_token (w_entries w ! k) = None \<and> e_generation (w_entries w ! k) = - 1"
    if k: "k < length (w_entries w)" "e_level (w_entries w ! k) = RETIRED_LEVEL" for k
  proof -
    obtain i where i: "valid w i" "unat i = k" "ent w i = w_entries w ! k" using idx [OF k(1)] by blast
    show ?thesis using n2 [OF i(1)] D(6) [OF i(1)] i k(2) by (auto simp: entry_ok_def filed_ok_def)
  qed
  obtain s3 where 3: "walk_retired (w_entries w) 0 s2 0 = Inr (s3, w_retired w)" and l3: "length s3 = length s2"
    and n3: "\<And>k. k < length s2 \<Longrightarrow> s3 ! k = (if k < length (w_entries w) \<and> e_level (w_entries w ! k) = RETIRED_LEVEL then 3 else s2 ! k)"
    using walk_retired_ok [OF pre, of 0] D(8) card_valid [OF D(1), of "\<lambda>e. e_level e = RETIRED_LEVEL"] by auto
  have "s3 ! k \<noteq> 0" if k: "k < length (w_entries w)" for k
  proof -
    obtain i where i: "valid w i" "unat i = k" "ent w i = w_entries w ! k" using idx [OF k] by blast
    show ?thesis using n2 [OF i(1)] D(6) [OF i(1)] i k n3 [of k] len by (auto simp: entry_ok_def filed_ok_def)
  qed
  then have no0: "0 \<notin> set s3" using l3 len by (auto simp: in_set_conv_nth)
  have tot: "length F + w_live w + w_retired w = length (w_entries w)" using slab_partition [OF inv] by simp
  have ne: "(case compute_next_event w of Some e \<Rightarrow> e | None \<Rightarrow> TICK_NONE) = w_next_event w"
    using assms by (simp add: wheel_inv_def next_event_min)
  have "w_cursor w \<le> v" if "v \<in> insert TICK_NONE (ev S (w_cursor w))" for v
    using that visit_ge wbut_cursor_bound [OF inv] by (auto simp: ev_def MAX_TICK_def)
  then have "w_cursor w \<le> w_next_event w" using ex by simp
  moreover have "wheel_available w = length F" using tot by (simp add: wheel_available_def)
  ultimately show ?thesis using 1 2 3 no0 tot ne
    unfolding wheel_check_invariants_def ps_def [symmetric] s0_def [symmetric] by simp
qed

end
