(* ===== verification/Wheel_Service.thy ===== *)
theory Wheel_Service
  imports Wheel_Check "HOL-Library.Multiset"
begin

text \<open>
  The contract of a timer service as an interface: a partial map of pending timers, a clock that
  only moves forward, and a sweep that delivers exactly what is due in deadline order. Clients
  reason with the interface; the timer wheel implements it.
\<close>

section \<open>The interface\<close>

locale timer_service =
  fixes inv :: "'w \<Rightarrow> bool" and pending :: "'w \<Rightarrow> 'h \<rightharpoonup> nat \<times> 't" and clock :: "'w \<Rightarrow> nat" and limit :: nat
    and insert :: "nat \<Rightarrow> 't \<Rightarrow> 'w \<Rightarrow> ('w \<times> ('e + 'h)) option"
    and cancel :: "'h \<Rightarrow> 'w \<Rightarrow> ('w \<times> 't option) option"
    and advance :: "nat \<Rightarrow> 't list \<Rightarrow> 'w \<Rightarrow> ('w \<times> 't list) option"
  assumes insert_law: "inv w \<Longrightarrow> insert d t w = Some (w', Inr h) \<Longrightarrow>
      inv w' \<and> clock w' = clock w \<and> d \<le> limit \<and> pending w h = None \<and> pending w' = (pending w)(h \<mapsto> (d, t))"
    and cancel_law: "inv w \<Longrightarrow> \<exists>w'. cancel h w = Some (w', map_option snd (pending w h)) \<and>
      inv w' \<and> clock w' = clock w \<and> pending w' = (pending w)(h := None)"
    and advance_law: "inv w \<Longrightarrow> clock w \<le> now \<Longrightarrow> now \<le> limit \<Longrightarrow>
      \<exists>w' hs. advance now out w = Some (w', out @ map (\<lambda>h. snd (the (pending w h))) hs) \<and> inv w' \<and> clock w' = now \<and>
        distinct hs \<and> set hs = {h. \<exists>d t. pending w h = Some (d, t) \<and> d \<le> now} \<and>
        pending w' = pending w |` (- set hs) \<and> sorted (map (\<lambda>h. max (fst (the (pending w h))) (clock w)) hs)"
begin

definition due_at :: "nat \<Rightarrow> 'w \<Rightarrow> 'h set" where
  "due_at now w = {h. \<exists>d t. pending w h = Some (d, t) \<and> d \<le> now}"

definition token :: "'w \<Rightarrow> 'h \<Rightarrow> 't" where
  "token w h = snd (the (pending w h))"

lemma due_mono: "now \<le> now' \<Longrightarrow> due_at now w \<subseteq> due_at now' w"
  by (auto simp: due_at_def)

text \<open>What an advance delivers, as a multiset, is the tokens of the timers due.\<close>

lemma advance_mset:
  assumes "inv w" "clock w \<le> now" "now \<le> limit"
  shows "\<exists>w' ts. advance now out w = Some (w', out @ ts) \<and> inv w' \<and> clock w' = now \<and>
    mset ts = image_mset (token w) (mset_set (due_at now w)) \<and> pending w' = pending w |` (- due_at now w)"
proof -
  obtain w' hs where a: "advance now out w = Some (w', out @ map (token w) hs)" "inv w'" "clock w' = now" "distinct hs"
    "set hs = due_at now w" "pending w' = pending w |` (- set hs)"
    using advance_law [OF assms, of out] by (auto simp: due_at_def token_def [abs_def])
  moreover have "mset hs = mset_set (due_at now w)" using a(4,5) mset_set_set [of hs] by simp
  ultimately show ?thesis by (metis mset_map)
qed

lemma finite_due: "inv w \<Longrightarrow> clock w \<le> now \<Longrightarrow> now \<le> limit \<Longrightarrow> finite (due_at now w)"
  using advance_law [of w now] by (metis (no_types, lifting) due_at_def List.finite_set)

text \<open>Advancing in two steps delivers what advancing at once delivers, and leaves the same timers.\<close>

lemma advance_twice:
  assumes "inv w" "clock w \<le> a" "a \<le> b" "b \<le> limit"
    and "advance a [] w = Some (w1, xs)" "advance b xs w1 = Some (w2, ys)" "advance b [] w = Some (w3, zs)"
  shows "mset ys = mset zs \<and> pending w2 = pending w3"
proof -
  have x: "inv w1" "clock w1 = a" "mset xs = image_mset (token w) (mset_set (due_at a w))"
    "pending w1 = pending w |` (- due_at a w)"
    using advance_mset [OF assms(1,2), of "[]"] assms(3,4,5) by auto
  have z: "mset zs = image_mset (token w) (mset_set (due_at b w))" "pending w3 = pending w |` (- due_at b w)"
    using advance_mset [OF assms(1) _ assms(4), of "[]"] assms(2,3,7) by auto
  obtain ts where y: "ys = xs @ ts" "mset ts = image_mset (token w1) (mset_set (due_at b w1))" "pending w2 = pending w1 |` (- due_at b w1)"
    using advance_mset [OF x(1) _ assms(4), of xs] x(2) assms(3,6) by auto
  have d1: "due_at b w1 = due_at b w - due_at a w"
    using x(4) by (auto simp: due_at_def restrict_map_def split: if_splits)
  have tk: "token w1 h = token w h" if "h \<in> due_at b w1" for h
    using that x(4) d1 by (auto simp: token_def restrict_map_def)
  have fin: "finite (due_at b w)" using finite_due [OF assms(1) _ assms(4)] assms(2,3) by simp
  have sub: "due_at a w \<subseteq> due_at b w" by (rule due_mono [OF assms(3)])
  have "image_mset (token w1) (mset_set (due_at b w1)) = image_mset (token w) (mset_set (due_at b w1))"
    by (rule image_mset_cong) (use tk fin d1 in \<open>auto\<close>)
  moreover have "mset_set (due_at b w) = mset_set (due_at a w) + mset_set (due_at b w - due_at a w)"
  proof -
    have "finite (due_at a w)" using fin sub by (rule finite_subset [rotated])
    then have "mset_set (due_at a w \<union> (due_at b w - due_at a w)) = mset_set (due_at a w) + mset_set (due_at b w - due_at a w)"
      using fin by (intro mset_set_Union) auto
    moreover have "due_at a w \<union> (due_at b w - due_at a w) = due_at b w" using sub by blast
    ultimately show ?thesis by simp
  qed
  ultimately have "mset ys = mset zs" using x(3) y(1,2) z(1) d1 by simp
  moreover have "pending w2 = pending w3" using y(3) x(4) z(2) d1 sub by (auto simp: restrict_map_def fun_eq_iff)
  ultimately show ?thesis ..
qed

text \<open>A timer that is cancelled before its deadline is reached is never delivered; one that is not is.\<close>

lemma insert_advance:
  assumes "inv w" "insert d t w = Some (w1, Inr h)" "clock w \<le> now" "now \<le> limit" "advance now [] w1 = Some (w2, ts)"
  shows "if d \<le> now then t \<in> set ts \<and> pending w2 h = None else pending w2 h = Some (d, t)"
proof -
  have i: "inv w1" "clock w1 = clock w" "pending w1 h = Some (d, t)" using insert_law [OF assms(1,2)] by auto
  obtain hs where a: "ts = map (\<lambda>h. snd (the (pending w1 h))) hs" "set hs = {h. \<exists>d t. pending w1 h = Some (d, t) \<and> d \<le> now}"
    "pending w2 = pending w1 |` (- set hs)"
    using advance_law [OF i(1) _ assms(4), of "[]"] assms(3,5) i(2) by auto
  show ?thesis
  proof (cases "d \<le> now")
    case True
    then have "h \<in> set hs" using a(2) i(3) by auto
    then have "snd (the (pending w1 h)) \<in> set ts" unfolding a(1) by (simp add: image_iff) blast
    then show ?thesis using True i(3) a(3) \<open>h \<in> set hs\<close> by simp
  next
    case False
    then have "h \<notin> set hs" using a(2) i(3) by auto
    then show ?thesis using False i(3) a(3) by simp
  qed
qed

lemma cancel_advance:
  assumes "inv w" "cancel h w = Some (w1, r)" "clock w \<le> now" "now \<le> limit" "advance now [] w1 = Some (w2, ts)"
  shows "pending w2 h = None \<and> mset ts = image_mset (token w) (mset_set (due_at now w - {h}))"
proof -
  have i: "inv w1" "clock w1 = clock w" "pending w1 = (pending w)(h := None)" using cancel_law [OF assms(1), of h] assms(2) by auto
  have a: "mset ts = image_mset (token w1) (mset_set (due_at now w1))" "pending w2 = pending w1 |` (- due_at now w1)"
    using advance_mset [OF i(1) _ assms(4), of "[]"] assms(3,5) i(2) by auto
  have d: "due_at now w1 = due_at now w - {h}" using i(3) by (auto simp: due_at_def)
  have "image_mset (token w1) (mset_set (due_at now w1)) = image_mset (token w) (mset_set (due_at now w - {h}))"
    unfolding d by (rule image_mset_cong) (use i(3) finite_due [OF i(1) _ assms(4)] assms(3) i(2) d in \<open>auto simp: token_def\<close>)
  then show ?thesis using a i(3) by (simp add: restrict_map_def)
qed

end

section \<open>The wheel provides it\<close>

definition handle :: "'t wheel \<Rightarrow> u32 \<Rightarrow> timer_id" where
  "handle w j = the (id_new (w_wheel_id w) (gens w j) j)"

lemma timers_tm: "timers w tid = Some (d, t) \<longleftrightarrow> (\<exists>g j. id_parts tid = Some (w_wheel_id w, g, j) \<and> tm w j = Some (g, d, t))"
  by (auto simp: timers_alt split: option.splits if_splits)

lemma handle_parts:
  assumes "wheel_inv w" and "tm w j = Some (g, d, t)"
  shows "id_parts (handle w j) = Some (w_wheel_id w, g, j)" "timers w (handle w j) = Some (d, t)"
proof -
  obtain S F where inv: "wbut {} w S F" using wheel_invD [OF assms(1)] .
  have v: "valid w j" "e_token (ent w j) = Some t" "gens w j = g" using assms(2) by (auto simp: tm_def gens_def split: if_splits)
  have "g \<noteq> 0" using wbutD(6) [OF inv v(1)] v(2,3) by (auto simp: entry_ok_def filed_ok_def gens_def)
  moreover have "w_wheel_id w \<noteq> 0" "j \<noteq> NIL" using wbutD(1) [OF inv] valid_not_NIL [OF _ v(1)] by (auto simp: shape_ok_def)
  ultimately show p: "id_parts (handle w j) = Some (w_wheel_id w, g, j)" using id_new_ok [of "w_wheel_id w" g j] v(3) by (auto simp: handle_def)
  then show "timers w (handle w j) = Some (d, t)" using assms(2) by (auto simp: timers_tm)
qed

lemma advance_timers:
  assumes inv: "wheel_inv w" and "w_cursor w \<le> target" and "target \<le> MAX_TICK"
  shows "\<exists>w' hs. advance_to target out w = Some (w', out @ map (\<lambda>h. snd (the (timers w h))) hs) \<and> wheel_inv w' \<and> w_cursor w' = target \<and>
    distinct hs \<and> set hs = {h. \<exists>d t. timers w h = Some (d, t) \<and> d \<le> target} \<and>
    timers w' = timers w |` (- set hs) \<and> sorted (map (\<lambda>h. max (fst (the (timers w h))) (w_cursor w)) hs) \<and>
    w_wheel_id w' = w_wheel_id w \<and> gens w' = gens w"
proof -
  obtain w' xs where a: "advance_to target out w = Some (w', out @ map (tok_of w) xs)" and s: "swept target w xs w'"
    using advance_ok [OF assms] by blast
  have x: "\<exists>g d t. tm w j = Some (g, d, t) \<and> d \<le> target" if "j \<in> set xs" for j using that s by (auto simp: swept_def due_def)
  have h: "snd (the (timers w (handle w j))) = tok_of w j" "fst (the (timers w (handle w j))) = dl_of w j"
    "\<exists>g d t. id_parts (handle w j) = Some (w_wheel_id w, g, j) \<and> timers w (handle w j) = Some (d, t) \<and> d \<le> target" if "j \<in> set xs" for j
    using x [OF that] handle_parts [OF inv, of j] tm_fields [of w j] by fastforce+
  let ?hs = "map (handle w) xs"
  have out: "map (\<lambda>h. snd (the (timers w h))) ?hs = map (tok_of w) xs" using h(1) by simp
  have so: "sorted (map (\<lambda>h. max (fst (the (timers w h))) (w_cursor w)) ?hs)"
  proof -
    have "map (\<lambda>h. max (fst (the (timers w h))) (w_cursor w)) ?hs = map (\<lambda>j. max (dl_of w j) (w_cursor w)) xs" using h(2) by simp
    moreover have "sorted (map (\<lambda>j. max (dl_of w j) (w_cursor w)) xs)" using s by (simp add: swept_def)
    ultimately show ?thesis by metis
  qed
  have "inj_on (handle w) (set xs)"
  proof (rule inj_onI)
    fix a b assume "a \<in> set xs" "b \<in> set xs" "handle w a = handle w b"
    then show "a = b" using h(3) [of a] h(3) [of b] by auto
  qed
  then have di: "distinct ?hs" using s by (simp add: distinct_map swept_def)
  have set: "set ?hs = {h. \<exists>d t. timers w h = Some (d, t) \<and> d \<le> target}"
  proof (intro set_eqI iffI)
    fix tid assume "tid \<in> set ?hs"
    then show "tid \<in> {h. \<exists>d t. timers w h = Some (d, t) \<and> d \<le> target}" using h(3) by fastforce
  next
    fix tid assume "tid \<in> {h. \<exists>d t. timers w h = Some (d, t) \<and> d \<le> target}"
    then obtain d t g j where t: "id_parts tid = Some (w_wheel_id w, g, j)" "tm w j = Some (g, d, t)" "d \<le> target" by (auto simp: timers_tm)
    then have "j \<in> set xs" using s by (auto simp: swept_def due_def)
    moreover have "handle w j = tid" using handle_parts(1) [OF inv t(2)] t(1) by (rule id_parts_inj)
    ultimately show "tid \<in> set ?hs" by auto
  qed
  have "timers w' tid = (timers w |` (- set ?hs)) tid" for tid
  proof (cases "tid \<in> set ?hs")
    case True
    then obtain j where j: "j \<in> set xs" "tid = handle w j" by auto
    then obtain g where "id_parts tid = Some (w_wheel_id w, g, j)" using h(3) by blast
    moreover have "tm w' j = None" using s j(1) by (simp add: swept_def)
    ultimately show ?thesis using True s by (simp add: timers_alt swept_def)
  next
    case False
    have "tm w' j = tm w j" if "id_parts tid = Some (w_wheel_id w, g, j)" "tm w j = Some (g, d, t)" for g j d t
    proof -
      have "handle w j = tid" using handle_parts(1) [OF inv that(2)] that(1) by (rule id_parts_inj)
      then have "j \<notin> set xs" using False by auto
      then show ?thesis using s by (simp add: swept_def)
    qed
    moreover have "tm w j = Some y" if "tm w' j = Some y" for j y
    proof -
      have "(tm w |` (- set xs)) j = Some y" using that s by (simp add: swept_def)
      then show ?thesis by (simp add: restrict_map_def split: if_splits)
    qed
    ultimately have "timers w' tid = Some v \<longleftrightarrow> timers w tid = Some v" for v
      using s by (cases v) (fastforce simp: timers_tm swept_def)
    then have "timers w' tid = timers w tid" by (metis not_Some_eq)
    then show ?thesis using False by simp
  qed
  then have "timers w' = timers w |` (- set ?hs)" by (simp add: fun_eq_iff)
  then show ?thesis using a out so di set s
    by (intro exI [of _ w'] exI [of _ ?hs] conjI) (simp_all add: swept_def)
qed

interpretation wheel: timer_service wheel_inv timers w_cursor MAX_TICK try_insert_at cancel advance_to
proof
  fix w w' :: "'t wheel" and d t h assume inv: "wheel_inv w" and i: "try_insert_at d t w = Some (w', Inr h)"
  have f: "fits (w_cursor w) d" "w_free w \<noteq> NIL" "d \<le> MAX_TICK"
    using i by (auto simp: fits_def try_insert_at_def deadline_fits_def split: if_splits)
  show "wheel_inv w' \<and> w_cursor w' = w_cursor w \<and> d \<le> MAX_TICK \<and> timers w h = None \<and> timers w' = (timers w)(h \<mapsto> (d, t))"
    by (rule insert_ok [OF inv f(1,2), of t]) (use i f(3) in auto)
next
  fix w :: "'t wheel" and h assume "wheel_inv w"
  then show "\<exists>w'. cancel h w = Some (w', map_option snd (timers w h)) \<and> wheel_inv w' \<and> w_cursor w' = w_cursor w \<and> timers w' = (timers w)(h := None)"
    using cancel_ok [of w h] by metis
next
  fix w :: "'t wheel" and now out assume "wheel_inv w" "w_cursor w \<le> now" "now \<le> MAX_TICK"
  then show "\<exists>w' hs. advance_to now out w = Some (w', out @ map (\<lambda>h. snd (the (timers w h))) hs) \<and> wheel_inv w' \<and> w_cursor w' = now \<and>
        distinct hs \<and> set hs = {h. \<exists>d t. timers w h = Some (d, t) \<and> d \<le> now} \<and>
        timers w' = timers w |` (- set hs) \<and> sorted (map (\<lambda>h. max (fst (the (timers w h))) (w_cursor w)) hs)"
    using advance_timers [of w now out] by blast
qed

end
