(* ===== verification/Wheel_Theorems.thy ===== *)
theory Wheel_Theorems
  imports Wheel_Service
begin

text \<open>
  The properties of the timer wheel over every history of calls: the diagnostic accepts every
  reachable wheel, a sweep delivers exactly what is due, handles are never reused, the cached wakeup
  is safe to sleep on, and durations are rounded so that nothing fires early.
\<close>

section \<open>A fresh wheel\<close>

lemma chain_upt:
  assumes "\<And>k. lo \<le> k \<Longrightarrow> k < hi \<Longrightarrow> nx (f k) = (if Suc k < hi then Some (f (Suc k)) else None)"
  shows "lo \<le> hi \<Longrightarrow> chain nx (if lo < hi then Some (f lo) else None) (map f [lo..<hi])"
proof (induction rule: inc_induct)
  case (step k)
  then show ?case using assms [of k] by (simp add: upt_conv_Cons split: if_splits)
qed simp

lemma wheel_new_ok:
  assumes n: "wheel_with_capacity_at_tick capacity now wheel_id = Some w" and "wheel_id \<noteq> 0"
  shows "wheel_inv w" "timers w = Map.empty" "w_cursor w = now" "w_free w = NIL \<longleftrightarrow> capacity = 0"
proof -
  have cap: "capacity < 2 ^ 32" and now: "now \<le> MAX_TICK" using n by (auto simp: wheel_with_capacity_at_tick_def unat_NIL split: if_splits)
  define F where "F = map (of_nat :: nat \<Rightarrow> u32) [0..<capacity]"
  have un: "unat (of_nat k :: u32) = k" if "k < capacity" for k using that cap by (simp add: unat_of_nat take_bit_nat_eq_self)
  have nN: "of_nat k \<noteq> NIL" if "k < capacity" for k
  proof
    assume "of_nat k = NIL"
    then have "unat (of_nat k :: u32) = unat NIL" by simp
    then have "k = 2 ^ 32 - 1" using un [OF that] by (simp add: unat_NIL)
    then show False using that n by (auto simp: wheel_with_capacity_at_tick_def unat_NIL split: if_splits)
  qed
  have w: "length (w_entries w) = capacity" "w_free w = (if capacity = 0 then NIL else 0)" "w_live w = 0" "w_retired w = 0"
    "w_heads w = replicate LEVELS (replicate SLOTS NIL)" "w_occupied w = replicate LEVELS 0" "w_cursor w = now"
    "w_next_event w = TICK_NONE" "w_wheel_id w = wheel_id"
    "\<And>k. k < capacity \<Longrightarrow> w_entries w ! k = \<lparr>e_deadline = 0, e_generation = 0, e_token = None,
       e_next = (if k + 1 < capacity then of_nat (k + 1) else NIL), e_prev = NIL, e_level = FREE_LEVEL, e_slot = 0\<rparr>"
    using n by (auto simp: wheel_with_capacity_at_tick_def split: if_splits)
  show "w_cursor w = now" by (rule w)
  have "(0 :: u32) \<noteq> NIL" by (simp add: NIL_def)
  then show "w_free w = NIL \<longleftrightarrow> capacity = 0" using w(2) by simp
  have e: "e_token (ent w i) = None" "e_level (ent w i) = FREE_LEVEL" "e_generation (ent w i) = 0" if "valid w i" for i
    using that w(1,10) by (simp_all add: valid_def ent_def)
  have setF: "set F = {i. valid w i}"
  proof -
    have "i \<in> of_nat ` {0..<capacity}" if "unat i < capacity" for i :: u32
      using that by (intro image_eqI [of _ _ "unat i"]) auto
    then show ?thesis using un by (auto simp: F_def valid_def w(1))
  qed
  have nx: "enext w (of_nat k) = (if Suc k < capacity then Some (of_nat (Suc k)) else None)" if "k < capacity" for k
    using that w(10) [of k] un nN [of "Suc k"] by (auto simp: enext_def ent_def ptr_def)
  have "chain (enext w) (if 0 < capacity then Some (of_nat 0) else None) F" unfolding F_def by (rule chain_upt) (use nx in auto)
  then have ch: "chain (enext w) (ptr (w_free w)) F" using nN [of 0] by (simp add: w(2) ptr_def split: if_splits)
  have hd: "head_of w l s = NIL \<and> \<not> occ w l s" if "l < LEVELS" "s < SLOTS" for l s using that by (simp add: head_of_def occ_def w)
  have "slot_rep {} w l s []" if "l < LEVELS" "s < SLOTS" for l s
    using hd [OF that] e(2) that(1) by (auto simp: slot_rep_def FREE_LEVEL_def)
  moreover have "shape_ok w" using assms(2) cap now by (simp add: shape_ok_def w)
  moreover have "set F = {i. valid w i \<and> i \<notin> {} \<and> e_level (ent w i) = FREE_LEVEL}" using setF e(2) by auto
  moreover have "{i. valid w i \<and> i \<notin> {} \<and> e_level (ent w i) < LEVELS} = {}" "{i. valid w i \<and> i \<notin> {} \<and> e_level (ent w i) = RETIRED_LEVEL} = {}"
    using e(2) by auto
  moreover have "entry_ok now (ent w i)" if "valid w i" for i using e [OF that] by (simp add: entry_ok_def)
  ultimately have "wbut {} w (\<lambda>_ _. []) F" using ch unfolding wbut_def by (simp add: w)
  then show "wheel_inv w" by (rule wheel_invI) (simp add: w ev_def)
  show "timers w = Map.empty" using e(1) by (auto simp: fun_eq_iff timers_alt tm_def split: option.splits)
qed

section \<open>Histories\<close>

datatype 't timer_event =
    Inserted tick 't "insert_error_kind \<times> 't + timer_id"
  | Cancelled timer_id "'t option"
  | Rescheduled timer_id tick "reschedule_error + unit"
  | Advanced tick "'t list"

inductive timer_step :: "'t wheel \<Rightarrow> 't timer_event \<Rightarrow> 't wheel \<Rightarrow> bool" where
  timer_insert: "try_insert_at d t w = Some (w', r) \<Longrightarrow> timer_step w (Inserted d t r) w'"
| timer_cancel: "cancel h w = Some (w', r) \<Longrightarrow> timer_step w (Cancelled h r) w'"
| timer_reschedule: "reschedule_at h d w = Some (w', r) \<Longrightarrow> timer_step w (Rescheduled h d r) w'"
| timer_advance: "advance_to now [] w = Some (w', ts) \<Longrightarrow> timer_step w (Advanced now ts) w'"

inductive_simps timer_step_simps [simp]:
  "timer_step w (Inserted d t r) w'" "timer_step w (Cancelled h c) w'" "timer_step w (Rescheduled h d u) w'" "timer_step w (Advanced now ts) w'"

definition timer_init :: "'t wheel \<Rightarrow> bool" where
  "timer_init w \<longleftrightarrow> (\<exists>capacity now wheel_id. wheel_id \<noteq> 0 \<and> wheel_with_capacity_at_tick capacity now wheel_id = Some w)"

primrec issues :: "'t timer_event \<Rightarrow> timer_id list" where
  "issues (Inserted d t r) = (case r of Inl _ \<Rightarrow> [] | Inr h \<Rightarrow> [h])"
| "issues (Cancelled h r) = []"
| "issues (Rescheduled h d r) = []"
| "issues (Advanced now ts) = []"

definition issued :: "'t timer_event list \<Rightarrow> timer_id list" where
  "issued es = concat (map issues es)"

lemma issued_simps [simp]: "issued [] = []" "issued (es @ fs) = issued es @ issued fs" "issued [e] = issues e"
  by (simp_all add: issued_def)

text \<open>What one call does to the counters and to the set of pending handles.\<close>

definition call_effect :: "'t wheel \<Rightarrow> 't timer_event \<Rightarrow> 't wheel \<Rightarrow> bool" where
  "call_effect w e w' \<longleftrightarrow> wheel_inv w' \<and> w_wheel_id w' = w_wheel_id w \<and> dom (timers w') \<subseteq> dom (timers w) \<union> set (issues e) \<and>
     (issues e = [] \<and> gens w' = gens w \<or>
      (\<exists>h i. issues e = [h] \<and> id_parts h = Some (w_wheel_id w, gens w i + 1, i) \<and> gens w i \<noteq> - 1 \<and>
         gens w' = (gens w)(i := gens w i + 1)))"

lemma timer_step_effect:
  assumes inv: "wheel_inv w" and step: "timer_step w e w'"
  shows "call_effect w e w'"
  using step
proof cases
  case (timer_insert d t r)
  show ?thesis
  proof (cases "fits (w_cursor w) d \<and> w_free w \<noteq> NIL")
    case True
    show ?thesis by (rule insert_ok [OF inv conjunct1 [OF True] conjunct2 [OF True], of t])
        (use timer_insert in \<open>auto simp: call_effect_def\<close>)
  next
    case False
    then have "w' = w \<and> (\<exists>x. r = Inl x)" using timer_insert(2) by (auto simp: try_insert_at_def fits_def deadline_fits_def split: if_splits)
    then show ?thesis using inv timer_insert(1) by (auto simp: call_effect_def)
  qed
next
  case (timer_cancel h r)
  show ?thesis by (rule cancel_ok [OF inv, of h]) (use timer_cancel in \<open>auto simp: call_effect_def\<close>)
next
  case (timer_reschedule h d r)
  show ?thesis
  proof (cases "fits (w_cursor w) d \<and> timers w h \<noteq> None")
    case True
    then obtain d0 tok where t: "fits (w_cursor w) d" "timers w h = Some (d0, tok)" by auto
    show ?thesis by (rule reschedule_ok [OF inv t]) (use timer_reschedule t in \<open>auto simp: call_effect_def\<close>)
  next
    case False
    then have "w' = w" using timer_reschedule(2) 
      by (auto simp: fits_def reschedule_at_def deadline_fits_def timers_None split: if_splits)
    then show ?thesis using inv timer_reschedule(1) by (auto simp: call_effect_def)
  qed
next
  case (timer_advance now ts)
  have n: "now \<le> MAX_TICK" using timer_advance(2) by (simp add: advance_to_def split: if_splits)
  show ?thesis
  proof (cases "w_cursor w \<le> now")
    case True
    obtain hs where "wheel_inv w'" "timers w' = timers w |` (- set hs)" "w_wheel_id w' = w_wheel_id w" "gens w' = gens w"
      using advance_timers [OF inv True n, of "[]"] timer_advance(2) by auto
    then show ?thesis using timer_advance(1) by (auto simp: call_effect_def restrict_map_def split: if_splits)
  next
    case False
    then show ?thesis using timer_advance inv n by (simp add: advance_to_def call_effect_def)
  qed
qed

interpretation timer: invariant timer_init timer_step wheel_inv
  by unfold_locales (auto simp: timer_init_def wheel_new_ok(1) dest: timer_step_effect simp: call_effect_def)

text \<open>Every handle issued so far is at or below the generation of its position.\<close>

definition ledger_ok :: "timer_id list \<Rightarrow> 't wheel \<Rightarrow> bool" where
  "ledger_ok hs w \<longleftrightarrow> distinct hs \<and> dom (timers w) \<subseteq> set hs \<and>
     (\<forall>h\<in>set hs. \<exists>g i. id_parts h = Some (w_wheel_id w, g, i) \<and> g \<le> gens w i)"

lemma gen_next: "g \<noteq> - 1 \<Longrightarrow> g < g + 1" for g :: u64
  using inc_less_eq_triv_imp by (metis not_le)

lemma ledger_step:
  assumes "ledger_ok hs w" and "call_effect w e w'"
  shows "ledger_ok (hs @ issues e) w'"
proof (cases "issues e = []")
  case True
  have "dom (timers w') \<subseteq> dom (timers w)" "dom (timers w) \<subseteq> set hs"
    using assms True by (simp_all add: ledger_ok_def call_effect_def)
  then have "dom (timers w') \<subseteq> set hs" by (rule order_trans)
  then show ?thesis using assms True by (auto simp: ledger_ok_def call_effect_def)
next
  case False
  then obtain h i where h: "issues e = [h]" "id_parts h = Some (w_wheel_id w, gens w i + 1, i)" "gens w i \<noteq> - 1"
    "gens w' = (gens w)(i := gens w i + 1)" "w_wheel_id w' = w_wheel_id w" "dom (timers w') \<subseteq> insert h (dom (timers w))"
    using assms(2) by (auto simp: call_effect_def)
  note lt = gen_next [OF h(3)]
  have "h \<notin> set hs"
  proof
    assume "h \<in> set hs"
    then have "gens w i + 1 \<le> gens w i" using assms(1) h(2) by (fastforce simp: ledger_ok_def)
    then show False using lt by simp
  qed
  moreover have mono: "gens w j \<le> gens w' j" for j using lt by (simp add: h(4) less_imp_le)
  have "\<exists>g i. id_parts k = Some (w_wheel_id w', g, i) \<and> g \<le> gens w' i" if k: "k \<in> set hs" for k
  proof -
    obtain g j where "id_parts k = Some (w_wheel_id w, g, j)" "g \<le> gens w j" using assms(1) k by (auto simp: ledger_ok_def)
    then show ?thesis using h(5) order_trans [OF _ mono [of j]] by auto
  qed
  moreover have "\<exists>g i. id_parts h = Some (w_wheel_id w', g, i) \<and> g \<le> gens w' i" using h(2,4,5) by auto
  ultimately show ?thesis using assms(1) h(1,6) by (auto simp: ledger_ok_def)
qed

lemma ledger_run:
  assumes "run timer_step w es w'" and "wheel_inv w" and "ledger_ok hs w"
  shows "wheel_inv w' \<and> ledger_ok (hs @ issued es) w'"
  using assms
proof (induction rule: run.induct)
  case (run_snoc x es y e z)
  then have "call_effect y e z" using timer_step_effect by blast
  then show ?case using run_snoc ledger_step [of "hs @ issued es" y e z] by (auto simp: call_effect_def)
qed simp

lemma ledger_init: "timer_init w \<Longrightarrow> ledger_ok [] w"
  by (auto simp: timer_init_def ledger_ok_def wheel_new_ok(2))

lemma dead_run:
  assumes "run timer_step w es w'" and "wheel_inv w" and "ledger_ok hs w" and "h \<in> set hs" and "timers w h = None"
  shows "timers w' h = None"
  using assms
proof (induction rule: run.induct)
  case (run_snoc x es y e z)
  have i: "wheel_inv y" "ledger_ok (hs @ issued es) y" using ledger_run [OF run_snoc.hyps(1) run_snoc.prems(1,2)] by auto
  have c: "call_effect y e z" using timer_step_effect [OF i(1) run_snoc.hyps(2)] .
  have "distinct ((hs @ issued es) @ issues e)" using ledger_step [OF i(2) c] unfolding ledger_ok_def by blast
  then have "h \<notin> set (issues e)" using run_snoc.prems(3) by auto
  moreover have "timers y h = None" using run_snoc.IH run_snoc.prems by simp
  ultimately show ?case using c unfolding call_effect_def by blast
qed

section \<open>A small wheel for the witnesses\<close>

definition demo_wheel :: "nat wheel" where
  "demo_wheel = the (wheel_with_capacity_at_tick 2 0 1)"

lemma demo_wheel_new: "wheel_with_capacity_at_tick 2 0 1 = Some demo_wheel"
  by (simp add: demo_wheel_def wheel_with_capacity_at_tick_def unat_NIL)

lemma demo_wheel_init: "timer_init demo_wheel"
  unfolding timer_init_def using demo_wheel_new by (intro exI [of _ 2] exI [of _ 0] exI [of _ 1]) simp

lemmas demo_wheel_facts = wheel_new_ok [OF demo_wheel_new, simplified]

lemma demo_fits: "d \<le> 1000 \<Longrightarrow> fits (w_cursor demo_wheel) d"
  by (simp add: fits_def demo_wheel_facts MAX_TICK_def TICK_NONE_def MAX_DELAY_TICKS_def SPAN_TICKS_def)

lemma demo_insert:
  assumes "d \<le> 1000"
  shows "\<exists>w h. try_insert_at d t demo_wheel = Some (w, Inr h) \<and> run timer_step demo_wheel [Inserted d t (Inr h)] w \<and>
    wheel_inv w \<and> timers w = [h \<mapsto> (d, t)] \<and> w_cursor w = 0"
proof -
  have "w_free demo_wheel \<noteq> NIL" using demo_wheel_facts by simp
  then obtain w h where i: "try_insert_at d t demo_wheel = Some (w, Inr h)" "wheel_inv w"
    "timers w = (timers demo_wheel)(h \<mapsto> (d, t))" "w_cursor w = w_cursor demo_wheel"
    using insert_ok [OF demo_wheel_facts(1) demo_fits [OF assms], of t] by metis
  moreover have "run timer_step demo_wheel [Inserted d t (Inr h)] w" by (rule run_single) (simp add: i(1))
  ultimately show ?thesis using demo_wheel_facts by auto
qed

section \<open>The properties\<close>

text \<open>C13: the wheel's own diagnostic. After any sequence of insertions, cancellations, reschedules and
  advances from a fresh wheel, \<open>check_invariants\<close> terminates and reports no error: links, back links,
  occupancy masks, counters, the free and retired entries and the cached next event are all exact.\<close>

theorem wheel_selfcheck:
  assumes "timer_init w" and "run timer_step w es w'"
  shows "wheel_check_invariants w' = Some (Inr ())"
  by (rule wheel_check_ok [OF timer.reachable_inv [OF assms]])

theorem wheel_selfcheck_witness: "\<exists>h w. timer_init demo_wheel \<and> run timer_step demo_wheel [Inserted 70 7 (Inr h)] w \<and>
    wheel_check_invariants w = Some (Inr ())"
proof -
  obtain w h where "run timer_step demo_wheel [Inserted 70 7 (Inr h)] w" using demo_insert [of 70 7] by auto
  then show ?thesis using wheel_selfcheck [OF demo_wheel_init] demo_wheel_init by blast
qed

text \<open>C14: sweeping delivers exactly what is due. On every reachable wheel, advancing the cursor to a later
  tick terminates, appends the tokens of exactly the timers whose deadline has been reached, each once, in
  the order of their deadlines (overdue ones first), removes exactly those timers, and leaves the cursor
  at the target. No timer fires early, late or twice, whatever cascading the levels needed.\<close>

theorem wheel_advance_exact:
  assumes "timer_init w0" and "run timer_step w0 es w" and "w_cursor w \<le> target" and "target \<le> MAX_TICK"
  shows "\<exists>w' hs. advance_to target out w = Some (w', out @ map (\<lambda>h. snd (the (timers w h))) hs) \<and> w_cursor w' = target \<and>
    distinct hs \<and> set hs = {h. \<exists>d t. timers w h = Some (d, t) \<and> d \<le> target} \<and>
    timers w' = timers w |` (- set hs) \<and> sorted (map (\<lambda>h. max (fst (the (timers w h))) (w_cursor w)) hs)"
  using wheel.advance_law [OF timer.reachable_inv [OF assms(1,2)] assms(3,4), of out] by blast

theorem wheel_advance_exact_witness: "\<exists>h w w'. timer_init demo_wheel \<and> run timer_step demo_wheel [Inserted 70 7 (Inr h)] w \<and>
    advance_to 100 [] w = Some (w', [7]) \<and> timers w' = Map.empty"
proof -
  obtain w h where w: "run timer_step demo_wheel [Inserted 70 7 (Inr h)] w" "timers w = [h \<mapsto> (70, 7)]" "w_cursor w = 0"
    using demo_insert [of 70 7] by auto
  obtain w' hs where a: "advance_to 100 [] w = Some (w', [] @ map (\<lambda>h. snd (the (timers w h))) hs)" "distinct hs"
    "set hs = {h. \<exists>d t. timers w h = Some (d, t) \<and> d \<le> 100}" "timers w' = timers w |` (- set hs)"
    using wheel_advance_exact [OF demo_wheel_init w(1), of 100 "[]"] w(3) by (auto simp: MAX_TICK_def TICK_NONE_def)
  have "set hs = {h}" using a(3) w(2) by (auto split: if_splits)
  then have "hs = [h]" using a(2) by (cases hs) (auto, metis insertI1 subset_singletonD set_empty)
  then show ?thesis using a w demo_wheel_init by (intro exI [of _ h] exI [of _ w] exI [of _ w']) (simp add: restrict_map_def fun_eq_iff)
qed

text \<open>C15: the sweep does not depend on how often it is called: advancing to \<open>a\<close> and then to \<open>b\<close> delivers the same
  multiset of tokens and leaves the same timers as advancing to \<open>b\<close> at once.\<close>

theorem wheel_two_sweeps:
  assumes "timer_init w0" and "run timer_step w0 es w" and "w_cursor w \<le> a" and "a \<le> b" and "b \<le> MAX_TICK"
    and "advance_to a [] w = Some (w1, xs)" and "advance_to b xs w1 = Some (w2, ys)" and "advance_to b [] w = Some (w3, zs)"
  shows "mset ys = mset zs \<and> timers w2 = timers w3"
  using wheel.advance_twice [OF timer.reachable_inv [OF assms(1,2)] assms(3-8)] .

theorem wheel_two_sweeps_witness: "\<exists>w1 xs w2 ys w3 zs. timer_init demo_wheel \<and> run timer_step demo_wheel [] demo_wheel \<and>
    advance_to 5 [] demo_wheel = Some (w1, xs) \<and> advance_to 9 xs w1 = Some (w2, ys) \<and> advance_to 9 [] demo_wheel = Some (w3, zs) \<and>
    mset ys = mset zs \<and> timers w2 = timers w3"
proof -
  have b: "(9 :: nat) \<le> MAX_TICK" "(5 :: nat) \<le> MAX_TICK" by (simp_all add: MAX_TICK_def TICK_NONE_def)
  obtain w1 xs where 1: "advance_to 5 [] demo_wheel = Some (w1, xs)" "wheel_inv w1" "w_cursor w1 = 5"
    using advance_timers [OF demo_wheel_facts(1) _ b(2), of "[]"] demo_wheel_facts(3) by auto
  obtain w2 ys where 2: "advance_to 9 xs w1 = Some (w2, ys)" using advance_timers [OF 1(2) _ b(1), of xs] 1(3) by auto
  obtain w3 zs where 3: "advance_to 9 [] demo_wheel = Some (w3, zs)"
    using advance_timers [OF demo_wheel_facts(1) _ b(1), of "[]"] demo_wheel_facts(3) by auto
  show ?thesis using wheel_two_sweeps [OF demo_wheel_init run_nil _ _ b(1) 1(1) 2 3] 1(1) 2 3 demo_wheel_init demo_wheel_facts(3) run_nil by auto
qed

text \<open>C16: insertion, every branch. A tick beyond the clock range, a deadline beyond the horizon and a full slab
  are reported in that order with the token handed back and the wheel unchanged; otherwise the call
  succeeds with a fresh handle and the new timer is the only change to what is pending.\<close>

theorem wheel_insert_spec:
  assumes "timer_init w0" and "run timer_step w0 es w"
  shows "(d > MAX_TICK \<longrightarrow> try_insert_at d t w = Some (w, Inl (TimeOutOfRange, t))) \<and>
    (d \<le> MAX_TICK \<and> w_cursor w + MAX_DELAY_TICKS < d \<longrightarrow> try_insert_at d t w = Some (w, Inl (DeadlineTooFar, t))) \<and>
    (d \<le> MAX_TICK \<and> d \<le> w_cursor w + MAX_DELAY_TICKS \<and> w_free w = NIL \<longrightarrow> try_insert_at d t w = Some (w, Inl (Full, t))) \<and>
    (d \<le> MAX_TICK \<and> d \<le> w_cursor w + MAX_DELAY_TICKS \<and> w_free w \<noteq> NIL \<longrightarrow>
      (\<exists>w' h. try_insert_at d t w = Some (w', Inr h) \<and> h \<notin> set (issued es) \<and> timers w h = None \<and>
         timers w' = (timers w)(h \<mapsto> (d, t)) \<and> w_cursor w' = w_cursor w))"
proof -
  have inv: "wheel_inv w" by (rule timer.reachable_inv [OF assms])
  have l: "ledger_ok (issued es) w" using ledger_run [OF assms(2) timer.init_inv [OF assms(1)] ledger_init [OF assms(1)]] by simp
  have f: "fits (w_cursor w) d \<longleftrightarrow> d \<le> MAX_TICK \<and> d \<le> w_cursor w + MAX_DELAY_TICKS" by (auto simp: fits_def)
  have "\<exists>w' h. try_insert_at d t w = Some (w', Inr h) \<and> h \<notin> set (issued es) \<and> timers w h = None \<and>
      timers w' = (timers w)(h \<mapsto> (d, t)) \<and> w_cursor w' = w_cursor w" if "fits (w_cursor w) d" "w_free w \<noteq> NIL"
  proof (rule insert_ok [OF inv that, of t])
    fix w' h assume h: "try_insert_at d t w = Some (w', Inr h)" "timers w h = None" "timers w' = (timers w)(h \<mapsto> (d, t))" "w_cursor w' = w_cursor w"
    have "call_effect w (Inserted d t (Inr h)) w'" by (rule timer_step_effect [OF inv]) (simp add: h(1))
    from ledger_step [OF l this] have "distinct (issued es @ issues (Inserted d t (Inr h)))" unfolding ledger_ok_def by blast
    then have "h \<notin> set (issued es)" by simp
    with h show ?thesis by blast
  qed
  then show ?thesis using f by (auto simp: insert_errors)
qed

theorem wheel_insert_spec_witness: "timer_init demo_wheel \<and> run timer_step demo_wheel [] demo_wheel \<and>
    try_insert_at (2 ^ 64) 7 demo_wheel = Some (demo_wheel, Inl (TimeOutOfRange, 7)) \<and>
    (\<exists>w h. try_insert_at 70 7 demo_wheel = Some (w, Inr h) \<and> timers w = [h \<mapsto> (70, 7)])"
  using wheel_insert_spec [OF demo_wheel_init run_nil, of "2 ^ 64" 7] wheel_insert_spec [OF demo_wheel_init run_nil, of 70 7]
    demo_wheel_init run_nil demo_wheel_facts demo_fits [of 70]
  by (auto simp: MAX_TICK_def TICK_NONE_def MAX_DELAY_TICKS_def SPAN_TICKS_def)

text \<open>C17: cancellation and rescheduling. \<open>cancel\<close> returns the token of exactly the timer its handle names and
  removes it, and does nothing for a handle that names none. \<open>reschedule_at\<close> looks at the deadline first: out of
  range, or beyond the horizon, is reported whatever the handle is, so also for a stale handle, where the
  documentation of \<open>TimerId\<close> promises \<open>StaleId\<close>; only a deadline that fits brings the handle into play, a stale one
  is then reported as such, and a live one moves its timer to the new deadline and keeps its handle and token.
  Every error leaves the wheel as it was.\<close>

theorem wheel_cancel_reschedule:
  assumes "timer_init w0" and "run timer_step w0 es w"
  shows "(\<exists>w'. cancel h w = Some (w', map_option snd (timers w h)) \<and> timers w' = (timers w)(h := None) \<and> w_cursor w' = w_cursor w) \<and>
    (\<exists>w' r. reschedule_at h d w = Some (w', r) \<and>
      (if d > MAX_TICK then r = Inl RTimeOutOfRange \<and> w' = w
       else if w_cursor w + MAX_DELAY_TICKS < d then r = Inl RDeadlineTooFar \<and> w' = w
       else (case timers w h of None \<Rightarrow> r = Inl RStaleId \<and> w' = w
             | Some (_, t) \<Rightarrow> r = Inr () \<and> timers w' = (timers w)(h \<mapsto> (d, t)) \<and> w_cursor w' = w_cursor w)))"
proof -
  have inv: "wheel_inv w" by (rule timer.reachable_inv [OF assms])
  have f: "fits (w_cursor w) d \<longleftrightarrow> d \<le> MAX_TICK \<and> d \<le> w_cursor w + MAX_DELAY_TICKS" by (auto simp: fits_def)
  have c: "\<exists>w'. cancel h w = Some (w', map_option snd (timers w h)) \<and> timers w' = (timers w)(h := None) \<and> w_cursor w' = w_cursor w"
    using wheel.cancel_law [OF inv, of h] by blast
  consider "d > MAX_TICK" | "d \<le> MAX_TICK" "\<not> fits (w_cursor w) d" | "fits (w_cursor w) d" "timers w h = None"
    | d0 t where "fits (w_cursor w) d" "timers w h = Some (d0, t)" by (cases "timers w h") force+
  then show ?thesis
  proof cases
    case 4
    show ?thesis by (rule reschedule_ok [OF inv 4]) (use c f 4 in auto)
  qed (use c f in \<open>auto simp: reschedule_errors\<close>)
qed

theorem wheel_cancel_reschedule_witness: "\<exists>h w w' w''. timer_init demo_wheel \<and> run timer_step demo_wheel [Inserted 70 7 (Inr h)] w \<and>
    cancel h w = Some (w', Some 7) \<and> timers w' = Map.empty \<and> reschedule_at h 80 w = Some (w'', Inr ()) \<and> timers w'' = [h \<mapsto> (80, 7)] \<and>
    reschedule_at (h + 1) (MAX_TICK + 1) w = Some (w, Inl RTimeOutOfRange) \<and> reschedule_at (h + 1) 80 w = Some (w, Inl RStaleId)"
proof -
  obtain w h where w: "run timer_step demo_wheel [Inserted 70 7 (Inr h)] w" "timers w = [h \<mapsto> (70, 7)]"
    using demo_insert [of 70 7] by auto
  have m: "\<not> 80 > MAX_TICK" "\<not> w_cursor w + MAX_DELAY_TICKS < 80" by (auto simp: MAX_TICK_def TICK_NONE_def MAX_DELAY_TICKS_def SPAN_TICKS_def)
  note t = wheel_cancel_reschedule [OF demo_wheel_init w(1)]
  show ?thesis using t [of h 80] t [of "h + 1" "MAX_TICK + 1"] t [of "h + 1" 80] w m demo_wheel_init by auto
qed

text \<open>C18: handles are never reused. The handles issued over any history are pairwise distinct, even though slab
  positions are recycled; once the timer of an issued handle has fired or been cancelled, that handle names
  no timer ever after, so cancelling or rescheduling with it cannot touch a later timer.\<close>

theorem wheel_handles_unique:
  assumes "timer_init w0" and "run timer_step w0 es w"
  shows "distinct (issued es) \<and> (\<forall>h fs w'. h \<in> set (issued es) \<and> timers w h = None \<and> run timer_step w fs w' \<longrightarrow>
    timers w' h = None \<and> cancel h w' = Some (w', None))"
proof -
  have l: "wheel_inv w" "ledger_ok (issued es) w"
    using ledger_run [OF assms(2) timer.init_inv [OF assms(1)] ledger_init [OF assms(1)]] by simp_all
  moreover have "cancel h w' = Some (w', None)" if "timers w' h = None" for w' :: "'a wheel" and h
    using that by (simp add: cancel_def timers_None)
  ultimately show ?thesis using dead_run [OF _ l] by (auto simp: ledger_ok_def)
qed

theorem wheel_handles_unique_witness: "\<exists>h w w'. timer_init demo_wheel \<and>
    run timer_step demo_wheel [Inserted 70 7 (Inr h), Cancelled h (Some 7)] w \<and> timers w h = None \<and>
    run timer_step w [] w' \<and> cancel h w' = Some (w', None)"
proof -
  obtain w h where w: "run timer_step demo_wheel [Inserted 70 7 (Inr h)] w" "timers w = [h \<mapsto> (70, 7)]" "wheel_inv w"
    using demo_insert [of 70 7] by auto
  obtain w' where c: "cancel h w = Some (w', Some 7)" "timers w' = Map.empty" using wheel.cancel_law [OF w(3), of h] w(2) by auto
  have r: "run timer_step demo_wheel [Inserted 70 7 (Inr h), Cancelled h (Some 7)] w'"
    using run_snoc [OF w(1), of "Cancelled h (Some 7)" w'] c(1) by simp
  have "h \<in> set (issued [Inserted 70 7 (Inr h), Cancelled h (Some 7)])" by (simp add: issued_def)
  with wheel_handles_unique [OF demo_wheel_init r] c(2) r demo_wheel_init run_nil show ?thesis by fastforce
qed

text \<open>C19: sleeping until the reported wakeup is safe. On every reachable wheel \<open>next_wakeup_tick\<close> is \<open>None\<close> exactly
  when nothing is pending; otherwise it is not in the past and no later than the earliest deadline (or now).
  While \<open>is_due_at\<close> is false nothing is due and advancing delivers nothing.\<close>

theorem wheel_wakeup_safe:
  assumes "timer_init w0" and "run timer_step w0 es w"
  shows "(next_wakeup_tick w = None \<longleftrightarrow> timers w = Map.empty) \<and>
    (\<forall>e. next_wakeup_tick w = Some e \<longrightarrow> w_cursor w \<le> e \<and> (\<forall>h d t. timers w h = Some (d, t) \<longrightarrow> e \<le> max d (w_cursor w))) \<and>
    (w_cursor w \<le> now \<and> now \<le> MAX_TICK \<and> \<not> is_due_at now w \<longrightarrow>
      advance_to now out w = Some (w\<lparr>w_cursor := now\<rparr>, out) \<and> (\<forall>h d t. timers w h = Some (d, t) \<longrightarrow> now < d))"
proof -
  have inv: "wheel_inv w" by (rule timer.reachable_inv [OF assms])
  obtain S F where wb: "wbut {} w S F" and ex: "w_next_event w = Min (insert TICK_NONE (ev S (w_cursor w)))" using wheel_invD [OF inv] .
  have early: "w_next_event w \<le> max d (w_cursor w) \<and> w_next_event w \<noteq> TICK_NONE" if th: "timers w h = Some (d, t)" for h d t
  proof -
    obtain g j where "tm w j = Some (g, d, t)" using th by (auto simp: timers_tm)
    then obtain v where "v \<in> ev S (w_cursor w)" "v \<le> max d (w_cursor w)" using live_visit [OF wb] by blast
    then show ?thesis using Min_event [OF wb ex, of v] by auto
  qed
  have "w_cursor w \<le> v" if "v \<in> insert TICK_NONE (ev S (w_cursor w))" for v
    using that visit_ge wbut_cursor_bound [OF wb] by (auto simp: ev_def MAX_TICK_def)
  then have past: "w_cursor w \<le> w_next_event w" using ex by simp
  have some: "timers w \<noteq> Map.empty" if "w_next_event w \<noteq> TICK_NONE"
  proof -
    have "w_next_event w \<in> ev S (w_cursor w)" using Min_in [of "insert TICK_NONE (ev S (w_cursor w))"] that ex by auto
    then obtain l s where ls: "l < LEVELS" "s < SLOTS" "S l s \<noteq> []" by (auto simp: ev_def)
    then have m: "hd (S l s) \<in> set (S l s)" by simp
    note e = slot_entry(1,3) [OF wb ls(1,2) m]
    then obtain g d t where "tm w (hd (S l s)) = Some (g, d, t)" by (auto simp: filed_ok_def tm_def)
    then have "timers w (handle w (hd (S l s))) = Some (d, t)" using handle_parts(2) [OF inv] by blast
    then show ?thesis by auto
  qed
  have "timers w = Map.empty" if "w_next_event w = TICK_NONE"
  proof (rule ccontr)
    assume "timers w \<noteq> Map.empty"
    then obtain h d t where "timers w h = Some (d, t)" by (metis not_None_eq surj_pair)
    then show False using early that by blast
  qed
  then have "next_wakeup_tick w = None \<longleftrightarrow> timers w = Map.empty" using some by (auto simp: next_wakeup_tick_def)
  moreover have "advance_to now out w = Some (w\<lparr>w_cursor := now\<rparr>, out) \<and> (\<forall>h d t. timers w h = Some (d, t) \<longrightarrow> now < d)"
    if "w_cursor w \<le> now" "now \<le> MAX_TICK" "\<not> is_due_at now w"
    using that early by (fastforce simp: advance_to_def is_due_at_def)
  ultimately show ?thesis using early past by (auto simp: next_wakeup_tick_def)
qed

theorem wheel_wakeup_safe_witness: "\<exists>h w e. timer_init demo_wheel \<and> run timer_step demo_wheel [Inserted 70 7 (Inr h)] w \<and>
    next_wakeup_tick w = Some e \<and> e \<le> 70"
proof -
  obtain w h where w: "run timer_step demo_wheel [Inserted 70 7 (Inr h)] w" "timers w = [h \<mapsto> (70, 7)]" "w_cursor w = 0"
    using demo_insert [of 70 7] by auto
  note p = wheel_wakeup_safe [OF demo_wheel_init w(1), of 0 "[]"]
  then obtain e where e: "next_wakeup_tick w = Some e" using w(2) by (cases "next_wakeup_tick w") auto
  then have "e \<le> max 70 0" using p w(2,3) by (metis fun_upd_same)
  then show ?thesis using e w(1) demo_wheel_init by auto
qed

text \<open>C20: durations. A deadline given as a duration is rounded up and the clock is rounded down, so a timer set for
  \<open>D\<close> nanoseconds is never delivered by an advance to a time before \<open>D\<close>, and is delivered by every advance to
  at least \<open>D\<close> plus one granule less a nanosecond.\<close>

theorem wheel_never_early:
  assumes "timer_init w0" and "run timer_step w0 es w" and "try_insert_duration shift D t w = Some (w1, Inr h)"
    and "advance_duration shift N [] w1 = Some (Some (w2, ts))" and "w_cursor w \<le> N div 2 ^ shift"
  shows "(timers w2 h = None \<longrightarrow> D \<le> N) \<and> (D + granularity shift \<le> N + 1 \<longrightarrow> t \<in> set ts \<and> timers w2 h = None)"
proof -
  let ?g = "2 ^ shift :: nat"
  obtain d where d: "duration_to_tick_ceil shift D = Some d" "try_insert_at d t w = Some (w1, Inr h)"
    using assms(3) by (auto simp: try_insert_duration_def split: option.splits)
  obtain n where n: "duration_to_tick_floor shift N = Some n" "advance_to n [] w1 = Some (w2, ts)"
    using assms(4) by (auto simp: advance_duration_def split: option.splits)
  have nv: "n = N div ?g" "n \<le> MAX_TICK" using n(1) by (auto simp: duration_to_tick_floor_def Let_def split: if_splits)
  have dv: "d = D div ?g + (if D mod ?g \<noteq> 0 then 1 else 0)" using d(1) by (auto simp: duration_to_tick_ceil_def Let_def split: if_splits)
  note eff = wheel.insert_advance [OF timer.reachable_inv [OF assms(1,2)] d(2) _ nv(2) n(2)]
  have "D div ?g * ?g + D mod ?g = D" by (rule div_mult_mod_eq)
  moreover have "D mod ?g < ?g" by simp
  ultimately have up: "D \<le> d * ?g" "d * ?g < D + ?g" unfolding dv by (cases "D mod ?g = 0"; simp add: add_mult_distrib; linarith)+
  have "N div ?g * ?g + N mod ?g = N" by (rule div_mult_mod_eq)
  moreover have "N mod ?g < ?g" by simp
  ultimately have dn: "n * ?g \<le> N" "N < n * ?g + ?g" unfolding nv by linarith+
  have "D \<le> N" if "d \<le> n" using up(1) dn(1) mult_le_mono1 [OF that, of ?g] by linarith
  moreover have "d \<le> n" if "D + ?g \<le> N + 1"
  proof (rule ccontr)
    assume "\<not> d \<le> n"
    then have "(n + 1) * ?g \<le> d * ?g" by (intro mult_le_mono1) simp
    then show False using up(2) dn(2) that by (simp add: algebra_simps)
  qed
  ultimately show ?thesis using eff assms(5) nv(1) by (auto simp: granularity_def split: if_splits)
qed

theorem wheel_never_early_witness: "\<exists>h w1 w2 ts. timer_init demo_wheel \<and> run timer_step demo_wheel [] demo_wheel \<and>
    try_insert_duration 3 20 7 demo_wheel = Some (w1, Inr h) \<and> advance_duration 3 27 [] w1 = Some (Some (w2, ts)) \<and> 7 \<in> set ts"
proof -
  have d: "duration_to_tick_ceil 3 20 = Some 3" "duration_to_tick_floor 3 27 = Some 3" and b: "(3 :: nat) \<le> MAX_TICK"
    by (simp_all add: duration_to_tick_ceil_def duration_to_tick_floor_def MAX_TICK_def TICK_NONE_def)
  obtain w h where w: "try_insert_at 3 7 demo_wheel = Some (w, Inr h)" "wheel_inv w" "w_cursor w = 0"
    using demo_insert [of 3 7] by auto
  obtain w2 ts where a: "advance_to 3 [] w = Some (w2, ts)" using advance_timers [OF w(2) _ b, of "[]"] w(3) by auto
  have i: "try_insert_duration 3 20 7 demo_wheel = Some (w, Inr h)" using d(1) w(1) by (simp add: try_insert_duration_def)
  have v: "advance_duration 3 27 [] w = Some (Some (w2, ts))" using d(2) a by (simp add: advance_duration_def)
  show ?thesis using wheel_never_early [OF demo_wheel_init run_nil i v] i v demo_wheel_init run_nil demo_wheel_facts(3)
    by (auto simp: granularity_def)
qed

end
