(* ===== verification/Ring.thy ===== *)
theory Ring
  imports Prelude Machine "HOL-Library.Log_Nat"
begin

text \<open>
  The bounded multi-producer single-consumer ring of \<^verbatim>\<open>crates/grommet-core/src/ring.rs\<close>. The ring is
  shared memory: every load, compare-exchange, cell access and store of \<open>try_push\<close> and \<open>pop\<close> is one
  atomic step, and the steps of any number of producers and of the consumer interleave arbitrarily.
  Positions are \<open>usize\<close> values, natural numbers below \<open>2 ^ 64\<close> with the wrapping written out; masking
  with \<open>one_lap - 1\<close> is the remainder by the power of two \<open>one_lap\<close>. The steps are sequentially
  consistent: the acquire and release annotations of the code are not weakened further.
\<close>

section \<open>The shared ring\<close>

definition wrap :: "nat \<Rightarrow> nat" where
  "wrap x = x mod 2 ^ 64"

record 'v cell =
  cell_stamp :: nat
  cell_value :: "'v option"

record 'v ring =
  rg_tail :: nat
  rg_slots :: "'v cell list"
  rg_capacity :: nat
  rg_one_lap :: nat

definition RING_MAX_CAPACITY :: nat where
  "RING_MAX_CAPACITY = 2 ^ 63 - 1"

definition index_of :: "'v ring \<Rightarrow> nat \<Rightarrow> nat" where
  "index_of r position = position mod rg_one_lap r"

definition advance_position :: "'v ring \<Rightarrow> nat \<Rightarrow> nat" where
  "advance_position r position =
     (if index_of r position + 1 < rg_capacity r then position + 1
      else wrap (position - position mod rg_one_lap r + rg_one_lap r))"

definition next_power_of_two :: "nat \<Rightarrow> nat" where
  "next_power_of_two n = (if n \<le> 1 then 1 else 2 ^ floorlog 2 (n - 1))"

definition bounded :: "nat \<Rightarrow> 'v ring option" where
  "bounded cap =
     (if cap = 0 \<or> cap > RING_MAX_CAPACITY then None
      else Some \<lparr>rg_tail = 0, rg_slots = map (\<lambda>i. \<lparr>cell_stamp = i, cell_value = None\<rparr>) [0..<cap], rg_capacity = cap,
                 rg_one_lap = next_power_of_two (cap + 1)\<rparr>)"

definition slot_at :: "'v ring \<Rightarrow> nat \<Rightarrow> 'v cell" where
  "slot_at r position = rg_slots r ! index_of r position"

definition put_slot :: "nat \<Rightarrow> 'v cell \<Rightarrow> 'v ring \<Rightarrow> 'v ring" where
  "put_slot position c r = r\<lparr>rg_slots := (rg_slots r)[index_of r position := c]\<rparr>"

section \<open>One step of a producer, one step of the consumer\<close>

text \<open>Where a call of \<open>try_push\<close> stands: before the stamp is read, before the branch on it, after the
  claim, and before the publication. The value travels with it until it is written.\<close>

datatype 'v push_pc = PIdle | PStamp 'v nat | PDecide 'v nat nat | PWrite 'v nat | PPublish nat

datatype 'v push_result = Pushed | Handed_back 'v

definition push_start :: "'v \<Rightarrow> 'v ring \<Rightarrow> 'v push_pc" where
  "push_start v r = PStamp v (rg_tail r)"

definition push_stamp :: "'v \<Rightarrow> nat \<Rightarrow> 'v ring \<Rightarrow> 'v push_pc" where
  "push_stamp v t r = PDecide v t (cell_stamp (slot_at r t))"

text \<open>The branch taken when the stamp does not name the position.\<close>

definition push_look_again :: "'v \<Rightarrow> nat \<Rightarrow> nat \<Rightarrow> 'v ring \<Rightarrow> 'v push_pc \<times> 'v push_result option" where
  "push_look_again v t s r =
     (if wrap (s + rg_one_lap r) = wrap (t + 1) then (PIdle, Some (Handed_back v))
      else if rg_tail r = t then (PIdle, Some (Handed_back v))
      else (PStamp v (rg_tail r), None))"

text \<open>The compare-exchange; a weak one may also fail spuriously.\<close>

definition push_claim :: "'v \<Rightarrow> nat \<Rightarrow> 'v ring \<Rightarrow> 'v ring \<times> 'v push_pc" where
  "push_claim v t r =
     (if rg_tail r = t then (r\<lparr>rg_tail := advance_position r t\<rparr>, PWrite v t) else (r, PStamp v (rg_tail r)))"

definition push_write :: "'v \<Rightarrow> nat \<Rightarrow> 'v ring \<Rightarrow> 'v ring" where
  "push_write v t r = put_slot t ((slot_at r t)\<lparr>cell_value := Some v\<rparr>) r"

definition push_publish :: "nat \<Rightarrow> 'v ring \<Rightarrow> 'v ring" where
  "push_publish t r = put_slot t ((slot_at r t)\<lparr>cell_stamp := wrap (t + 1)\<rparr>) r"

datatype 'v pop_pc = CIdle | CTake | CRelease "'v option"

definition ring_is_empty :: "nat \<Rightarrow> 'v ring \<Rightarrow> bool" where
  "ring_is_empty position r \<longleftrightarrow> cell_stamp (slot_at r position) \<noteq> wrap (position + 1)"

definition pop_take :: "nat \<Rightarrow> 'v ring \<Rightarrow> 'v ring \<times> 'v option" where
  "pop_take position r = (put_slot position ((slot_at r position)\<lparr>cell_value := None\<rparr>) r, cell_value (slot_at r position))"

definition pop_release :: "nat \<Rightarrow> 'v ring \<Rightarrow> 'v ring \<times> nat" where
  "pop_release position r =
     (put_slot position ((slot_at r position)\<lparr>cell_stamp := wrap (position + rg_one_lap r)\<rparr>) r, advance_position r position)"

section \<open>Interleavings\<close>

text \<open>The whole system: the ring, the consumer's own head, where the consumer and every producer stand, and two
  history variables, the values in the order their positions were claimed and the values popped.\<close>

record 'v ring_sys =
  rs_ring :: "'v ring"
  rs_head :: nat
  rs_consumer :: "'v pop_pc"
  rs_producer :: "nat \<Rightarrow> 'v push_pc"
  rs_claims :: "'v list"
  rs_pops :: "'v option list"

datatype 'v ring_event = Quiet | Claim nat 'v | Reject nat 'v | Publish nat | Pop "'v option" | Nothing_yet

inductive ring_step :: "'v ring_sys \<Rightarrow> 'v ring_event \<Rightarrow> 'v ring_sys \<Rightarrow> bool" where
  step_ring_start: "rs_producer s p = PIdle \<Longrightarrow> ring_step s Quiet (s\<lparr>rs_producer := (rs_producer s)(p := push_start v (rs_ring s))\<rparr>)"
| step_ring_stamp: "rs_producer s p = PStamp v t \<Longrightarrow> ring_step s Quiet (s\<lparr>rs_producer := (rs_producer s)(p := push_stamp v t (rs_ring s))\<rparr>)"
| step_ring_claim: "rs_producer s p = PDecide v t st \<Longrightarrow> st = t \<Longrightarrow> rg_tail (rs_ring s) = t \<Longrightarrow> push_claim v t (rs_ring s) = (r, pc) \<Longrightarrow>
    ring_step s (Claim p v) (s\<lparr>rs_ring := r, rs_producer := (rs_producer s)(p := pc), rs_claims := rs_claims s @ [v]\<rparr>)"
| step_ring_lost: "rs_producer s p = PDecide v t st \<Longrightarrow> st = t \<Longrightarrow> rg_tail (rs_ring s) \<noteq> t \<Longrightarrow> push_claim v t (rs_ring s) = (r, pc) \<Longrightarrow>
    ring_step s Quiet (s\<lparr>rs_ring := r, rs_producer := (rs_producer s)(p := pc)\<rparr>)"
| step_ring_spurious: "rs_producer s p = PDecide v t st \<Longrightarrow> st = t \<Longrightarrow>
    ring_step s Quiet (s\<lparr>rs_producer := (rs_producer s)(p := PStamp v (rg_tail (rs_ring s)))\<rparr>)"
| step_ring_again: "rs_producer s p = PDecide v t st \<Longrightarrow> st \<noteq> t \<Longrightarrow> push_look_again v t st (rs_ring s) = (pc, None) \<Longrightarrow>
    ring_step s Quiet (s\<lparr>rs_producer := (rs_producer s)(p := pc)\<rparr>)"
| step_ring_reject: "rs_producer s p = PDecide v t st \<Longrightarrow> st \<noteq> t \<Longrightarrow> push_look_again v t st (rs_ring s) = (pc, Some (Handed_back w)) \<Longrightarrow>
    ring_step s (Reject p w) (s\<lparr>rs_producer := (rs_producer s)(p := pc)\<rparr>)"
| step_ring_write: "rs_producer s p = PWrite v t \<Longrightarrow>
    ring_step s Quiet (s\<lparr>rs_ring := push_write v t (rs_ring s), rs_producer := (rs_producer s)(p := PPublish t)\<rparr>)"
| step_ring_publish: "rs_producer s p = PPublish t \<Longrightarrow>
    ring_step s (Publish p) (s\<lparr>rs_ring := push_publish t (rs_ring s), rs_producer := (rs_producer s)(p := PIdle)\<rparr>)"
| step_ring_nothing: "rs_consumer s = CIdle \<Longrightarrow> ring_is_empty (rs_head s) (rs_ring s) \<Longrightarrow> ring_step s Nothing_yet s"
| step_ring_seen: "rs_consumer s = CIdle \<Longrightarrow> \<not> ring_is_empty (rs_head s) (rs_ring s) \<Longrightarrow> ring_step s Quiet (s\<lparr>rs_consumer := CTake\<rparr>)"
| step_ring_take: "rs_consumer s = CTake \<Longrightarrow> pop_take (rs_head s) (rs_ring s) = (r, v) \<Longrightarrow>
    ring_step s Quiet (s\<lparr>rs_ring := r, rs_consumer := CRelease v\<rparr>)"
| step_ring_release: "rs_consumer s = CRelease v \<Longrightarrow> pop_release (rs_head s) (rs_ring s) = (r, h) \<Longrightarrow>
    ring_step s (Pop v) (s\<lparr>rs_ring := r, rs_head := h, rs_consumer := CIdle, rs_pops := rs_pops s @ [v]\<rparr>)"

definition ring_init :: "nat \<Rightarrow> 'v ring_sys \<Rightarrow> bool" where
  "ring_init cap s \<longleftrightarrow> (\<exists>r. bounded cap = Some r \<and>
     s = \<lparr>rs_ring = r, rs_head = 0, rs_consumer = CIdle, rs_producer = (\<lambda>_. PIdle), rs_claims = [], rs_pops = []\<rparr>)"

end
