(* ===== verification/Ring_Props.thy ===== *)
theory Ring_Props
  imports Ring
begin

text \<open>
  Correctness of the ring under every interleaving: values leave in the order their positions were
  claimed, no slot is ever accessed by two parties at once, a published slot holds its value, and the
  ring never holds more than its capacity.
\<close>

section \<open>Positions\<close>

text \<open>The position of the \<open>k\<close>-th push, and how many pushes fit before positions repeat.\<close>

definition laps :: "'v ring \<Rightarrow> nat" where
  "laps r = 2 ^ 64 div rg_one_lap r"

definition enc :: "'v ring \<Rightarrow> nat \<Rightarrow> nat" where
  "enc r k = (k div rg_capacity r mod laps r) * rg_one_lap r + k mod rg_capacity r"

definition ring_shape :: "'v ring \<Rightarrow> bool" where
  "ring_shape r \<longleftrightarrow> 0 < rg_capacity r \<and> rg_capacity r < rg_one_lap r \<and> rg_one_lap r \<le> 2 * rg_capacity r \<and>
     rg_one_lap r * laps r = 2 ^ 64 \<and> 2 \<le> laps r \<and> length (rg_slots r) = rg_capacity r"

lemma next_power_bounds:
  assumes "0 < c"
  shows "\<exists>m. next_power_of_two (c + 1) = 2 ^ m \<and> c < 2 ^ m \<and> 2 ^ m \<le> 2 * c"
proof -
  define m where "m = floorlog 2 c"
  have "0 < m" using assms by (simp add: m_def floorlog_def)
  have "c < 2 ^ m" using floorlog_le_iff [of 2 c m] by (simp add: m_def)
  moreover have "\<not> m \<le> m - 1" using \<open>0 < m\<close> by simp
  then have "\<not> c < 2 ^ (m - 1)" using floorlog_le_iff [of 2 c "m - 1"] unfolding m_def by simp
  then have "2 ^ m \<le> 2 * c" using \<open>0 < m\<close> by (cases m) auto
  moreover have "next_power_of_two (c + 1) = 2 ^ m" using assms by (simp add: next_power_of_two_def m_def)
  ultimately show ?thesis by blast
qed

lemma bounded_shape: "bounded c = Some r \<Longrightarrow> ring_shape r \<and> rg_capacity r = c \<and> rg_tail r = 0 \<and>
    (\<forall>i<c. rg_slots r ! i = \<lparr>cell_stamp = i, cell_value = None\<rparr>)"
proof -
  assume b: "bounded c = Some r"
  then have c: "0 < c" "c \<le> 2 ^ 63 - 1" by (auto simp: bounded_def RING_MAX_CAPACITY_def split: if_splits)
  obtain m where m: "next_power_of_two (c + 1) = 2 ^ m" "c < 2 ^ m" "2 ^ m \<le> 2 * c" using next_power_bounds [OF c(1)] by blast
  have "(2 :: nat) ^ m < 2 ^ 64" using m(3) c by simp
  then have "m < 64" by (rule power_less_imp_less_exp [rotated]) simp
  have e: "(2 :: nat) ^ m * 2 ^ (64 - m) = 2 ^ 64" unfolding power_add [symmetric] using \<open>m < 64\<close> by simp
  then have "(2 :: nat) ^ 64 div 2 ^ m = 2 ^ (64 - m)" by (metis nonzero_mult_div_cancel_left power_not_zero zero_neq_numeral)
  moreover have "(2 :: nat) ^ 1 \<le> 2 ^ (64 - m)" using \<open>m < 64\<close> by (intro power_increasing) auto
  ultimately have l: "(2 :: nat) ^ m * (2 ^ 64 div 2 ^ m) = 2 ^ 64" "2 \<le> (2 :: nat) ^ 64 div 2 ^ m" using e by simp_all
  have r: "r = \<lparr>rg_tail = 0, rg_slots = map (\<lambda>i. \<lparr>cell_stamp = i, cell_value = None\<rparr>) [0..<c], rg_capacity = c, rg_one_lap = 2 ^ m\<rparr>"
    using b m(1) by (auto simp: bounded_def split: if_splits)
  show ?thesis unfolding r ring_shape_def laps_def using c m(2,3) l by (intro conjI) simp_all
qed

lemma mod_cap: "ring_shape r \<Longrightarrow> k mod rg_capacity r < rg_capacity r" "ring_shape r \<Longrightarrow> k mod rg_capacity r + 1 < rg_one_lap r + 1"
  "ring_shape r \<Longrightarrow> k mod rg_capacity r < rg_one_lap r"
proof -
  assume r: "ring_shape r"
  then have "0 < rg_capacity r" "rg_capacity r < rg_one_lap r" by (simp_all add: ring_shape_def)
  then show "k mod rg_capacity r < rg_capacity r" "k mod rg_capacity r + 1 < rg_one_lap r + 1" "k mod rg_capacity r < rg_one_lap r"
    using mod_less_divisor [of "rg_capacity r" k] by linarith+
qed

lemma index_enc [simp]: "ring_shape r \<Longrightarrow> index_of r (enc r k) = k mod rg_capacity r"
  using mod_cap(3) [of r k] by (simp add: index_of_def enc_def)

lemma enc_bound:
  assumes "ring_shape r"
  shows "enc r k + 1 < 2 ^ 64"
proof -
  have "k div rg_capacity r mod laps r + 1 \<le> laps r" using assms by (simp add: ring_shape_def Suc_le_eq)
  then have "(k div rg_capacity r mod laps r + 1) * rg_one_lap r \<le> 2 ^ 64" using assms by (metis mult.commute mult_le_mono1 ring_shape_def)
  moreover have "k mod rg_capacity r < rg_capacity r" "rg_capacity r < rg_one_lap r" using assms mod_cap(1) by (auto simp: ring_shape_def)
  ultimately show ?thesis unfolding enc_def add_mult_distrib by linarith
qed

lemma wrap_enc [simp]: "ring_shape r \<Longrightarrow> wrap (enc r k + 1) = enc r k + 1" "ring_shape r \<Longrightarrow> wrap (Suc (enc r k)) = Suc (enc r k)"
  using enc_bound [of r k] by (simp_all add: wrap_def)

lemma lap_wrap: "ring_shape r \<Longrightarrow> wrap ((q mod laps r + 1) * rg_one_lap r) = (q + 1) mod laps r * rg_one_lap r"
proof -
  assume "ring_shape r"
  then have "wrap ((q mod laps r + 1) * rg_one_lap r) = ((q mod laps r + 1) * rg_one_lap r) mod (laps r * rg_one_lap r)"
    by (simp add: ring_shape_def mult.commute wrap_def)
  also have "\<dots> = (q mod laps r + 1) mod laps r * rg_one_lap r" by (rule mod_mult_mult2)
  also have "(q mod laps r + 1) mod laps r = (q + 1) mod laps r" by (rule mod_add_left_eq)
  finally show ?thesis .
qed

lemma advance_enc [simp]:
  assumes "ring_shape r"
  shows "advance_position r (enc r k) = enc r (Suc k)"
proof (cases "k mod rg_capacity r + 1 < rg_capacity r")
  case True
  then have "Suc k mod rg_capacity r = k mod rg_capacity r + 1" "Suc k div rg_capacity r = k div rg_capacity r"
    by (auto simp: mod_Suc div_Suc)
  then show ?thesis using True assms by (simp add: advance_position_def) (simp add: enc_def)
next
  case False
  have "k mod rg_capacity r < rg_capacity r" using assms by (simp add: ring_shape_def)
  with False have s: "Suc k mod rg_capacity r = 0" "Suc k div rg_capacity r = k div rg_capacity r + 1"
    by (auto simp: mod_Suc div_Suc)
  have "enc r k - enc r k mod rg_one_lap r = (k div rg_capacity r mod laps r) * rg_one_lap r"
    using index_enc [OF assms, of k] by (simp add: index_of_def enc_def)
  then have "advance_position r (enc r k) = wrap ((k div rg_capacity r mod laps r + 1) * rg_one_lap r)"
    using False assms by (simp add: advance_position_def algebra_simps)
  also have "\<dots> = enc r (Suc k)" using lap_wrap [OF assms] s by (simp add: enc_def)
  finally show ?thesis .
qed

lemma enc_lap:
  assumes "ring_shape r"
  shows "wrap (enc r k + rg_one_lap r) = enc r (k + rg_capacity r)"
proof -
  let ?q = "k div rg_capacity r" and ?m = "k mod rg_capacity r"
  have c: "0 < rg_capacity r" using assms by (simp add: ring_shape_def)
  have k: "(k + rg_capacity r) div rg_capacity r = ?q + 1" "(k + rg_capacity r) mod rg_capacity r = ?m" using c by simp_all
  have "enc r k + rg_one_lap r = (?q mod laps r + 1) * rg_one_lap r + ?m" by (simp add: enc_def)
  then have "wrap (enc r k + rg_one_lap r) = wrap (wrap ((?q mod laps r + 1) * rg_one_lap r) + ?m)" unfolding wrap_def by (metis mod_add_left_eq)
  also have "\<dots> = wrap (enc r (k + rg_capacity r))" unfolding lap_wrap [OF assms] enc_def k ..
  also have "\<dots> = enc r (k + rg_capacity r)" using enc_bound [OF assms, of "k + rg_capacity r"] by (simp add: wrap_def)
  finally show ?thesis .
qed

text \<open>Positions of the same slot one lap apart differ, also when the consumer's next stamp is compared.\<close>

lemma enc_lap_ne:
  assumes "ring_shape r"
  shows "enc r (k + rg_capacity r) \<noteq> enc r k" "enc r (k + rg_capacity r) \<noteq> enc r k + 1"
proof -
  let ?q = "k div rg_capacity r" and ?m = "k mod rg_capacity r"
  have c: "0 < rg_capacity r" "rg_capacity r < rg_one_lap r" "2 \<le> laps r" using assms by (auto simp: ring_shape_def)
  have k: "(k + rg_capacity r) div rg_capacity r = ?q + 1" "(k + rg_capacity r) mod rg_capacity r = ?m" using c by simp_all
  have "(?q + 1) mod laps r \<noteq> ?q mod laps r"
  proof
    assume "(?q + 1) mod laps r = ?q mod laps r"
    then have "laps r dvd 1" using mod_eq_dvd_iff_nat [of ?q "?q + 1" "laps r"] by simp
    then show False using c(3) by simp
  qed
  then have ne: "(?q + 1) mod laps r * rg_one_lap r \<noteq> ?q mod laps r * rg_one_lap r" using c by simp
  then show "enc r (k + rg_capacity r) \<noteq> enc r k" unfolding enc_def k by simp
  have "1 < rg_one_lap r" using c by linarith
  then have "((?q + 1) mod laps r * rg_one_lap r) mod rg_one_lap r = 0" "(?q mod laps r * rg_one_lap r + 1) mod rg_one_lap r = 1"
    using mod_mult_self3 [of "?q mod laps r" "rg_one_lap r" 1] by simp_all
  then have "(?q + 1) mod laps r * rg_one_lap r \<noteq> ?q mod laps r * rg_one_lap r + 1" by (metis zero_neq_one)
  then show "enc r (k + rg_capacity r) \<noteq> enc r k + 1" unfolding enc_def k by (metis Suc_eq_plus1 add.commute add_left_cancel add_Suc_right)
qed

definition horizon :: "'v ring \<Rightarrow> nat" where
  "horizon r = rg_capacity r * laps r"

lemma horizon_large: "ring_shape r \<Longrightarrow> 2 ^ 63 \<le> horizon r"
proof -
  assume "ring_shape r"
  then have "2 ^ 64 \<le> 2 * rg_capacity r * laps r" by (metis mult_le_mono1 ring_shape_def)
  then show ?thesis by (simp add: horizon_def)
qed

lemma enc_inj:
  assumes "ring_shape r" and "a < horizon r" "b < horizon r" and "enc r a = enc r b"
  shows "a = b"
proof -
  have l: "a div rg_capacity r < laps r" "b div rg_capacity r < laps r"
    using assms(2,3) by (simp_all add: horizon_def less_mult_imp_div_less mult.commute)
  have m: "a mod rg_capacity r = b mod rg_capacity r" using index_enc [OF assms(1)] assms(4) by metis
  then have "a div rg_capacity r * rg_one_lap r = b div rg_capacity r * rg_one_lap r" using assms(4) l by (simp add: enc_def)
  then have "a div rg_capacity r = b div rg_capacity r" using assms(1) by (auto simp: ring_shape_def)
  with m show ?thesis by (metis div_mult_mod_eq)
qed

section \<open>The invariant\<close>

lemma put_slot_simps [simp]:
  "rg_capacity (put_slot t c r) = rg_capacity r" "rg_one_lap (put_slot t c r) = rg_one_lap r" "rg_tail (put_slot t c r) = rg_tail r"
  "length (rg_slots (put_slot t c r)) = length (rg_slots r)"
  by (simp_all add: put_slot_def)

lemma enc_put [simp]: "enc (put_slot t c r) = enc r" "enc (r\<lparr>rg_tail := x\<rparr>) = enc r"
  by (simp_all add: enc_def laps_def fun_eq_iff)

lemma shape_put [simp]: "ring_shape (put_slot t c r) = ring_shape r" "ring_shape (r\<lparr>rg_tail := x\<rparr>) = ring_shape r"
  by (simp_all add: ring_shape_def laps_def)

lemma horizon_put [simp]: "horizon (put_slot t c r) = horizon r" "horizon (r\<lparr>rg_tail := x\<rparr>) = horizon r"
  by (simp_all add: horizon_def laps_def)

lemma slots_put:
  "ring_shape r \<Longrightarrow> rg_slots (put_slot (enc r k) c r) ! (j mod rg_capacity r) =
     (if j mod rg_capacity r = k mod rg_capacity r then c else rg_slots r ! (j mod rg_capacity r))"
  using mod_cap(1) [of r k] by (simp add: put_slot_def ring_shape_def)

lemma slot_at_enc: "ring_shape r \<Longrightarrow> slot_at r (enc r k) = rg_slots r ! (k mod rg_capacity r)"
  by (simp add: slot_at_def)

lemma mod_window:
  assumes "h \<le> a" "a < h + c" "h \<le> b" "b < h + c" "a mod c = b mod c"
  shows "a = (b :: nat)"
proof (rule ccontr)
  assume "a \<noteq> b"
  then consider "a < b" | "b < a" by linarith
  then show False
  proof cases
    case 1
    then have "c dvd b - a" using assms(5) by (metis less_imp_le mod_eq_dvd_iff_nat)
    then show False using 1 assms by (auto dest: dvd_imp_le)
  next
    case 2
    then have "c dvd a - b" using assms(5) by (metis less_imp_le mod_eq_dvd_iff_nat)
    then show False using 2 assms by (auto dest: dvd_imp_le)
  qed
qed

text \<open>The parties that hold a position: a producer between its claim and its publication.\<close>

definition owns :: "'v ring_sys \<Rightarrow> nat \<Rightarrow> nat \<Rightarrow> bool" where
  "owns s p t \<longleftrightarrow> (\<exists>v. rs_producer s p = PWrite v t) \<or> rs_producer s p = PPublish t"

definition writing :: "(nat \<Rightarrow> 'v push_pc) \<Rightarrow> nat \<Rightarrow> bool" where
  "writing f t \<longleftrightarrow> (\<exists>q v. f q = PWrite v t)"

definition publishing :: "(nat \<Rightarrow> 'v push_pc) \<Rightarrow> nat \<Rightarrow> bool" where
  "publishing f t \<longleftrightarrow> (\<exists>q. f q = PPublish t)"

lemma writing_upd: "writing (f(p := pc)) t \<longleftrightarrow> (\<exists>v. pc = PWrite v t) \<or> (\<exists>q v. q \<noteq> p \<and> f q = PWrite v t)"
  "publishing (f(p := pc)) t \<longleftrightarrow> pc = PPublish t \<or> (\<exists>q. q \<noteq> p \<and> f q = PPublish t)"
  by (auto simp: writing_def publishing_def)

lemma writing_at: "writing f t \<longleftrightarrow> (\<exists>v. f p = PWrite v t) \<or> (\<exists>q v. q \<noteq> p \<and> f q = PWrite v t)"
  "publishing f t \<longleftrightarrow> f p = PPublish t \<or> (\<exists>q. q \<noteq> p \<and> f q = PPublish t)"
  unfolding writing_def publishing_def by metis+

lemma owns_iff: "owns s p t \<Longrightarrow> writing (rs_producer s) t \<or> publishing (rs_producer s) t"
  "writing (rs_producer s) t \<or> publishing (rs_producer s) t \<Longrightarrow> \<exists>p. owns s p t"
  by (auto simp: owns_def writing_def publishing_def)

definition expected :: "'v ring_sys \<Rightarrow> nat \<Rightarrow> 'v cell" where
  "expected s k =
     (let t = enc (rs_ring s) k in
      if length (rs_claims s) \<le> k \<or> writing (rs_producer s) t then \<lparr>cell_stamp = t, cell_value = None\<rparr>
      else if publishing (rs_producer s) t then \<lparr>cell_stamp = t, cell_value = Some (rs_claims s ! k)\<rparr>
      else if k = length (rs_pops s) \<and> (\<exists>v. rs_consumer s = CRelease v) then \<lparr>cell_stamp = t + 1, cell_value = None\<rparr>
      else \<lparr>cell_stamp = t + 1, cell_value = Some (rs_claims s ! k)\<rparr>)"

definition push_ok :: "'v ring_sys \<Rightarrow> 'v push_pc \<Rightarrow> bool" where
  "push_ok s pc \<longleftrightarrow>
     (let r = rs_ring s; T = length (rs_claims s); H = length (rs_pops s) in
      case pc of
        PIdle \<Rightarrow> True
      | PStamp v t \<Rightarrow> \<exists>k\<le>T. t = enc r k
      | PDecide v t st \<Rightarrow> \<exists>k\<le>T. t = enc r k \<and> (st = t \<longrightarrow> k < H + rg_capacity r)
      | PWrite v t \<Rightarrow> \<exists>k. H \<le> k \<and> k < T \<and> t = enc r k \<and> rs_claims s ! k = v
      | PPublish t \<Rightarrow> \<exists>k. H \<le> k \<and> k < T \<and> t = enc r k)"

definition pop_ok :: "'v ring_sys \<Rightarrow> bool" where
  "pop_ok s \<longleftrightarrow>
     (let H = length (rs_pops s); free = (H < length (rs_claims s) \<and> (\<forall>p. \<not> owns s p (enc (rs_ring s) H))) in
      case rs_consumer s of CIdle \<Rightarrow> True | CTake \<Rightarrow> free | CRelease v \<Rightarrow> free \<and> v = Some (rs_claims s ! H))"

definition ring_ok :: "'v ring_sys \<Rightarrow> bool" where
  "ring_ok s \<longleftrightarrow>
     (let r = rs_ring s; T = length (rs_claims s); H = length (rs_pops s) in
      ring_shape r \<and> rg_tail r = enc r T \<and> rs_head s = enc r H \<and> H \<le> T \<and> T \<le> H + rg_capacity r \<and>
      rs_pops s = map Some (take H (rs_claims s)) \<and>
      (\<forall>k. H \<le> k \<and> k < H + rg_capacity r \<longrightarrow> rg_slots r ! (k mod rg_capacity r) = expected s k) \<and>
      (\<forall>p. push_ok s (rs_producer s p)) \<and> (\<forall>p q t. owns s p t \<and> owns s q t \<longrightarrow> p = q) \<and> pop_ok s)"

lemma ring_okD:
  assumes "ring_ok s"
  defines "r \<equiv> rs_ring s" and "T \<equiv> length (rs_claims s)" and "H \<equiv> length (rs_pops s)"
  shows "ring_shape r" "rg_tail r = enc r T" "rs_head s = enc r H" "H \<le> T" "T \<le> H + rg_capacity r"
    "rs_pops s = map Some (take H (rs_claims s))" "\<And>k. H \<le> k \<Longrightarrow> k < H + rg_capacity r \<Longrightarrow> rg_slots r ! (k mod rg_capacity r) = expected s k"
    "\<And>p. push_ok s (rs_producer s p)" "\<And>p q t. owns s p t \<Longrightarrow> owns s q t \<Longrightarrow> p = q" "pop_ok s"
  using assms unfolding ring_ok_def Let_def by blast+

text \<open>A step that only moves a producer between places where it holds no position.\<close>

definition holds_none :: "'v push_pc \<Rightarrow> bool" where
  "holds_none pc \<longleftrightarrow> (case pc of PWrite _ _ \<Rightarrow> False | PPublish _ \<Rightarrow> False | _ \<Rightarrow> True)"

lemma quiet_ok:
  assumes ok: "ring_ok s" and old: "holds_none (rs_producer s p)" and new: "holds_none pc" "push_ok s pc"
  shows "ring_ok (s\<lparr>rs_producer := (rs_producer s)(p := pc)\<rparr>)"
proof -
  let ?s = "s\<lparr>rs_producer := (rs_producer s)(p := pc)\<rparr>"
  have w: "writing (rs_producer ?s) t = writing (rs_producer s) t" "publishing (rs_producer ?s) t = publishing (rs_producer s) t"
    "owns ?s q t = owns s q t" for t q
    using old new(1) writing_at [of "rs_producer s" t p] by (auto simp: owns_def holds_none_def writing_upd split: push_pc.splits)
  have "expected ?s = expected s" by (simp add: fun_eq_iff expected_def Let_def w [simplified])
  moreover have "push_ok ?s x = push_ok s x" for x by (cases x) (simp_all add: push_ok_def Let_def)
  moreover have "pop_ok ?s = pop_ok s" by (cases "rs_consumer s") (simp_all add: pop_ok_def Let_def w)
  ultimately show ?thesis using ok new(2) by (simp add: ring_ok_def Let_def w)
qed

lemma owner_position:
  assumes ok: "ring_ok s" and o: "owns s p t"
  obtains k where "length (rs_pops s) \<le> k" "k < length (rs_claims s)" "t = enc (rs_ring s) k"
  using ring_okD(8) [OF ok, of p] o by (auto simp: owns_def push_ok_def Let_def)

text \<open>Reading the stamp: a stamp that names the position proves the slot free.\<close>

lemma stamp_free:
  assumes ok: "ring_ok s" and k: "k \<le> length (rs_claims s)"
    and st: "cell_stamp (slot_at (rs_ring s) (enc (rs_ring s) k)) = enc (rs_ring s) k"
  shows "k < length (rs_pops s) + rg_capacity (rs_ring s)"
proof (rule ccontr)
  note D = ring_okD [OF ok]
  let ?r = "rs_ring s" and ?H = "length (rs_pops s)"
  assume "\<not> k < ?H + rg_capacity ?r"
  then have kH: "k = ?H + rg_capacity ?r" using k D(5) by simp
  have c: "0 < rg_capacity ?r" using D(1) by (simp add: ring_shape_def)
  have "cell_stamp (expected s ?H) = enc ?r k"
    using st D(7) [of ?H] c kH slot_at_enc [OF D(1)] by simp
  then show False using enc_lap_ne [OF D(1), of ?H] kH by (auto simp: expected_def Let_def split: if_splits)
qed

lemma push_ok_claim:
  assumes "push_ok s pc" and "rs_claims s' = rs_claims s @ [v]" and "enc (rs_ring s') = enc (rs_ring s)"
    and "rg_capacity (rs_ring s') = rg_capacity (rs_ring s)" and "rs_pops s' = rs_pops s"
  shows "push_ok s' pc"
proof (cases pc)
  case (PWrite x t)
  then obtain k where "length (rs_pops s) \<le> k" "k < length (rs_claims s)" "t = enc (rs_ring s) k" "rs_claims s ! k = x"
    using assms(1) by (auto simp: push_ok_def Let_def)
  then show ?thesis using assms(2-) PWrite by (auto simp: push_ok_def Let_def nth_append intro!: exI [of _ k])
qed (use assms in \<open>auto simp: push_ok_def Let_def intro: le_SucI less_SucI\<close>)

lemma claim_ok:
  assumes ok: "ring_ok s" and pc: "rs_producer s p = PDecide v t t" and t: "rg_tail (rs_ring s) = t"
    and h: "Suc (length (rs_claims s)) < horizon (rs_ring s)"
  shows "ring_ok (s\<lparr>rs_ring := (rs_ring s)\<lparr>rg_tail := advance_position (rs_ring s) t\<rparr>,
    rs_producer := (rs_producer s)(p := PWrite v t), rs_claims := rs_claims s @ [v]\<rparr>)" (is "ring_ok ?s")
proof -
  note D = ring_okD [OF ok]
  let ?r = "rs_ring s" and ?T = "length (rs_claims s)" and ?H = "length (rs_pops s)"
  have tT: "t = enc ?r ?T" using D(2) t by simp
  obtain k where k: "k \<le> ?T" "t = enc ?r k" "k < ?H + rg_capacity ?r" using D(8) [of p] pc by (auto simp: push_ok_def Let_def)
  have "k = ?T" using enc_inj [OF D(1), of k ?T] k tT h by simp
  with k have room: "?T < ?H + rg_capacity ?r" by simp
  have ne: "enc ?r j \<noteq> t" if "j < ?T" for j using enc_inj [OF D(1), of j ?T] that tT h by auto
  have no: "\<not> owns s q t" for q using owner_position [OF ok, of q t] ne by metis
  have wr: "writing (rs_producer ?s) u \<longleftrightarrow> writing (rs_producer s) u \<or> u = t"
    "publishing (rs_producer ?s) u = publishing (rs_producer s) u" for u
    using pc writing_at [of "rs_producer s" u p] by (auto simp: writing_upd)
  have ex: "expected ?s j = expected s j" if "j < ?H + rg_capacity ?r" for j
    using ne [of j] wr [of "enc ?r j"] tT unfolding expected_def Let_def
    by (cases "j < ?T"; cases "j = ?T") (simp_all add: nth_append)
  have ow: "owns ?s q u \<longleftrightarrow> (if q = p then u = t else owns s q u)" for q u by (auto simp: owns_def)
  have "push_ok ?s (rs_producer ?s q)" for q
  proof (cases "q = p")
    case True
    then show ?thesis using D(4) tT by (auto simp: push_ok_def Let_def intro!: exI [of _ ?T])
  next
    case False
    then show ?thesis using push_ok_claim [OF D(8) [of q], of ?s v] by simp
  qed
  moreover have "pop_ok ?s"
    using D(10) ne [of ?H] ow by (auto simp: pop_ok_def Let_def nth_append split: pop_pc.splits)
  moreover have "owns ?s q u \<and> owns ?s q' u \<longrightarrow> q = q'" for q q' u using ow no D(9) by (auto split: if_splits)
  moreover have "rs_pops s = map Some (take ?H (rs_claims s @ [v]))" using D(4,6) by simp
  ultimately show ?thesis using D(1,3,4,5,7) room ex tT by (simp add: ring_ok_def Let_def)
qed

lemma cell_at:
  "ring_ok s \<Longrightarrow> length (rs_pops s) \<le> k \<Longrightarrow> k < length (rs_pops s) + rg_capacity (rs_ring s) \<Longrightarrow>
   slot_at (rs_ring s) (enc (rs_ring s) k) = expected s k"
  using ring_okD(1) [of s] ring_okD(7) [of s k] by (simp add: slot_at_enc)

text \<open>Writing one slot: the other positions of the window keep their cells.\<close>

lemma window_put:
  assumes ok: "ring_ok s" and k: "length (rs_pops s) \<le> k" "k < length (rs_pops s) + rg_capacity (rs_ring s)"
    and j: "length (rs_pops s) \<le> j" "j < length (rs_pops s) + rg_capacity (rs_ring s)"
  shows "rg_slots (put_slot (enc (rs_ring s) k) c (rs_ring s)) ! (j mod rg_capacity (rs_ring s)) = (if j = k then c else expected s j)"
proof -
  note D = ring_okD [OF ok]
  have "j = k \<longleftrightarrow> j mod rg_capacity (rs_ring s) = k mod rg_capacity (rs_ring s)" using mod_window [OF j k] by blast
  then show ?thesis using slots_put [OF D(1)] D(7) [OF j] by simp
qed

lemma push_ok_pops: "rs_claims s' = rs_claims s \<Longrightarrow> enc (rs_ring s') = enc (rs_ring s) \<Longrightarrow>
    rg_capacity (rs_ring s') = rg_capacity (rs_ring s) \<Longrightarrow> rs_pops s' = rs_pops s \<Longrightarrow> push_ok s' pc = push_ok s pc"
  by (cases pc) (simp_all add: push_ok_def Let_def)

lemma write_publish_ok:
  assumes ok: "ring_ok s" and h: "length (rs_claims s) < horizon (rs_ring s)"
    and pc: "rs_producer s p = PWrite v t \<and> pc = PPublish t \<and> c = (slot_at (rs_ring s) t)\<lparr>cell_value := Some v\<rparr> \<or>
      rs_producer s p = PPublish t \<and> pc = PIdle \<and> c = (slot_at (rs_ring s) t)\<lparr>cell_stamp := wrap (t + 1)\<rparr>"
  shows "ring_ok (s\<lparr>rs_ring := put_slot t c (rs_ring s), rs_producer := (rs_producer s)(p := pc)\<rparr>)" (is "ring_ok ?s")
proof -
  note D = ring_okD [OF ok]
  let ?r = "rs_ring s" and ?T = "length (rs_claims s)" and ?H = "length (rs_pops s)"
  have o: "owns s p t" using pc by (auto simp: owns_def)
  obtain k where k: "?H \<le> k" "k < ?T" "t = enc ?r k" and v: "rs_producer s p = PWrite v t \<Longrightarrow> rs_claims s ! k = v"
  proof (cases "rs_producer s p = PWrite v t")
    case True
    then show ?thesis using that D(8) [of p] by (auto simp: push_ok_def Let_def)
  next
    case False
    then show ?thesis using that owner_position [OF ok o] by metis
  qed
  have kw: "k < ?H + rg_capacity ?r" using k(2) D(5) by simp
  have ne: "enc ?r j \<noteq> t" if "j < ?T" "j \<noteq> k" for j using enc_inj [OF D(1), of j k] that k h by auto
  have sole: "\<not> owns s q t" if "q \<noteq> p" for q using D(9) o that by blast
  have other: "(\<exists>q v. q \<noteq> p \<and> rs_producer s q = PWrite v t) = False" "(\<exists>q. q \<noteq> p \<and> rs_producer s q = PPublish t) = False"
    using sole by (auto simp: owns_def)
  have wr: "writing (rs_producer ?s) u = writing (rs_producer s) u" "publishing (rs_producer ?s) u = publishing (rs_producer s) u" if "u \<noteq> t" for u
    using pc that writing_at [of "rs_producer s" u p] by (auto simp: writing_upd)
  have cons: "\<not> (k = ?H \<and> (\<exists>v. rs_consumer s = CRelease v))" "k = ?H \<Longrightarrow> rs_consumer s = CIdle"
    using D(10) o k(3) by (auto simp: pop_ok_def Let_def split: pop_pc.splits)
  have ce: "slot_at ?r t = expected s k" using cell_at [OF ok k(1) kw] k(3) by simp
  have exk: "expected ?s k = c"
    using pc
  proof
    assume a: "rs_producer s p = PWrite v t \<and> pc = PPublish t \<and> c = (slot_at ?r t)\<lparr>cell_value := Some v\<rparr>"
    then have "writing (rs_producer s) t" "\<not> writing (rs_producer ?s) t" "publishing (rs_producer ?s) t"
      using other writing_at [of "rs_producer s" t p] by (auto simp: writing_upd)
    then show ?thesis using a ce k v by (simp add: expected_def Let_def)
  next
    assume a: "rs_producer s p = PPublish t \<and> pc = PIdle \<and> c = (slot_at ?r t)\<lparr>cell_stamp := wrap (t + 1)\<rparr>"
    then have "\<not> writing (rs_producer s) t" "publishing (rs_producer s) t" "\<not> writing (rs_producer ?s) t" "\<not> publishing (rs_producer ?s) t"
      using other writing_at [of "rs_producer s" t p] by (auto simp: writing_upd)
    then show ?thesis using a ce k cons(1) D(1) by (simp add: expected_def Let_def)
  qed
  have exj: "expected ?s j = expected s j" if "j \<noteq> k" for j
    using ne [of j] wr [of "enc ?r j"] that by (cases "j < ?T") (simp_all add: expected_def Let_def)
  have ow: "owns ?s q u \<longleftrightarrow> (if q = p then pc = PPublish t \<and> u = t else owns s q u)" for q u using pc by (auto simp: owns_def)
  have "push_ok ?s (rs_producer ?s q)" for q
  proof (cases "q = p")
    case True
    then show ?thesis using pc k by (auto simp: push_ok_def Let_def)
  next
    case False
    then show ?thesis using push_ok_pops [of ?s s] D(8) [of q] by simp
  qed
  moreover have "pop_ok ?s"
  proof (cases "k = ?H")
    case True
    then show ?thesis using cons(2) by (simp add: pop_ok_def)
  next
    case False
    show ?thesis
    proof (cases "rs_consumer s")
      case CIdle
      then show ?thesis by (simp add: pop_ok_def)
    qed (use D(10) ow ne [of ?H] False in \<open>auto simp: pop_ok_def Let_def\<close>)
  qed
  moreover have "owns ?s q u \<and> owns ?s q' u \<longrightarrow> q = q'" for q q' u using ow sole D(9) by (auto split: if_splits)
  moreover have "rg_slots (put_slot t c ?r) ! (j mod rg_capacity ?r) = expected ?s j" if "?H \<le> j" "j < ?H + rg_capacity ?r" for j
    using window_put [OF ok k(1) kw that, of c] exk exj k(3) by auto
  ultimately show ?thesis using D(1-6) by (simp add: ring_ok_def Let_def)
qed

lemma take_ok:
  assumes ok: "ring_ok s" and c: "rs_consumer s = CTake"
  shows "value = Some (rs_claims s ! length (rs_pops s)) \<Longrightarrow> pop_take (rs_head s) (rs_ring s) = (r, value) \<Longrightarrow>
    ring_ok (s\<lparr>rs_ring := r, rs_consumer := CRelease value\<rparr>)"
    "snd (pop_take (rs_head s) (rs_ring s)) = Some (rs_claims s ! length (rs_pops s))"
proof -
  note D = ring_okD [OF ok]
  let ?r = "rs_ring s" and ?T = "length (rs_claims s)" and ?H = "length (rs_pops s)"
  have hT: "?H < ?T" and no: "\<And>p. \<not> owns s p (enc ?r ?H)" using D(10) c by (auto simp: pop_ok_def Let_def)
  have hw: "?H < ?H + rg_capacity ?r" using D(1) by (simp add: ring_shape_def)
  have nw: "\<not> writing (rs_producer s) (enc ?r ?H)" "\<not> publishing (rs_producer s) (enc ?r ?H)" using no owns_iff(2) by blast+
  have ce: "slot_at ?r (enc ?r ?H) = \<lparr>cell_stamp = enc ?r ?H + 1, cell_value = Some (rs_claims s ! ?H)\<rparr>"
    using cell_at [OF ok order_refl hw] hT nw c by (simp add: expected_def Let_def)
  then show "snd (pop_take (rs_head s) ?r) = Some (rs_claims s ! ?H)" using D(3) by (simp add: pop_take_def)
  assume v: "value = Some (rs_claims s ! ?H)" and t: "pop_take (rs_head s) ?r = (r, value)"
  let ?s = "s\<lparr>rs_ring := r, rs_consumer := CRelease value\<rparr>"
  have r: "r = put_slot (enc ?r ?H) \<lparr>cell_stamp = enc ?r ?H + 1, cell_value = None\<rparr> ?r" using t ce D(3) by (auto simp: pop_take_def)
  have ex: "expected ?s j = (if j = ?H then \<lparr>cell_stamp = enc ?r ?H + 1, cell_value = None\<rparr> else expected s j)" for j
    using hT nw by (simp add: expected_def Let_def r)
  have ow: "owns ?s = owns s" by (simp add: owns_def fun_eq_iff)
  have "rg_slots r ! (j mod rg_capacity ?r) = expected ?s j" if "?H \<le> j" "j < ?H + rg_capacity ?r" for j
    using window_put [OF ok order_refl hw that, of "\<lparr>cell_stamp = enc ?r ?H + 1, cell_value = None\<rparr>"] unfolding ex unfolding r by simp
  moreover have "push_ok ?s (rs_producer ?s q)" for q using push_ok_pops [of ?s s] D(8) [of q] by (simp add: r)
  moreover have "pop_ok ?s" using hT no v unfolding pop_ok_def Let_def ow by (simp add: r)
  moreover have "\<forall>p q u. owns ?s p u \<and> owns ?s q u \<longrightarrow> p = q" unfolding ow using D(9) by blast
  ultimately show "ring_ok ?s" using D(1-6) by (simp add: ring_ok_def Let_def r)
qed

lemma release_ok:
  assumes ok: "ring_ok s" and c: "rs_consumer s = CRelease v" and rel: "pop_release (rs_head s) (rs_ring s) = (r, h)"
    and hz: "length (rs_claims s) < horizon (rs_ring s)"
  shows "ring_ok (s\<lparr>rs_ring := r, rs_head := h, rs_consumer := CIdle, rs_pops := rs_pops s @ [v]\<rparr>)" (is "ring_ok ?s")
proof -
  note D = ring_okD [OF ok]
  let ?r = "rs_ring s" and ?T = "length (rs_claims s)" and ?H = "length (rs_pops s)"
  have hT: "?H < ?T" and no: "\<And>p. \<not> owns s p (enc ?r ?H)" and v: "v = Some (rs_claims s ! ?H)"
    using D(10) c by (auto simp: pop_ok_def Let_def)
  have hw: "?H < ?H + rg_capacity ?r" using D(1) by (simp add: ring_shape_def)
  have nw: "\<not> writing (rs_producer s) (enc ?r ?H)" "\<not> publishing (rs_producer s) (enc ?r ?H)" using no owns_iff(2) by blast+
  have ce: "slot_at ?r (enc ?r ?H) = \<lparr>cell_stamp = enc ?r ?H + 1, cell_value = None\<rparr>"
    using cell_at [OF ok order_refl hw] hT nw c by (simp add: expected_def Let_def)
  let ?c = "\<lparr>cell_stamp = enc ?r (?H + rg_capacity ?r), cell_value = None\<rparr>"
  have r: "r = put_slot (enc ?r ?H) ?c ?r" "h = enc ?r (Suc ?H)"
    using rel ce D(1,3) enc_lap [OF D(1), of ?H] by (auto simp: pop_release_def)
  have ow: "owns ?s = owns s" by (simp add: owns_def fun_eq_iff)
  have ex: "expected ?s j = expected s j" if "j \<noteq> ?H" for j using that by (simp add: expected_def Let_def r)
  have cells: "rg_slots r ! (j mod rg_capacity ?r) = expected ?s j" if j: "Suc ?H \<le> j" "j < Suc ?H + rg_capacity ?r" for j
  proof (cases "j = ?H + rg_capacity ?r")
    case True
    have "rg_slots r ! (j mod rg_capacity ?r) = ?c" unfolding r True using slots_put [OF D(1), of ?H ?c "?H + rg_capacity ?r"] by simp
    moreover have "expected ?s j = ?c" using True D(5) by (simp add: expected_def Let_def r)
    ultimately show ?thesis by simp
  next
    case False
    then have "rg_slots r ! (j mod rg_capacity ?r) = expected s j" unfolding r using window_put [OF ok order_refl hw, of j] j by simp
    then show ?thesis using ex j by simp
  qed
  have "push_ok ?s (rs_producer s q)" for q
  proof -
    have later: "Suc ?H \<le> k" if "owns s q (enc ?r k)" "?H \<le> k" for k using that no [of q] by (cases "k = ?H") auto
    show ?thesis
    proof (cases "rs_producer s q")
      case (PWrite x t)
      then obtain k where "?H \<le> k" "k < ?T" "t = enc ?r k" "rs_claims s ! k = x" using D(8) [of q] by (auto simp: push_ok_def Let_def)
      then show ?thesis using PWrite later [of k] by (auto simp: push_ok_def Let_def r owns_def intro!: exI [of _ k])
    next
      case (PPublish t)
      then obtain k where "?H \<le> k" "k < ?T" "t = enc ?r k" using D(8) [of q] by (auto simp: push_ok_def Let_def)
      then show ?thesis using PPublish later [of k] by (auto simp: push_ok_def Let_def r owns_def intro!: exI [of _ k])
    qed (use D(8) [of q] in \<open>auto simp: push_ok_def Let_def r\<close>)
  qed
  moreover have "map Some (take (Suc ?H) (rs_claims s)) = rs_pops s @ [v]" using D(6) hT v by (simp add: take_Suc_conv_app_nth)
  moreover have "\<forall>p q u. owns ?s p u \<and> owns ?s q u \<longrightarrow> p = q" unfolding ow using D(9) by blast
  ultimately show ?thesis using D(1,2,5) hT cells by (simp add: ring_ok_def Let_def r pop_ok_def)
qed

section \<open>Every interleaving\<close>

definition ring_inv :: "'v ring_sys \<Rightarrow> bool" where
  "ring_inv s \<longleftrightarrow> (length (rs_claims s) < horizon (rs_ring s) \<longrightarrow> ring_ok s)"

lemma init_ok:
  assumes "ring_init cap s"
  shows "ring_ok s"
proof -
  obtain r where r: "bounded cap = Some r" and s: "s = \<lparr>rs_ring = r, rs_head = 0, rs_consumer = CIdle, rs_producer = (\<lambda>_. PIdle), rs_claims = [], rs_pops = []\<rparr>"
    using assms by (auto simp: ring_init_def)
  note b = bounded_shape [OF r]
  have "enc r k = k" if "k < rg_capacity r" for k using that by (simp add: enc_def)
  moreover have "0 < rg_capacity r" using b by (simp add: ring_shape_def)
  ultimately show ?thesis using b by (auto simp: s ring_ok_def Let_def expected_def push_ok_def pop_ok_def owns_def)
qed

lemma snapshot_ok: "ring_ok s \<Longrightarrow> push_ok s (PStamp v (rg_tail (rs_ring s)))"
  using ring_okD(2) [of s] by (auto simp: push_ok_def Let_def)

lemma stamp_ok:
  assumes "ring_ok s" and "rs_producer s p = PStamp v t"
  shows "push_ok s (push_stamp v t (rs_ring s))"
proof -
  obtain k where k: "k \<le> length (rs_claims s)" "t = enc (rs_ring s) k" using ring_okD(8) [OF assms(1), of p] assms(2) by (auto simp: push_ok_def Let_def)
  then show ?thesis using stamp_free [OF assms(1) k(1)] by (auto simp: push_stamp_def push_ok_def Let_def)
qed

lemma seen_ok:
  assumes ok: "ring_ok s" and i: "rs_consumer s = CIdle" and e: "\<not> ring_is_empty (rs_head s) (rs_ring s)"
  shows "ring_ok (s\<lparr>rs_consumer := CTake\<rparr>)"
proof -
  note D = ring_okD [OF ok]
  let ?s = "s\<lparr>rs_consumer := CTake\<rparr>" and ?r = "rs_ring s" and ?H = "length (rs_pops s)"
  have hw: "?H < ?H + rg_capacity ?r" using D(1) by (simp add: ring_shape_def)
  have "cell_stamp (expected s ?H) = enc ?r ?H + 1"
    using e D(1,3) cell_at [OF ok order_refl hw] by (simp add: ring_is_empty_def)
  then have "?H < length (rs_claims s)" "\<not> writing (rs_producer s) (enc ?r ?H)" "\<not> publishing (rs_producer s) (enc ?r ?H)"
    by (auto simp: expected_def Let_def split: if_splits)
  then have "pop_ok ?s" using owns_iff(1) [of s _ "enc ?r ?H"] by (auto simp: pop_ok_def Let_def owns_def writing_def publishing_def)
  moreover have "expected ?s = expected s" using i by (simp add: expected_def Let_def fun_eq_iff)
  moreover have "owns ?s = owns s" by (simp add: owns_def fun_eq_iff)
  moreover have "push_ok ?s = push_ok s" by (rule ext, rule push_ok_pops) simp_all
  ultimately show ?thesis using ok by (simp add: ring_ok_def Let_def)
qed

lemma ring_step_ok:
  assumes step: "ring_step s e s'" and ok: "ring_ok s" and h: "length (rs_claims s') < horizon (rs_ring s')"
  shows "ring_ok s'"
  using step
proof cases
  case (step_ring_start p v)
  then show ?thesis using quiet_ok [OF ok, of p] snapshot_ok [OF ok] by (simp add: push_start_def holds_none_def)
next
  case (step_ring_stamp p v t)
  then show ?thesis using quiet_ok [OF ok, of p] stamp_ok [OF ok] by (simp add: holds_none_def push_stamp_def)
next
  case (step_ring_claim p v t st r pc)
  then show ?thesis using claim_ok [OF ok, of p v t] h by (auto simp: push_claim_def)
next
  case (step_ring_lost p v t st r pc)
  then have "s' = s\<lparr>rs_producer := (rs_producer s)(p := PStamp v (rg_tail (rs_ring s)))\<rparr>" by (auto simp: push_claim_def)
  then show ?thesis using step_ring_lost quiet_ok [OF ok, of p] snapshot_ok [OF ok, of v] by (simp add: holds_none_def)
next
  case (step_ring_spurious p v t st)
  then show ?thesis using quiet_ok [OF ok, of p] snapshot_ok [OF ok, of v] by (simp add: holds_none_def)
next
  case (step_ring_again p v t st pc)
  then show ?thesis using quiet_ok [OF ok, of p] snapshot_ok [OF ok, of v]
    by (auto simp: holds_none_def push_look_again_def split: if_splits)
next
  case (step_ring_reject p v t st pc w)
  then show ?thesis using quiet_ok [OF ok, of p PIdle]
    by (auto simp: holds_none_def push_look_again_def push_ok_def split: if_splits)
next
  case (step_ring_write p v t)
  then show ?thesis using write_publish_ok [OF ok, of p v t] h by (simp add: push_write_def)
next
  case (step_ring_publish p t)
  then show ?thesis using write_publish_ok [OF ok, of p _ t PIdle] h by (simp add: push_publish_def)
next
  case step_ring_nothing
  then show ?thesis using ok by simp
next
  case step_ring_seen
  then show ?thesis using seen_ok [OF ok] by simp
next
  case (step_ring_take r v)
  then show ?thesis using take_ok [OF ok] by (metis snd_conv)
next
  case (step_ring_release v r h)
  then have "horizon r = horizon (rs_ring s)" by (auto simp: pop_release_def)
  then show ?thesis using release_ok [OF ok] step_ring_release assms(3) by simp
qed

lemma ring_step_frame: "ring_step s e s' \<Longrightarrow> horizon (rs_ring s') = horizon (rs_ring s) \<and>
    rg_capacity (rs_ring s') = rg_capacity (rs_ring s) \<and> length (rs_claims s) \<le> length (rs_claims s')"
  by (cases rule: ring_step.cases)
    (auto simp: push_claim_def push_write_def push_publish_def pop_take_def pop_release_def split: if_splits)

interpretation ring: invariant "ring_init cap" ring_step ring_inv for cap
proof
  fix s e s' assume "ring_inv s" and "ring_step s e s'"
  then show "ring_inv s'" using ring_step_ok [of s e s'] ring_step_frame [of s e s'] by (auto simp: ring_inv_def)
qed (simp add: ring_inv_def init_ok)

section \<open>Histories\<close>

primrec claimed_by :: "'v ring_event \<Rightarrow> 'v list" where
  "claimed_by Quiet = []" | "claimed_by (Claim p v) = [v]" | "claimed_by (Reject p v) = []"
| "claimed_by (Publish p) = []" | "claimed_by (Pop x) = []" | "claimed_by Nothing_yet = []"

primrec popped_by :: "'v ring_event \<Rightarrow> 'v option list" where
  "popped_by Quiet = []" | "popped_by (Claim p v) = []" | "popped_by (Reject p v) = []"
| "popped_by (Publish p) = []" | "popped_by (Pop x) = [x]" | "popped_by Nothing_yet = []"

definition claimed :: "'v ring_event list \<Rightarrow> 'v list" where
  "claimed es = concat (map claimed_by es)"

definition popped :: "'v ring_event list \<Rightarrow> 'v option list" where
  "popped es = concat (map popped_by es)"

lemma ring_history:
  assumes "run ring_step s0 es s" and "ring_init cap s0"
  shows "rs_claims s = claimed es \<and> rs_pops s = popped es \<and> rg_capacity (rs_ring s) = cap \<and> length (claimed es) \<le> length es"
  using assms
proof (induction rule: run.induct)
  case (run_nil x)
  then show ?case using bounded_shape by (fastforce simp: ring_init_def claimed_def popped_def)
next
  case (run_snoc x es y e z)
  note f = ring_step_frame [OF run_snoc.hyps(2)]
  have "rs_claims z = rs_claims y @ claimed_by e \<and> rs_pops z = rs_pops y @ popped_by e \<and> length (claimed_by e) \<le> 1"
    using run_snoc.hyps(2) by cases auto
  then show ?case using run_snoc.IH [OF run_snoc.prems] f by (auto simp: claimed_def popped_def)
qed

lemma ring_reach:
  assumes "ring_init cap s0" and "run ring_step s0 es s" and "length es < 2 ^ 63"
  shows "ring_ok s" "rs_claims s = claimed es" "rs_pops s = popped es" "rg_capacity (rs_ring s) = cap"
    "length (rs_claims s) < 2 ^ 63"
proof -
  note h = ring_history [OF assms(2,1)]
  then show "rs_claims s = claimed es" "rs_pops s = popped es" "rg_capacity (rs_ring s) = cap" by auto
  show "length (rs_claims s) < 2 ^ 63" using h assms(3) by simp
  have frame: "horizon (rs_ring s) = horizon (rs_ring s0)"
    using assms(2) by (induction rule: run.induct) (simp_all add: ring_step_frame)
  have "2 ^ 63 \<le> horizon (rs_ring s0)" using horizon_large ring_okD(1) [OF init_ok [OF assms(1)]] by blast
  then have "length (rs_claims s) < horizon (rs_ring s)" using h assms(3) frame by simp
  then show "ring_ok s" using ring.reachable_inv [OF assms(1,2)] by (simp add: ring_inv_def)
qed

section \<open>A small ring for the witnesses\<close>

definition demo_ring :: "nat ring_sys" where
  "demo_ring = \<lparr>rs_ring = the (bounded 1), rs_head = 0, rs_consumer = CIdle, rs_producer = (\<lambda>_. PIdle), rs_claims = [], rs_pops = []\<rparr>"

lemma demo_ring_init: "ring_init 1 demo_ring"
  by (simp add: ring_init_def demo_ring_def bounded_def RING_MAX_CAPACITY_def)

section \<open>The properties\<close>

text \<open>C21: the ring is a bounded queue under every interleaving of producers and consumer, for the first \<open>2 ^ 63\<close>
  steps. What the consumer popped is exactly the oldest claimed values, in claim order, each once and never
  an empty cell, and the claims never run ahead of the pops by more than the capacity.\<close>

theorem ring_fifo:
  assumes "ring_init cap s0" and "run ring_step s0 es s" and "length es < 2 ^ 63"
  shows "popped es = map Some (take (length (popped es)) (claimed es)) \<and> length (popped es) \<le> length (claimed es) \<and>
    length (claimed es) \<le> length (popped es) + cap"
  using ring_okD(4,5,6) [OF ring_reach(1) [OF assms]] ring_reach(2-4) [OF assms] by metis

theorem ring_fifo_witness: "ring_init 1 demo_ring \<and> run ring_step demo_ring [] demo_ring \<and>
    length (claimed ([] :: nat ring_event list)) \<le> length (popped ([] :: nat ring_event list)) + 1"
  using ring_fifo [OF demo_ring_init run_nil] demo_ring_init run_nil by simp

text \<open>C22: exclusive slot access, the safety argument of the unsafe code. At every moment every position a party works
  on has an index inside the buffer, two producers between claim and publication work on different slots, and
  while the consumer takes or releases the head slot no producer works on it.\<close>

theorem ring_exclusive:
  assumes "ring_init cap s0" and "run ring_step s0 es s" and "length es < 2 ^ 63"
  shows "(\<forall>p t. owns s p t \<longrightarrow> index_of (rs_ring s) t < length (rg_slots (rs_ring s))) \<and>
    index_of (rs_ring s) (rs_head s) < length (rg_slots (rs_ring s)) \<and>
    index_of (rs_ring s) (rg_tail (rs_ring s)) < length (rg_slots (rs_ring s)) \<and>
    (\<forall>p q t u. owns s p t \<and> owns s q u \<and> p \<noteq> q \<longrightarrow> index_of (rs_ring s) t \<noteq> index_of (rs_ring s) u) \<and>
    (\<forall>p t. rs_consumer s \<noteq> CIdle \<and> owns s p t \<longrightarrow> index_of (rs_ring s) t \<noteq> index_of (rs_ring s) (rs_head s))"
proof -
  have ok: "ring_ok s" by (rule ring_reach(1) [OF assms])
  note D = ring_okD [OF ok]
  let ?r = "rs_ring s" and ?H = "length (rs_pops s)"
  have len: "length (rg_slots ?r) = rg_capacity ?r" using D(1) by (simp add: ring_shape_def)
  have pos: "\<exists>k. ?H \<le> k \<and> k < ?H + rg_capacity ?r \<and> t = enc ?r k" if "owns s p t" for p t
    using owner_position [OF ok that] D(5) by (metis order_less_le_trans)
  have "index_of ?r t \<noteq> index_of ?r u" if o: "owns s p t" "owns s q u" "p \<noteq> q" for p q t u
  proof
    assume eq: "index_of ?r t = index_of ?r u"
    obtain k j where k: "?H \<le> k" "k < ?H + rg_capacity ?r" "t = enc ?r k" and j: "?H \<le> j" "j < ?H + rg_capacity ?r" "u = enc ?r j"
      using pos [OF o(1)] pos [OF o(2)] by blast
    have "k = j" using mod_window [OF k(1,2) j(1,2)] eq k(3) j(3) D(1) by simp
    then show False using D(9) [of p t q] o k j by simp
  qed
  moreover have "index_of ?r t \<noteq> index_of ?r (rs_head s)" if o: "owns s p t" "rs_consumer s \<noteq> CIdle" for p t
  proof
    assume eq: "index_of ?r t = index_of ?r (rs_head s)"
    obtain k where k: "?H \<le> k" "k < ?H + rg_capacity ?r" "t = enc ?r k" using pos [OF o(1)] by blast
    have hw: "?H < ?H + rg_capacity ?r" using D(1) by (simp add: ring_shape_def)
    have "k = ?H" using mod_window [OF k(1,2) order_refl hw] eq k(3) D(1,3) by simp
    then show False using D(10) o k(3) by (cases "rs_consumer s") (auto simp: pop_ok_def Let_def)
  qed
  moreover have "index_of ?r t < length (rg_slots ?r)" if "owns s p t" for p t
    using pos [OF that] mod_cap(1) [OF D(1)] len D(1) by auto
  ultimately show ?thesis using D(1,2,3) mod_cap(1) [OF D(1)] len by auto
qed

theorem ring_exclusive_witness: "ring_init 1 demo_ring \<and> run ring_step demo_ring [] demo_ring \<and>
    index_of (rs_ring demo_ring) (rs_head demo_ring) < length (rg_slots (rs_ring demo_ring))"
  using ring_exclusive [OF demo_ring_init run_nil] demo_ring_init run_nil by simp

text \<open>C23: calls that are not interfered with return, and do the right thing. When no claim is unpublished, a push by
  an idle producer is published in five steps if the ring holds fewer than its capacity, and hands the value back
  in three steps otherwise; a pop returns the oldest value, or nothing when the ring is empty.\<close>

theorem ring_progress:
  assumes "ring_init cap s0" and "run ring_step s0 es s" and "length es < 2 ^ 63"
    and "\<forall>p t. \<not> owns s p t" and "rs_producer s p = PIdle" and "rs_consumer s = CIdle"
  shows "(if length (claimed es) < length (popped es) + cap
      then \<exists>s'. run ring_step s [Quiet, Quiet, Claim p v, Quiet, Publish p] s'
      else \<exists>s'. run ring_step s [Quiet, Quiet, Reject p v] s') \<and>
    (if length (popped es) < length (claimed es)
      then \<exists>s'. run ring_step s [Quiet, Quiet, Pop (Some (claimed es ! length (popped es)))] s'
      else ring_step s Nothing_yet s)"
proof -
  have ok: "ring_ok s" and hist: "rs_claims s = claimed es" "rs_pops s = popped es" "rg_capacity (rs_ring s) = cap"
    using ring_reach [OF assms(1-3)] by auto
  note D = ring_okD [OF ok]
  let ?r = "rs_ring s" and ?H = "length (rs_pops s)" and ?T = "length (rs_claims s)"
  have now: "\<not> writing (rs_producer s) t" "\<not> publishing (rs_producer s) t" for t using assms(4) owns_iff(2) by blast+
  have hw: "?H < ?H + rg_capacity ?r" using D(1) by (simp add: ring_shape_def)
  let ?t = "rg_tail ?r"
  define s1 where "s1 = s\<lparr>rs_producer := (rs_producer s)(p := PStamp v ?t)\<rparr>"
  define s2 where "s2 = s\<lparr>rs_producer := (rs_producer s)(p := push_stamp v ?t ?r)\<rparr>"
  have r1: "ring_step s Quiet s1" using ring_step.step_ring_start [of s p v] assms(5) by (simp add: s1_def push_start_def)
  have r2: "ring_step s1 Quiet s2" using ring_step.step_ring_stamp [of s1 p v ?t] by (simp add: s1_def s2_def)
  have r12: "run ring_step s [Quiet, Quiet] s2" using run_snoc [of ring_step, OF run_single [of ring_step, OF r1] r2] by simp
  have "if ?T < ?H + cap then \<exists>s'. run ring_step s [Quiet, Quiet, Claim p v, Quiet, Publish p] s'
      else \<exists>s'. run ring_step s [Quiet, Quiet, Reject p v] s'"
  proof (cases "?T < ?H + cap")
    case True
    have "cell_stamp (slot_at ?r ?t) = ?t" using cell_at [OF ok D(4)] True hist(3) D(2) by (simp add: expected_def Let_def)
    then have p2: "rs_producer s2 p = PDecide v ?t ?t" "rg_tail (rs_ring s2) = ?t" by (simp_all add: s2_def push_stamp_def)
    define s3 where "s3 = s2\<lparr>rs_ring := ?r\<lparr>rg_tail := advance_position ?r ?t\<rparr>, rs_producer := (rs_producer s2)(p := PWrite v ?t), rs_claims := rs_claims s2 @ [v]\<rparr>"
    have r3: "ring_step s2 (Claim p v) s3"
      unfolding s3_def by (rule ring_step.step_ring_claim [OF p2(1) refl p2(2)]) (simp add: push_claim_def s2_def)
    define s4 where "s4 = s3\<lparr>rs_ring := push_write v ?t (rs_ring s3), rs_producer := (rs_producer s3)(p := PPublish ?t)\<rparr>"
    have r4: "ring_step s3 Quiet s4" using ring_step.step_ring_write [of s3 p v ?t] by (simp add: s3_def s4_def)
    have "\<exists>s5. ring_step s4 (Publish p) s5" using ring_step.step_ring_publish [of s4 p ?t] by (auto simp: s4_def)
    then show ?thesis using True run_snoc [of ring_step, OF run_snoc [of ring_step, OF run_snoc [of ring_step, OF r12 r3] r4]] by fastforce
  next
    case False
    then have full: "?T = ?H + rg_capacity ?r" using D(5) hist(3) by simp
    have "slot_at ?r ?t = expected s ?H"
      using D(1,2) D(7) [of ?H] hw full by (simp add: slot_at_def)
    then have ne: "cell_stamp (slot_at ?r ?t) \<noteq> ?t"
      using enc_lap_ne [OF D(1), of ?H] full D(2) by (auto simp: expected_def Let_def split: if_splits)
    then have p2: "rs_producer s2 p = PDecide v ?t (cell_stamp (slot_at ?r ?t))" "rg_tail (rs_ring s2) = ?t" by (simp_all add: s2_def push_stamp_def)
    have "push_look_again v ?t (cell_stamp (slot_at ?r ?t)) (rs_ring s2) = (PIdle, Some (Handed_back v))" using p2(2) by (simp add: push_look_again_def)
    from ring_step.step_ring_reject [OF p2(1) ne this] show ?thesis using False run_snoc [of ring_step, OF r12] by fastforce
  qed
  moreover have "if ?H < ?T then \<exists>s'. run ring_step s [Quiet, Quiet, Pop (Some (rs_claims s ! ?H))] s' else ring_step s Nothing_yet s"
  proof (cases "?H < ?T")
    case True
    have "cell_stamp (slot_at ?r (rs_head s)) = enc ?r ?H + 1" using cell_at [OF ok order_refl hw] True now assms(6) D(3) by (simp add: expected_def Let_def)
    then have ne: "\<not> ring_is_empty (rs_head s) ?r" using D(1,3) by (simp add: ring_is_empty_def)
    define c1 where "c1 = s\<lparr>rs_consumer := CTake\<rparr>"
    have q1: "ring_step s Quiet c1" unfolding c1_def by (rule ring_step.step_ring_seen [OF assms(6) ne])
    have ok1: "ring_ok c1" unfolding c1_def by (rule seen_ok [OF ok assms(6) ne])
    obtain r2 x where t: "pop_take (rs_head c1) (rs_ring c1) = (r2, x)" by (cases "pop_take (rs_head c1) (rs_ring c1)")
    have x: "x = Some (rs_claims s ! ?H)" using take_ok(2) [OF ok1] t by (simp add: c1_def)
    define c2 where "c2 = c1\<lparr>rs_ring := r2, rs_consumer := CRelease x\<rparr>"
    have q2: "ring_step c1 Quiet c2" unfolding c2_def by (rule ring_step.step_ring_take [OF _ t]) (simp add: c1_def)
    have "\<exists>c3. ring_step c2 (Pop x) c3"
      using ring_step.step_ring_release [of c2 x] by (cases "pop_release (rs_head c2) (rs_ring c2)") (auto simp: c2_def)
    then show ?thesis using True x run_snoc [of ring_step, OF run_snoc [of ring_step, OF run_single [of ring_step, OF q1] q2]] by fastforce
  next
    case False
    then have "cell_stamp (slot_at ?r (rs_head s)) = enc ?r ?H" using cell_at [OF ok order_refl hw] D(3) by (simp add: expected_def Let_def)
    then have "ring_is_empty (rs_head s) ?r" using D(1,3) by (simp add: ring_is_empty_def)
    then show ?thesis using False ring_step.step_ring_nothing [OF assms(6)] by simp
  qed
  ultimately show ?thesis unfolding hist by blast
qed

theorem ring_progress_witness: "ring_init 1 demo_ring \<and> run ring_step demo_ring [] demo_ring \<and>
    (\<exists>s'. run ring_step demo_ring [Quiet, Quiet, Claim 0 7, Quiet, Publish 0] s')"
  using ring_progress [OF demo_ring_init run_nil, of 0 7] demo_ring_init run_nil
  by (simp add: demo_ring_def owns_def claimed_def popped_def)

end
