(* ===== verification/Doorbell.thy ===== *)
theory Doorbell
  imports Machine Prelude
begin

text \<open>
  The waker cell of \<^verbatim>\<open>crates/grommet-core/src/waker_slot.rs\<close> and the doorbell of
  \<^verbatim>\<open>crates/grommet/src/doorbell.rs\<close>. The cell is a two-bit lock over an optional waker; \<open>register\<close> and
  \<open>take\<close> are modelled access by access, with any number of notifiers interleaving with the one owner,
  under the discipline the doorbell documents: make work visible, then ring; register, then look for work,
  then park. Steps are sequentially consistent.
\<close>

section \<open>The state word\<close>

definition WAITING :: nat where "WAITING = 0"
definition REGISTERING :: nat where "REGISTERING = 1"
definition WAKING :: nat where "WAKING = 2"

record 'w waker_slot =
  ws_state :: nat
  ws_waker :: "'w option"

definition waker_slot_new :: "'w waker_slot" where
  "waker_slot_new = \<lparr>ws_state = WAITING, ws_waker = None\<rparr>"

text \<open>\<open>fetch_or(WAKING)\<close> and \<open>fetch_and(!WAKING)\<close> on the two bits.\<close>

definition set_waking :: "nat \<Rightarrow> nat" where
  "set_waking st = (if st = WAITING then WAKING else if st = REGISTERING then REGISTERING + WAKING else st)"

definition clear_waking :: "nat \<Rightarrow> nat" where
  "clear_waking st = (if st = WAKING then WAITING else if st = REGISTERING + WAKING then REGISTERING else st)"

text \<open>The store under \<open>REGISTERING\<close>: the same waker is kept, another one replaces it.\<close>

definition store_waker :: "'w \<Rightarrow> 'w waker_slot \<Rightarrow> 'w waker_slot" where
  "store_waker w s = (if ws_waker s = Some w then s else s\<lparr>ws_waker := Some w\<rparr>)"

section \<open>Calls without interference\<close>

text \<open>Each returns the cell and the wakers it wakes.\<close>

definition slot_register :: "'w \<Rightarrow> 'w waker_slot \<Rightarrow> ('w waker_slot \<times> 'w list) option" where
  "slot_register w s =
     (if ws_state s = WAITING then Some (store_waker w s, [])
      else if ws_state s = WAKING then Some (s, [w])
      else None)"

definition slot_take :: "'w waker_slot \<Rightarrow> 'w waker_slot \<times> 'w option" where
  "slot_take s =
     (if ws_state s = WAITING then (s\<lparr>ws_waker := None\<rparr>, ws_waker s)
      else (s\<lparr>ws_state := set_waking (ws_state s)\<rparr>, None))"

definition slot_wake :: "'w waker_slot \<Rightarrow> 'w waker_slot \<times> 'w list" where
  "slot_wake s = (let (s, w) = slot_take s in (s, case w of None \<Rightarrow> [] | Some w \<Rightarrow> [w]))"

record 'w doorbell =
  bell_owner :: "'w waker_slot"
  bell_closed :: bool

definition bell_new :: "'w doorbell" where
  "bell_new = \<lparr>bell_owner = waker_slot_new, bell_closed = False\<rparr>"

definition bell_register :: "'w \<Rightarrow> 'w doorbell \<Rightarrow> ('w doorbell \<times> 'w list) option" where
  "bell_register w b = map_option (\<lambda>(s, ws). (b\<lparr>bell_owner := s\<rparr>, ws)) (slot_register w (bell_owner b))"

definition bell_ring :: "'w doorbell \<Rightarrow> 'w doorbell \<times> 'w list" where
  "bell_ring b =
     (if bell_closed b then (b, [])
      else (let (s, ws) = slot_wake (bell_owner b) in (b\<lparr>bell_owner := s\<rparr>, ws)))"

definition bell_close :: "'w doorbell \<Rightarrow> 'w doorbell" where
  "bell_close b = b\<lparr>bell_closed := True, bell_owner := fst (slot_take (bell_owner b))\<rparr>"

section \<open>Interleavings\<close>

text \<open>Where the owner stands in \<open>register\<close>, in the check that decides to park, and in \<open>close\<close>.\<close>

datatype 'w owner_pc =
    ORun | OHold | OStored | OBoth | OTaken "'w option" | OSwapped "'w option" | ORegistered | OParked
  | OClosing | OCloseHeld | OCloseTaken | OGone

text \<open>Where a notifier stands between making work visible and delivering the wake.\<close>

datatype 'w notifier_pc = NIdle | NPublished | NRing | NHeld | NTaken "'w option" | NWake "'w option"

record 'w bell_sys =
  bs_bell :: "'w doorbell"
  bs_owner :: "'w owner_pc"
  bs_notifier :: "nat \<Rightarrow> 'w notifier_pc"
  bs_work :: bool
  bs_scheduled :: bool

definition upd_slot :: "('w waker_slot \<Rightarrow> 'w waker_slot) \<Rightarrow> 'w bell_sys \<Rightarrow> 'w bell_sys" where
  "upd_slot f s = s\<lparr>bs_bell := (bs_bell s)\<lparr>bell_owner := f (bell_owner (bs_bell s))\<rparr>\<rparr>"

abbreviation slot_of :: "'w bell_sys \<Rightarrow> 'w waker_slot" where
  "slot_of s \<equiv> bell_owner (bs_bell s)"

text \<open>Waking the owner's waker schedules another turn; \<open>me\<close> is that waker.\<close>

definition deliver :: "'w option \<Rightarrow> 'w bell_sys \<Rightarrow> 'w bell_sys" where
  "deliver w s = (if w = None then s else s\<lparr>bs_scheduled := True\<rparr>)"

inductive bell_step :: "'w \<Rightarrow> 'w bell_sys \<Rightarrow> unit \<Rightarrow> 'w bell_sys \<Rightarrow> bool" for me where
  bell_hold: "bs_owner s = ORun \<Longrightarrow> ws_state (slot_of s) = WAITING \<Longrightarrow>
    bell_step me s () ((upd_slot (\<lambda>c. c\<lparr>ws_state := REGISTERING\<rparr>) s)\<lparr>bs_owner := OHold\<rparr>)"
| bell_inflight: "bs_owner s = ORun \<Longrightarrow> ws_state (slot_of s) = WAKING \<Longrightarrow>
    bell_step me s () ((deliver (Some me) s)\<lparr>bs_owner := ORegistered\<rparr>)"
| bell_store: "bs_owner s = OHold \<Longrightarrow> bell_step me s () ((upd_slot (store_waker me) s)\<lparr>bs_owner := OStored\<rparr>)"
| bell_release: "bs_owner s = OStored \<Longrightarrow> ws_state (slot_of s) = REGISTERING \<Longrightarrow>
    bell_step me s () ((upd_slot (\<lambda>c. c\<lparr>ws_state := WAITING\<rparr>) s)\<lparr>bs_owner := ORegistered\<rparr>)"
| bell_pending: "bs_owner s = OStored \<Longrightarrow> ws_state (slot_of s) \<noteq> REGISTERING \<Longrightarrow> bell_step me s () (s\<lparr>bs_owner := OBoth\<rparr>)"
| bell_both: "bs_owner s = OBoth \<Longrightarrow>
    bell_step me s () ((upd_slot (\<lambda>c. c\<lparr>ws_waker := None\<rparr>) s)\<lparr>bs_owner := OTaken (ws_waker (slot_of s))\<rparr>)"
| bell_swap: "bs_owner s = OTaken w \<Longrightarrow>
    bell_step me s () ((upd_slot (\<lambda>c. c\<lparr>ws_state := WAITING\<rparr>) s)\<lparr>bs_owner := OSwapped w\<rparr>)"
| bell_self: "bs_owner s = OSwapped w \<Longrightarrow> bell_step me s () ((deliver w s)\<lparr>bs_owner := ORegistered\<rparr>)"
| bell_busy: "bs_owner s = ORegistered \<Longrightarrow> bs_work s \<Longrightarrow> bell_step me s () (s\<lparr>bs_work := False, bs_owner := ORun\<rparr>)"
| bell_park: "bs_owner s = ORegistered \<Longrightarrow> \<not> bs_work s \<Longrightarrow> bell_step me s () (s\<lparr>bs_owner := OParked\<rparr>)"
| bell_resume: "bs_owner s = OParked \<Longrightarrow> bs_scheduled s \<Longrightarrow> bell_step me s () (s\<lparr>bs_scheduled := False, bs_owner := ORun\<rparr>)"
| bell_shut: "bs_owner s = ORun \<Longrightarrow> bell_step me s () (s\<lparr>bs_bell := (bs_bell s)\<lparr>bell_closed := True\<rparr>, bs_owner := OClosing\<rparr>)"
| bell_shut_hold: "bs_owner s = OClosing \<Longrightarrow>
    bell_step me s () ((upd_slot (\<lambda>c. c\<lparr>ws_state := set_waking (ws_state c)\<rparr>) s)
      \<lparr>bs_owner := (if ws_state (slot_of s) = WAITING then OCloseHeld else OGone)\<rparr>)"
| bell_shut_take: "bs_owner s = OCloseHeld \<Longrightarrow> bell_step me s () ((upd_slot (\<lambda>c. c\<lparr>ws_waker := None\<rparr>) s)\<lparr>bs_owner := OCloseTaken\<rparr>)"
| bell_shut_done: "bs_owner s = OCloseTaken \<Longrightarrow>
    bell_step me s () ((upd_slot (\<lambda>c. c\<lparr>ws_state := clear_waking (ws_state c)\<rparr>) s)\<lparr>bs_owner := OGone\<rparr>)"
| bell_publish: "bs_notifier s q = NIdle \<Longrightarrow>
    bell_step me s () (s\<lparr>bs_work := True, bs_notifier := (bs_notifier s)(q := NPublished)\<rparr>)"
| bell_closed_check: "bs_notifier s q = NPublished \<Longrightarrow>
    bell_step me s () (s\<lparr>bs_notifier := (bs_notifier s)(q := (if bell_closed (bs_bell s) then NIdle else NRing))\<rparr>)"
| bell_fetch: "bs_notifier s q = NRing \<Longrightarrow>
    bell_step me s () ((upd_slot (\<lambda>c. c\<lparr>ws_state := set_waking (ws_state c)\<rparr>) s)
      \<lparr>bs_notifier := (bs_notifier s)(q := (if ws_state (slot_of s) = WAITING then NHeld else NIdle))\<rparr>)"
| bell_grab: "bs_notifier s q = NHeld \<Longrightarrow>
    bell_step me s () ((upd_slot (\<lambda>c. c\<lparr>ws_waker := None\<rparr>) s)\<lparr>bs_notifier := (bs_notifier s)(q := NTaken (ws_waker (slot_of s)))\<rparr>)"
| bell_unlock: "bs_notifier s q = NTaken w \<Longrightarrow>
    bell_step me s () ((upd_slot (\<lambda>c. c\<lparr>ws_state := clear_waking (ws_state c)\<rparr>) s)\<lparr>bs_notifier := (bs_notifier s)(q := NWake w)\<rparr>)"
| bell_wake: "bs_notifier s q = NWake w \<Longrightarrow>
    bell_step me s () ((deliver w s)\<lparr>bs_notifier := (bs_notifier s)(q := NIdle)\<rparr>)"

definition bell_init :: "'w bell_sys \<Rightarrow> bool" where
  "bell_init s \<longleftrightarrow> bs_bell s = bell_new \<and> bs_owner s = ORun \<and> bs_notifier s = (\<lambda>_. NIdle) \<and> \<not> bs_work s \<and> \<not> bs_scheduled s"

end
