(* ===== verification/Doorbell_Props.thy ===== *)
theory Doorbell_Props
  imports Doorbell
begin

text \<open>
  The doorbell loses no wake: an owner that registers before it looks for work is never left parked with
  visible work once the notifiers are done, the cell is only touched by the thread that holds it, and a
  closed doorbell releases its waker.
\<close>

section \<open>Parties\<close>

definition some_party :: "('a \<Rightarrow> bool) \<Rightarrow> (nat \<Rightarrow> 'a) \<Rightarrow> bool" where
  "some_party P f \<longleftrightarrow> (\<exists>q. P (f q))"

definition other_party :: "('a \<Rightarrow> bool) \<Rightarrow> (nat \<Rightarrow> 'a) \<Rightarrow> nat \<Rightarrow> bool" where
  "other_party P f p \<longleftrightarrow> (\<exists>q. q \<noteq> p \<and> P (f q))"

definition sole_party :: "('a \<Rightarrow> bool) \<Rightarrow> (nat \<Rightarrow> 'a) \<Rightarrow> bool" where
  "sole_party P f \<longleftrightarrow> (\<forall>p q. P (f p) \<and> P (f q) \<longrightarrow> p = q)"

lemma party_upd: "some_party P (f(p := x)) \<longleftrightarrow> P x \<or> other_party P f p"
  by (auto simp: some_party_def other_party_def)

lemma party_at: "some_party P f \<longleftrightarrow> P (f p) \<or> other_party P f p"
  unfolding some_party_def other_party_def by metis

lemma sole_upd: "sole_party P f \<Longrightarrow> (P x \<Longrightarrow> \<not> other_party P f p) \<Longrightarrow> sole_party P (f(p := x))"
  unfolding sole_party_def other_party_def by (metis fun_upd_apply)

lemma party_same:
  assumes "P x = P (f p)"
  shows "some_party P (f(p := x)) = some_party P f" "sole_party P (f(p := x)) = sole_party P f"
proof -
  have "P ((f(p := x)) q) = P (f q)" for q using assms by simp
  then show "some_party P (f(p := x)) = some_party P f" "sole_party P (f(p := x)) = sole_party P f"
    unfolding some_party_def sole_party_def by presburger+
qed

lemma sole_at: "sole_party P f \<Longrightarrow> P (f p) \<Longrightarrow> \<not> other_party P f p"
  by (auto simp: sole_party_def other_party_def)

section \<open>The invariant\<close>

fun holds_cell :: "'w notifier_pc \<Rightarrow> bool" where
  "holds_cell NHeld = True" | "holds_cell (NTaken w) = True" | "holds_cell _ = False"

fun carries :: "'w notifier_pc \<Rightarrow> bool" where
  "carries (NTaken (Some w)) = True" | "carries (NWake (Some w)) = True" | "carries _ = False"

fun coming :: "'w notifier_pc \<Rightarrow> bool" where
  "coming NPublished = True" | "coming NRing = True" | "coming _ = False"

fun registering :: "'w owner_pc \<Rightarrow> bool" where
  "registering OHold = True" | "registering OStored = True" | "registering OBoth = True" | "registering (OTaken w) = True"
| "registering _ = False"

fun closing :: "'w owner_pc \<Rightarrow> bool" where
  "closing OClosing = True" | "closing OCloseHeld = True" | "closing OCloseTaken = True" | "closing OGone = True" | "closing _ = False"

definition close_holds :: "'w owner_pc \<Rightarrow> bool" where
  "close_holds pc \<longleftrightarrow> pc = OCloseHeld \<or> pc = OCloseTaken"

definition lock_ok :: "nat \<Rightarrow> 'w owner_pc \<Rightarrow> (nat \<Rightarrow> 'w notifier_pc) \<Rightarrow> bool" where
  "lock_ok st pc f \<longleftrightarrow>
     (st = WAITING \<or> st = REGISTERING \<or> st = WAKING \<or> st = REGISTERING + WAKING) \<and>
     (registering pc \<longleftrightarrow> st = REGISTERING \<or> st = REGISTERING + WAKING) \<and>
     (some_party holds_cell f \<or> close_holds pc \<longleftrightarrow> st = WAKING) \<and>
     sole_party holds_cell f \<and> \<not> (some_party holds_cell f \<and> close_holds pc) \<and>
     (pc = OBoth \<or> (\<exists>w. pc = OTaken w) \<longrightarrow> st = REGISTERING + WAKING)"

definition cell_ok :: "'w option \<Rightarrow> 'w owner_pc \<Rightarrow> (nat \<Rightarrow> 'w notifier_pc) \<Rightarrow> bool" where
  "cell_ok c pc f \<longleftrightarrow>
     (pc = OStored \<or> pc = OBoth \<longrightarrow> c \<noteq> None) \<and> (\<forall>w. pc = OTaken w \<or> pc = OSwapped w \<longrightarrow> w \<noteq> None) \<and>
     (some_party (\<lambda>x. \<exists>w. x = NTaken w) f \<or> pc = OCloseTaken \<longrightarrow> c = None) \<and>
     (pc = OGone \<longrightarrow> c = None \<or> some_party (\<lambda>x. x = NHeld) f)"

definition wake_ok :: "'w bell_sys \<Rightarrow> bool" where
  "wake_ok s \<longleftrightarrow>
     (let c = ws_waker (slot_of s); f = bs_notifier s in
      (bs_owner s = ORegistered \<or> bs_owner s = OParked \<longrightarrow> bs_scheduled s \<or> c \<noteq> None \<or> some_party carries f) \<and>
      (bs_owner s = OParked \<and> bs_work s \<longrightarrow>
         bs_scheduled s \<or> some_party coming f \<or> c \<noteq> None \<and> some_party (\<lambda>x. x = NHeld) f \<or> some_party carries f) \<and>
      (bell_closed (bs_bell s) \<longleftrightarrow> closing (bs_owner s)))"

definition bell_inv :: "'w bell_sys \<Rightarrow> bool" where
  "bell_inv s \<longleftrightarrow> lock_ok (ws_state (slot_of s)) (bs_owner s) (bs_notifier s) \<and>
     cell_ok (ws_waker (slot_of s)) (bs_owner s) (bs_notifier s) \<and> wake_ok s"

lemma upd_slot_simps [simp]:
  "slot_of (upd_slot f s) = f (slot_of s)" "bs_owner (upd_slot f s) = bs_owner s" "bs_notifier (upd_slot f s) = bs_notifier s"
  "bs_work (upd_slot f s) = bs_work s" "bs_scheduled (upd_slot f s) = bs_scheduled s" "bell_closed (bs_bell (upd_slot f s)) = bell_closed (bs_bell s)"
  by (simp_all add: upd_slot_def)

lemma deliver_simps [simp]:
  "bs_bell (deliver w s) = bs_bell s" "bs_owner (deliver w s) = bs_owner s" "bs_notifier (deliver w s) = bs_notifier s"
  "bs_work (deliver w s) = bs_work s" "bs_scheduled (deliver w s) \<longleftrightarrow> bs_scheduled s \<or> w \<noteq> None"
  by (simp_all add: deliver_def)

lemma store_simps [simp]: "ws_state (store_waker w c) = ws_state c" "ws_waker (store_waker w c) = Some w"
  by (simp_all add: store_waker_def)

lemmas word_defs = WAITING_def REGISTERING_def WAKING_def set_waking_def clear_waking_def
lemmas inv_defs = bell_inv_def lock_ok_def cell_ok_def wake_ok_def close_holds_def Let_def

text \<open>Steps of the owner: the notifiers stand still.\<close>

lemma held_split: "some_party holds_cell f \<longleftrightarrow> some_party (\<lambda>x. x = NHeld) f \<or> some_party (\<lambda>x. \<exists>w. x = NTaken w) f"
  unfolding some_party_def by (metis holds_cell.elims(2) holds_cell.simps(1,2))

text \<open>A notifier that neither held nor carries a waker: the lock and the cell do not notice.\<close>

lemma quiet_notifier:
  assumes "\<not> holds_cell (f q)" "\<not> holds_cell x" "\<not> carries (f q)" "\<not> carries x"
  shows "lock_ok st pc (f(q := x)) = lock_ok st pc f" "cell_ok c pc (f(q := x)) = cell_ok c pc f"
    "some_party carries (f(q := x)) = some_party carries f" "some_party (\<lambda>x. x = NHeld) (f(q := x)) = some_party (\<lambda>x. x = NHeld) f"
    "some_party holds_cell (f(q := x)) = some_party holds_cell f"
proof -
  have n: "(x = NHeld) = (f q = NHeld)" "(\<exists>w. x = NTaken w) = (\<exists>w. f q = NTaken w)" "holds_cell x = holds_cell (f q)" "carries x = carries (f q)"
    using assms by auto
  note same = party_same [of "\<lambda>x. x = NHeld" x f q, OF n(1)] party_same [of "\<lambda>x. \<exists>w. x = NTaken w" x f q, OF n(2)]
    party_same [of holds_cell x f q, OF n(3)] party_same [of carries x f q, OF n(4)]
  show "lock_ok st pc (f(q := x)) = lock_ok st pc f" "cell_ok c pc (f(q := x)) = cell_ok c pc f"
    unfolding lock_ok_def cell_ok_def same by simp_all
  show "some_party carries (f(q := x)) = some_party carries f" "some_party (\<lambda>x. x = NHeld) (f(q := x)) = some_party (\<lambda>x. x = NHeld) f"
    "some_party holds_cell (f(q := x)) = some_party holds_cell f" by (simp_all only: same)
qed

lemma bell_step_inv:
  assumes inv: "bell_inv s" and step: "bell_step me s l s'"
  shows "bell_inv s'"
  using step
proof cases
  case bell_hold
  then show ?thesis using inv held_split [of "bs_notifier s"] by (auto simp: inv_defs word_defs)
next
  case bell_inflight
  then show ?thesis using inv held_split [of "bs_notifier s"] by (auto simp: inv_defs word_defs)
next
  case bell_store
  then show ?thesis using inv held_split [of "bs_notifier s"] by (auto simp: inv_defs word_defs)
next
  case bell_release
  then show ?thesis using inv held_split [of "bs_notifier s"] by (auto simp: inv_defs word_defs)
next
  case bell_pending
  then show ?thesis using inv held_split [of "bs_notifier s"] by (auto simp: inv_defs word_defs)
next
  case bell_both
  then show ?thesis using inv held_split [of "bs_notifier s"] by (auto simp: inv_defs word_defs)
next
  case (bell_swap w)
  then show ?thesis using inv held_split [of "bs_notifier s"] by (auto simp: inv_defs word_defs)
next
  case (bell_self w)
  then show ?thesis using inv held_split [of "bs_notifier s"] by (auto simp: inv_defs word_defs)
next
  case bell_busy
  then show ?thesis using inv held_split [of "bs_notifier s"] by (auto simp: inv_defs word_defs)
next
  case bell_park
  then show ?thesis using inv held_split [of "bs_notifier s"] by (auto simp: inv_defs word_defs)
next
  case bell_resume
  then show ?thesis using inv held_split [of "bs_notifier s"] by (auto simp: inv_defs word_defs)
next
  case bell_shut
  then show ?thesis using inv held_split [of "bs_notifier s"] by (auto simp: inv_defs word_defs)
next
  case bell_shut_hold
  then show ?thesis using inv held_split [of "bs_notifier s"] by (auto simp: inv_defs word_defs)
next
  case bell_shut_take
  then show ?thesis using inv held_split [of "bs_notifier s"] by (auto simp: inv_defs word_defs)
next
  case bell_shut_done
  then show ?thesis using inv held_split [of "bs_notifier s"] by (auto simp: inv_defs word_defs)
next
  case (bell_publish q)
  note same = quiet_notifier [of "bs_notifier s" q NPublished, simplified bell_publish(3) holds_cell.simps carries.simps, simplified]
  have "some_party coming ((bs_notifier s)(q := NPublished))" by (simp add: party_upd del: fun_upd_apply)
  then show ?thesis using inv unfolding bell_publish(2) bell_inv_def wake_ok_def Let_def by (simp add: same del: fun_upd_apply)
next
  case (bell_closed_check q)
  define x :: "'a notifier_pc" where "x = (if bell_closed (bs_bell s) then NIdle else NRing)"
  have q: "\<not> holds_cell (bs_notifier s q)" "\<not> holds_cell x" "\<not> carries (bs_notifier s q)" "\<not> carries x"
    using bell_closed_check by (simp_all add: x_def)
  note same = quiet_notifier [of "bs_notifier s" q x, OF q]
  have c: "bell_closed (bs_bell s) \<or> some_party coming ((bs_notifier s)(q := x))" by (simp add: party_upd x_def del: fun_upd_apply)
  have "bs_owner s \<noteq> OParked" if "bell_closed (bs_bell s)" using that inv by (auto simp: bell_inv_def wake_ok_def Let_def)
  then show ?thesis using inv c unfolding bell_closed_check(2) x_def [symmetric] bell_inv_def wake_ok_def Let_def
    by (simp add: same del: fun_upd_apply) blast
next
  case (bell_fetch q)
  let ?f = "bs_notifier s"
  have f: "\<not> holds_cell (?f q)" "\<not> carries (?f q)" "?f q \<noteq> NHeld" "\<nexists>w. ?f q = NTaken w" using bell_fetch by simp_all
  show ?thesis
  proof (cases "ws_state (slot_of s) = WAITING")
    case True
    then have n: "\<not> other_party holds_cell ?f q" "\<not> close_holds (bs_owner s)" "\<not> registering (bs_owner s)" "sole_party holds_cell ?f"
      using inv party_at [of holds_cell ?f q] by (auto simp: bell_inv_def lock_ok_def word_defs)
    have "lock_ok WAKING (bs_owner s) (?f(q := NHeld))" using n inv unfolding lock_ok_def bell_inv_def
      by (auto simp: party_upd word_defs intro!: sole_upd simp del: fun_upd_apply)
    moreover have "cell_ok (ws_waker (slot_of s)) (bs_owner s) (?f(q := NHeld))"
      using inv f n by (auto simp: bell_inv_def cell_ok_def party_upd party_at [of _ ?f q] simp del: fun_upd_apply)
    moreover have "some_party carries (?f(q := NHeld)) = some_party carries ?f" 
      using f by (simp add: party_same del: fun_upd_apply)
    moreover have "some_party (\<lambda>x. x = NHeld) (?f(q := NHeld))" by (simp add: party_upd del: fun_upd_apply)
    ultimately show ?thesis using inv bell_fetch True by (auto simp: bell_inv_def wake_ok_def Let_def word_defs simp del: fun_upd_apply)
  next
    case False
    have q: "\<not> holds_cell NIdle" "\<not> carries NIdle" by simp_all
    note same = quiet_notifier [of ?f q NIdle, OF f(1) q(1) f(2) q(2)]
    have "lock_ok (set_waking (ws_state (slot_of s))) (bs_owner s) (?f(q := NIdle))"
      unfolding same using inv False by (auto simp: bell_inv_def lock_ok_def word_defs close_holds_def)
    moreover have "cell_ok (ws_waker (slot_of s)) (bs_owner s) (?f(q := NIdle))" using inv unfolding same by (simp add: bell_inv_def)
    moreover have "c \<noteq> None \<and> some_party (\<lambda>x. x = NHeld) ?f \<or> some_party carries ?f \<or> bs_scheduled s"
      if "bs_owner s = OParked" "c = ws_waker (slot_of s)" for c
    proof -
      have "some_party holds_cell ?f" using inv False that(1) by (auto simp: bell_inv_def lock_ok_def close_holds_def word_defs)
      then consider "some_party (\<lambda>x. x = NHeld) ?f" | "some_party (\<lambda>x. \<exists>w. x = NTaken w) ?f" using held_split by blast
      then show ?thesis using inv that by cases (auto simp: bell_inv_def wake_ok_def cell_ok_def Let_def)
    qed
    ultimately show ?thesis using inv bell_fetch False by (auto simp: bell_inv_def wake_ok_def Let_def same simp del: fun_upd_apply)
  qed
next
  case (bell_grab q)
  let ?f = "bs_notifier s" and ?c = "ws_waker (slot_of s)"
  let ?g = "?f(q := NTaken ?c)"
  have same: "some_party holds_cell ?g = some_party holds_cell ?f" "sole_party holds_cell ?g = sole_party holds_cell ?f"
    "some_party coming ?g = some_party coming ?f"
    using bell_grab by (simp_all add: party_same del: fun_upd_apply)
  have w: "ws_state (slot_of s) = WAKING" "\<not> close_holds (bs_owner s)" "\<not> registering (bs_owner s)"
    using inv bell_grab party_at [of holds_cell ?f q] by (auto simp: bell_inv_def lock_ok_def word_defs)
  have ca: "some_party carries ?g \<longleftrightarrow> ?c \<noteq> None \<or> some_party carries ?f"
    using bell_grab party_at [of carries ?f q] by (cases ?c) (auto simp: party_upd simp del: fun_upd_apply)
  have "cell_ok None (bs_owner s) ?g" using inv w(2,3) by (auto simp: bell_inv_def cell_ok_def close_holds_def)
  moreover have "lock_ok (ws_state (slot_of s)) (bs_owner s) ?g" using inv unfolding bell_inv_def lock_ok_def same by blast
  ultimately show ?thesis using inv bell_grab unfolding bell_inv_def wake_ok_def Let_def
    by (auto simp: ca same simp del: fun_upd_apply)
next
  case (bell_unlock q w)
  let ?f = "bs_notifier s"
  let ?g = "?f(q := NWake w)"
  have same: "some_party coming ?g = some_party coming ?f" "some_party carries ?g = some_party carries ?f"
    "some_party (\<lambda>x. x = NHeld) ?g = some_party (\<lambda>x. x = NHeld) ?f"
    using bell_unlock by (cases w; simp add: party_same del: fun_upd_apply)+
  have h: "holds_cell (?f q)" using bell_unlock by simp
  have o: "\<not> other_party holds_cell ?f q" "ws_state (slot_of s) = WAKING" "\<not> close_holds (bs_owner s)" "\<not> registering (bs_owner s)" "sole_party holds_cell ?f"
    using inv h sole_at [of holds_cell ?f q] party_at [of holds_cell ?f q] by (auto simp: bell_inv_def lock_ok_def word_defs)
  have "lock_ok WAITING (bs_owner s) ?g" using inv o unfolding bell_inv_def lock_ok_def
    by (auto simp: party_upd word_defs intro!: sole_upd simp del: fun_upd_apply)
  moreover have "ws_waker (slot_of s) = None"
    using inv bell_unlock party_at [of "\<lambda>x. \<exists>w. x = NTaken w" ?f q] by (auto simp: bell_inv_def cell_ok_def)
  moreover from this have "cell_ok None (bs_owner s) ?g" using inv unfolding bell_inv_def cell_ok_def by auto
  ultimately show ?thesis using inv bell_unlock o(2) unfolding bell_inv_def wake_ok_def Let_def
    by (auto simp: same word_defs simp del: fun_upd_apply)
next
  case (bell_wake q w)
  let ?f = "bs_notifier s"
  let ?g = "?f(q := NIdle)"
  have same: "some_party holds_cell ?g = some_party holds_cell ?f" "sole_party holds_cell ?g = sole_party holds_cell ?f"
    "some_party coming ?g = some_party coming ?f" "some_party (\<lambda>x. x = NHeld) ?g = some_party (\<lambda>x. x = NHeld) ?f"
    "some_party (\<lambda>x. \<exists>w. x = NTaken w) ?g = some_party (\<lambda>x. \<exists>w. x = NTaken w) ?f"
    "w = None \<Longrightarrow> some_party carries ?g = some_party carries ?f"
    using bell_wake by (simp_all add: party_same del: fun_upd_apply)
  then show ?thesis using inv bell_wake by (cases "w = None") (simp_all add: bell_inv_def lock_ok_def cell_ok_def wake_ok_def Let_def del: fun_upd_apply)
qed

interpretation bell: invariant bell_init "bell_step me" bell_inv for me
proof
  fix s :: "'w bell_sys" assume "bell_init s"
  then show "bell_inv s" by (auto simp: bell_init_def inv_defs word_defs bell_new_def waker_slot_new_def some_party_def sole_party_def)
qed (rule bell_step_inv)

section \<open>One wake, step by step\<close>

definition demo_bell :: "nat bell_sys" where
  "demo_bell = \<lparr>bs_bell = bell_new, bs_owner = ORun, bs_notifier = (\<lambda>_. NIdle), bs_work = False, bs_scheduled = False\<rparr>"

lemma demo_bell_init: "bell_init demo_bell"
  by (simp add: bell_init_def demo_bell_def)

lemma demo_bell_run:
  "\<exists>s. run (bell_step 9) demo_bell (replicate 10 ()) s \<and> (\<forall>q. bs_notifier s q = NIdle) \<and> bs_owner s = OParked \<and> bs_work s"
proof -
  define d1 where "d1 = (upd_slot (\<lambda>c. c\<lparr>ws_state := REGISTERING\<rparr>) demo_bell)\<lparr>bs_owner := OHold\<rparr>"
  define d2 where "d2 = (upd_slot (store_waker 9) d1)\<lparr>bs_owner := OStored\<rparr>"
  define d3 where "d3 = (upd_slot (\<lambda>c. c\<lparr>ws_state := WAITING\<rparr>) d2)\<lparr>bs_owner := ORegistered\<rparr>"
  define d4 where "d4 = d3\<lparr>bs_owner := OParked\<rparr>"
  define d5 where "d5 = d4\<lparr>bs_work := True, bs_notifier := (bs_notifier d4)(0 := NPublished)\<rparr>"
  define d6 where "d6 = d5\<lparr>bs_notifier := (bs_notifier d5)(0 := (if bell_closed (bs_bell d5) then NIdle else NRing))\<rparr>"
  define d7 where "d7 = (upd_slot (\<lambda>c. c\<lparr>ws_state := set_waking (ws_state c)\<rparr>) d6)\<lparr>bs_notifier := (bs_notifier d6)(0 := (if ws_state (slot_of d6) = WAITING then NHeld else NIdle))\<rparr>"
  define d8 where "d8 = (upd_slot (\<lambda>c. c\<lparr>ws_waker := None\<rparr>) d7)\<lparr>bs_notifier := (bs_notifier d7)(0 := NTaken (ws_waker (slot_of d7)))\<rparr>"
  define d9 where "d9 = (upd_slot (\<lambda>c. c\<lparr>ws_state := clear_waking (ws_state c)\<rparr>) d8)\<lparr>bs_notifier := (bs_notifier d8)(0 := NWake (Some 9))\<rparr>"
  define d10 where "d10 = (deliver (Some 9) d9)\<lparr>bs_notifier := (bs_notifier d9)(0 := NIdle)\<rparr>"
  note d = demo_bell_def bell_new_def waker_slot_new_def word_defs d1_def d2_def d3_def d4_def d5_def d6_def d7_def d8_def d9_def d10_def
  have t1: "bell_step 9 demo_bell () d1" unfolding d1_def by (rule bell_step.bell_hold) (simp_all add: d)
  have t2: "bell_step 9 d1 () d2" unfolding d2_def by (rule bell_step.bell_store) (simp_all add: d)
  have t3: "bell_step 9 d2 () d3" unfolding d3_def by (rule bell_step.bell_release) (simp_all add: d)
  have t4: "bell_step 9 d3 () d4" unfolding d4_def by (rule bell_step.bell_park) (simp_all add: d)
  have t5: "bell_step 9 d4 () d5" unfolding d5_def by (rule bell_step.bell_publish [where q = 0]) (simp_all add: d)
  have t6: "bell_step 9 d5 () d6" unfolding d6_def by (rule bell_step.bell_closed_check [where q = 0]) (simp_all add: d)
  have t7: "bell_step 9 d6 () d7" unfolding d7_def by (rule bell_step.bell_fetch [where q = 0]) (simp_all add: d)
  have t8: "bell_step 9 d7 () d8" unfolding d8_def by (rule bell_step.bell_grab [where q = 0]) (simp_all add: d)
  have t9: "bell_step 9 d8 () d9" unfolding d9_def by (rule bell_step.bell_unlock [where q = 0 and w = "Some 9"]) (simp_all add: d)
  have t10: "bell_step 9 d9 () d10" unfolding d10_def by (rule bell_step.bell_wake [where q = 0 and w = "Some 9"]) (simp_all add: d)
  have "run (bell_step 9) demo_bell (replicate 10 ()) d10" using run_snoc [of "bell_step 9", OF run_snoc [of "bell_step 9", OF run_snoc [of "bell_step 9", OF run_snoc [of "bell_step 9", OF run_snoc [of "bell_step 9", OF run_snoc [of "bell_step 9", OF run_snoc [of "bell_step 9", OF run_snoc [of "bell_step 9", OF run_snoc [of "bell_step 9", OF run_single [of "bell_step 9", OF t1] t2] t3] t4] t5] t6] t7] t8] t9] t10] by (simp add: numeral_eq_Suc)
  moreover have "bs_notifier d10 q = NIdle" for q by (simp add: d)
  moreover have "bs_owner d10 = OParked" "bs_work d10" by (simp_all add: d)
  ultimately show ?thesis by blast
qed

section \<open>The properties\<close>

text \<open>C24: no lost wake. With any number of notifiers that make work visible and then ring, interleaved access by
  access with an owner that registers before it looks, an owner that is parked while work is visible has been
  scheduled again as soon as no notifier is still in the middle of its call.\<close>

theorem doorbell_no_lost_wake:
  assumes "bell_init s0" and "run (bell_step me) s0 es s" and "\<forall>q. bs_notifier s q = NIdle"
    and "bs_owner s = OParked" and "bs_work s"
  shows "bs_scheduled s"
  using bell.reachable_inv [OF assms(1,2)] assms(3-5) by (auto simp: bell_inv_def wake_ok_def Let_def some_party_def)

theorem doorbell_no_lost_wake_witness: "\<exists>s. bell_init demo_bell \<and> run (bell_step 9) demo_bell (replicate 10 ()) s \<and>
    bs_owner s = OParked \<and> bs_work s \<and> bs_scheduled s"
proof -
  obtain s where s: "run (bell_step 9) demo_bell (replicate 10 ()) s" "\<forall>q. bs_notifier s q = NIdle" "bs_owner s = OParked" "bs_work s"
    using demo_bell_run by blast
  show ?thesis using doorbell_no_lost_wake [OF demo_bell_init s] s demo_bell_init by blast
qed

text \<open>C25: the waker cell is accessed by one thread at a time, the registrar never meets another registration, and a
  closed doorbell lets go of its waker: at most one notifier is inside the cell and none is while the owner
  stores, takes or clears it; an owner about to register finds the cell waiting or being taken; once the owner
  has closed and the notifiers are done the cell is empty and no wake can be delivered through it.\<close>

theorem doorbell_exclusive:
  assumes "bell_init s0" and "run (bell_step me) s0 es s"
  shows "(\<forall>p q. bs_notifier s p = NHeld \<and> bs_notifier s q = NHeld \<longrightarrow> p = q) \<and>
    (bs_owner s \<in> {OHold, OBoth, OCloseHeld} \<longrightarrow> (\<forall>q. bs_notifier s q \<noteq> NHeld)) \<and>
    (bs_owner s = ORun \<longrightarrow> ws_state (slot_of s) = WAITING \<or> ws_state (slot_of s) = WAKING) \<and>
    (bs_owner s = OGone \<and> (\<forall>q. bs_notifier s q = NIdle) \<longrightarrow> ws_waker (slot_of s) = None)"
proof -
  have inv: "bell_inv s" by (rule bell.reachable_inv [OF assms])
  have h: "some_party holds_cell (bs_notifier s)" if "bs_notifier s q = NHeld" for q
    using that by (auto simp: some_party_def intro!: exI [of _ q])
  have "\<forall>p q. bs_notifier s p = NHeld \<and> bs_notifier s q = NHeld \<longrightarrow> p = q"
    using inv unfolding bell_inv_def lock_ok_def sole_party_def by (metis holds_cell.simps(1))
  moreover have "bs_notifier s q \<noteq> NHeld" if "bs_owner s \<in> {OHold, OBoth, OCloseHeld}" for q
    using that h [of q] inv by (auto simp: bell_inv_def lock_ok_def word_defs close_holds_def)
  moreover have "bs_owner s = ORun \<longrightarrow> ws_state (slot_of s) = WAITING \<or> ws_state (slot_of s) = WAKING"
    using inv by (auto simp: bell_inv_def lock_ok_def)
  moreover have "bs_owner s = OGone \<and> (\<forall>q. bs_notifier s q = NIdle) \<longrightarrow> ws_waker (slot_of s) = None"
    using inv by (auto simp: bell_inv_def cell_ok_def some_party_def)
  ultimately show ?thesis by blast
qed

theorem doorbell_exclusive_witness: "bell_init demo_bell \<and> run (bell_step 9) demo_bell [] demo_bell \<and>
    (ws_state (slot_of demo_bell) = WAITING \<or> ws_state (slot_of demo_bell) = WAKING)"
  using doorbell_exclusive [OF demo_bell_init run_nil [of "bell_step 9"]] demo_bell_init run_nil
  by (simp add: demo_bell_def)

end
