(* ===== verification/Outstanding.thy ===== *)
theory Outstanding
  imports Bits Doorbell
begin

unbundle bit_operations_syntax

text \<open>
  The set of in-flight futures of \<^verbatim>\<open>crates/grommet/src/outstanding.rs\<close>: the two-level ready bitmap, the
  boxed storage, and the capped harvest with its restoration guard. Polling a future is a parameter of the
  model: given the slot and the future it answers pending, ready, a panic of the future or a panic of the
  output callback, together with the slots whose wakers were called meanwhile, by the future itself or by
  other threads. The bitmaps are the
  64-bit words of the code. History variables record what was polled and what was woken.
\<close>

section \<open>Constants\<close>

abbreviation WORD_BITS :: nat where "WORD_BITS \<equiv> 64"

definition MAX_WORDS :: nat where "MAX_WORDS = 1024"

definition div_ceil :: "nat \<Rightarrow> nat \<Rightarrow> nat" where
  "div_ceil a b = (a + b - 1) div b"

definition SUMMARY_WORDS :: nat where "SUMMARY_WORDS = div_ceil MAX_WORDS WORD_BITS"

definition OUTSTANDING_MAX_CAPACITY :: nat where "OUTSTANDING_MAX_CAPACITY = WORD_BITS * MAX_WORDS"

section \<open>The ready set\<close>

record ready_set =
  rd_words :: "u64 list"
  rd_summary :: "u64 list"
  rd_summaries :: nat
  rd_slots :: nat

definition ready_new :: "nat \<Rightarrow> ready_set option" where
  "ready_new slots =
     (if slots > OUTSTANDING_MAX_CAPACITY then None
      else (let words = div_ceil slots WORD_BITS in
        Some \<lparr>rd_words = replicate words 0, rd_summary = replicate SUMMARY_WORDS 0,
              rd_summaries = (if words > 1 then div_ceil words WORD_BITS else 0), rd_slots = slots\<rparr>))"

definition summary_mask :: "ready_set \<Rightarrow> nat \<Rightarrow> u64" where
  "summary_mask r summary =
     (let remainder = length (rd_words r) mod WORD_BITS in
      if summary + 1 = rd_summaries r \<and> remainder \<noteq> 0 then low_mask remainder else - 1)"

definition valid_mask :: "ready_set \<Rightarrow> nat \<Rightarrow> u64" where
  "valid_mask r word =
     (let remainder = rd_slots r mod WORD_BITS in
      if word + 1 = length (rd_words r) \<and> remainder \<noteq> 0 then low_mask remainder else - 1)"

text \<open>\<open>fetch_or\<close> on one word of either level.\<close>

definition or_word :: "nat \<Rightarrow> u64 \<Rightarrow> ready_set \<Rightarrow> ready_set" where
  "or_word word b r = r\<lparr>rd_words := (rd_words r)[word := rd_words r ! word OR b]\<rparr>"

definition or_summary :: "nat \<Rightarrow> u64 \<Rightarrow> ready_set \<Rightarrow> ready_set" where
  "or_summary s b r = r\<lparr>rd_summary := (rd_summary r)[s := rd_summary r ! s OR b]\<rparr>"

definition announce :: "nat \<Rightarrow> ready_set \<Rightarrow> ready_set" where
  "announce word r =
     (if rd_summaries r = 0 then r else or_summary (word div WORD_BITS) (push_bit (word mod WORD_BITS) 1) r)"

definition ready_mark :: "nat \<Rightarrow> ready_set \<Rightarrow> (ready_set \<times> bool) option" where
  "ready_mark slot r =
     (if slot \<ge> rd_slots r then None
      else (let word = slot div WORD_BITS; b = push_bit (slot mod WORD_BITS) 1; previous = rd_words r ! word;
                r = or_word word b r;
                r = (if previous = 0 then announce word r else r) in
        Some (r, previous AND b = 0)))"

definition take_word :: "nat \<Rightarrow> ready_set \<Rightarrow> ready_set \<times> u64" where
  "take_word word r = (r\<lparr>rd_words := (rd_words r)[word := 0]\<rparr>, rd_words r ! word AND valid_mask r word)"

definition take_single :: "ready_set \<Rightarrow> ready_set \<times> u64" where
  "take_single r = take_word 0 r"

definition take_summary :: "nat \<Rightarrow> ready_set \<Rightarrow> ready_set \<times> u64" where
  "take_summary s r = (r\<lparr>rd_summary := (rd_summary r)[s := 0]\<rparr>, rd_summary r ! s AND summary_mask r s)"

definition restore_word :: "nat \<Rightarrow> u64 \<Rightarrow> ready_set \<Rightarrow> ready_set" where
  "restore_word word b r =
     (let b = b AND valid_mask r word in
      if b = 0 then r
      else (let previous = rd_words r ! word; r = or_word word b r in
        if previous = 0 then announce word r else r))"

definition restore_summary :: "nat \<Rightarrow> u64 \<Rightarrow> ready_set \<Rightarrow> ready_set" where
  "restore_summary s words r =
     (let words = words AND summary_mask r s in if words \<noteq> 0 then or_summary s words r else r)"

definition has_ready :: "ready_set \<Rightarrow> bool" where
  "has_ready r \<longleftrightarrow>
     (if length (rd_words r) = 0 then False
      else if length (rd_words r) = 1 then rd_words r ! 0 AND valid_mask r 0 \<noteq> 0
      else list_ex (\<lambda>s. rd_summary r ! s AND summary_mask r s \<noteq> 0) [0..<rd_summaries r])"

section \<open>Shared state and storage\<close>

record 'w shared =
  sh_ready :: ready_set
  sh_bell :: "'w doorbell"
  sh_woken :: "'w list"

definition ring_bell :: "'w shared \<Rightarrow> 'w shared" where
  "ring_bell sh = (let (b, ws) = bell_ring (sh_bell sh) in sh\<lparr>sh_bell := b, sh_woken := sh_woken sh @ ws\<rparr>)"

definition notify :: "nat \<Rightarrow> 'w shared \<Rightarrow> 'w shared" where
  "notify slot sh =
     (if bell_closed (sh_bell sh) then sh
      else (case ready_mark slot (sh_ready sh) of
          None \<Rightarrow> sh
        | Some (r, fresh) \<Rightarrow> (let sh = sh\<lparr>sh_ready := r\<rparr> in if fresh then ring_bell sh else sh)))"

datatype ('f, 'o) poll_result = Pending 'f | Ready 'o | PollUnwinds 'f | CallbackUnwinds 'o

datatype trace_event = Polled nat | Woke nat

record ('f, 'w) inner =
  in_storage :: "'f option list"
  in_free :: "nat list"
  in_shared :: "'w shared"
  in_live :: nat
  in_cursor :: nat

definition is_occupied :: "('f, 'w) inner \<Rightarrow> nat \<Rightarrow> bool" where
  "is_occupied s i \<longleftrightarrow> in_storage s ! i \<noteq> None"

definition outstanding_with_capacity :: "nat \<Rightarrow> ('f, 'w) inner option" where
  "outstanding_with_capacity cap =
     (case ready_new cap of
        None \<Rightarrow> None
      | Some r \<Rightarrow> Some \<lparr>in_storage = replicate cap None, in_free = rev [0..<cap],
          in_shared = \<lparr>sh_ready = r, sh_bell = bell_new, sh_woken = []\<rparr>, in_live = 0, in_cursor = 0\<rparr>)"

definition outstanding_capacity :: "('f, 'w) inner \<Rightarrow> nat" where
  "outstanding_capacity s = length (in_storage s)"

definition outstanding_available :: "('f, 'w) inner \<Rightarrow> nat" where
  "outstanding_available s = length (in_free s)"

definition outstanding_is_empty :: "('f, 'w) inner \<Rightarrow> bool" where
  "outstanding_is_empty s \<longleftrightarrow> in_live s = 0"

definition register_owner :: "'w \<Rightarrow> ('f, 'w) inner \<Rightarrow> ('f, 'w) inner option" where
  "register_owner w s =
     map_option (\<lambda>(b, ws). s\<lparr>in_shared := (in_shared s)\<lparr>sh_bell := b, sh_woken := sh_woken (in_shared s) @ ws\<rparr>\<rparr>)
       (bell_register w (sh_bell (in_shared s)))"

definition outstanding_try_push :: "'f \<Rightarrow> ('f, 'w) inner \<Rightarrow> (('f, 'w) inner \<times> ('f + unit)) option" where
  "outstanding_try_push future s =
     (if in_free s = [] then Some (s, Inl future)
      else
        (let index = last (in_free s); s = s\<lparr>in_free := butlast (in_free s)\<rparr> in
         if index \<ge> length (in_storage s) \<or> is_occupied s index then None
         else
           (case ready_mark index (sh_ready (in_shared s)) of
              None \<Rightarrow> None
            | Some (r, _) \<Rightarrow>
                Some (s\<lparr>in_storage := (in_storage s)[index := Some future], in_live := in_live s + 1,
                        in_shared := (in_shared s)\<lparr>sh_ready := r\<rparr>\<rparr>, Inr ()))))"

definition outstanding_push :: "'f \<Rightarrow> ('f, 'w) inner \<Rightarrow> ('f, 'w) inner option" where
  "outstanding_push future s =
     (case outstanding_try_push future s of Some (s, Inr _) \<Rightarrow> Some s | _ \<Rightarrow> None)"

definition outstanding_drop :: "('f, 'w) inner \<Rightarrow> ('f, 'w) inner" where
  "outstanding_drop s = s\<lparr>in_shared := (in_shared s)\<lparr>sh_bell := bell_close (sh_bell (in_shared s))\<rparr>\<rparr>"

section \<open>The restoration guard\<close>

record guard =
  g_summary_index :: nat
  g_summary :: u64
  g_deferred_summary_index :: nat
  g_deferred_summary :: u64
  g_current_word :: nat
  g_current_bits :: u64
  g_deferred_word :: nat
  g_deferred_bits :: u64

definition guard_new :: guard where
  "guard_new = \<lparr>g_summary_index = 0, g_summary = 0, g_deferred_summary_index = 0, g_deferred_summary = 0,
     g_current_word = 0, g_current_bits = 0, g_deferred_word = 0, g_deferred_bits = 0\<rparr>"

definition next_announced :: "guard \<Rightarrow> (guard \<times> nat) option" where
  "next_announced g =
     (if g_summary g = 0 then None
      else Some (g\<lparr>g_summary := g_summary g AND (g_summary g - 1)\<rparr>,
                 g_summary_index g * WORD_BITS + trailing_zeros (g_summary g)))"

definition activate_deferred :: "guard \<Rightarrow> guard" where
  "activate_deferred g = g\<lparr>g_current_word := g_deferred_word g, g_current_bits := g_deferred_bits g, g_deferred_bits := 0\<rparr>"

definition activate_deferred_summary :: "guard \<Rightarrow> guard" where
  "activate_deferred_summary g =
     g\<lparr>g_summary_index := g_deferred_summary_index g, g_summary := g_deferred_summary g, g_deferred_summary := 0\<rparr>"

definition guard_restore :: "bool \<Rightarrow> guard \<Rightarrow> 'w shared \<Rightarrow> 'w shared" where
  "guard_restore wake_owner g sh =
     (let r = sh_ready sh;
          r = (if g_current_bits g \<noteq> 0 then restore_word (g_current_word g) (g_current_bits g) r else r);
          r = (if g_deferred_bits g \<noteq> 0 then restore_word (g_deferred_word g) (g_deferred_bits g) r else r);
          r = (if g_summary g \<noteq> 0 then restore_summary (g_summary_index g) (g_summary g) r else r);
          r = (if g_deferred_summary g \<noteq> 0 then restore_summary (g_deferred_summary_index g) (g_deferred_summary g) r else r);
          had_work = (g_current_bits g \<noteq> 0 \<or> g_deferred_bits g \<noteq> 0 \<or> g_summary g \<noteq> 0 \<or> g_deferred_summary g \<noteq> 0);
          sh = sh\<lparr>sh_ready := r\<rparr> in
      if wake_owner \<and> had_work then ring_bell sh else sh)"

section \<open>Harvesting\<close>

record ('f, 'w, 'o) pass =
  p_inner :: "('f, 'w) inner"
  p_guard :: guard
  p_polled :: nat
  p_finished :: nat
  p_out :: "'o list"
  p_trace :: "trace_event list"

type_synonym ('f, 'o) poller = "nat \<Rightarrow> 'f \<Rightarrow> ('f, 'o) poll_result \<times> nat list"

definition next_cursor :: "('f, 'w) inner \<Rightarrow> nat \<Rightarrow> nat" where
  "next_cursor s index = (if index + 1 = length (in_storage s) then 0 else index + 1)"

definition clear_current :: "nat \<Rightarrow> ('f, 'w, 'o) pass \<Rightarrow> ('f, 'w, 'o) pass" where
  "clear_current b p = p\<lparr>p_guard := (p_guard p)\<lparr>g_current_bits := g_current_bits (p_guard p) AND NOT (push_bit b 1)\<rparr>\<rparr>"

definition move_cursor :: "nat \<Rightarrow> ('f, 'w, 'o) pass \<Rightarrow> ('f, 'w, 'o) pass" where
  "move_cursor index p = p\<lparr>p_inner := (p_inner p)\<lparr>in_cursor := next_cursor (p_inner p) index\<rparr>\<rparr>"

definition run_wakes :: "nat list \<Rightarrow> ('f, 'w, 'o) pass \<Rightarrow> ('f, 'w, 'o) pass" where
  "run_wakes ws p = p\<lparr>p_inner := (p_inner p)\<lparr>in_shared := fold notify ws (in_shared (p_inner p))\<rparr>, p_trace := p_trace p @ map Woke ws\<rparr>"

definition store_slot :: "nat \<Rightarrow> 'f option \<Rightarrow> ('f, 'w, 'o) pass \<Rightarrow> ('f, 'w, 'o) pass" where
  "store_slot index v p = p\<lparr>p_inner := (p_inner p)\<lparr>in_storage := (in_storage (p_inner p))[index := v]\<rparr>\<rparr>"

definition release_slot :: "nat \<Rightarrow> ('f, 'w, 'o) pass \<Rightarrow> ('f, 'w, 'o) pass" where
  "release_slot index p =
     (let p = store_slot index None p in
      p\<lparr>p_inner := (p_inner p)\<lparr>in_free := in_free (p_inner p) @ [index], in_live := in_live (p_inner p) - 1\<rparr>\<rparr>)"

text \<open>
  One poll of an occupied slot: the pass afterwards, or the unwinding that leaves the bit in the guard. A
  panicking callback unwinds after the slot was released.
\<close>

definition poll_slot :: "('f, 'o) poller \<Rightarrow> nat \<Rightarrow> nat \<Rightarrow> ('f, 'w, 'o) pass \<Rightarrow> ('f, 'w, 'o) pass \<times> bool" where
  "poll_slot poll index b p =
     (let (res, wakes) = poll index (the (in_storage (p_inner p) ! index));
          p = run_wakes wakes (p\<lparr>p_polled := p_polled p + 1, p_trace := p_trace p @ [Polled index]\<rparr>) in
      case res of
        PollUnwinds f \<Rightarrow> (store_slot index (Some f) p, False)
      | CallbackUnwinds out \<Rightarrow> (release_slot index p, False)
      | Pending f \<Rightarrow> (move_cursor index (clear_current b (store_slot index (Some f) p)), True)
      | Ready out \<Rightarrow>
          (let p = release_slot index p; p = p\<lparr>p_out := p_out p @ [out], p_finished := p_finished p + 1\<rparr> in
           (move_cursor index (clear_current b p), True)))"

datatype pass_exit = Finished | Truncated | Unwound

lemma clear_lowest_card:
  "x \<noteq> 0 \<Longrightarrow> card (bits (x AND NOT (push_bit (trailing_zeros x) 1))) < card (bits x)" for x :: u64
  using trailing_in [of x] clear_bit [OF trailing_less, of x x] by (metis card_Diff1_less finite_bits)

lemma poll_slot_bits:
  "poll_slot poll index b p = (p', True) \<Longrightarrow>
   g_current_bits (p_guard p') = g_current_bits (p_guard p) AND NOT (push_bit b 1)"
  by (auto simp: poll_slot_def Let_def move_cursor_def clear_current_def run_wakes_def store_slot_def release_slot_def
      split: prod.splits poll_result.splits)

function poll_current :: "('f, 'o) poller \<Rightarrow> nat \<Rightarrow> ('f, 'w, 'o) pass \<Rightarrow> ('f, 'w, 'o) pass \<times> pass_exit" where
  "poll_current poll cap p =
     (let g = p_guard p; s = p_inner p in
      if g_current_bits g = 0 then (p, Finished)
      else
        (let b = trailing_zeros (g_current_bits g); index = g_current_word g * WORD_BITS + b in
         if index \<ge> length (in_storage s) then poll_current poll cap (clear_current b p)
         else if \<not> is_occupied s index then poll_current poll cap (move_cursor index (clear_current b p))
         else if p_polled p = cap then (p, Truncated)
         else
           (let (p', ok) = poll_slot poll index b p in
            if ok then poll_current poll cap p' else (p', Unwound))))"
  by pat_completeness auto

termination
proof (relation "measure (\<lambda>(poll, cap, p). card (bits (g_current_bits (p_guard p))))", goal_cases)
  case 1
  show ?case by simp
next
  case (2 poll cap p g s b index)
  then show ?case using clear_lowest_card by (simp add: clear_current_def)
next
  case (3 poll cap p g s b index)
  then show ?case using clear_lowest_card by (simp add: clear_current_def move_cursor_def)
next
  case (4 poll cap p g s b index x p' ok)
  then have "poll_slot poll index b p = (p', True)" by simp
  from poll_slot_bits [OF this] 4 show ?case using clear_lowest_card by simp
qed

declare poll_current.simps [simp del]

text \<open>The words still announced in the summary in hand are not touched by polling.\<close>

lemma poll_slot_guard:
  "poll_slot poll index b p = (p', ok) \<Longrightarrow>
   p_guard p' = (p_guard p)\<lparr>g_current_bits := (if ok then g_current_bits (p_guard p) AND NOT (push_bit b 1) else g_current_bits (p_guard p))\<rparr>"
  by (auto simp: poll_slot_def Let_def move_cursor_def clear_current_def run_wakes_def store_slot_def release_slot_def
      split: prod.splits poll_result.splits)

lemma poll_current_guard:
  "\<exists>x. p_guard (fst (poll_current poll cap p)) = (p_guard p)\<lparr>g_current_bits := x\<rparr>"
proof (induction poll cap p rule: poll_current.induct)
  case (1 poll cap p)
  let ?b = "trailing_zeros (g_current_bits (p_guard p))"
  let ?i = "g_current_word (p_guard p) * WORD_BITS + ?b"
  have base: "\<exists>x. p_guard p = (p_guard p)\<lparr>g_current_bits := x\<rparr>" by (rule exI [of _ "g_current_bits (p_guard p)"]) simp
  obtain p' ok where ps: "poll_slot poll ?i ?b p = (p', ok)" by (cases "poll_slot poll ?i ?b p") auto
  note g = poll_slot_guard [OF ps]
  show ?case
    unfolding poll_current.simps [of poll cap p] Let_def
    using 1 ps g base by (auto simp: clear_current_def move_cursor_def Let_def simp del: push_bit_of_1)
qed

lemma next_announced_card:
  "next_announced g = Some (g', w) \<Longrightarrow> card (bits (g_summary g')) < card (bits (g_summary g))"
proof -
  assume a: "next_announced g = Some (g', w)"
  then have nz: "g_summary g \<noteq> 0" and g': "g_summary g' = g_summary g AND (g_summary g - 1)"
    by (auto simp: next_announced_def split: if_splits)
  show ?thesis unfolding g' by (rule lowest_card [OF nz])
qed

definition hold_word :: "nat \<Rightarrow> ('f, 'w, 'o) pass \<Rightarrow> ('f, 'w, 'o) pass" where
  "hold_word word p =
     (let s = p_inner p; (r, b) = take_word word (sh_ready (in_shared s)) in
      p\<lparr>p_inner := s\<lparr>in_shared := (in_shared s)\<lparr>sh_ready := r\<rparr>\<rparr>,
        p_guard := (p_guard p)\<lparr>g_current_word := word, g_current_bits := b\<rparr>\<rparr>)"

function scan_announced :: "('f, 'o) poller \<Rightarrow> nat \<Rightarrow> ('f, 'w, 'o) pass \<Rightarrow> ('f, 'w, 'o) pass \<times> pass_exit" where
  "scan_announced poll cap p =
     (case next_announced (p_guard p) of
        None \<Rightarrow> (p, Finished)
      | Some (g, word) \<Rightarrow>
          (let (p', e) = poll_current poll cap (hold_word word (p\<lparr>p_guard := g\<rparr>)) in
           if e = Finished then scan_announced poll cap p' else (p', e)))"
  by pat_completeness auto

termination
proof (relation "measure (\<lambda>(poll, cap, p). card (bits (g_summary (p_guard p))))", goal_cases)
  case 1
  show ?case by simp
next
  case (2 poll cap p x g word y p' e)
  have "g_summary (p_guard (hold_word word (p\<lparr>p_guard := g\<rparr>))) = g_summary g"
    by (simp add: hold_word_def Let_def split: prod.splits)
  moreover have "fst (poll_current poll cap (hold_word word (p\<lparr>p_guard := g\<rparr>))) = p'" using 2 by (metis fst_conv)
  ultimately have "g_summary (p_guard p') = g_summary g"
    using poll_current_guard [of poll cap "hold_word word (p\<lparr>p_guard := g\<rparr>)"] by auto
  moreover have "next_announced (p_guard p) = Some (g, word)" using 2 by simp
  ultimately show ?case using next_announced_card by simp
qed

declare scan_announced.simps [simp del]

definition hold_summary :: "nat \<Rightarrow> ('f, 'w, 'o) pass \<Rightarrow> ('f, 'w, 'o) pass" where
  "hold_summary summary p =
     (let s = p_inner p; (r, words) = take_summary summary (sh_ready (in_shared s)) in
      p\<lparr>p_inner := s\<lparr>in_shared := (in_shared s)\<lparr>sh_ready := r\<rparr>\<rparr>,
        p_guard := (p_guard p)\<lparr>g_summary_index := summary, g_summary := words\<rparr>\<rparr>)"

text \<open>The rotation over the summary words, \<open>for step in 0..summaries\<close>.\<close>

fun scan_summaries :: "('f, 'o) poller \<Rightarrow> nat \<Rightarrow> nat \<Rightarrow> nat \<Rightarrow> nat list \<Rightarrow> ('f, 'w, 'o) pass \<Rightarrow> ('f, 'w, 'o) pass \<times> pass_exit" where
  "scan_summaries poll cap start summaries [] p = (p, Finished)"
| "scan_summaries poll cap start summaries (step # steps) p =
     (let p = (if step > 0 then hold_summary ((start + step) mod summaries) p else p);
          (p, e) = scan_announced poll cap p in
      if e = Finished then scan_summaries poll cap start summaries steps p else (p, e))"

definition split_summary :: "nat \<Rightarrow> nat \<Rightarrow> ('f, 'w, 'o) pass \<Rightarrow> ('f, 'w, 'o) pass" where
  "split_summary start_summary start_word_bit p =
     (let s = p_inner p; (r, announced) = take_summary start_summary (sh_ready (in_shared s)) in
      p\<lparr>p_inner := s\<lparr>in_shared := (in_shared s)\<lparr>sh_ready := r\<rparr>\<rparr>,
        p_guard := (p_guard p)\<lparr>g_deferred_summary_index := start_summary,
          g_deferred_summary := announced AND low_mask start_word_bit,
          g_summary_index := start_summary, g_summary := announced AND NOT (low_mask start_word_bit)\<rparr>\<rparr>)"

definition split_word :: "nat \<Rightarrow> nat \<Rightarrow> ('f, 'w, 'o) pass \<Rightarrow> ('f, 'w, 'o) pass" where
  "split_word start_word start_bit p =
     (let s = p_inner p; (r, b) = take_word start_word (sh_ready (in_shared s)) in
      p\<lparr>p_inner := s\<lparr>in_shared := (in_shared s)\<lparr>sh_ready := r\<rparr>\<rparr>,
        p_guard := (p_guard p)\<lparr>g_deferred_word := start_word, g_deferred_bits := b AND low_mask start_bit,
          g_current_word := start_word, g_current_bits := b AND NOT (low_mask start_bit)\<rparr>\<rparr>)"

definition with_guard :: "(guard \<Rightarrow> guard) \<Rightarrow> ('f, 'w, 'o) pass \<Rightarrow> ('f, 'w, 'o) pass" where
  "with_guard f p = p\<lparr>p_guard := f (p_guard p)\<rparr>"

definition and_then :: "('p \<Rightarrow> 'p \<times> pass_exit) \<Rightarrow> 'p \<times> pass_exit \<Rightarrow> 'p \<times> pass_exit" where
  "and_then f r = (case r of (p, Finished) \<Rightarrow> f p | (p, e) \<Rightarrow> (p, e))"

definition harvest_single :: "('f, 'o) poller \<Rightarrow> nat \<Rightarrow> nat \<Rightarrow> ('f, 'w, 'o) pass \<Rightarrow> ('f, 'w, 'o) pass \<times> pass_exit" where
  "harvest_single poll cap start_bit p =
     and_then (\<lambda>p. poll_current poll cap (with_guard activate_deferred p))
       (poll_current poll cap (split_word 0 start_bit p))"

definition harvest_start_word :: "('f, 'o) poller \<Rightarrow> nat \<Rightarrow> nat \<Rightarrow> nat \<Rightarrow> ('f, 'w, 'o) pass \<Rightarrow> ('f, 'w, 'o) pass \<times> pass_exit" where
  "harvest_start_word poll cap start_word start_bit p =
     (let start_word_bit = start_word mod WORD_BITS; g = p_guard p in
      if g_summary g AND push_bit start_word_bit 1 \<noteq> 0
      then poll_current poll cap
        (split_word start_word start_bit (p\<lparr>p_guard := g\<lparr>g_summary := g_summary g AND NOT (push_bit start_word_bit 1)\<rparr>\<rparr>))
      else (p, Finished))"

definition harvest_multi :: "('f, 'o) poller \<Rightarrow> nat \<Rightarrow> nat \<Rightarrow> nat \<Rightarrow> ('f, 'w, 'o) pass \<Rightarrow> ('f, 'w, 'o) pass \<times> pass_exit" where
  "harvest_multi poll cap start_word start_bit p =
     (let summaries = rd_summaries (sh_ready (in_shared (p_inner p))); start_summary = start_word div WORD_BITS in
      and_then (\<lambda>p. poll_current poll cap (with_guard activate_deferred p))
        (and_then (\<lambda>p. scan_announced poll cap (with_guard activate_deferred_summary p))
          (and_then (scan_summaries poll cap start_summary summaries [0..<summaries])
            (harvest_start_word poll cap start_word start_bit
              (split_summary start_summary (start_word mod WORD_BITS) p)))))"

record harvest_report =
  h_polled :: nat
  h_finished :: nat
  h_more_ready :: bool

record ('f, 'w, 'o) harvest_result =
  hr_inner :: "('f, 'w) inner"
  hr_report :: "harvest_report option"
  hr_out :: "'o list"
  hr_trace :: "trace_event list"

definition restore_pass :: "bool \<Rightarrow> ('f, 'w, 'o) pass \<Rightarrow> ('f, 'w) inner" where
  "restore_pass wake_owner p =
     (p_inner p)\<lparr>in_shared := guard_restore wake_owner (p_guard p) (in_shared (p_inner p))\<rparr>"

text \<open>A harvest that unwinds has no report; its guard restores the bits and rings the owner's bell.\<close>

definition harvest :: "('f, 'o) poller \<Rightarrow> nat \<Rightarrow> ('f, 'w) inner \<Rightarrow> ('f, 'w, 'o) harvest_result" where
  "harvest poll cap s =
     (if cap = 0 \<or> outstanding_capacity s = 0
      then \<lparr>hr_inner = s, hr_report = Some \<lparr>h_polled = 0, h_finished = 0, h_more_ready = has_ready (sh_ready (in_shared s))\<rparr>,
             hr_out = [], hr_trace = []\<rparr>
      else
        (let start_word = in_cursor s div WORD_BITS; start_bit = in_cursor s mod WORD_BITS;
             p = \<lparr>p_inner = s, p_guard = guard_new, p_polled = 0, p_finished = 0, p_out = [], p_trace = []\<rparr>;
             (p, e) = (if length (rd_words (sh_ready (in_shared s))) = 1 then harvest_single poll cap start_bit p
                       else harvest_multi poll cap start_word start_bit p);
             report = (\<lambda>more. \<lparr>h_polled = p_polled p, h_finished = p_finished p, h_more_ready = more\<rparr>) in
         case e of
           Finished \<Rightarrow> \<lparr>hr_inner = p_inner p, hr_report = Some (report (has_ready (sh_ready (in_shared (p_inner p))))),
                         hr_out = p_out p, hr_trace = p_trace p\<rparr>
         | Truncated \<Rightarrow> \<lparr>hr_inner = restore_pass False p, hr_report = Some (report True), hr_out = p_out p, hr_trace = p_trace p\<rparr>
         | Unwound \<Rightarrow> \<lparr>hr_inner = restore_pass True p, hr_report = None, hr_out = p_out p, hr_trace = p_trace p\<rparr>))"

definition poll_harvest :: "'w \<Rightarrow> ('f, 'o) poller \<Rightarrow> nat \<Rightarrow> ('f, 'w) inner \<Rightarrow> ('f, 'w, 'o) harvest_result option" where
  "poll_harvest w poll cap s = map_option (harvest poll cap) (register_owner w s)"

section \<open>The self-check\<close>

fun check_free :: "('f, 'w) inner \<Rightarrow> nat list \<Rightarrow> bool list \<Rightarrow> string + bool list" where
  "check_free s [] seen = Inr seen"
| "check_free s (index # rest) seen =
     (if index \<ge> outstanding_capacity s \<or> seen ! index then Inl ''free list is out of range or duplicated''
      else if is_occupied s index then Inl ''free list contains an occupied slot''
      else check_free s rest (seen[index := True]))"

definition outstanding_check_invariants :: "('f, 'w) inner \<Rightarrow> string + unit" where
  "outstanding_check_invariants s =
     (let cap = outstanding_capacity s in
      if in_live s + length (in_free s) \<noteq> cap then Inl ''live plus free does not equal capacity''
      else if cap \<noteq> 0 \<and> in_cursor s \<ge> cap then Inl ''scan cursor is outside capacity''
      else
        (case check_free s (in_free s) (replicate cap False) of
           Inl e \<Rightarrow> Inl e
         | Inr seen \<Rightarrow>
             if length (List.filter (is_occupied s) [0..<cap]) \<noteq> in_live s then Inl ''live counter disagrees with storage''
             else if list_ex (\<lambda>i. seen ! i = is_occupied s i) [0..<cap]
             then Inl ''a slot is neither exclusively free nor occupied''
             else Inr ()))"

end
