(* ===== verification/Outstanding_Props.thy ===== *)
theory Outstanding_Props
  imports Outstanding Machine
begin

unbundle bit_operations_syntax

text \<open>
  The outstanding set loses no readiness. The two-level bitmap is read as a set of slots, the operations of
  the ready set become set operations, and a harvest is shown to keep every owed poll of a live future: in
  the bitmap, or in the guard until the guard gives it back.
\<close>

section \<open>Positions\<close>

definition slots_of :: "nat \<Rightarrow> u64 \<Rightarrow> nat set" where
  "slots_of w x = {i. i div 64 = w \<and> i mod 64 \<in> bits x}"

lemma slots_of_iff [simp]: "i \<in> slots_of w x \<longleftrightarrow> i div 64 = w \<and> i mod 64 \<in> bits x"
  by (simp add: slots_of_def)

lemma slots_of_zero [simp]: "slots_of w 0 = {}"
  by auto

lemma slots_of_bitwise:
  "slots_of w (x OR y) = slots_of w x \<union> slots_of w y" "slots_of w (x AND y) = slots_of w x \<inter> slots_of w y"
  by auto

lemma bits_inject: "bits x = bits y \<Longrightarrow> x = y" for x y :: u64
  by (rule bit_word_eqI) (auto simp: bits_def)

lemma bits_push [simp]: "n < 64 \<Longrightarrow> bits (push_bit n 1) = {n}"
  by simp

lemma slots_of_at: "b \<in> bits x \<Longrightarrow> w * 64 + b \<in> slots_of w x"
  using bits_less [of b x] by simp

lemma slots_of_nonzero: "x \<noteq> 0 \<Longrightarrow> \<exists>i. i \<in> slots_of w x"
  using trailing_in slots_of_at by blast

section \<open>The ready set as a set\<close>

definition rd_shape :: "ready_set \<Rightarrow> bool" where
  "rd_shape r \<longleftrightarrow> rd_slots r \<le> OUTSTANDING_MAX_CAPACITY \<and> length (rd_words r) = div_ceil (rd_slots r) 64 \<and>
     length (rd_summary r) = SUMMARY_WORDS \<and>
     rd_summaries r = (if length (rd_words r) > 1 then div_ceil (length (rd_words r)) 64 else 0)"

definition rd_wf :: "ready_set \<Rightarrow> bool" where
  "rd_wf r \<longleftrightarrow> rd_shape r \<and>
     (\<forall>w < length (rd_words r). slots_of w (rd_words r ! w) \<subseteq> {..<rd_slots r}) \<and>
     (\<forall>s < length (rd_summary r). slots_of s (rd_summary r ! s) \<subseteq> {..<length (rd_words r)})"

lemma rd_wf_shape: "rd_wf r \<Longrightarrow> rd_shape r"
  by (simp add: rd_wf_def)

lemma rd_wf_words: "rd_wf r \<Longrightarrow> w < length (rd_words r) \<Longrightarrow> slots_of w (rd_words r ! w) \<subseteq> {..<rd_slots r}"
  by (simp add: rd_wf_def)

lemma rd_wf_summary: "rd_wf r \<Longrightarrow> s < length (rd_summary r) \<Longrightarrow> slots_of s (rd_summary r ! s) \<subseteq> {..<length (rd_words r)}"
  by (simp add: rd_wf_def)

lemma rd_wfI:
  assumes "rd_shape r" "\<And>w. w < length (rd_words r) \<Longrightarrow> slots_of w (rd_words r ! w) \<subseteq> {..<rd_slots r}"
    "\<And>s. s < length (rd_summary r) \<Longrightarrow> slots_of s (rd_summary r ! s) \<subseteq> {..<length (rd_words r)}"
  shows "rd_wf r"
  using assms unfolding rd_wf_def by blast

definition ready :: "ready_set \<Rightarrow> nat set" where
  "ready r = {i. i < rd_slots r \<and> i mod 64 \<in> bits (rd_words r ! (i div 64))}"

definition announced :: "ready_set \<Rightarrow> nat set" where
  "announced r = {w. w < length (rd_words r) \<and> w mod 64 \<in> bits (rd_summary r ! (w div 64))}"

text \<open>Every nonempty word is announced, or its announcement is among the words in hand.\<close>

definition covered :: "ready_set \<Rightarrow> nat set \<Rightarrow> bool" where
  "covered r H \<longleftrightarrow> rd_summaries r = 0 \<or> (\<forall>w < length (rd_words r). rd_words r ! w \<noteq> 0 \<longrightarrow> w \<in> announced r \<union> H)"

definition same_shape :: "ready_set \<Rightarrow> ready_set \<Rightarrow> bool" where
  "same_shape r r' \<longleftrightarrow> rd_slots r' = rd_slots r \<and> length (rd_words r') = length (rd_words r) \<and>
     length (rd_summary r') = length (rd_summary r) \<and> rd_summaries r' = rd_summaries r"

lemma same_shape_refl [simp]: "same_shape r r"
  by (simp add: same_shape_def)

lemma same_shape_trans: "same_shape r r' \<Longrightarrow> same_shape r' r'' \<Longrightarrow> same_shape r r''"
  by (simp add: same_shape_def)

lemma shape_same: "rd_shape r \<Longrightarrow> same_shape r r' \<Longrightarrow> rd_shape r'"
  by (simp add: rd_shape_def same_shape_def)

lemma div_ceil_less: "i < n \<Longrightarrow> i div 64 < div_ceil n 64"
  unfolding div_ceil_def by linarith

lemma ceil_le: "div_ceil n 64 * 64 < n + 64"
  unfolding div_ceil_def by linarith

lemma ceil_last:
  assumes "w + 1 = div_ceil n 64" "n mod 64 \<noteq> 0"
  shows "n = w * 64 + n mod 64"
proof -
  have n: "n = 64 * (n div 64) + n mod 64" by simp
  have "n + 63 = (n mod 64 + 63) + 64 * (n div 64)" using n by linarith
  then have "div_ceil n 64 = n div 64 + (n mod 64 + 63) div 64" unfolding div_ceil_def by (simp only: div_mult_self2 flip: add.commute)
  moreover have "(n mod 64 + 63) div 64 = 1"
    by (rule div_nat_eqI) (use assms(2) mod_less_divisor [of 64 n] in simp_all)
  ultimately show ?thesis using assms(1) n by linarith
qed

lemma word_in_range: "rd_wf r \<Longrightarrow> i < rd_slots r \<Longrightarrow> i div 64 < length (rd_words r)"
  using rd_wf_shape [of r] by (simp add: rd_shape_def div_ceil_less)

lemma words_bound: "rd_wf r \<Longrightarrow> length (rd_words r) \<le> 1024"
  using ceil_le [of "rd_slots r"] rd_wf_shape [of r] by (simp add: rd_shape_def OUTSTANDING_MAX_CAPACITY_def MAX_WORDS_def)

lemma summary_length: "rd_wf r \<Longrightarrow> length (rd_summary r) = 16"
  using rd_wf_shape [of r] by (simp add: rd_shape_def SUMMARY_WORDS_def MAX_WORDS_def div_ceil_def)

lemma summary_in_range: "rd_wf r \<Longrightarrow> w < length (rd_words r) \<Longrightarrow> w div 64 < length (rd_summary r)"
  using words_bound [of r] summary_length [of r] by linarith

lemma summaries_bound: "rd_wf r \<Longrightarrow> rd_summaries r \<le> length (rd_summary r)"
proof -
  assume wf: "rd_wf r"
  then have "rd_summaries r \<le> div_ceil (length (rd_words r)) 64" using rd_wf_shape by (simp add: rd_shape_def)
  then show ?thesis using words_bound [OF wf] ceil_le [of "length (rd_words r)"] summary_length [OF wf] by linarith
qed

lemma summary_within: "rd_wf r \<Longrightarrow> rd_summaries r \<noteq> 0 \<Longrightarrow> w < length (rd_words r) \<Longrightarrow> w div 64 < rd_summaries r"
  using rd_wf_shape [of r] div_ceil_less [of w "length (rd_words r)"] by (simp add: rd_shape_def split: if_splits)

text \<open>The masks only hide positions that are never set.\<close>

lemma mask_id:
  assumes "slots_of w x \<subseteq> {..<n}" "w + 1 = div_ceil n 64" "n mod 64 \<noteq> 0"
  shows "x AND low_mask (n mod 64) = x"
proof -
  have "b < n mod 64" if "b \<in> bits x" for b
  proof -
    have "w * 64 + b < n" using subsetD [OF assms(1) slots_of_at [OF that]] by simp
    with ceil_last [OF assms(2,3)] show ?thesis by linarith
  qed
  then show ?thesis by (intro bits_inject) auto
qed

lemma valid_mask_id:
  assumes "rd_wf r" "w < length (rd_words r)" "slots_of w x \<subseteq> {..<rd_slots r}"
  shows "x AND valid_mask r w = x"
  using mask_id [OF assms(3)] rd_wf_shape [OF assms(1)] by (auto simp: valid_mask_def Let_def rd_shape_def)

lemma summary_mask_id:
  assumes "rd_wf r" "slots_of s x \<subseteq> {..<length (rd_words r)}"
  shows "x AND summary_mask r s = x"
proof (cases "s + 1 = rd_summaries r \<and> length (rd_words r) mod 64 \<noteq> 0")
  case True
  then have "s + 1 = div_ceil (length (rd_words r)) 64"
    using rd_wf_shape [OF assms(1)] by (simp add: rd_shape_def split: if_splits)
  from mask_id [OF assms(2) this] True show ?thesis by (simp add: summary_mask_def Let_def)
qed (auto simp: summary_mask_def Let_def)

text \<open>The two primitive updates.\<close>

lemma or_word_spec:
  assumes "rd_wf r" "w < length (rd_words r)" "slots_of w b \<subseteq> {..<rd_slots r}"
  shows "rd_wf (or_word w b r)" "ready (or_word w b r) = ready r \<union> slots_of w b"
    "announced (or_word w b r) = announced r" "same_shape r (or_word w b r)"
proof -
  show shape: "same_shape r (or_word w b r)" by (simp add: or_word_def same_shape_def)
  show "rd_wf (or_word w b r)"
  proof (rule rd_wfI [OF shape_same [OF rd_wf_shape [OF assms(1)] shape]])
    fix v
    assume "v < length (rd_words (or_word w b r))"
    then show "slots_of v (rd_words (or_word w b r) ! v) \<subseteq> {..<rd_slots (or_word w b r)}"
      using rd_wf_words [OF assms(1)] assms(2,3) by (cases "v = w") (simp_all add: or_word_def slots_of_bitwise)
  next
    fix v
    assume "v < length (rd_summary (or_word w b r))"
    then show "slots_of v (rd_summary (or_word w b r) ! v) \<subseteq> {..<length (rd_words (or_word w b r))}"
      using rd_wf_summary [OF assms(1)] by (simp add: or_word_def)
  qed
  show "ready (or_word w b r) = ready r \<union> slots_of w b"
    using assms(2,3) by (auto simp: ready_def or_word_def nth_list_update split: if_splits)
  show "announced (or_word w b r) = announced r" by (simp add: or_word_def announced_def)
qed

lemma or_summary_spec:
  assumes "rd_wf r" "s < length (rd_summary r)" "slots_of s b \<subseteq> {..<length (rd_words r)}"
  shows "rd_wf (or_summary s b r)" "ready (or_summary s b r) = ready r"
    "announced (or_summary s b r) = announced r \<union> slots_of s b" "same_shape r (or_summary s b r)"
    "rd_words (or_summary s b r) = rd_words r"
proof -
  show shape: "same_shape r (or_summary s b r)" by (simp add: or_summary_def same_shape_def)
  show "rd_wf (or_summary s b r)"
  proof (rule rd_wfI [OF shape_same [OF rd_wf_shape [OF assms(1)] shape]])
    fix v
    assume "v < length (rd_words (or_summary s b r))"
    then show "slots_of v (rd_words (or_summary s b r) ! v) \<subseteq> {..<rd_slots (or_summary s b r)}"
      using rd_wf_words [OF assms(1)] by (simp add: or_summary_def)
  next
    fix v
    assume "v < length (rd_summary (or_summary s b r))"
    then show "slots_of v (rd_summary (or_summary s b r) ! v) \<subseteq> {..<length (rd_words (or_summary s b r))}"
      using rd_wf_summary [OF assms(1)] assms(2,3) by (cases "v = s") (simp_all add: or_summary_def slots_of_bitwise)
  qed
  show "announced (or_summary s b r) = announced r \<union> slots_of s b"
    using assms(2,3) by (auto simp: announced_def or_summary_def nth_list_update split: if_splits)
qed (simp_all add: or_summary_def ready_def)

lemma single_slot: "slots_of (i div 64) (push_bit (i mod 64) 1) = {i}"
proof -
  have "bits (push_bit (i mod 64) 1) = {i mod 64}" by (rule bits_push) simp
  then show ?thesis unfolding slots_of_def by auto (metis div_mult_mod_eq)
qed

lemma announce_spec:
  assumes "rd_wf r" "w < length (rd_words r)"
  shows "rd_wf (announce w r)" "ready (announce w r) = ready r" "same_shape r (announce w r)"
    "rd_words (announce w r) = rd_words r" "rd_summaries r \<noteq> 0 \<Longrightarrow> announced (announce w r) = insert w (announced r)"
proof -
  note o = or_summary_spec [OF assms(1) summary_in_range [OF assms], of "push_bit (w mod 64) 1", unfolded single_slot]
  show "rd_wf (announce w r)" "ready (announce w r) = ready r" "same_shape r (announce w r)"
    "rd_words (announce w r) = rd_words r" "rd_summaries r \<noteq> 0 \<Longrightarrow> announced (announce w r) = insert w (announced r)"
    using assms o unfolding announce_def by auto
qed

text \<open>A word that receives bits is announced when it was empty, and was announced before when it was not.\<close>

lemma publish_spec:
  assumes "rd_wf r" "w < length (rd_words r)" "slots_of w b \<subseteq> {..<rd_slots r}"
  defines "r' \<equiv> (if rd_words r ! w = 0 then announce w (or_word w b r) else or_word w b r)"
  shows "rd_wf r'" "ready r' = ready r \<union> slots_of w b" "same_shape r r'" "covered r H \<Longrightarrow> covered r' H"
proof -
  note o = or_word_spec [OF assms(1,2,3)]
  have len: "w < length (rd_words (or_word w b r))" using assms(2) o(4) by (simp add: same_shape_def)
  note a = announce_spec [OF o(1) len]
  show "rd_wf r'" "ready r' = ready r \<union> slots_of w b" "same_shape r r'"
    using o a by (auto simp: r'_def intro: same_shape_trans)
  have w: "rd_words r' = (rd_words r)[w := rd_words r ! w OR b]" using a(4) by (auto simp: r'_def or_word_def)
  show "covered r' H" if c: "covered r H"
  proof (cases "rd_summaries r = 0")
    case True
    then show ?thesis using \<open>same_shape r r'\<close> by (simp add: covered_def same_shape_def)
  next
    case False
    then have "rd_summaries (or_word w b r) \<noteq> 0" using o(4) by (simp add: same_shape_def)
    then have "announced r' = (if rd_words r ! w = 0 then insert w (announced r) else announced r)"
      using a(5) o(3) by (simp add: r'_def)
    then show ?thesis using c False w assms(2) by (auto simp: covered_def nth_list_update split: if_splits)
  qed
qed

lemma ready_mark_spec:
  assumes "rd_wf r" "slot < rd_slots r"
  obtains r' fresh where "ready_mark slot r = Some (r', fresh)" "fresh = (slot \<notin> ready r)" "rd_wf r'"
    "ready r' = insert slot (ready r)" "same_shape r r'" "\<forall>H. covered r H \<longrightarrow> covered r' H"
proof -
  let ?w = "slot div 64" and ?b = "push_bit (slot mod 64) 1 :: u64"
  let ?r = "if rd_words r ! ?w = 0 then announce ?w (or_word ?w ?b r) else or_word ?w ?b r"
  note p = publish_spec [OF assms(1) word_in_range [OF assms], of ?b, unfolded single_slot]
  have fresh: "(rd_words r ! ?w AND ?b = 0) = (slot \<notin> ready r)"
    using mask_bit [of "slot mod 64" "rd_words r ! ?w"] assms(2) by (auto simp: ready_def bits_def simp del: push_bit_of_1)
  show thesis
  proof (rule that)
    show "ready_mark slot r = Some (?r, rd_words r ! ?w AND ?b = 0)" using assms(2) by (simp add: ready_mark_def Let_def del: push_bit_of_1)
    show "(rd_words r ! ?w AND ?b = 0) = (slot \<notin> ready r)" by (rule fresh)
    show "rd_wf ?r" using p(1) assms(2) by blast
    show "ready ?r = insert slot (ready r)" using p(2) assms(2) by blast
    show "same_shape r ?r" using p(3) assms(2) by blast
    show "\<forall>H. covered r H \<longrightarrow> covered ?r H" using p(4) assms(2) by blast
  qed
qed

lemma take_word_spec:
  assumes "rd_wf r" "w < length (rd_words r)"
  obtains r' b where "take_word w r = (r', b)" "rd_wf r'" "ready r' = {i \<in> ready r. i div 64 \<noteq> w}"
    "slots_of w b = {i \<in> ready r. i div 64 = w}" "same_shape r r'" "\<forall>H. covered r (insert w H) \<longrightarrow> covered r' H"
proof -
  note sub = rd_wf_words [OF assms]
  let ?r = "r\<lparr>rd_words := (rd_words r)[w := 0]\<rparr>"
  show thesis
  proof (rule that)
    show "take_word w r = (?r, rd_words r ! w)" using valid_mask_id [OF assms sub] by (simp add: take_word_def)
    show shape: "same_shape r ?r" by (simp add: same_shape_def)
    show "rd_wf ?r"
    proof (rule rd_wfI [OF shape_same [OF rd_wf_shape [OF assms(1)] shape]])
      fix v
      assume "v < length (rd_words ?r)"
      then show "slots_of v (rd_words ?r ! v) \<subseteq> {..<rd_slots ?r}"
        using rd_wf_words [OF assms(1)] by (cases "v = w") simp_all
    qed (use rd_wf_summary [OF assms(1)] in simp)
    show "ready ?r = {i \<in> ready r. i div 64 \<noteq> w}"
      using assms(2) by (auto simp: ready_def nth_list_update split: if_splits)
    show "slots_of w (rd_words r ! w) = {i \<in> ready r. i div 64 = w}" using sub by (auto simp: ready_def)
    show "\<forall>H. covered r (insert w H) \<longrightarrow> covered ?r H"
      using assms(2) by (auto simp: covered_def announced_def nth_list_update split: if_splits)
  qed
qed

lemma take_summary_spec:
  assumes "rd_wf r" "s < length (rd_summary r)"
  obtains r' b where "take_summary s r = (r', b)" "rd_wf r'" "ready r' = ready r"
    "slots_of s b \<subseteq> {..<length (rd_words r)}" "same_shape r r'" "\<forall>H. covered r H \<longrightarrow> covered r' (H \<union> slots_of s b)"
proof -
  note sub = rd_wf_summary [OF assms]
  let ?r = "r\<lparr>rd_summary := (rd_summary r)[s := 0]\<rparr>"
  show thesis
  proof (rule that)
    show "take_summary s r = (?r, rd_summary r ! s)" using summary_mask_id [OF assms(1) sub] by (simp add: take_summary_def)
    show shape: "same_shape r ?r" by (simp add: same_shape_def)
    show "rd_wf ?r"
    proof (rule rd_wfI [OF shape_same [OF rd_wf_shape [OF assms(1)] shape]])
      fix v
      assume "v < length (rd_summary ?r)"
      then show "slots_of v (rd_summary ?r ! v) \<subseteq> {..<length (rd_words ?r)}"
        using rd_wf_summary [OF assms(1)] by (cases "v = s") simp_all
    qed (use rd_wf_words [OF assms(1)] in simp)
    show "slots_of s (rd_summary r ! s) \<subseteq> {..<length (rd_words r)}" by (rule sub)
    show "\<forall>H. covered r H \<longrightarrow> covered ?r (H \<union> slots_of s (rd_summary r ! s))"
      using assms(2) by (auto simp: covered_def announced_def nth_list_update split: if_splits)
  qed (simp add: ready_def)
qed

lemma restore_word_spec:
  assumes "rd_wf r" "slots_of w b \<subseteq> {..<rd_slots r}"
  shows "rd_wf (restore_word w b r)" "ready (restore_word w b r) = ready r \<union> slots_of w b"
    "same_shape r (restore_word w b r)" "covered r H \<Longrightarrow> covered (restore_word w b r) H"
proof -
  have "rd_wf (restore_word w b r) \<and> ready (restore_word w b r) = ready r \<union> slots_of w b \<and>
    same_shape r (restore_word w b r) \<and> (covered r H \<longrightarrow> covered (restore_word w b r) H)"
  proof (cases "b = 0")
    case True
    then show ?thesis using assms(1) by (simp add: restore_word_def)
  next
    case False
    then obtain i where "i \<in> slots_of w b" using slots_of_nonzero by blast
    then have w: "w < length (rd_words r)" using assms word_in_range [of r i] by auto
    show ?thesis
      using publish_spec [OF assms(1) w assms(2)] valid_mask_id [OF assms(1) w assms(2)] False
      by (auto simp: restore_word_def Let_def)
  qed
  then show "rd_wf (restore_word w b r)" "ready (restore_word w b r) = ready r \<union> slots_of w b"
    "same_shape r (restore_word w b r)" "covered r H \<Longrightarrow> covered (restore_word w b r) H" by auto
qed

lemma restore_summary_spec:
  assumes "rd_wf r" "slots_of s b \<subseteq> {..<length (rd_words r)}"
  shows "rd_wf (restore_summary s b r)" "ready (restore_summary s b r) = ready r"
    "same_shape r (restore_summary s b r)" "covered r (H \<union> slots_of s b) \<Longrightarrow> covered (restore_summary s b r) H"
proof -
  have "rd_wf (restore_summary s b r) \<and> ready (restore_summary s b r) = ready r \<and>
    same_shape r (restore_summary s b r) \<and> (covered r (H \<union> slots_of s b) \<longrightarrow> covered (restore_summary s b r) H)"
  proof (cases "b = 0")
    case True
    then show ?thesis using assms(1) by (simp add: restore_summary_def)
  next
    case False
    then obtain i where "i \<in> slots_of s b" using slots_of_nonzero by blast
    then have s: "s < length (rd_summary r)" using assms summary_in_range [of r i] by auto
    note o = or_summary_spec [OF assms(1) s assms(2)]
    have "restore_summary s b r = or_summary s b r"
      using False summary_mask_id [OF assms(1,2)] by (simp add: restore_summary_def Let_def)
    then show ?thesis using o by (auto simp: covered_def same_shape_def)
  qed
  then show "rd_wf (restore_summary s b r)" "ready (restore_summary s b r) = ready r"
    "same_shape r (restore_summary s b r)" "covered r (H \<union> slots_of s b) \<Longrightarrow> covered (restore_summary s b r) H" by auto
qed

text \<open>With nothing in hand, an empty answer of \<open>has_ready\<close> is the truth.\<close>

lemma has_ready_complete:
  assumes "rd_wf r" "covered r {}" "\<not> has_ready r"
  shows "ready r = {}"
proof (rule ccontr)
  assume "ready r \<noteq> {}"
  then obtain i where i: "i < rd_slots r" "i mod 64 \<in> bits (rd_words r ! (i div 64))" by (auto simp: ready_def)
  let ?w = "i div 64"
  have w: "?w < length (rd_words r)" by (rule word_in_range [OF assms(1) i(1)])
  have nz: "rd_words r ! ?w \<noteq> 0" using i(2) by auto
  show False
  proof (cases "rd_summaries r = 0")
    case True
    then have one: "length (rd_words r) = 1"
      using w rd_wf_shape [OF assms(1)] div_ceil_less [of 0 "length (rd_words r)"] by (auto simp: rd_shape_def split: if_splits)
    have "slots_of ?w (rd_words r ! ?w) \<subseteq> {..<rd_slots r}" using assms(1) w by (simp add: rd_wf_def)
    from valid_mask_id [OF assms(1) w this] show False using assms(3) one w nz by (simp add: has_ready_def)
  next
    case False
    then have a: "?w \<in> announced r" using assms(2) w nz by (auto simp: covered_def)
    have s: "?w div 64 < rd_summaries r" "?w div 64 < length (rd_summary r)"
      using summary_within [OF assms(1) False w] summary_in_range [OF assms(1) w] by simp_all
    have "slots_of (?w div 64) (rd_summary r ! (?w div 64)) \<subseteq> {..<length (rd_words r)}" using assms(1) s by (simp add: rd_wf_def)
    from summary_mask_id [OF assms(1) this] have "rd_summary r ! (?w div 64) AND summary_mask r (?w div 64) \<noteq> 0"
      using a by (auto simp: announced_def)
    moreover have "length (rd_words r) > 1" using False rd_wf_shape [OF assms(1)] by (auto simp: rd_shape_def split: if_splits)
    moreover have "has_ready r \<longleftrightarrow> (\<exists>v < rd_summaries r. rd_summary r ! v AND summary_mask r v \<noteq> 0)" if "length (rd_words r) > 1"
      using that by (auto simp: has_ready_def list_ex_iff)
    ultimately show False using assms(3) s(1) by blast
  qed
qed

end
