(* ===== verification/Outstanding_Harvest.thy ===== *)
theory Outstanding_Harvest
  imports Outstanding_Props
begin

unbundle bit_operations_syntax

text \<open>
  A harvest pass keeps its invariant from the first swap to the last restored bit, on every exit: finished,
  truncated by the cap, or unwound by a panic.
\<close>

section \<open>What a pass owes\<close>

definition occupied :: "('f, 'w) inner \<Rightarrow> nat set" where
  "occupied s = {i. i < length (in_storage s) \<and> is_occupied s i}"

definition store_wf :: "('f, 'w) inner \<Rightarrow> bool" where
  "store_wf s \<longleftrightarrow> distinct (in_free s) \<and> set (in_free s) = {..<length (in_storage s)} - occupied s \<and>
     in_live s + length (in_free s) = length (in_storage s) \<and>
     (length (in_storage s) \<noteq> 0 \<longrightarrow> in_cursor s < length (in_storage s))"

fun owe :: "trace_event \<Rightarrow> nat set \<Rightarrow> nat set" where
  "owe (Polled i) S = S - {i}" | "owe (Woke j) S = insert j S"

definition owed :: "nat set \<Rightarrow> trace_event list \<Rightarrow> nat set" where
  "owed R tr = fold owe tr R"

fun is_polled :: "trace_event \<Rightarrow> bool" where
  "is_polled (Polled i) = True" | "is_polled (Woke j) = False"

definition held_bits :: "guard \<Rightarrow> nat set" where
  "held_bits g = slots_of (g_current_word g) (g_current_bits g) \<union> slots_of (g_deferred_word g) (g_deferred_bits g)"

definition held_words :: "guard \<Rightarrow> nat set" where
  "held_words g = slots_of (g_summary_index g) (g_summary g) \<union> slots_of (g_deferred_summary_index g) (g_deferred_summary g)"

definition shared_inv :: "'w shared \<Rightarrow> guard \<Rightarrow> bool" where
  "shared_inv sh g \<longleftrightarrow> rd_wf (sh_ready sh) \<and> \<not> bell_closed (sh_bell sh) \<and> covered (sh_ready sh) (held_words g) \<and>
     held_bits g \<subseteq> {..<rd_slots (sh_ready sh)} \<and> held_words g \<subseteq> {..<length (rd_words (sh_ready sh))}"

definition inner_inv :: "('f, 'w) inner \<Rightarrow> guard \<Rightarrow> bool" where
  "inner_inv s g \<longleftrightarrow> shared_inv (in_shared s) g \<and> rd_slots (sh_ready (in_shared s)) = length (in_storage s) \<and> store_wf s"

definition pass_inv :: "nat set \<Rightarrow> nat \<Rightarrow> nat \<Rightarrow> bool \<Rightarrow> ('f, 'w, 'o) pass \<Rightarrow> bool" where
  "pass_inv R live cap ok p \<longleftrightarrow> inner_inv (p_inner p) (p_guard p) \<and> length (in_storage (p_inner p)) \<noteq> 0 \<and>
     owed R (p_trace p) \<inter> occupied (p_inner p) \<subseteq> ready (sh_ready (in_shared (p_inner p))) \<union> held_bits (p_guard p) \<and>
     p_polled p = length (filter is_polled (p_trace p)) \<and> p_polled p \<le> cap \<and> p_finished p = length (p_out p) \<and>
     (ok \<longrightarrow> in_live (p_inner p) + p_finished p = live)"

lemma owed_append: "owed R (tr @ tr') = owed (owed R tr) tr'"
  by (simp add: owed_def)

lemma owed_woke: "owed R (map Woke ws) = R \<union> set ws"
  by (induction ws arbitrary: R) (auto simp: owed_def)

lemma owed_cons: "owed R (e # tr) = owed (owe e R) tr"
  by (simp add: owed_def)

lemma owed_nil [simp]: "owed R [] = R"
  by (simp add: owed_def)

lemma no_poll [simp]: "filter is_polled (map Woke ws) = []"
  by (induction ws) auto

section \<open>Wakes\<close>

lemma ring_bell_ready [simp]: "sh_ready (ring_bell sh) = sh_ready sh" "bell_closed (sh_bell (ring_bell sh)) = bell_closed (sh_bell sh)"
  by (auto simp: ring_bell_def bell_ring_def Let_def split: prod.splits if_splits)

lemma notify_spec:
  assumes "shared_inv sh g"
  shows "shared_inv (notify j sh) g" "same_shape (sh_ready sh) (sh_ready (notify j sh))"
    "ready (sh_ready (notify j sh)) = ready (sh_ready sh) \<union> ({j} \<inter> {..<rd_slots (sh_ready sh)})"
proof -
  have wf: "rd_wf (sh_ready sh)" and open': "\<not> bell_closed (sh_bell sh)" using assms by (auto simp: shared_inv_def)
  have "shared_inv (notify j sh) g \<and> same_shape (sh_ready sh) (sh_ready (notify j sh)) \<and>
    ready (sh_ready (notify j sh)) = ready (sh_ready sh) \<union> ({j} \<inter> {..<rd_slots (sh_ready sh)})"
  proof (cases "j < rd_slots (sh_ready sh)")
    case False
    then have "ready_mark j (sh_ready sh) = None" by (simp add: ready_mark_def)
    then show ?thesis using open' assms False by (simp add: notify_def)
  next
    case True
    obtain r' fresh where m: "ready_mark j (sh_ready sh) = Some (r', fresh)" "rd_wf r'" "ready r' = insert j (ready (sh_ready sh))"
      "same_shape (sh_ready sh) r'" "\<forall>H. covered (sh_ready sh) H \<longrightarrow> covered r' H" using ready_mark_spec [OF wf True] by metis
    have "sh_ready (notify j sh) = r'" "bell_closed (sh_bell (notify j sh)) = False"
      using m(1) open' by (auto simp: notify_def Let_def)
    then show ?thesis using assms m True by (auto simp: shared_inv_def same_shape_def)
  qed
  then show "shared_inv (notify j sh) g" "same_shape (sh_ready sh) (sh_ready (notify j sh))"
    "ready (sh_ready (notify j sh)) = ready (sh_ready sh) \<union> ({j} \<inter> {..<rd_slots (sh_ready sh)})" by auto
qed

lemma wakes_spec:
  assumes "shared_inv sh g"
  shows "shared_inv (fold notify ws sh) g \<and> same_shape (sh_ready sh) (sh_ready (fold notify ws sh)) \<and>
    ready (sh_ready (fold notify ws sh)) = ready (sh_ready sh) \<union> (set ws \<inter> {..<rd_slots (sh_ready sh)})"
  using assms
proof (induction ws arbitrary: sh)
  case (Cons j ws)
  note n = notify_spec [OF Cons.prems, of j]
  have "rd_slots (sh_ready (notify j sh)) = rd_slots (sh_ready sh)" using n(2) by (simp add: same_shape_def)
  then show ?case using Cons.IH [OF n(1)] n same_shape_trans by (auto simp: n(3))
qed simp

section \<open>The storage\<close>

lemma occupied_update:
  "i < length (in_storage s) \<Longrightarrow>
   occupied (s\<lparr>in_storage := (in_storage s)[i := v]\<rparr>) = (if v = None then occupied s - {i} else insert i (occupied s))"
  by (auto simp: occupied_def is_occupied_def nth_list_update)

lemma occupied_other [simp]:
  "occupied (s\<lparr>in_cursor := c\<rparr>) = occupied s" "occupied (s\<lparr>in_shared := sh\<rparr>) = occupied s"
  "occupied (s\<lparr>in_free := fr\<rparr>) = occupied s" "occupied (s\<lparr>in_live := l\<rparr>) = occupied s"
  by (simp_all add: occupied_def is_occupied_def)

lemma store_wf_other [simp]: "store_wf (s\<lparr>in_shared := sh\<rparr>) = store_wf s"
  by (simp add: store_wf_def)

lemma store_wf_cursor: "store_wf s \<Longrightarrow> i < length (in_storage s) \<Longrightarrow> store_wf (s\<lparr>in_cursor := next_cursor s i\<rparr>)"
  by (auto simp: store_wf_def next_cursor_def)

lemma store_wf_keep:
  "store_wf s \<Longrightarrow> i \<in> occupied s \<Longrightarrow> store_wf (s\<lparr>in_storage := (in_storage s)[i := Some f]\<rparr>)"
  using occupied_update [of i s "Some f"] by (auto simp: store_wf_def occupied_def)

lemma store_wfD:
  assumes "store_wf s"
  shows "distinct (in_free s)" "set (in_free s) = {..<length (in_storage s)} - occupied s"
    "in_live s + length (in_free s) = length (in_storage s)"
    "length (in_storage s) \<noteq> 0 \<Longrightarrow> in_cursor s < length (in_storage s)"
  using assms unfolding store_wf_def by blast+

lemma live_positive:
  assumes "store_wf s" "i \<in> occupied s"
  shows "0 < in_live s"
proof -
  note st = store_wfD [OF assms(1)]
  have "i < length (in_storage s)" using assms(2) by (simp add: occupied_def)
  then have "set (in_free s) \<subset> {..<length (in_storage s)}" unfolding st(2) using assms(2) by blast
  then have "card (set (in_free s)) < card {..<length (in_storage s)}" by (rule psubset_card_mono [rotated]) simp
  then show ?thesis using st(3) by (simp add: distinct_card [OF st(1)])
qed

lemma store_wf_release:
  assumes "store_wf s" "i \<in> occupied s"
  shows "store_wf (s\<lparr>in_storage := (in_storage s)[i := None], in_free := in_free s @ [i], in_live := in_live s - 1\<rparr>)"
proof -
  have i: "i < length (in_storage s)" using assms(2) by (simp add: occupied_def)
  have o: "occupied (s\<lparr>in_storage := (in_storage s)[i := None], in_free := in_free s @ [i], in_live := in_live s - 1\<rparr>) = occupied s - {i}"
    using occupied_update [OF i, of None] by (simp add: occupied_def is_occupied_def)
  note st = store_wfD [OF assms(1)]
  have "i \<notin> set (in_free s)" unfolding st(2) using assms(2) by simp
  moreover have "insert i ({..<length (in_storage s)} - occupied s) = {..<length (in_storage s)} - (occupied s - {i})" using i by auto
  ultimately show ?thesis unfolding store_wf_def o using live_positive [OF assms] st i by simp
qed

section \<open>One poll\<close>

text \<open>What a poll leaves behind, apart from the guard and the cursor.\<close>

definition after_poll :: "nat \<Rightarrow> nat list \<Rightarrow> ('f, 'w, 'o) pass \<Rightarrow> ('f, 'w, 'o) pass" where
  "after_poll index ws p = run_wakes ws (p\<lparr>p_polled := p_polled p + 1, p_trace := p_trace p @ [Polled index]\<rparr>)"

lemma after_poll_fields:
  "p_guard (after_poll i ws p) = p_guard p" "in_storage (p_inner (after_poll i ws p)) = in_storage (p_inner p)"
  "in_free (p_inner (after_poll i ws p)) = in_free (p_inner p)" "in_live (p_inner (after_poll i ws p)) = in_live (p_inner p)"
  "in_shared (p_inner (after_poll i ws p)) = fold notify ws (in_shared (p_inner p))"
  "p_finished (after_poll i ws p) = p_finished p" "p_out (after_poll i ws p) = p_out p"
  "p_polled (after_poll i ws p) = p_polled p + 1" "p_trace (after_poll i ws p) = p_trace p @ Polled i # map Woke ws"
  "occupied (p_inner (after_poll i ws p)) = occupied (p_inner p)"
  "in_cursor (p_inner (after_poll i ws p)) = in_cursor (p_inner p)"
  by (simp_all add: after_poll_def run_wakes_def)

lemma after_poll_inv:
  assumes "pass_inv R live cap True p" "p_polled p < cap" "i \<in> occupied (p_inner p)"
  shows "inner_inv (p_inner (after_poll i ws p)) (p_guard p)"
    "owed R (p_trace (after_poll i ws p)) \<inter> occupied (p_inner p) \<subseteq>
       ready (sh_ready (in_shared (p_inner (after_poll i ws p)))) \<union> (held_bits (p_guard p) - {i})"
proof -
  let ?sh = "in_shared (p_inner p)"
  have inv: "shared_inv ?sh (p_guard p)" and slots: "rd_slots (sh_ready ?sh) = length (in_storage (p_inner p))"
    and st: "store_wf (p_inner p)"
    and ow: "owed R (p_trace p) \<inter> occupied (p_inner p) \<subseteq> ready (sh_ready ?sh) \<union> held_bits (p_guard p)"
    using assms(1) by (auto simp: pass_inv_def inner_inv_def)
  note w = wakes_spec [OF inv, of ws]
  have "store_wf (p_inner (after_poll i ws p))" using st by (simp add: store_wf_def after_poll_fields)
  then show "inner_inv (p_inner (after_poll i ws p)) (p_guard p)"
    using w slots by (simp add: inner_inv_def after_poll_fields same_shape_def)
  have "owed R (p_trace (after_poll i ws p)) = (owed R (p_trace p) - {i}) \<union> set ws"
    by (simp add: after_poll_fields owed_append owed_cons owed_woke)
  moreover have "occupied (p_inner p) \<subseteq> {..<rd_slots (sh_ready ?sh)}" using slots by (auto simp: occupied_def)
  ultimately show "owed R (p_trace (after_poll i ws p)) \<inter> occupied (p_inner p) \<subseteq>
       ready (sh_ready (in_shared (p_inner (after_poll i ws p)))) \<union> (held_bits (p_guard p) - {i})"
    using w ow by (auto simp: after_poll_fields)
qed

lemma held_clear:
  assumes "g_current_bits g \<noteq> 0" "b = trailing_zeros (g_current_bits g)"
  shows "held_bits g - {g_current_word g * 64 + b} \<subseteq> held_bits (g\<lparr>g_current_bits := g_current_bits g AND NOT (push_bit b 1)\<rparr>)"
    "held_bits (g\<lparr>g_current_bits := g_current_bits g AND NOT (push_bit b 1)\<rparr>) \<subseteq> held_bits g"
    "g_current_word g * 64 + b \<in> held_bits g"
proof -
  have b: "b < 64" "b \<in> bits (g_current_bits g)" using assms by auto
  have *: "bits (g_current_bits g AND NOT (push_bit b 1)) = bits (g_current_bits g) - {b}" by (rule clear_bit [OF b(1)])
  have i: "i = g_current_word g * 64 + b" if "i div 64 = g_current_word g" "i mod 64 = b" for i
    using that div_mult_mod_eq [of i 64] by simp
  have "held_bits (g\<lparr>g_current_bits := g_current_bits g AND NOT (push_bit b 1)\<rparr>) =
    {i. i div 64 = g_current_word g \<and> i mod 64 \<in> bits (g_current_bits g) - {b}} \<union> slots_of (g_deferred_word g) (g_deferred_bits g)"
    unfolding held_bits_def slots_of_def using * by (simp del: bits_simps push_bit_of_1)
  then show "held_bits g - {g_current_word g * 64 + b} \<subseteq> held_bits (g\<lparr>g_current_bits := g_current_bits g AND NOT (push_bit b 1)\<rparr>)"
    "held_bits (g\<lparr>g_current_bits := g_current_bits g AND NOT (push_bit b 1)\<rparr>) \<subseteq> held_bits g"
    using i by (auto simp: held_bits_def)
  show "g_current_word g * 64 + b \<in> held_bits g" using b by (simp add: held_bits_def)
qed

lemma shared_inv_held:
  "shared_inv sh g \<Longrightarrow> held_bits g' \<subseteq> held_bits g \<Longrightarrow> held_words g' = held_words g \<Longrightarrow> shared_inv sh g'"
  by (auto simp: shared_inv_def)

lemma held_words_bits [simp]: "held_words (g\<lparr>g_current_bits := x\<rparr>) = held_words g"
  by (simp add: held_words_def)

text \<open>Clearing the bit of a slot that owes no poll.\<close>

lemma clear_current_inv:
  assumes "pass_inv R live cap True p" "g_current_bits (p_guard p) \<noteq> 0" "b = trailing_zeros (g_current_bits (p_guard p))"
    "g_current_word (p_guard p) * 64 + b \<notin> occupied (p_inner p)"
  shows "pass_inv R live cap True (clear_current b p)"
proof -
  let ?g = "(p_guard p)\<lparr>g_current_bits := g_current_bits (p_guard p) AND NOT (push_bit b 1)\<rparr>"
  note h = held_clear [OF assms(2,3)]
  note inv = assms(1) [unfolded pass_inv_def inner_inv_def]
  have "shared_inv (in_shared (p_inner p)) ?g" using inv h(2) shared_inv_held held_words_bits by blast
  moreover have "owed R (p_trace p) \<inter> occupied (p_inner p) \<subseteq> ready (sh_ready (in_shared (p_inner p))) \<union> held_bits ?g"
    using inv h(1) assms(4) by blast
  moreover have "clear_current b p = p\<lparr>p_guard := ?g\<rparr>" by (simp only: clear_current_def)
  ultimately show ?thesis using inv by (simp add: pass_inv_def inner_inv_def del: push_bit_of_1)
qed

lemma move_cursor_inv:
  "pass_inv R live cap ok p \<Longrightarrow> i < length (in_storage (p_inner p)) \<Longrightarrow> pass_inv R live cap ok (move_cursor i p)"
  using store_wf_cursor [of "p_inner p" i] by (auto simp: pass_inv_def inner_inv_def move_cursor_def)

lemma poll_slot_inv:
  assumes "pass_inv R live cap True p" "p_polled p < cap" "g_current_bits (p_guard p) \<noteq> 0"
    "b = trailing_zeros (g_current_bits (p_guard p))" "i = g_current_word (p_guard p) * 64 + b" "i \<in> occupied (p_inner p)"
    "poll_slot poll i b p = (p', ok)"
  shows "pass_inv R live cap ok p'"
proof -
  obtain res ws where poll: "poll i (the (in_storage (p_inner p) ! i)) = (res, ws)" by (cases "poll i (the (in_storage (p_inner p) ! i))")
  let ?q = "after_poll i ws p"
  have i: "i < length (in_storage (p_inner p))" using assms(6) by (simp add: occupied_def)
  note a = after_poll_inv [OF assms(1,2,6), of ws]
  note f = after_poll_fields [of i ws p]
  note h = held_clear [OF assms(3,4)]
  have counts: "p_polled p = length (filter is_polled (p_trace p))" "p_finished p = length (p_out p)"
    "in_live (p_inner p) + p_finished p = live" "length (in_storage (p_inner p)) \<noteq> 0"
    using assms(1) by (auto simp: pass_inv_def)
  have occ: "i \<in> occupied (p_inner ?q)" using assms(6) f by simp
  have st: "store_wf (p_inner ?q)" and sh: "shared_inv (in_shared (p_inner ?q)) (p_guard p)"
    and sl: "rd_slots (sh_ready (in_shared (p_inner ?q))) = length (in_storage (p_inner ?q))" using a(1) by (simp_all add: inner_inv_def)
  let ?g = "(p_guard p)\<lparr>g_current_bits := g_current_bits (p_guard p) AND NOT (push_bit b 1)\<rparr>"
  have shg: "shared_inv (in_shared (p_inner ?q)) ?g" using shared_inv_held [OF sh h(2)] by simp
  have build: "pass_inv R live cap ok q" if "p_guard q = g" "g = p_guard p \<or> g = ?g" "p_trace q = p_trace ?q" "p_polled q = p_polled ?q"
      "occupied (p_inner q) \<subseteq> occupied (p_inner p)" "in_shared (p_inner q) = in_shared (p_inner ?q)" "store_wf (p_inner q)"
      "length (in_storage (p_inner q)) = length (in_storage (p_inner p))" "p_finished q = length (p_out q)"
      "ok \<Longrightarrow> in_live (p_inner q) + p_finished q = live" for q :: "('a, 'b, 'c) pass" and ok g
  proof -
    have "shared_inv (in_shared (p_inner q)) (p_guard q)" using sh shg that(1,2,6) by auto
    moreover have "held_bits (p_guard p) - {i} \<subseteq> held_bits (p_guard q)" using h(1) that(1,2) assms(5) by auto
    then have "owed R (p_trace q) \<inter> occupied (p_inner q) \<subseteq> ready (sh_ready (in_shared (p_inner q))) \<union> held_bits (p_guard q)"
      using a(2) that(3,5,6) by auto
    ultimately show ?thesis using that sl counts assms(2) f(2,8,9) by (simp add: pass_inv_def inner_inv_def del: push_bit_of_1)
  qed
  have keep: "occupied (p_inner (store_slot i (Some v) ?q)) = occupied (p_inner p)" "store_wf (p_inner (store_slot i (Some v) ?q))" for v
    using occupied_update [of i "p_inner ?q" "Some v"] store_wf_keep [OF st occ] i f(2,10) assms(6) by (auto simp: store_slot_def)
  have rel: "occupied (p_inner (release_slot i ?q)) \<subseteq> occupied (p_inner p)" "store_wf (p_inner (release_slot i ?q))"
    using occupied_update [of i "p_inner ?q" None] store_wf_release [OF st occ] i f(2,10) by (auto simp: release_slot_def store_slot_def)
  have one: "in_live (p_inner (release_slot i ?q)) + 1 = in_live (p_inner p)"
    using live_positive [OF st occ] f(4) by (simp add: release_slot_def store_slot_def)
  show ?thesis
  proof (cases res)
    case (Pending v)
    have r: "p' = move_cursor i (clear_current b (store_slot i (Some v) ?q))" "ok"
      using assms(7) poll Pending by (auto simp: poll_slot_def after_poll_def Let_def)
    show ?thesis unfolding r(1)
      by (rule move_cursor_inv, rule build [of _ ?g])
        (use keep i f counts in \<open>simp_all add: clear_current_def store_slot_def del: push_bit_of_1\<close>)
  next
    case (Ready out)
    let ?p = "(release_slot i ?q)\<lparr>p_out := p_out ?q @ [out], p_finished := p_finished ?q + 1\<rparr>"
    have r: "p' = move_cursor i (clear_current b ?p)" "ok"
      using assms(7) poll Ready by (auto simp: poll_slot_def after_poll_def Let_def release_slot_def store_slot_def)
    show ?thesis unfolding r(1)
      by (rule move_cursor_inv, rule build [of _ ?g])
        (use rel one i f counts in \<open>simp_all add: clear_current_def release_slot_def store_slot_def del: push_bit_of_1\<close>)
  next
    case (PollUnwinds v)
    have r: "p' = store_slot i (Some v) ?q" "\<not> ok" using assms(7) poll PollUnwinds by (auto simp: poll_slot_def after_poll_def Let_def)
    show ?thesis unfolding r(1) by (rule build [of _ "p_guard p"]) (use keep i f counts r(2) in \<open>simp_all add: store_slot_def\<close>)
  next
    case (CallbackUnwinds out)
    have r: "p' = release_slot i ?q" "\<not> ok" using assms(7) poll CallbackUnwinds by (auto simp: poll_slot_def after_poll_def Let_def)
    show ?thesis unfolding r(1)
      by (rule build [of _ "p_guard p"]) (use rel i f counts r(2) in \<open>simp_all add: release_slot_def store_slot_def\<close>)
  qed
qed

section \<open>The scan\<close>

definition exit_ok :: "pass_exit \<Rightarrow> bool" where
  "exit_ok e \<longleftrightarrow> e \<noteq> Unwound"

text \<open>The contract of a stage of the pass: the invariant on every exit, and what is used up on a normal one.\<close>

definition stage :: "nat set \<Rightarrow> nat \<Rightarrow> nat \<Rightarrow> (guard \<Rightarrow> bool) \<Rightarrow> ('f, 'w, 'o) pass \<times> pass_exit \<Rightarrow> bool" where
  "stage R live cap P r \<longleftrightarrow> pass_inv R live cap (exit_ok (snd r)) (fst r) \<and> (snd r = Finished \<longrightarrow> P (p_guard (fst r)))"

lemma stage_and_then:
  assumes "stage R live cap P r" "\<And>p. pass_inv R live cap True p \<Longrightarrow> P (p_guard p) \<Longrightarrow> stage R live cap Q (f p)"
  shows "stage R live cap Q (and_then f r)"
  using assms by (cases r; cases "snd r") (auto simp: stage_def and_then_def exit_ok_def)

lemma poll_current_inv:
  assumes "pass_inv R live cap True p"
  shows "pass_inv R live cap (exit_ok (snd (poll_current poll cap p))) (fst (poll_current poll cap p)) \<and>
    (snd (poll_current poll cap p) = Finished \<longrightarrow> g_current_bits (p_guard (fst (poll_current poll cap p))) = 0)"
  using assms
proof (induction poll cap p rule: poll_current.induct)
  case (1 poll cap p)
  let ?b = "trailing_zeros (g_current_bits (p_guard p))"
  let ?i = "g_current_word (p_guard p) * WORD_BITS + ?b"
  note IH = 1(1-3) and inv = 1(4)
  note simps = poll_current.simps [of poll cap p] Let_def
  consider "g_current_bits (p_guard p) = 0" | (out) "g_current_bits (p_guard p) \<noteq> 0" "?i \<ge> length (in_storage (p_inner p))"
    | (stale) "g_current_bits (p_guard p) \<noteq> 0" "\<not> ?i \<ge> length (in_storage (p_inner p))" "\<not> is_occupied (p_inner p) ?i"
    | (full) "g_current_bits (p_guard p) \<noteq> 0" "\<not> ?i \<ge> length (in_storage (p_inner p))" "is_occupied (p_inner p) ?i" "p_polled p = cap"
    | (poll) "g_current_bits (p_guard p) \<noteq> 0" "\<not> ?i \<ge> length (in_storage (p_inner p))" "is_occupied (p_inner p) ?i" "p_polled p \<noteq> cap"
    by blast
  then show ?case
  proof cases
    case 1
    then show ?thesis using inv by (simp add: simps exit_ok_def)
  next
    case out
    then have "?i \<notin> occupied (p_inner p)" by (simp add: occupied_def)
    from IH(1) [OF refl refl out(1) refl refl out(2) clear_current_inv [OF inv out(1) refl this]] out show ?thesis by (simp add: simps)
  next
    case stale
    then have n: "?i \<notin> occupied (p_inner p)" by (simp add: occupied_def)
    have "pass_inv R live cap True (move_cursor ?i (clear_current ?b p))"
      by (rule move_cursor_inv [OF clear_current_inv [OF inv stale(1) refl n]]) (use stale(2) in \<open>simp add: clear_current_def\<close>)
    from IH(2) [OF refl refl stale(1) refl refl stale(2,3) this] stale show ?thesis by (simp add: simps)
  next
    case full
    then show ?thesis using inv by (simp add: simps exit_ok_def)
  next
    case poll
    obtain p' ok where ps: "poll_slot poll ?i ?b p = (p', ok)" by (cases "poll_slot poll ?i ?b p")
    have "p_polled p < cap" using inv poll(4) by (simp add: pass_inv_def)
    moreover have "?i \<in> occupied (p_inner p)" using poll by (simp add: occupied_def)
    ultimately have p': "pass_inv R live cap ok p'" using poll_slot_inv [OF inv _ poll(1) refl refl _ ps] by simp
    show ?thesis
    proof (cases ok)
      case True
      have occ: "\<not> \<not> is_occupied (p_inner p) ?i" using poll(3) by simp
      from IH(3) [OF refl refl poll(1) refl refl poll(2) occ poll(4) ps [symmetric] refl True] p' True poll ps
      show ?thesis by (simp add: simps)
    next
      case False
      then show ?thesis using p' poll ps by (simp add: simps exit_ok_def)
    qed
  qed
qed

lemma poll_current_stage:
  assumes "pass_inv R live cap True p"
  shows "stage R live cap (\<lambda>g. g = (p_guard p)\<lparr>g_current_bits := 0\<rparr>) (poll_current poll cap p)"
proof -
  obtain x where "p_guard (fst (poll_current poll cap p)) = (p_guard p)\<lparr>g_current_bits := x\<rparr>" using poll_current_guard by metis
  then show ?thesis using poll_current_inv [OF assms, of poll] by (auto simp: stage_def)
qed

text \<open>Moving bits between the ready set and the guard.\<close>

definition regroup :: "ready_set \<Rightarrow> guard \<Rightarrow> ('f, 'w, 'o) pass \<Rightarrow> ('f, 'w, 'o) pass" where
  "regroup r g p = p\<lparr>p_inner := (p_inner p)\<lparr>in_shared := (in_shared (p_inner p))\<lparr>sh_ready := r\<rparr>\<rparr>, p_guard := g\<rparr>"

lemma regroup_inv:
  assumes "pass_inv R live cap ok p" "rd_wf r" "same_shape (sh_ready (in_shared (p_inner p))) r"
    "covered r (held_words g)" "held_bits g \<subseteq> {..<rd_slots r}" "held_words g \<subseteq> {..<length (rd_words r)}"
    "ready (sh_ready (in_shared (p_inner p))) \<union> held_bits (p_guard p) \<subseteq> ready r \<union> held_bits g"
  shows "pass_inv R live cap ok (regroup r g p)"
proof -
  have "shared_inv (in_shared (p_inner (regroup r g p))) g"
    using assms by (simp add: shared_inv_def regroup_def pass_inv_def inner_inv_def)
  moreover have "owed R (p_trace p) \<inter> occupied (p_inner p) \<subseteq> ready r \<union> held_bits g"
    using assms(1,7) unfolding pass_inv_def by blast
  ultimately show ?thesis
    using assms(1,3) by (auto simp: pass_inv_def inner_inv_def regroup_def same_shape_def)
qed

lemma pass_inv_guard:
  assumes "pass_inv R live cap ok p"
  shows "rd_wf (sh_ready (in_shared (p_inner p)))" "covered (sh_ready (in_shared (p_inner p))) (held_words (p_guard p))"
    "held_bits (p_guard p) \<subseteq> {..<rd_slots (sh_ready (in_shared (p_inner p)))}"
    "held_words (p_guard p) \<subseteq> {..<length (rd_words (sh_ready (in_shared (p_inner p))))}"
    "rd_slots (sh_ready (in_shared (p_inner p))) = length (in_storage (p_inner p))"
    "rd_slots (sh_ready (in_shared (p_inner p))) \<noteq> 0" "store_wf (p_inner p)"
  using assms unfolding pass_inv_def inner_inv_def shared_inv_def by auto

lemma ready_in_range: "ready r \<subseteq> {..<rd_slots r}"
  by (auto simp: ready_def)

lemma next_announced_words:
  assumes "next_announced g = Some (g', word)"
  shows "held_words g = insert word (held_words g')" "g' = g\<lparr>g_summary := g_summary g AND (g_summary g - 1)\<rparr>"
proof -
  have nz: "g_summary g \<noteq> 0" and g': "g' = g\<lparr>g_summary := g_summary g AND (g_summary g - 1)\<rparr>"
    and w: "word = g_summary_index g * 64 + trailing_zeros (g_summary g)"
    using assms by (auto simp: next_announced_def split: if_splits)
  show "g' = g\<lparr>g_summary := g_summary g AND (g_summary g - 1)\<rparr>" by (rule g')
  have t: "trailing_zeros (g_summary g) < 64" "trailing_zeros (g_summary g) \<in> bits (g_summary g)" using nz by simp_all
  have "slots_of (g_summary_index g) (g_summary g) = insert word (slots_of (g_summary_index g) (g_summary g AND (g_summary g - 1)))"
    unfolding slots_of_def clear_lowest [OF nz] w using t by auto (metis div_mult_mod_eq)
  then show "held_words g = insert word (held_words g')" unfolding held_words_def g' by simp
qed

lemma hold_word_inv:
  assumes "pass_inv R live cap True p" "g_current_bits (p_guard p) = 0" "next_announced (p_guard p) = Some (g, word)"
  shows "pass_inv R live cap True (hold_word word (p\<lparr>p_guard := g\<rparr>))"
    "\<exists>x. p_guard (hold_word word (p\<lparr>p_guard := g\<rparr>)) = (p_guard p)\<lparr>g_summary := g_summary g, g_current_word := word, g_current_bits := x\<rparr>"
proof -
  note n = next_announced_words [OF assms(3)] and i = pass_inv_guard [OF assms(1)]
  let ?r = "sh_ready (in_shared (p_inner p))"
  have w: "word < length (rd_words ?r)" using n(1) i(4) by auto
  obtain r b where t: "take_word word ?r = (r, b)" "rd_wf r" "ready r = {i \<in> ready ?r. i div 64 \<noteq> word}"
    "slots_of word b = {i \<in> ready ?r. i div 64 = word}" "same_shape ?r r" "\<forall>H. covered ?r (insert word H) \<longrightarrow> covered r H"
    by (rule take_word_spec [OF i(1) w])
  let ?g = "g\<lparr>g_current_word := word, g_current_bits := b\<rparr>"
  have eq: "hold_word word (p\<lparr>p_guard := g\<rparr>) = regroup r ?g p" using t(1) by (simp add: hold_word_def regroup_def Let_def)
  have hw: "held_words ?g = held_words g" by (simp add: held_words_def)
  have hb: "held_bits ?g = slots_of word b \<union> held_bits (p_guard p)" using assms(2) n(2) by (simp add: held_bits_def)
  show "pass_inv R live cap True (hold_word word (p\<lparr>p_guard := g\<rparr>))"
    unfolding eq
  proof (rule regroup_inv [OF assms(1) t(2) t(5)])
    show "covered r (held_words ?g)" using t(6) i(2) n(1) hw by simp
    show "held_bits ?g \<subseteq> {..<rd_slots r}" using hb t(4,5) i(3) ready_in_range [of ?r] by (auto simp: same_shape_def)
    show "held_words ?g \<subseteq> {..<length (rd_words r)}" using hw n(1) i(4) t(5) by (auto simp: same_shape_def)
    show "ready ?r \<union> held_bits (p_guard p) \<subseteq> ready r \<union> held_bits ?g" unfolding hb t(3,4) by blast
  qed
  show "\<exists>x. p_guard (hold_word word (p\<lparr>p_guard := g\<rparr>)) = (p_guard p)\<lparr>g_summary := g_summary g, g_current_word := word, g_current_bits := x\<rparr>"
    unfolding eq using n(2) by (auto simp: regroup_def)
qed

text \<open>The parts of the guard held back for the wrap-around.\<close>

definition deferred :: "guard \<Rightarrow> nat \<times> u64 \<times> nat \<times> u64" where
  "deferred g = (g_deferred_word g, g_deferred_bits g, g_deferred_summary_index g, g_deferred_summary g)"

lemma scan_announced_stage:
  assumes "pass_inv R live cap True p" "g_current_bits (p_guard p) = 0"
  shows "stage R live cap (\<lambda>g. g_current_bits g = 0 \<and> g_summary g = 0 \<and> deferred g = deferred (p_guard p)) (scan_announced poll cap p)"
  using assms
proof (induction poll cap p rule: scan_announced.induct)
  case (1 poll cap p)
  show ?case
  proof (cases "next_announced (p_guard p)")
    case None
    then have "g_summary (p_guard p) = 0" by (auto simp: next_announced_def split: if_splits)
    then show ?thesis using 1 None by (simp add: scan_announced.simps [of poll cap p] stage_def exit_ok_def)
  next
    case (Some a)
    then obtain g word where n: "next_announced (p_guard p) = Some (g, word)" by (cases a) auto
    let ?q = "hold_word word (p\<lparr>p_guard := g\<rparr>)"
    note h = hold_word_inv [OF 1(2,3) n]
    obtain p' e where pc: "poll_current poll cap ?q = (p', e)" by (cases "poll_current poll cap ?q")
    have st: "stage R live cap (\<lambda>g. g = (p_guard ?q)\<lparr>g_current_bits := 0\<rparr>) (p', e)"
      using poll_current_stage [OF h(1), of poll] pc by simp
    have d: "deferred (p_guard ?q) = deferred (p_guard p)" using h(2) by (auto simp: deferred_def)
    show ?thesis
    proof (cases "e = Finished")
      case True
      then have g: "p_guard p' = (p_guard ?q)\<lparr>g_current_bits := 0\<rparr>" "pass_inv R live cap True p'"
        using st by (simp_all add: stage_def exit_ok_def)
      have "deferred (p_guard p') = deferred (p_guard p)" using g(1) d by (simp add: deferred_def)
      then show ?thesis using 1(1) [OF n refl pc [symmetric] refl True g(2)] g(1) n pc True
        by (simp add: scan_announced.simps [of poll cap p])
    next
      case False
      then show ?thesis using st n pc by (simp add: scan_announced.simps [of poll cap p] stage_def)
    qed
  qed
qed

lemma hold_summary_inv:
  assumes "pass_inv R live cap True p" "g_summary (p_guard p) = 0" "s < length (rd_summary (sh_ready (in_shared (p_inner p))))"
  shows "pass_inv R live cap True (hold_summary s p)"
    "\<exists>x. p_guard (hold_summary s p) = (p_guard p)\<lparr>g_summary_index := s, g_summary := x\<rparr>"
    "same_shape (sh_ready (in_shared (p_inner p))) (sh_ready (in_shared (p_inner (hold_summary s p))))"
proof -
  note i = pass_inv_guard [OF assms(1)]
  let ?r = "sh_ready (in_shared (p_inner p))"
  obtain r b where t: "take_summary s ?r = (r, b)" "rd_wf r" "ready r = ready ?r" "slots_of s b \<subseteq> {..<length (rd_words ?r)}"
    "same_shape ?r r" "\<forall>H. covered ?r H \<longrightarrow> covered r (H \<union> slots_of s b)" by (rule take_summary_spec [OF i(1) assms(3)])
  let ?g = "(p_guard p)\<lparr>g_summary_index := s, g_summary := b\<rparr>"
  have eq: "hold_summary s p = regroup r ?g p" using t(1) by (simp add: hold_summary_def regroup_def Let_def)
  have hw: "held_words ?g = held_words (p_guard p) \<union> slots_of s b" using assms(2) by (auto simp: held_words_def)
  have hb: "held_bits ?g = held_bits (p_guard p)" by (simp add: held_bits_def)
  show "pass_inv R live cap True (hold_summary s p)"
    unfolding eq
    by (rule regroup_inv [OF assms(1) t(2) t(5)]) (use hw hb i t(3-6) in \<open>auto simp: same_shape_def\<close>)
  show "\<exists>x. p_guard (hold_summary s p) = (p_guard p)\<lparr>g_summary_index := s, g_summary := x\<rparr>" unfolding eq by (auto simp: regroup_def)
  show "same_shape ?r (sh_ready (in_shared (p_inner (hold_summary s p))))" unfolding eq using t(5) by (simp add: regroup_def)
qed

lemma scan_summaries_stage:
  assumes "pass_inv R live cap True p" "g_current_bits (p_guard p) = 0" "0 < summaries" "summaries \<le> 16"
    "g_summary (p_guard p) = 0 \<or> (\<exists>rest. steps = 0 # rest)"
  shows "stage R live cap (\<lambda>g. g_current_bits g = 0 \<and> g_summary g = 0 \<and> deferred g = deferred (p_guard p))
    (scan_summaries poll cap start summaries steps p)"
  using assms(1,2,5)
proof (induction steps arbitrary: p)
  case Nil
  then show ?case by (simp add: stage_def exit_ok_def)
next
  case (Cons step steps)
  let ?q = "if step > 0 then hold_summary ((start + step) mod summaries) p else p"
  have "(start + step) mod summaries < length (rd_summary (sh_ready (in_shared (p_inner p))))"
    using summary_length [OF pass_inv_guard(1) [OF Cons.prems(1)]] mod_less_divisor [OF assms(3), of "start + step"] assms(4) by linarith
  then have q: "pass_inv R live cap True ?q" "g_current_bits (p_guard ?q) = 0" "deferred (p_guard ?q) = deferred (p_guard p)"
    using Cons.prems hold_summary_inv(1,2) [OF Cons.prems(1), of "(start + step) mod summaries"] by (auto simp: deferred_def)
  obtain p' e where sa: "scan_announced poll cap ?q = (p', e)" by (cases "scan_announced poll cap ?q")
  note st = scan_announced_stage [OF q(1,2), of poll, unfolded sa q(3)]
  have eq: "scan_summaries poll cap start summaries (step # steps) p =
    (if e = Finished then scan_summaries poll cap start summaries steps p' else (p', e))" using sa by (simp add: Let_def)
  show ?case
  proof (cases "e = Finished")
    case True
    then have "pass_inv R live cap True p'" "g_current_bits (p_guard p') = 0" "g_summary (p_guard p') = 0"
      "deferred (p_guard p') = deferred (p_guard p)" using st by (simp_all add: stage_def exit_ok_def)
    with Cons.IH [of p'] True show ?thesis unfolding eq by simp
  next
    case False
    then show ?thesis unfolding eq using st by (simp add: stage_def)
  qed
qed

section \<open>Splitting at the cursor\<close>

lemma split_mask: "slots_of w (x AND low_mask n) \<union> slots_of w (x AND NOT (low_mask n)) = slots_of w x"
  by auto

lemma split_word_inv:
  assumes "pass_inv R live cap True (p\<lparr>p_guard := g0\<rparr>)" "g_current_bits g0 = 0" "g_deferred_bits g0 = 0"
    "held_words g0 = insert word (held_words g)" "held_bits g = {}" "word < length (rd_words (sh_ready (in_shared (p_inner p))))"
  shows "pass_inv R live cap True (split_word word n (p\<lparr>p_guard := g\<rparr>))"
    "\<exists>x y. p_guard (split_word word n (p\<lparr>p_guard := g\<rparr>)) =
       g\<lparr>g_deferred_word := word, g_deferred_bits := x, g_current_word := word, g_current_bits := y\<rparr>"
proof -
  let ?r = "sh_ready (in_shared (p_inner p))"
  have i: "rd_wf ?r" "covered ?r (held_words g0)" "held_words g0 \<subseteq> {..<length (rd_words ?r)}"
    using pass_inv_guard [OF assms(1)] by simp_all
  obtain r b where t: "take_word word ?r = (r, b)" "rd_wf r" "ready r = {i \<in> ready ?r. i div 64 \<noteq> word}"
    "slots_of word b = {i \<in> ready ?r. i div 64 = word}" "same_shape ?r r" "\<forall>H. covered ?r (insert word H) \<longrightarrow> covered r H"
    by (rule take_word_spec [OF i(1) assms(6)])
  let ?g = "g\<lparr>g_deferred_word := word, g_deferred_bits := b AND low_mask n, g_current_word := word, g_current_bits := b AND NOT (low_mask n)\<rparr>"
  have eq: "split_word word n (p\<lparr>p_guard := g\<rparr>) = regroup r ?g (p\<lparr>p_guard := g0\<rparr>)" using t(1) by (simp add: split_word_def regroup_def Let_def)
  have hw: "held_words ?g = held_words g" by (simp add: held_words_def)
  have hb: "held_bits ?g = slots_of word b" using split_mask [of word b n] by (simp add: held_bits_def Un_commute)
  have h0: "held_bits g0 = {}" using assms(2,3) by (simp add: held_bits_def)
  show "pass_inv R live cap True (split_word word n (p\<lparr>p_guard := g\<rparr>))"
    unfolding eq
  proof (rule regroup_inv [OF assms(1) t(2)])
    show "covered r (held_words ?g)" using t(6) i(2) assms(4) hw by simp
    show "held_bits ?g \<subseteq> {..<rd_slots r}" using hb t(4,5) ready_in_range [of ?r] by (auto simp: same_shape_def)
    show "held_words ?g \<subseteq> {..<length (rd_words r)}" using hw assms(4) i(3) t(5) by (auto simp: same_shape_def)
    show "ready (sh_ready (in_shared (p_inner (p\<lparr>p_guard := g0\<rparr>)))) \<union> held_bits (p_guard (p\<lparr>p_guard := g0\<rparr>)) \<subseteq> ready r \<union> held_bits ?g"
      unfolding hb t(3,4) using h0 by auto
  qed (use t(5) in simp)
  show "\<exists>x y. p_guard (split_word word n (p\<lparr>p_guard := g\<rparr>)) =
       g\<lparr>g_deferred_word := word, g_deferred_bits := x, g_current_word := word, g_current_bits := y\<rparr>"
    unfolding eq by (auto simp: regroup_def)
qed

lemma split_summary_inv:
  assumes "pass_inv R live cap True p" "g_summary (p_guard p) = 0" "g_deferred_summary (p_guard p) = 0"
    "s < length (rd_summary (sh_ready (in_shared (p_inner p))))"
  shows "pass_inv R live cap True (split_summary s n p)"
    "\<exists>x y. p_guard (split_summary s n p) =
       (p_guard p)\<lparr>g_deferred_summary_index := s, g_deferred_summary := x, g_summary_index := s, g_summary := y\<rparr>"
    "same_shape (sh_ready (in_shared (p_inner p))) (sh_ready (in_shared (p_inner (split_summary s n p))))"
proof -
  note i = pass_inv_guard [OF assms(1)]
  let ?r = "sh_ready (in_shared (p_inner p))"
  obtain r b where t: "take_summary s ?r = (r, b)" "rd_wf r" "ready r = ready ?r" "slots_of s b \<subseteq> {..<length (rd_words ?r)}"
    "same_shape ?r r" "\<forall>H. covered ?r H \<longrightarrow> covered r (H \<union> slots_of s b)" by (rule take_summary_spec [OF i(1) assms(4)])
  let ?g = "(p_guard p)\<lparr>g_deferred_summary_index := s, g_deferred_summary := b AND low_mask n,
    g_summary_index := s, g_summary := b AND NOT (low_mask n)\<rparr>"
  have eq: "split_summary s n p = regroup r ?g p" using t(1) by (simp add: split_summary_def regroup_def Let_def)
  have hw: "held_words ?g = slots_of s b" "held_words (p_guard p) = {}"
    using split_mask [of s b n] assms(2,3) by (simp_all add: held_words_def Un_commute)
  have hb: "held_bits ?g = held_bits (p_guard p)" by (simp add: held_bits_def)
  show "pass_inv R live cap True (split_summary s n p)"
    unfolding eq
    by (rule regroup_inv [OF assms(1) t(2) t(5)]) (use hw hb i t(3-6) in \<open>auto simp: same_shape_def\<close>)
  show "\<exists>x y. p_guard (split_summary s n p) =
       (p_guard p)\<lparr>g_deferred_summary_index := s, g_deferred_summary := x, g_summary_index := s, g_summary := y\<rparr>"
    unfolding eq by (auto simp: regroup_def)
  show "same_shape ?r (sh_ready (in_shared (p_inner (split_summary s n p))))" unfolding eq using t(5) by (simp add: regroup_def)
qed

lemma with_guard_inv:
  assumes "pass_inv R live cap True p" "held_bits (f (p_guard p)) = held_bits (p_guard p)" "held_words (f (p_guard p)) = held_words (p_guard p)"
  shows "pass_inv R live cap True (with_guard f p)"
  using assms by (auto simp: pass_inv_def inner_inv_def shared_inv_def with_guard_def)

lemma activate_inv:
  "pass_inv R live cap True p \<Longrightarrow> g_current_bits (p_guard p) = 0 \<Longrightarrow> pass_inv R live cap True (with_guard activate_deferred p)"
  "pass_inv R live cap True p \<Longrightarrow> g_summary (p_guard p) = 0 \<Longrightarrow> pass_inv R live cap True (with_guard activate_deferred_summary p)"
  by (rule with_guard_inv; auto simp: activate_deferred_def activate_deferred_summary_def held_bits_def held_words_def)+

section \<open>The pass\<close>

definition emptied :: "guard \<Rightarrow> bool" where
  "emptied g \<longleftrightarrow> g_current_bits g = 0 \<and> g_deferred_bits g = 0 \<and> g_summary g = 0 \<and> g_deferred_summary g = 0"

lemma last_stage:
  assumes "pass_inv R live cap True p" "g_current_bits (p_guard p) = 0" "g_summary (p_guard p) = 0" "g_deferred_summary (p_guard p) = 0"
  shows "stage R live cap emptied (poll_current poll cap (with_guard activate_deferred p))"
  using poll_current_stage [OF activate_inv(1) [OF assms(1,2)], of poll] assms(3,4)
  by (auto simp: stage_def emptied_def with_guard_def activate_deferred_def)

lemma harvest_single_stage:
  assumes "pass_inv R live cap True p" "p_guard p = guard_new" "length (rd_words (sh_ready (in_shared (p_inner p)))) = 1"
  shows "stage R live cap emptied (harvest_single poll cap start_bit p)"
proof -
  let ?r = "sh_ready (in_shared (p_inner p))"
  have "rd_summaries ?r = 0" using rd_wf_shape [OF pass_inv_guard(1) [OF assms(1)]] assms(3) by (simp add: rd_shape_def)
  then have c: "covered ?r H" for H by (simp add: covered_def)
  note i = pass_inv_guard [OF assms(1)]
  obtain r b where t: "take_word 0 ?r = (r, b)" "rd_wf r" "ready r = {i \<in> ready ?r. i div 64 \<noteq> 0}"
    "slots_of 0 b = {i \<in> ready ?r. i div 64 = 0}" "same_shape ?r r" "\<forall>H. covered ?r (insert 0 H) \<longrightarrow> covered r H"
    by (rule take_word_spec [OF i(1), of 0]) (use assms(3) in simp)
  let ?g = "guard_new\<lparr>g_deferred_word := 0, g_deferred_bits := b AND low_mask start_bit, g_current_word := 0, g_current_bits := b AND NOT (low_mask start_bit)\<rparr>"
  have eq: "split_word 0 start_bit p = regroup r ?g p" using t(1) assms(2) by (simp add: split_word_def regroup_def Let_def)
  have h: "held_words ?g = {}" "held_bits ?g = slots_of 0 b" "held_bits (p_guard p) = {}"
    using split_mask [of 0 b start_bit] assms(2) by (simp_all add: held_words_def held_bits_def guard_new_def Un_commute)
  have inv: "pass_inv R live cap True (split_word 0 start_bit p)"
    unfolding eq
  proof (rule regroup_inv [OF assms(1) t(2,5)])
    show "covered r (held_words ?g)" using t(6) c by simp
    show "held_bits ?g \<subseteq> {..<rd_slots r}" using h(2) t(4,5) ready_in_range [of ?r] by (auto simp: same_shape_def)
    show "ready ?r \<union> held_bits (p_guard p) \<subseteq> ready r \<union> held_bits ?g" unfolding h t(3,4) by auto
  qed (use h(1) in simp)
  have g: "p_guard (split_word 0 start_bit p) = ?g" unfolding eq by (simp add: regroup_def)
  show ?thesis
    unfolding harvest_single_def
    by (rule stage_and_then [OF poll_current_stage [OF inv]], rule last_stage)
      (simp_all add: g guard_new_def)
qed

lemma start_word_stage:
  assumes "pass_inv R live cap True p" "g_current_bits (p_guard p) = 0" "g_deferred_bits (p_guard p) = 0"
    "g_summary_index (p_guard p) = start_word div 64"
  shows "stage R live cap (\<lambda>g. g_current_bits g = 0) (harvest_start_word poll cap start_word start_bit p)"
proof (cases "g_summary (p_guard p) AND push_bit (start_word mod 64) 1 \<noteq> 0")
  case False
  then show ?thesis using assms(1,2) by (simp add: harvest_start_word_def Let_def stage_def exit_ok_def del: push_bit_of_1)
next
  case True
  let ?b = "start_word mod 64"
  let ?g = "(p_guard p)\<lparr>g_summary := g_summary (p_guard p) AND NOT (push_bit ?b 1)\<rparr>"
  have b: "?b \<in> bits (g_summary (p_guard p))" using True mask_bit [of ?b] by (simp add: bits_def del: push_bit_of_1)
  have "slots_of (start_word div 64) (g_summary (p_guard p)) =
    insert start_word (slots_of (start_word div 64) (g_summary (p_guard p) AND NOT (push_bit ?b 1)))"
  proof -
    have c: "bits (g_summary (p_guard p) AND NOT (push_bit ?b 1)) = bits (g_summary (p_guard p)) - {?b}" by (rule clear_bit) simp
    show ?thesis unfolding slots_of_def c using b by auto (metis div_mult_mod_eq)
  qed
  then have hw: "held_words (p_guard p) = insert start_word (held_words ?g)"
    using assms(4) unfolding held_words_def by (simp del: push_bit_of_1 bits_simps)
  have hb: "held_bits ?g = {}" using assms(2,3) by (simp add: held_bits_def)
  have inv: "pass_inv R live cap True (p\<lparr>p_guard := p_guard p\<rparr>)" using assms(1) by simp
  have w: "start_word < length (rd_words (sh_ready (in_shared (p_inner p))))" using hw pass_inv_guard(4) [OF assms(1)] by auto
  note s = split_word_inv [OF inv assms(2,3) hw hb w, of start_bit]
  show ?thesis
    using poll_current_stage [OF s(1), of poll] True by (auto simp: harvest_start_word_def Let_def stage_def simp del: push_bit_of_1)
qed

lemma harvest_multi_stage:
  assumes "pass_inv R live cap True p" "p_guard p = guard_new" "start_word < length (rd_words (sh_ready (in_shared (p_inner p))))"
    "rd_summaries (sh_ready (in_shared (p_inner p))) \<noteq> 0"
  shows "stage R live cap emptied (harvest_multi poll cap start_word start_bit p)"
proof -
  let ?n = "rd_summaries (sh_ready (in_shared (p_inner p)))" and ?s = "start_word div 64"
  note i = pass_inv_guard [OF assms(1)]
  have n: "0 < ?n" "?n \<le> 16" using assms(4) summaries_bound [OF i(1)] summary_length [OF i(1)] by simp_all
  have zero: "[0..<?n] = 0 # [1..<?n]" using n(1) by (simp add: upt_conv_Cons)
  note sp = split_summary_inv [OF assms(1) _ _ summary_in_range [OF i(1) assms(3)], of "start_word mod 64"]
  have g: "g_current_bits (p_guard p) = 0" "g_deferred_bits (p_guard p) = 0" "g_summary (p_guard p) = 0" "g_deferred_summary (p_guard p) = 0"
    using assms(2) by (simp_all add: guard_new_def)
  let ?q = "split_summary ?s (start_word mod 64) p"
  have q: "pass_inv R live cap True ?q" "g_current_bits (p_guard ?q) = 0" "g_deferred_bits (p_guard ?q) = 0" "g_summary_index (p_guard ?q) = ?s"
    using sp [OF g(3,4)] g by auto
  have 1: "stage R live cap (\<lambda>g. g_current_bits g = 0) (harvest_start_word poll cap start_word start_bit ?q)" by (rule start_word_stage [OF q])
  have 2: "stage R live cap (\<lambda>g. g_current_bits g = 0 \<and> g_summary g = 0)
    (and_then (scan_summaries poll cap ?s ?n [0..<?n]) (harvest_start_word poll cap start_word start_bit ?q))"
  proof (rule stage_and_then [OF 1])
    fix p1 :: "('a, 'b, 'c) pass"
    assume "pass_inv R live cap True p1" "g_current_bits (p_guard p1) = 0"
    from scan_summaries_stage [OF this n, of "[0..<?n]" poll ?s] zero
    show "stage R live cap (\<lambda>g. g_current_bits g = 0 \<and> g_summary g = 0) (scan_summaries poll cap ?s ?n [0..<?n] p1)"
      by (auto simp: stage_def)
  qed
  have 3: "stage R live cap (\<lambda>g. g_current_bits g = 0 \<and> g_summary g = 0 \<and> g_deferred_summary g = 0)
    (and_then (\<lambda>p. scan_announced poll cap (with_guard activate_deferred_summary p))
      (and_then (scan_summaries poll cap ?s ?n [0..<?n]) (harvest_start_word poll cap start_word start_bit ?q)))"
  proof (rule stage_and_then [OF 2])
    fix p1 :: "('a, 'b, 'c) pass"
    assume p1: "pass_inv R live cap True p1" "g_current_bits (p_guard p1) = 0 \<and> g_summary (p_guard p1) = 0"
    let ?p = "with_guard activate_deferred_summary p1"
    have "pass_inv R live cap True ?p" "g_current_bits (p_guard ?p) = 0" "g_deferred_summary (p_guard ?p) = 0"
      using activate_inv(2) [OF p1(1)] p1(2) by (simp_all add: with_guard_def activate_deferred_summary_def)
    with scan_announced_stage [of R live cap ?p poll]
    show "stage R live cap (\<lambda>g. g_current_bits g = 0 \<and> g_summary g = 0 \<and> g_deferred_summary g = 0) (scan_announced poll cap ?p)"
      by (auto simp: stage_def deferred_def)
  qed
  show ?thesis
    unfolding harvest_multi_def Let_def by (rule stage_and_then [OF 3], rule last_stage) simp_all
qed

section \<open>The guard gives everything back\<close>

lemma guard_restore_spec:
  assumes "shared_inv sh g"
  shows "shared_inv (guard_restore wake g sh) guard_new" "same_shape (sh_ready sh) (sh_ready (guard_restore wake g sh))"
    "ready (sh_ready (guard_restore wake g sh)) = ready (sh_ready sh) \<union> held_bits g"
proof -
  let ?r0 = "sh_ready sh"
  have wf: "rd_wf ?r0" and cov: "covered ?r0 (held_words g)"
    and bits: "slots_of (g_current_word g) (g_current_bits g) \<subseteq> {..<rd_slots ?r0}" "slots_of (g_deferred_word g) (g_deferred_bits g) \<subseteq> {..<rd_slots ?r0}"
    and words: "slots_of (g_summary_index g) (g_summary g) \<subseteq> {..<length (rd_words ?r0)}"
      "slots_of (g_deferred_summary_index g) (g_deferred_summary g) \<subseteq> {..<length (rd_words ?r0)}"
    using assms by (auto simp: shared_inv_def held_bits_def held_words_def)
  define r1 where "r1 = restore_word (g_current_word g) (g_current_bits g) ?r0"
  define r2 where "r2 = restore_word (g_deferred_word g) (g_deferred_bits g) r1"
  define r3 where "r3 = restore_summary (g_summary_index g) (g_summary g) r2"
  define r4 where "r4 = restore_summary (g_deferred_summary_index g) (g_deferred_summary g) r3"
  have z: "restore_word w 0 r = r" "restore_summary w 0 r = r" for w r by (simp_all add: restore_word_def restore_summary_def)
  have r4: "sh_ready (guard_restore wake g sh) = r4"
    using z by (auto simp: guard_restore_def Let_def r4_def r3_def r2_def r1_def)
  have cl: "bell_closed (sh_bell (guard_restore wake g sh)) = bell_closed (sh_bell sh)" by (simp add: guard_restore_def Let_def)
  note s1 = restore_word_spec [OF wf bits(1), folded r1_def]
  have "slots_of (g_deferred_word g) (g_deferred_bits g) \<subseteq> {..<rd_slots r1}" using bits(2) s1(3) by (simp add: same_shape_def)
  note s2 = restore_word_spec [OF s1(1) this, folded r2_def]
  have sh2: "same_shape ?r0 r2" by (rule same_shape_trans [OF s1(3) s2(3)])
  have "slots_of (g_summary_index g) (g_summary g) \<subseteq> {..<length (rd_words r2)}" using words(1) sh2 by (simp add: same_shape_def)
  note s3 = restore_summary_spec [OF s2(1) this, folded r3_def]
  have sh3: "same_shape ?r0 r3" by (rule same_shape_trans [OF sh2 s3(3)])
  have "slots_of (g_deferred_summary_index g) (g_deferred_summary g) \<subseteq> {..<length (rd_words r3)}" using words(2) sh3 by (simp add: same_shape_def)
  note s4 = restore_summary_spec [OF s3(1) this, folded r4_def]
  have c2: "covered r2 (held_words g)" by (rule s2(4) [OF s1(4) [OF cov]])
  have c4: "covered r4 {}"
    by (rule s4(4), rule s3(4)) (use c2 in \<open>simp add: held_words_def Un_commute\<close>)
  show "same_shape ?r0 (sh_ready (guard_restore wake g sh))" unfolding r4 by (rule same_shape_trans [OF sh3 s4(3)])
  show "ready (sh_ready (guard_restore wake g sh)) = ready ?r0 \<union> held_bits g" unfolding r4 s4(2) s3(2) s2(2) s1(2) by (auto simp: held_bits_def)
  have e: "held_words guard_new = {}" "held_bits guard_new = {}" by (simp_all add: held_words_def held_bits_def guard_new_def)
  show "shared_inv (guard_restore wake g sh) guard_new" using assms s4(1) c4 cl by (simp add: shared_inv_def r4 e)
qed

end
