(* ===== verification/Outstanding_Theorems.thy ===== *)
theory Outstanding_Theorems
  imports Outstanding_Harvest
begin

text \<open>
  The outstanding set over whole executions: pushes, harvests with any poller, wakes and owner
  registrations in any order keep the storage and the ready set well formed, and no readiness is lost.
\<close>

section \<open>The state between operations\<close>

definition out_inv :: "('f, 'w) inner \<Rightarrow> bool" where
  "out_inv s \<longleftrightarrow> inner_inv s guard_new"

abbreviation ready_slots :: "('f, 'w) inner \<Rightarrow> nat set" where
  "ready_slots s \<equiv> ready (sh_ready (in_shared s))"

lemma guard_new_empty [simp]: "held_words guard_new = {}" "held_bits guard_new = {}"
  by (simp_all add: held_words_def held_bits_def guard_new_def)

lemma emptied_held: "emptied g \<Longrightarrow> held_words g = {} \<and> held_bits g = {}"
  by (simp add: emptied_def held_words_def held_bits_def)

lemma out_invD:
  assumes "out_inv s"
  shows "rd_wf (sh_ready (in_shared s))" "covered (sh_ready (in_shared s)) {}" "\<not> bell_closed (sh_bell (in_shared s))"
    "rd_slots (sh_ready (in_shared s)) = length (in_storage s)" "store_wf s"
  using assms by (auto simp: out_inv_def inner_inv_def shared_inv_def)

lemma with_capacity_inv:
  assumes "outstanding_with_capacity cap = Some s"
  shows "out_inv s" "ready_slots s = {}" "occupied s = {}" "length (in_storage s) = cap"
proof -
  obtain r where r: "ready_new cap = Some r" using assms by (auto simp: outstanding_with_capacity_def split: option.splits)
  have s: "in_storage s = replicate cap None" "in_free s = rev [0..<cap]" "sh_ready (in_shared s) = r"
    "sh_bell (in_shared s) = bell_new" "in_live s = 0" "in_cursor s = 0"
    using assms r by (auto simp: outstanding_with_capacity_def)
  have cap: "cap \<le> OUTSTANDING_MAX_CAPACITY" using r by (auto simp: ready_new_def split: if_splits)
  have f: "rd_words r = replicate (div_ceil cap 64) 0" "rd_summary r = replicate SUMMARY_WORDS 0" "rd_slots r = cap"
    "rd_summaries r = (if div_ceil cap 64 > 1 then div_ceil (div_ceil cap 64) 64 else 0)"
    using r by (auto simp: ready_new_def Let_def split: if_splits)
  have wf: "rd_wf r" using cap f by (simp add: rd_wf_def rd_shape_def)
  show "ready_slots s = {}" using f s(3) div_ceil_less [of _ cap] by (auto simp: ready_def)
  have cov: "covered r {}" using f(1) by (simp add: covered_def)
  show occ: "occupied s = {}" using s(1) by (simp add: occupied_def is_occupied_def)
  show len: "length (in_storage s) = cap" using s(1) by simp
  have "store_wf s" unfolding store_wf_def occ len using s by auto
  then show "out_inv s" using wf cov s f len by (simp add: out_inv_def inner_inv_def shared_inv_def bell_new_def)
qed

section \<open>Pushing\<close>

lemma try_push_full:
  "in_free s = [] \<Longrightarrow> outstanding_try_push f s = Some (s, Inl f)"
  by (simp add: outstanding_try_push_def)

lemma try_push_room:
  assumes inv: "out_inv s" and free: "in_free s \<noteq> []"
  obtains s' where "outstanding_try_push f s = Some (s', Inr ())" "out_inv s'" "in_live s' = in_live s + 1"
    "occupied s' = insert (last (in_free s)) (occupied s)" "last (in_free s) \<notin> occupied s"
    "in_storage s' = (in_storage s)[last (in_free s) := Some f]" "ready_slots s' = insert (last (in_free s)) (ready_slots s)"
proof -
  let ?i = "last (in_free s)"
  note d = out_invD [OF inv] and st = store_wfD [OF out_invD(5) [OF inv]]
  have mem: "?i \<in> set (in_free s)" using free by simp
  then have i: "?i < length (in_storage s)" "?i \<notin> occupied s" unfolding st(2) by auto
  have no: "\<not> is_occupied s ?i" using i by (simp add: occupied_def)
  have "?i < rd_slots (sh_ready (in_shared s))" using i(1) d(4) by simp
  from ready_mark_spec [OF d(1) this] obtain r fresh where m: "ready_mark ?i (sh_ready (in_shared s)) = Some (r, fresh)" "rd_wf r"
    "ready r = insert ?i (ready_slots s)" "same_shape (sh_ready (in_shared s)) r"
    "\<forall>H. covered (sh_ready (in_shared s)) H \<longrightarrow> covered r H" by metis
  let ?s = "s\<lparr>in_free := butlast (in_free s), in_storage := (in_storage s)[?i := Some f], in_live := in_live s + 1,
    in_shared := (in_shared s)\<lparr>sh_ready := r\<rparr>\<rparr>"
  have eq: "outstanding_try_push f s = Some (?s, Inr ())"
    using free i(1) no m(1) by (simp add: outstanding_try_push_def Let_def is_occupied_def)
  have occ: "occupied ?s = insert ?i (occupied s)" using i(1) by (auto simp: occupied_def is_occupied_def nth_list_update)
  obtain xs j where xs: "in_free s = xs @ [j]" using free by (cases "in_free s" rule: rev_cases) auto
  then have j: "?i = j" "butlast (in_free s) = xs" by simp_all
  have dist: "distinct (butlast (in_free s))" using st(1) unfolding j xs by simp
  have fs: "set (butlast (in_free s)) = {..<length (in_storage s)} - insert ?i (occupied s)"
    using st(1,2) unfolding j unfolding xs by auto
  have "length (in_free s) \<noteq> 0" using free by simp
  then have cnt: "in_live s + 1 + length (butlast (in_free s)) = length (in_storage s)" unfolding length_butlast using st(3) by linarith
  have "store_wf ?s" unfolding store_wf_def occ using fs cnt st(4) dist by simp
  then have "out_inv ?s" using m d by (simp add: out_inv_def inner_inv_def shared_inv_def same_shape_def)
  then show thesis using that [of ?s] eq occ i(2) m(3) by simp
qed

section \<open>Harvesting\<close>

lemma pass_start:
  assumes "out_inv s" "length (in_storage s) \<noteq> 0"
  shows "pass_inv (ready_slots s) (in_live s) cap True
    \<lparr>p_inner = s, p_guard = guard_new, p_polled = 0, p_finished = 0, p_out = [], p_trace = []\<rparr>"
  using assms by (simp add: pass_inv_def out_inv_def)

text \<open>The pass of a harvest that has something to do.\<close>

definition harvest_pass :: "('f, 'o) poller \<Rightarrow> nat \<Rightarrow> ('f, 'w) inner \<Rightarrow> ('f, 'w, 'o) pass \<times> pass_exit" where
  "harvest_pass poll cap s =
     (let p = \<lparr>p_inner = s, p_guard = guard_new, p_polled = 0, p_finished = 0, p_out = [], p_trace = []\<rparr> in
      if length (rd_words (sh_ready (in_shared s))) = 1 then harvest_single poll cap (in_cursor s mod 64) p
      else harvest_multi poll cap (in_cursor s div 64) (in_cursor s mod 64) p)"

lemma harvest_pass_stage:
  assumes "out_inv s" "length (in_storage s) \<noteq> 0"
  shows "stage (ready_slots s) (in_live s) cap emptied (harvest_pass poll cap s)"
proof -
  note d = out_invD [OF assms(1)]
  let ?r = "sh_ready (in_shared s)"
  have "in_cursor s < rd_slots ?r" using store_wfD(4) [OF d(5) assms(2)] d(4) by simp
  then have w: "in_cursor s div 64 < length (rd_words ?r)" by (rule word_in_range [OF d(1)])
  show ?thesis
  proof (cases "length (rd_words ?r) = 1")
    case True
    then show ?thesis using harvest_single_stage [OF pass_start [OF assms]] by (simp add: harvest_pass_def)
  next
    case False
    then have "1 < length (rd_words ?r)" using w by linarith
    then have "rd_summaries ?r \<noteq> 0" using rd_wf_shape [OF d(1)] div_ceil_less [of 0 "length (rd_words ?r)"] by (simp add: rd_shape_def)
    then show ?thesis using harvest_multi_stage [OF pass_start [OF assms]] w False by (simp add: harvest_pass_def)
  qed
qed

lemma harvest_exits:
  assumes "cap \<noteq> 0" "length (in_storage s) \<noteq> 0" "harvest_pass poll cap s = (p, e)"
  shows "hr_trace (harvest poll cap s) = p_trace p" "hr_out (harvest poll cap s) = p_out p"
    "hr_inner (harvest poll cap s) = (if e = Finished then p_inner p else restore_pass (e = Unwound) p)"
    "hr_report (harvest poll cap s) = (if e = Unwound then None else
       Some \<lparr>h_polled = p_polled p, h_finished = p_finished p,
             h_more_ready = (e = Truncated \<or> has_ready (sh_ready (in_shared (p_inner p))))\<rparr>)"
  using assms by (cases e; simp add: harvest_def harvest_pass_def outstanding_capacity_def Let_def)+

lemma harvest_idle:
  assumes "cap = 0 \<or> length (in_storage s) = 0"
  shows "harvest poll cap s =
    \<lparr>hr_inner = s, hr_report = Some \<lparr>h_polled = 0, h_finished = 0, h_more_ready = has_ready (sh_ready (in_shared s))\<rparr>, hr_out = [], hr_trace = []\<rparr>"
  using assms by (auto simp: harvest_def outstanding_capacity_def)

lemma restore_pass_inv:
  assumes "pass_inv R live cap ok p"
  shows "out_inv (restore_pass wake p)" "owed R (p_trace p) \<inter> occupied (restore_pass wake p) \<subseteq> ready_slots (restore_pass wake p)"
proof -
  have "shared_inv (in_shared (p_inner p)) (p_guard p)" using assms by (simp add: pass_inv_def inner_inv_def)
  note g = guard_restore_spec [OF this, of wake]
  show "out_inv (restore_pass wake p)"
    using assms g by (auto simp: out_inv_def inner_inv_def restore_pass_def pass_inv_def same_shape_def)
  show "owed R (p_trace p) \<inter> occupied (restore_pass wake p) \<subseteq> ready_slots (restore_pass wake p)"
    using assms g(3) by (simp add: restore_pass_def pass_inv_def)
qed

lemma pass_emptied_inv:
  assumes "pass_inv R live cap True p" "emptied (p_guard p)"
  shows "out_inv (p_inner p)" "owed R (p_trace p) \<inter> occupied (p_inner p) \<subseteq> ready_slots (p_inner p)"
  using assms emptied_held [OF assms(2)] by (auto simp: pass_inv_def out_inv_def inner_inv_def shared_inv_def)

lemma harvest_safe:
  assumes "out_inv s"
  shows "out_inv (hr_inner (harvest poll cap s)) \<and>
    owed (ready_slots s) (hr_trace (harvest poll cap s)) \<inter> occupied (hr_inner (harvest poll cap s)) \<subseteq> ready_slots (hr_inner (harvest poll cap s)) \<and>
    length (filter is_polled (hr_trace (harvest poll cap s))) \<le> cap"
proof (cases "cap = 0 \<or> length (in_storage s) = 0")
  case True
  then show ?thesis using assms by (simp add: harvest_idle [OF True])
next
  case False
  obtain p e where pe: "harvest_pass poll cap s = (p, e)" by (cases "harvest_pass poll cap s")
  have st: "stage (ready_slots s) (in_live s) cap emptied (p, e)" using harvest_pass_stage [OF assms, of cap poll] False pe by simp
  then have inv: "pass_inv (ready_slots s) (in_live s) cap (exit_ok e) p" by (simp add: stage_def)
  have h: "hr_trace (harvest poll cap s) = p_trace p" "hr_inner (harvest poll cap s) = (if e = Finished then p_inner p else restore_pass (e = Unwound) p)"
    using harvest_exits [of cap s poll p e] False pe by auto
  have cnt: "length (filter is_polled (p_trace p)) \<le> cap" using inv by (simp add: pass_inv_def)
  show ?thesis
  proof (cases "e = Finished")
    case True
    then have "pass_inv (ready_slots s) (in_live s) cap True p" "emptied (p_guard p)" using st by (simp_all add: stage_def exit_ok_def)
    from pass_emptied_inv [OF this] show ?thesis unfolding h using True cnt by simp
  next
    case False
    then show ?thesis unfolding h using restore_pass_inv [OF inv] cnt by simp
  qed
qed

lemma harvest_reports:
  assumes "out_inv s" "hr_report (harvest poll cap s) = Some rep"
  shows "h_polled rep = length (filter is_polled (hr_trace (harvest poll cap s))) \<and> h_finished rep = length (hr_out (harvest poll cap s)) \<and>
    in_live (hr_inner (harvest poll cap s)) + h_finished rep = in_live s \<and>
    (\<not> h_more_ready rep \<longrightarrow> ready_slots (hr_inner (harvest poll cap s)) = {})"
proof (cases "cap = 0 \<or> length (in_storage s) = 0")
  case True
  then show ?thesis using assms has_ready_complete [OF out_invD(1,2) [OF assms(1)]] by (auto simp: harvest_idle [OF True])
next
  case False
  obtain p e where pe: "harvest_pass poll cap s = (p, e)" by (cases "harvest_pass poll cap s")
  have st: "stage (ready_slots s) (in_live s) cap emptied (p, e)" using harvest_pass_stage [OF assms(1), of cap poll] False pe by simp
  note h = harvest_exits [of cap s poll p e] 
  have nu: "e \<noteq> Unwound" and rep: "rep = \<lparr>h_polled = p_polled p, h_finished = p_finished p,
      h_more_ready = (e = Truncated \<or> has_ready (sh_ready (in_shared (p_inner p))))\<rparr>"
    using h(4) False pe assms(2) by (auto split: if_splits)
  then have inv: "pass_inv (ready_slots s) (in_live s) cap True p" using st by (simp add: stage_def exit_ok_def)
  have live: "in_live (hr_inner (harvest poll cap s)) = in_live (p_inner p)" using h(3) False pe by (simp add: restore_pass_def)
  have fin: "e = Finished" if "\<not> h_more_ready rep" using that nu rep by (cases e) auto
  have "ready_slots (p_inner p) = {}" if more: "\<not> h_more_ready rep"
  proof -
    have "emptied (p_guard p)" using st fin [OF more] by (simp add: stage_def)
    note o = pass_emptied_inv [OF inv this]
    show ?thesis using has_ready_complete [OF out_invD(1,2) [OF o(1)]] more rep by simp
  qed
  then show ?thesis using h(1-3) False pe inv live fin rep by (auto simp: pass_inv_def)
qed

section \<open>Executions\<close>

datatype ('f, 'o, 'w) out_event = OPush 'f | OHarvest "('f, 'o) poller" nat | OWake nat | OOwner 'w

inductive out_step :: "('f, 'w) inner \<Rightarrow> ('f, 'o, 'w) out_event \<Rightarrow> ('f, 'w) inner \<Rightarrow> bool" where
  step_push: "outstanding_try_push f s = Some (s', r) \<Longrightarrow> out_step s (OPush f) s'"
| step_harvest: "out_step s (OHarvest poll cap) (hr_inner (harvest poll cap s))"
| step_wake: "out_step s (OWake j) (s\<lparr>in_shared := notify j (in_shared s)\<rparr>)"
| step_owner: "register_owner w s = Some s' \<Longrightarrow> out_step s (OOwner w) s'"

definition out_init :: "nat \<Rightarrow> ('f, 'w) inner \<Rightarrow> bool" where
  "out_init cap s \<longleftrightarrow> outstanding_with_capacity cap = Some s"

lemma out_step_inv:
  assumes "out_step s e s'" "out_inv s"
  shows "out_inv s'"
  using assms
proof cases
  case (step_push f r)
  then show ?thesis using assms(2) try_push_room [of s f] try_push_full [of s f] by (cases "in_free s = []") (metis prod.inject option.inject)+
next
  case (step_harvest poll cap)
  then show ?thesis using harvest_safe [OF assms(2), of poll cap] by simp
next
  case (step_wake j)
  then show ?thesis
    using assms(2) notify_spec [of "in_shared s" guard_new j] by (auto simp: out_inv_def inner_inv_def same_shape_def)
next
  case (step_owner w)
  then have "sh_ready (in_shared s') = sh_ready (in_shared s)" "bell_closed (sh_bell (in_shared s')) = bell_closed (sh_bell (in_shared s))"
    "in_storage s' = in_storage s" "in_free s' = in_free s" "in_live s' = in_live s" "in_cursor s' = in_cursor s"
    by (auto simp: register_owner_def bell_register_def)
  then show ?thesis using assms(2) by (simp add: out_inv_def inner_inv_def shared_inv_def store_wf_def occupied_def is_occupied_def)
qed

interpretation outstanding: invariant "out_init cap" out_step out_inv for cap
  by unfold_locales (auto simp: out_init_def with_capacity_inv(1) intro: out_step_inv)

section \<open>The self-check\<close>

lemma check_free_ok:
  assumes "distinct fr" "\<forall>i \<in> set fr. i < outstanding_capacity s \<and> \<not> is_occupied s i \<and> \<not> seen ! i" "length seen = outstanding_capacity s"
  shows "\<exists>seen'. check_free s fr seen = Inr seen' \<and> (\<forall>i < outstanding_capacity s. seen' ! i = (seen ! i \<or> i \<in> set fr))"
  using assms
proof (induction fr arbitrary: seen)
  case (Cons j fr)
  have "\<forall>i \<in> set fr. i < outstanding_capacity s \<and> \<not> is_occupied s i \<and> \<not> (seen[j := True]) ! i"
    using Cons.prems by (auto simp: nth_list_update)
  with Cons.IH [of "seen[j := True]"] Cons.prems show ?case by (auto simp: nth_list_update)
qed simp

lemma occupied_count:
  assumes "store_wf s"
  shows "length (List.filter (is_occupied s) [0..<length (in_storage s)]) = in_live s"
proof -
  note st = store_wfD [OF assms]
  have "length (List.filter (is_occupied s) [0..<length (in_storage s)]) = card (occupied s)"
    by (subst distinct_card [symmetric]) (auto simp: occupied_def intro: arg_cong [of _ _ card])
  moreover have "occupied s \<subseteq> {..<length (in_storage s)}" by (auto simp: occupied_def)
  then have "card ({..<length (in_storage s)} - occupied s) = length (in_storage s) - card (occupied s)" "card (occupied s) \<le> length (in_storage s)"
    using card_Diff_subset [of "occupied s" "{..<length (in_storage s)}"] card_mono [of "{..<length (in_storage s)}" "occupied s"] finite_subset by auto
  moreover have "card (set (in_free s)) = length (in_free s)" by (rule distinct_card [OF st(1)])
  ultimately show ?thesis using st(2,3) by simp
qed

lemma outstanding_check_ok:
  assumes "out_inv s"
  shows "outstanding_check_invariants s = Inr ()"
proof -
  have wf: "store_wf s" by (rule out_invD(5) [OF assms])
  note st = store_wfD [OF wf]
  have "\<exists>seen'. check_free s (in_free s) (replicate (outstanding_capacity s) False) = Inr seen' \<and>
    (\<forall>i < outstanding_capacity s. seen' ! i = (replicate (outstanding_capacity s) False ! i \<or> i \<in> set (in_free s)))"
    by (rule check_free_ok) (use st(1,2) in \<open>auto simp: outstanding_capacity_def occupied_def\<close>)
  then obtain seen where seen: "check_free s (in_free s) (replicate (outstanding_capacity s) False) = Inr seen"
    "\<And>i. i < outstanding_capacity s \<Longrightarrow> seen ! i = (i \<in> set (in_free s))" by auto
  have "\<not> list_ex (\<lambda>i. seen ! i = is_occupied s i) [0..<outstanding_capacity s]"
    using seen(2) st(2) by (auto simp: list_ex_iff outstanding_capacity_def occupied_def)
  then show ?thesis
    using seen(1) st(3,4) occupied_count [OF wf] by (auto simp: outstanding_check_invariants_def outstanding_capacity_def Let_def)
qed

section \<open>A small set for the witnesses\<close>

definition demo_set :: "(nat, nat) inner" where
  "demo_set = the (outstanding_with_capacity 2)"

definition demo_poll :: "(nat, nat) poller" where
  "demo_poll i f = (if f = 0 then (Ready (10 + i), []) else (Pending (f - 1), [i]))"

definition demo_pushed :: "(nat, nat) inner" where
  "demo_pushed = fst (the (outstanding_try_push 1 demo_set))"

lemma demo_set_init: "out_init 2 demo_set"
  by (simp add: out_init_def demo_set_def outstanding_with_capacity_def ready_new_def OUTSTANDING_MAX_CAPACITY_def MAX_WORDS_def Let_def)

lemma demo_free: "in_free demo_set = [1, 0]"
  by (simp add: demo_set_def outstanding_with_capacity_def ready_new_def OUTSTANDING_MAX_CAPACITY_def MAX_WORDS_def Let_def upt_rec)

lemma demo_pushed_facts:
  "outstanding_try_push 1 demo_set = Some (demo_pushed, Inr ())" "0 \<in> occupied demo_pushed" "0 \<in> ready_slots demo_pushed"
proof -
  have "out_inv demo_set" using with_capacity_inv(1) demo_set_init unfolding out_init_def by blast
  from try_push_room [OF this, of 1] obtain s where s: "outstanding_try_push 1 demo_set = Some (s, Inr ())"
    "occupied s = insert (last (in_free demo_set)) (occupied demo_set)" "ready_slots s = insert (last (in_free demo_set)) (ready_slots demo_set)"
    using demo_free by (metis list.distinct(1))
  then show "outstanding_try_push 1 demo_set = Some (demo_pushed, Inr ())" "0 \<in> occupied demo_pushed" "0 \<in> ready_slots demo_pushed"
    by (simp_all add: demo_pushed_def demo_free)
qed

lemma demo_push: "run out_step demo_set [OPush 1] demo_pushed"
  using demo_pushed_facts(1) by (intro run_single step_push)

section \<open>Properties\<close>



text \<open>
  C27. The report of a harvest tells the truth. In every reachable state a harvest polls at most the cap;
  its report counts the polls made and the outputs delivered, the number of live futures falls by exactly
  the number finished, and when \<open>more_ready\<close> is false nothing is ready, so every future that was ready
  before and is still held was polled.
\<close>

theorem outstanding_report:
  assumes "out_init n s0" "run out_step s0 evs s" "hr_report (harvest poll cap s) = Some rep"
  defines "h \<equiv> harvest poll cap s"
  shows "h_polled rep \<le> cap \<and> h_polled rep = length (filter is_polled (hr_trace h)) \<and> h_finished rep = length (hr_out h) \<and>
    in_live (hr_inner h) + h_finished rep = in_live s \<and>
    (\<not> h_more_ready rep \<longrightarrow>
      ready_slots (hr_inner h) = {} \<and> (\<forall>i \<in> ready_slots s \<inter> occupied (hr_inner h). Polled i \<in> set (hr_trace h)))"
proof -
  have inv: "out_inv s" by (rule outstanding.reachable_inv [OF assms(1,2)])
  note safe = harvest_safe [OF inv, of poll cap, folded h_def] and rep = harvest_reports [OF inv assms(3), folded h_def]
  have unpolled: "i \<in> owed R tr" if "i \<in> R" "Polled i \<notin> set tr" for i R tr
    using that
  proof (induction tr arbitrary: R)
    case (Cons e tr)
    then show ?case by (cases e) (simp_all add: owed_cons)
  qed simp
  have "Polled i \<in> set (hr_trace h)" if "\<not> h_more_ready rep" "i \<in> ready_slots s \<inter> occupied (hr_inner h)" for i
    using unpolled [of i "ready_slots s"] that safe rep by blast
  then show ?thesis using safe rep by simp
qed

theorem outstanding_report_witness:
  "out_init 2 demo_set \<and> run out_step demo_set [OPush 1] demo_pushed \<and>
   (\<exists>rep. hr_report (harvest demo_poll 0 demo_pushed) = Some rep \<and> h_polled rep = 0 \<and> h_more_ready rep)"
proof -
  obtain rep where r: "hr_report (harvest demo_poll 0 demo_pushed) = Some rep" by (simp add: harvest_idle)
  have "ready_slots (hr_inner (harvest demo_poll 0 demo_pushed)) \<noteq> {}" using demo_pushed_facts(3) by (auto simp: harvest_idle)
  then show ?thesis using outstanding_report [OF demo_set_init demo_push r] r demo_set_init demo_push by auto
qed

text \<open>
  C28. The storage accounting never drifts. Every reachable state of a set of any capacity passes the
  program's own \<open>check_invariants\<close>: live and free slots partition the capacity, the free list has no
  duplicate, and the cursor stays in range.
\<close>

theorem outstanding_selfcheck:
  assumes "out_init n s0" "run out_step s0 evs s"
  shows "outstanding_check_invariants s = Inr ()"
  by (rule outstanding_check_ok [OF outstanding.reachable_inv [OF assms]])

theorem outstanding_selfcheck_witness:
  "out_init 2 demo_set \<and> run out_step demo_set [OPush 1] demo_pushed \<and> outstanding_check_invariants demo_pushed = Inr ()"
  using outstanding_selfcheck [OF demo_set_init demo_push] demo_set_init demo_push by simp



end
