(* ===== verification/Waiters.thy ===== *)
theory Waiters
  imports Prelude Machine
begin

text \<open>
  The queue of parked callers of \<^verbatim>\<open>crates/grommet/src/waiters.rs\<close>: recycled slots with generations, the
  registration order with its tombstones, parking, refreshing, cancelling, waking and closing, and the
  waiting protocol \<open>park_until\<close> with the registration it gives up on drop. Every operation runs under the
  lock of the source and is one function here; the published count is part of the state. Slots are natural
  numbers checked against the 32-bit range, generations are 64-bit words that wrap.
\<close>

section \<open>State\<close>

record 'w wait_slot =
  wl_waker :: "'w option"
  wl_generation :: u64

type_synonym ticket = "nat \<times> u64"

record 'w waiters =
  wt_slots :: "'w wait_slot list"
  wt_free :: "nat list"
  wt_order :: "ticket list"
  wt_next_generation :: u64
  wt_closed :: bool
  wt_waiting :: nat

definition waiters_new :: "'w waiters" where
  "waiters_new = \<lparr>wt_slots = [], wt_free = [], wt_order = [], wt_next_generation = 0, wt_closed = False, wt_waiting = 0\<rparr>"

definition ticket_live :: "'w waiters \<Rightarrow> ticket \<Rightarrow> bool" where
  "ticket_live s t \<longleftrightarrow> fst t < length (wt_slots s) \<and> wl_generation (wt_slots s ! fst t) = snd t \<and> wl_waker (wt_slots s ! fst t) \<noteq> None"

definition retire :: "nat \<Rightarrow> 'w waiters \<Rightarrow> 'w waiters \<times> 'w option" where
  "retire slot s =
     (let entry = wt_slots s ! slot in
      case wl_waker entry of
        None \<Rightarrow> (s, None)
      | Some w \<Rightarrow>
          (s\<lparr>wt_slots := (wt_slots s)[slot := \<lparr>wl_waker = None, wl_generation = wl_generation entry + 1\<rparr>],
             wt_free := wt_free s @ [slot]\<rparr>, Some w))"

definition compact_due :: "'w waiters \<Rightarrow> bool" where
  "compact_due s \<longleftrightarrow> \<not> (length (wt_order s) \<le> 8 \<or> length (wt_order s) < length (wt_free s) * 2)"

definition compact :: "'w waiters \<Rightarrow> 'w waiters" where
  "compact s = (if compact_due s then s\<lparr>wt_order := filter (ticket_live s) (wt_order s)\<rparr> else s)"

definition publish :: "'w waiters \<Rightarrow> 'w waiters" where
  "publish s = s\<lparr>wt_waiting := length (wt_slots s) - length (wt_free s)\<rparr>"

definition any_waiting :: "'w waiters \<Rightarrow> bool" where
  "any_waiting s \<longleftrightarrow> wt_waiting s \<noteq> 0"

section \<open>Operations\<close>

definition take_slot :: "'w \<Rightarrow> u64 \<Rightarrow> 'w waiters \<Rightarrow> ('w waiters \<times> nat) option" where
  "take_slot w generation s =
     (if wt_free s \<noteq> [] then
        (let slot = last (wt_free s) in
         Some (s\<lparr>wt_free := butlast (wt_free s), wt_slots := (wt_slots s)[slot := \<lparr>wl_waker = Some w, wl_generation = generation\<rparr>]\<rparr>, slot))
      else if length (wt_slots s) \<ge> 2 ^ 32 then None
      else Some (s\<lparr>wt_slots := wt_slots s @ [\<lparr>wl_waker = Some w, wl_generation = generation\<rparr>]\<rparr>, length (wt_slots s)))"

definition park :: "'w \<Rightarrow> 'w waiters \<Rightarrow> ('w waiters \<times> (unit + ticket)) option" where
  "park w s =
     (if wt_closed s then Some (s, Inl ())
      else
        (let generation = wt_next_generation s; s = s\<lparr>wt_next_generation := generation + 1\<rparr> in
         case take_slot w generation s of
           None \<Rightarrow> None
         | Some (s, slot) \<Rightarrow>
             Some (publish (compact (s\<lparr>wt_order := wt_order s @ [(slot, generation)]\<rparr>)), Inr (slot, generation))))"

definition refresh_ticket :: "ticket \<Rightarrow> 'w \<Rightarrow> 'w waiters \<Rightarrow> 'w waiters" where
  "refresh_ticket t w s =
     (if \<not> ticket_live s t then s
      else (let entry = wt_slots s ! fst t in
        if wl_waker entry = Some w then s else s\<lparr>wt_slots := (wt_slots s)[fst t := entry\<lparr>wl_waker := Some w\<rparr>]\<rparr>))"

definition cancel_ticket :: "ticket \<Rightarrow> 'w waiters \<Rightarrow> 'w waiters \<times> bool" where
  "cancel_ticket t s =
     (if \<not> ticket_live s t then (s, False) else (publish (compact (fst (retire (fst t) s))), True))"

fun wake_loop :: "ticket list \<Rightarrow> 'w waiters \<Rightarrow> 'w waiters \<times> 'w option" where
  "wake_loop [] s = (s\<lparr>wt_order := []\<rparr>, None)"
| "wake_loop ((slot, generation) # rest) s =
     (if wl_generation (wt_slots s ! slot) \<noteq> generation then wake_loop rest s
      else (case retire slot s of
          (s', Some w) \<Rightarrow> (s'\<lparr>wt_order := rest\<rparr>, Some w)
        | (s', None) \<Rightarrow> wake_loop rest s'))"

definition wake_one :: "'w waiters \<Rightarrow> 'w waiters \<times> 'w option" where
  "wake_one s = (let (s, woken) = wake_loop (wt_order s) s in (publish s, woken))"

fun close_loop :: "ticket list \<Rightarrow> 'w waiters \<Rightarrow> 'w list \<Rightarrow> 'w waiters \<times> 'w list" where
  "close_loop [] s woken = (s\<lparr>wt_order := []\<rparr>, woken)"
| "close_loop ((slot, generation) # rest) s woken =
     (if wl_generation (wt_slots s ! slot) \<noteq> generation then close_loop rest s woken
      else (case retire slot s of
          (s', Some w) \<Rightarrow> close_loop rest s' (woken @ [w])
        | (s', None) \<Rightarrow> close_loop rest s' woken))"

definition close_waiters :: "'w waiters \<Rightarrow> 'w waiters \<times> 'w list" where
  "close_waiters s = (let (s, woken) = close_loop (wt_order s) (s\<lparr>wt_closed := True\<rparr>) [] in (publish s, woken))"

section \<open>The waiting protocol\<close>

datatype 'v attempt = AReady 'v | ARetry | AClosed

datatype 'v wait_result = WDone 'v | WClosed | WPending

definition finish_registration :: "ticket option \<Rightarrow> 'w waiters \<Rightarrow> 'w waiters" where
  "finish_registration tk s = (case tk of None \<Rightarrow> s | Some t \<Rightarrow> fst (cancel_ticket t s))"

text \<open>
  One poll of the waiting future: \<open>tk\<close> is the ticket of its registration and \<open>attempt\<close> the closure, a
  function on the state \<open>x\<close> it captures.
\<close>

definition park_until_poll ::
  "'w \<Rightarrow> ('x \<Rightarrow> 'x \<times> 'v attempt) \<Rightarrow> ticket option \<Rightarrow> 'x \<Rightarrow> 'w waiters \<Rightarrow> ('w waiters \<times> 'x \<times> ticket option \<times> 'v wait_result) option" where
  "park_until_poll w attempt tk x s =
     (case (case tk of Some t \<Rightarrow> Some (refresh_ticket t w s, Inr t) | None \<Rightarrow> park w s) of
        None \<Rightarrow> None
      | Some (s, Inl _) \<Rightarrow> Some (s, x, tk, WClosed)
      | Some (s, Inr t) \<Rightarrow>
          (case attempt x of
             (x, AReady v) \<Rightarrow> Some (finish_registration (Some t) s, x, None, WDone v)
           | (x, AClosed) \<Rightarrow> Some (finish_registration (Some t) s, x, None, WClosed)
           | (x, ARetry) \<Rightarrow> Some (s, x, Some t, WPending)))"

text \<open>The first poll tries before anything is registered.\<close>

definition park_until_start ::
  "'w \<Rightarrow> ('x \<Rightarrow> 'x \<times> 'v attempt) \<Rightarrow> 'x \<Rightarrow> 'w waiters \<Rightarrow> ('w waiters \<times> 'x \<times> ticket option \<times> 'v wait_result) option" where
  "park_until_start w attempt x s =
     (case attempt x of
        (x, AReady v) \<Rightarrow> Some (s, x, None, WDone v)
      | (x, AClosed) \<Rightarrow> Some (s, x, None, WClosed)
      | (x, ARetry) \<Rightarrow> park_until_poll w attempt None x s)"

text \<open>Dropping the waiting future: a wake that already arrived is passed to the next in line.\<close>

definition drop_registration :: "ticket option \<Rightarrow> 'w waiters \<Rightarrow> 'w waiters \<times> 'w option" where
  "drop_registration tk s =
     (case tk of
        None \<Rightarrow> (s, None)
      | Some t \<Rightarrow> (case cancel_ticket t s of (s, True) \<Rightarrow> (s, None) | (s, False) \<Rightarrow> wake_one s))"

text \<open>\<open>Inbox::release_capacity\<close> of the mailbox: hand \<open>freed\<close> slots to the callers waiting for them.\<close>

fun wake_times :: "('s \<Rightarrow> 's \<times> 'w option) \<Rightarrow> nat \<Rightarrow> 's \<Rightarrow> 's \<times> 'w list" where
  "wake_times wake 0 s = (s, [])"
| "wake_times wake (Suc n) s =
     (case wake s of
        (s, None) \<Rightarrow> (s, [])
      | (s, Some w) \<Rightarrow> (let (s, ws) = wake_times wake n s in (s, w # ws)))"

definition release_capacity :: "nat \<Rightarrow> 'w waiters \<Rightarrow> 'w waiters \<times> 'w list" where
  "release_capacity freed s = (if freed = 0 \<or> \<not> any_waiting s then (s, []) else wake_times wake_one freed s)"

section \<open>The interface\<close>

text \<open>
  What the users of the wait list rely on: a queue of tickets with their wakers, in arrival order.
\<close>

locale wait_queue =
  fixes inv :: "'s \<Rightarrow> bool" and queue :: "'s \<Rightarrow> (ticket \<times> 'w) list"
    and wake :: "'s \<Rightarrow> 's \<times> 'w option"
    and cancel :: "ticket \<Rightarrow> 's \<Rightarrow> 's \<times> bool"
  assumes wake_law: "inv s \<Longrightarrow> \<exists>s'. inv s' \<and> queue s' = tl (queue s) \<and>
      wake s = (s', if queue s = [] then None else Some (snd (hd (queue s))))"
    and cancel_law: "inv s \<Longrightarrow> \<exists>s'. inv s' \<and> queue s' = filter (\<lambda>p. fst p \<noteq> t) (queue s) \<and>
      cancel t s = (s', t \<in> fst ` set (queue s))"
begin

lemma wake_times_law:
  "inv s \<Longrightarrow> \<exists>s'. inv s' \<and> queue s' = drop n (queue s) \<and> wake_times wake n s = (s', map snd (take n (queue s)))"
proof (induction n arbitrary: s)
  case (Suc n)
  obtain s1 where s1: "inv s1" "queue s1 = tl (queue s)" "wake s = (s1, if queue s = [] then None else Some (snd (hd (queue s))))"
    using wake_law [OF Suc.prems] by blast
  show ?case
  proof (cases "queue s")
    case Nil
    then show ?thesis using s1 by simp
  next
    case (Cons p q)
    then show ?thesis using Suc.IH [OF s1(1)] s1(2,3) by auto
  qed
qed simp

end

end
