(* ===== verification/Waiters_Props.thy ===== *)
theory Waiters_Props
  imports Waiters
begin

text \<open>
  The wait list refines a plain queue of tickets in arrival order: parking appends, cancelling removes the
  named ticket and nothing else, waking takes the longest waiting one, and slot recycling, tombstones and
  compaction are invisible. Generations do not repeat while fewer than \<open>2\<^sup>6\<^sup>4 - 1\<close> callers have parked.
\<close>

section \<open>The abstract queue\<close>

abbreviation slot_waker :: "'w waiters \<Rightarrow> nat \<Rightarrow> 'w option" where
  "slot_waker s i \<equiv> wl_waker (wt_slots s ! i)"

definition wt_queue :: "'w waiters \<Rightarrow> (ticket \<times> 'w) list" where
  "wt_queue s = map (\<lambda>t. (t, the (slot_waker s (fst t)))) (filter (ticket_live s) (wt_order s))"

definition wt_core :: "'w waiters \<Rightarrow> bool" where
  "wt_core s \<longleftrightarrow> distinct (wt_free s) \<and> set (wt_free s) = {i. i < length (wt_slots s) \<and> slot_waker s i = None} \<and>
     distinct (wt_order s) \<and> (\<forall>t \<in> set (wt_order s). fst t < length (wt_slots s) \<and> unat (snd t) < unat (wt_next_generation s)) \<and>
     (\<forall>i < length (wt_slots s). slot_waker s i \<noteq> None \<longrightarrow> (i, wl_generation (wt_slots s ! i)) \<in> set (wt_order s)) \<and>
     (wt_closed s \<longrightarrow> wt_order s = [])"

definition wt_inv :: "'w waiters \<Rightarrow> bool" where
  "wt_inv s \<longleftrightarrow> wt_core s \<and> wt_waiting s = length (wt_queue s)"

lemma wt_coreD:
  assumes "wt_core s"
  shows "distinct (wt_free s)" "set (wt_free s) = {i. i < length (wt_slots s) \<and> slot_waker s i = None}" "distinct (wt_order s)"
    "\<And>t. t \<in> set (wt_order s) \<Longrightarrow> fst t < length (wt_slots s)"
    "\<And>t. t \<in> set (wt_order s) \<Longrightarrow> unat (snd t) < unat (wt_next_generation s)"
    "\<And>i. i < length (wt_slots s) \<Longrightarrow> slot_waker s i \<noteq> None \<Longrightarrow> (i, wl_generation (wt_slots s ! i)) \<in> set (wt_order s)"
    "wt_closed s \<Longrightarrow> wt_order s = []"
  using assms unfolding wt_core_def by blast+

lemma live_in_order: "wt_core s \<Longrightarrow> ticket_live s t \<Longrightarrow> t \<in> set (wt_order s)"
  using wt_coreD(6) [of s "fst t"] by (auto simp: ticket_live_def)

lemma queue_tickets: "map fst (wt_queue s) = filter (ticket_live s) (wt_order s)"
  by (simp add: wt_queue_def comp_def)

lemma queue_ticket_live: "wt_core s \<Longrightarrow> t \<in> fst ` set (wt_queue s) \<longleftrightarrow> ticket_live s t"
proof -
  assume "wt_core s"
  moreover have "fst ` set (wt_queue s) = {t \<in> set (wt_order s). ticket_live s t}" by (simp add: queue_tickets flip: set_map)
  ultimately show ?thesis using live_in_order [of s t] by blast
qed

text \<open>The published count is the length of the queue.\<close>

lemma queue_length:
  assumes "wt_core s"
  shows "length (wt_queue s) = length (wt_slots s) - length (wt_free s)"
proof -
  note c = wt_coreD [OF assms]
  let ?n = "length (wt_slots s)" and ?busy = "{i. i < length (wt_slots s) \<and> slot_waker s i \<noteq> None}"
  have inj: "inj_on fst (set (filter (ticket_live s) (wt_order s)))"
    by (rule inj_onI) (auto simp: ticket_live_def prod_eq_iff)
  have "fst ` set (filter (ticket_live s) (wt_order s)) = ?busy"
  proof
    show "fst ` set (filter (ticket_live s) (wt_order s)) \<subseteq> ?busy" by (auto simp: ticket_live_def)
    show "?busy \<subseteq> fst ` set (filter (ticket_live s) (wt_order s))"
    proof
      fix i
      assume i: "i \<in> ?busy"
      then have "(i, wl_generation (wt_slots s ! i)) \<in> set (filter (ticket_live s) (wt_order s))" using c(6) by (simp add: ticket_live_def)
      then show "i \<in> fst ` set (filter (ticket_live s) (wt_order s))" by force
    qed
  qed
  then have "card ?busy = length (filter (ticket_live s) (wt_order s))"
    using card_image [OF inj] distinct_card [OF distinct_filter [OF c(3)], of "ticket_live s"] by metis
  moreover have "card (set (wt_free s)) = length (wt_free s)" by (rule distinct_card [OF c(1)])
  moreover have "card ?busy + card (set (wt_free s)) = ?n"
  proof -
    have "?busy \<union> set (wt_free s) = {..<?n}" "?busy \<inter> set (wt_free s) = {}" unfolding c(2) by auto
    then show ?thesis by (metis (no_types, lifting) card_Un_disjoint card_lessThan finite_Un finite_lessThan)
  qed
  ultimately show ?thesis by (simp add: wt_queue_def)
qed

lemma publish_inv: "wt_core s \<Longrightarrow> wt_inv (publish s)" "wt_queue (publish s) = wt_queue s"
proof -
  have core: "wt_core (publish s) = wt_core s" and live: "ticket_live (publish s) = ticket_live s"
    by (auto simp: wt_core_def publish_def ticket_live_def fun_eq_iff)
  show q: "wt_queue (publish s) = wt_queue s" by (simp add: wt_queue_def live) (simp add: publish_def)
  show "wt_core s \<Longrightarrow> wt_inv (publish s)" using queue_length [of s] core q by (simp add: wt_inv_def) (simp add: publish_def)
qed

lemma compact_core:
  assumes "wt_core s"
  shows "wt_core (compact s)" "wt_queue (compact s) = wt_queue s"
proof -
  let ?s = "s\<lparr>wt_order := filter (ticket_live s) (wt_order s)\<rparr>"
  have live: "ticket_live ?s = ticket_live s" by (simp add: ticket_live_def fun_eq_iff)
  have "wt_core ?s" using assms by (auto simp: wt_core_def ticket_live_def)
  moreover have "wt_queue ?s = wt_queue s" by (simp add: wt_queue_def live)
  ultimately show "wt_core (compact s)" "wt_queue (compact s) = wt_queue s" using assms by (simp_all add: compact_def)
qed

section \<open>Ending a registration\<close>

lemma retire_live:
  assumes "wt_core s" "ticket_live s t"
  obtains s' where "retire (fst t) s = (s', Some (the (slot_waker s (fst t))))" "wt_core s'"
    "wt_order s' = wt_order s" "wt_closed s' = wt_closed s" "wt_next_generation s' = wt_next_generation s"
    "\<And>t'. ticket_live s' t' \<longleftrightarrow> ticket_live s t' \<and> t' \<noteq> t" "\<And>i. i \<noteq> fst t \<Longrightarrow> slot_waker s' i = slot_waker s i"
proof -
  let ?i = "fst t"
  note c = wt_coreD [OF assms(1)]
  obtain w where w: "slot_waker s ?i = Some w" and i: "?i < length (wt_slots s)" using assms(2) by (auto simp: ticket_live_def)
  let ?s = "s\<lparr>wt_slots := (wt_slots s)[?i := \<lparr>wl_waker = None, wl_generation = wl_generation (wt_slots s ! ?i) + 1\<rparr>], wt_free := wt_free s @ [?i]\<rparr>"
  have r: "retire ?i s = (?s, Some (the (slot_waker s ?i)))" using w by (simp add: retire_def Let_def)
  have other: "wt_slots ?s ! j = wt_slots s ! j" if "j \<noteq> ?i" for j using that by simp
  have none: "slot_waker ?s ?i = None" using i by simp
  have live: "ticket_live ?s t' \<longleftrightarrow> ticket_live s t' \<and> t' \<noteq> t" for t'
  proof (cases "fst t' = ?i")
    case True
    then show ?thesis using none assms(2) by (auto simp: ticket_live_def prod_eq_iff)
  next
    case False
    then show ?thesis using other by (auto simp: ticket_live_def)
  qed
  have "wt_core ?s"
    unfolding wt_core_def
  proof (intro conjI)
    show "distinct (wt_free ?s)" using c(1,2) w by simp
    show "set (wt_free ?s) = {j. j < length (wt_slots ?s) \<and> slot_waker ?s j = None}"
      using c(2) i by (auto simp: nth_list_update)
    show "\<forall>j < length (wt_slots ?s). slot_waker ?s j \<noteq> None \<longrightarrow> (j, wl_generation (wt_slots ?s ! j)) \<in> set (wt_order ?s)"
      using c(6) i by (auto simp: nth_list_update)
  qed (use c in \<open>simp_all add: list_update_beyond\<close>)
  then show thesis using that [of ?s] r live other by simp
qed

lemma map_filter_cong:
  "(\<And>x. x \<in> set xs \<Longrightarrow> P x = Q x) \<Longrightarrow> (\<And>x. x \<in> set xs \<Longrightarrow> Q x \<Longrightarrow> f x = g x) \<Longrightarrow> map f (filter P xs) = map g (filter Q xs)"
  by (induction xs) auto

lemma filter_map_pair: "filter (\<lambda>p. fst p \<noteq> t) (map (\<lambda>x. (x, f x)) xs) = map (\<lambda>x. (x, f x)) (filter (\<lambda>x. x \<noteq> t) xs)"
  by (induction xs) auto

lemma queue_removed:
  assumes "wt_order s' = wt_order s" "\<And>t'. ticket_live s' t' \<longleftrightarrow> ticket_live s t' \<and> t' \<noteq> t"
    "\<And>i. i \<noteq> fst t \<Longrightarrow> slot_waker s' i = slot_waker s i" "ticket_live s t"
  shows "wt_queue s' = filter (\<lambda>p. fst p \<noteq> t) (wt_queue s)"
proof -
  have eq: "t' = t" if "ticket_live s t'" "fst t' = fst t" for t' using that assms(4) by (auto simp: ticket_live_def prod_eq_iff)
  show ?thesis
    unfolding wt_queue_def filter_map_pair assms(1) filter_filter
  proof (rule map_filter_cong)
    fix t'
    show "ticket_live s' t' = (ticket_live s t' \<and> t' \<noteq> t)" by (rule assms(2))
    assume "ticket_live s t' \<and> t' \<noteq> t"
    then have "fst t' \<noteq> fst t" using eq by blast
    then show "(t', the (slot_waker s' (fst t'))) = (t', the (slot_waker s (fst t')))" by (simp add: assms(3))
  qed
qed

lemma cancel_spec:
  assumes "wt_inv s"
  shows "\<exists>s'. wt_inv s' \<and> wt_queue s' = filter (\<lambda>p. fst p \<noteq> t) (wt_queue s) \<and> cancel_ticket t s = (s', t \<in> fst ` set (wt_queue s)) \<and>
    wt_next_generation s' = wt_next_generation s \<and> wt_closed s' = wt_closed s"
proof -
  have core: "wt_core s" using assms by (simp add: wt_inv_def)
  show ?thesis
  proof (cases "ticket_live s t")
    case False
    then have no: "t \<notin> fst ` set (wt_queue s)" using queue_ticket_live [OF core] by simp
    then have "filter (\<lambda>p. fst p \<noteq> t) (wt_queue s) = wt_queue s" by (intro filter_True) force
    then show ?thesis using False no assms by (simp add: cancel_ticket_def)
  next
    case True
    then obtain s1 where r: "retire (fst t) s = (s1, Some (the (slot_waker s (fst t))))" "wt_core s1" "wt_order s1 = wt_order s"
      "wt_next_generation s1 = wt_next_generation s \<and> wt_closed s1 = wt_closed s"
      "\<And>t'. ticket_live s1 t' \<longleftrightarrow> ticket_live s t' \<and> t' \<noteq> t" "\<And>i. i \<noteq> fst t \<Longrightarrow> slot_waker s1 i = slot_waker s i"
      using retire_live [OF core True] by blast
    have q: "wt_queue s1 = filter (\<lambda>p. fst p \<noteq> t) (wt_queue s)" by (rule queue_removed [OF r(3,5,6) True])
    note k = compact_core [OF r(2)]
    have "wt_next_generation (publish (compact s1)) = wt_next_generation s" "wt_closed (publish (compact s1)) = wt_closed s" using r(4) by (simp_all add: publish_def compact_def)
    then show ?thesis
      using True r(1) publish_inv [of "compact s1"] k q queue_ticket_live [OF core] by (auto simp: cancel_ticket_def)
  qed
qed

section \<open>Waking\<close>

lemma dead_skipped: "\<not> ticket_live s (slot, g) \<Longrightarrow> slot < length (wt_slots s) \<Longrightarrow> wake_loop ((slot, g) # rest) s = wake_loop rest s"
  by (auto simp: ticket_live_def retire_def Let_def split: option.splits)

lemma dead_skipped_close:
  "\<not> ticket_live s (slot, g) \<Longrightarrow> slot < length (wt_slots s) \<Longrightarrow> close_loop ((slot, g) # rest) s ws = close_loop rest s ws"
  by (auto simp: ticket_live_def retire_def Let_def split: option.splits)

lemma order_live [simp]: "ticket_live (s\<lparr>wt_order := ord\<rparr>) = ticket_live s"
  by (simp add: ticket_live_def fun_eq_iff)

lemma closed_live [simp]:
  "ticket_live (s\<lparr>wt_closed := c\<rparr>) = ticket_live s" "ticket_live (s\<lparr>wt_next_generation := n\<rparr>) = ticket_live s"
  by (simp_all add: ticket_live_def fun_eq_iff)

lemma order_queue: "wt_queue (s\<lparr>wt_order := t # ord\<rparr>) =
    (if ticket_live s t then [(t, the (slot_waker s (fst t)))] else []) @ wt_queue (s\<lparr>wt_order := ord\<rparr>)"
  by (simp add: wt_queue_def)

lemma drop_dead:
  assumes "wt_core (s\<lparr>wt_order := t # ord\<rparr>)" "\<not> ticket_live s t"
  shows "wt_core (s\<lparr>wt_order := ord\<rparr>)"
  using assms unfolding wt_core_def by (auto simp: ticket_live_def)

text \<open>Taking a live ticket off the front of the order and ending its registration.\<close>

lemma retire_front:
  assumes "wt_core (s\<lparr>wt_order := t # ord\<rparr>)" "ticket_live s t"
  obtains s' where "retire (fst t) s = (s', Some (the (slot_waker s (fst t))))" "wt_core (s'\<lparr>wt_order := ord\<rparr>)"
    "wt_queue (s'\<lparr>wt_order := ord\<rparr>) = wt_queue (s\<lparr>wt_order := ord\<rparr>)" "wt_closed s' = wt_closed s"
    "wt_next_generation s' = wt_next_generation s"
proof -
  let ?s = "s\<lparr>wt_order := t # ord\<rparr>"
  have live: "ticket_live ?s t" using assms(2) by simp
  obtain s1 where r: "retire (fst t) ?s = (s1, Some (the (slot_waker ?s (fst t))))" "wt_core s1" "wt_order s1 = wt_order ?s"
    "wt_closed s1 = wt_closed ?s" "wt_next_generation s1 = wt_next_generation ?s"
    "\<And>t'. ticket_live s1 t' \<longleftrightarrow> ticket_live ?s t' \<and> t' \<noteq> t" "\<And>i. i \<noteq> fst t \<Longrightarrow> slot_waker s1 i = slot_waker ?s i"
    using retire_live [OF assms(1) live] by blast
  let ?s' = "fst (retire (fst t) s)"
  have s': "s1 = ?s'\<lparr>wt_order := t # ord\<rparr>" "retire (fst t) s = (?s', Some (the (slot_waker s (fst t))))"
    using r(1) by (auto simp: retire_def Let_def split: option.splits)
  have dead: "\<not> ticket_live ?s' t" using r(6) [of t] s'(1) by (metis order_live)
  have core: "wt_core (?s'\<lparr>wt_order := ord\<rparr>)" using drop_dead [OF _ dead] r(2) s'(1) by simp
  have t: "t \<notin> set ord" using wt_coreD(3) [OF assms(1)] by simp
  have "wt_queue s1 = filter (\<lambda>p. fst p \<noteq> t) (wt_queue ?s)" by (rule queue_removed [OF r(3,6,7) live])
  moreover have "wt_queue s1 = wt_queue (?s'\<lparr>wt_order := ord\<rparr>)" unfolding s'(1) order_queue using dead by simp
  moreover have "filter (\<lambda>p. fst p \<noteq> t) (wt_queue (s\<lparr>wt_order := ord\<rparr>)) = wt_queue (s\<lparr>wt_order := ord\<rparr>)"
    using t by (intro filter_True) (auto simp: wt_queue_def)
  ultimately have q: "wt_queue (?s'\<lparr>wt_order := ord\<rparr>) = wt_queue (s\<lparr>wt_order := ord\<rparr>)"
    using assms(2) by (simp add: order_queue)
  have "wt_closed ?s' = wt_closed s" "wt_next_generation ?s' = wt_next_generation s"
    by (auto simp: retire_def Let_def split: option.splits)
  then show thesis using that [of ?s'] s'(2) core q by blast
qed

lemma wake_loop_spec:
  assumes "wt_core (s\<lparr>wt_order := ord\<rparr>)"
  shows "\<exists>s'. wt_core s' \<and> wt_queue s' = tl (wt_queue (s\<lparr>wt_order := ord\<rparr>)) \<and> wt_next_generation s' = wt_next_generation s \<and> wt_closed s' = wt_closed s \<and>
    wake_loop ord s = (s', if wt_queue (s\<lparr>wt_order := ord\<rparr>) = [] then None else Some (snd (hd (wt_queue (s\<lparr>wt_order := ord\<rparr>)))))"
  using assms
proof (induction ord)
  case Nil
  then show ?case by (simp add: wt_queue_def)
next
  case (Cons t ord)
  obtain slot g where t: "t = (slot, g)" by (cases t)
  have len: "slot < length (wt_slots s)" using wt_coreD(4) [OF Cons.prems, of t] t by simp
  show ?case
  proof (cases "ticket_live s t")
    case False
    then have "wt_queue (s\<lparr>wt_order := t # ord\<rparr>) = wt_queue (s\<lparr>wt_order := ord\<rparr>)" "wake_loop (t # ord) s = wake_loop ord s"
      using dead_skipped [of s slot g ord] t len by (simp_all add: order_queue del: wake_loop.simps)
    with Cons.IH [OF drop_dead [OF Cons.prems False]] show ?thesis by metis
  next
    case True
    obtain s' where r: "retire (fst t) s = (s', Some (the (slot_waker s (fst t))))" "wt_core (s'\<lparr>wt_order := ord\<rparr>)"
      "wt_queue (s'\<lparr>wt_order := ord\<rparr>) = wt_queue (s\<lparr>wt_order := ord\<rparr>)" "wt_next_generation s' = wt_next_generation s" "wt_closed s' = wt_closed s"
      using retire_front [OF Cons.prems True] by blast
    have "wake_loop (t # ord) s = (s'\<lparr>wt_order := ord\<rparr>, Some (the (slot_waker s (fst t))))"
      using r(1) True t by (auto simp: ticket_live_def)
    then show ?thesis using r True by (simp add: order_queue)
  qed
qed

lemma wake_one_spec:
  assumes "wt_inv s"
  shows "\<exists>s'. wt_inv s' \<and> wt_queue s' = tl (wt_queue s) \<and> wt_next_generation s' = wt_next_generation s \<and> wt_closed s' = wt_closed s \<and>
    wake_one s = (s', if wt_queue s = [] then None else Some (snd (hd (wt_queue s))))"
proof -
  have "wt_core (s\<lparr>wt_order := wt_order s\<rparr>)" using assms by (simp add: wt_inv_def)
  from wake_loop_spec [OF this] obtain s1 where s1: "wt_core s1" "wt_queue s1 = tl (wt_queue s)" "wt_next_generation s1 = wt_next_generation s" "wt_closed s1 = wt_closed s"
    "wake_loop (wt_order s) s = (s1, if wt_queue s = [] then None else Some (snd (hd (wt_queue s))))" by auto
  then show ?thesis using publish_inv [of s1] by (auto simp: wake_one_def publish_def)
qed

lemma close_loop_spec:
  assumes "wt_core (s\<lparr>wt_closed := False, wt_order := ord\<rparr>)"
  shows "\<exists>s'. wt_core (s'\<lparr>wt_closed := False\<rparr>) \<and> wt_order s' = [] \<and> wt_closed s' = wt_closed s \<and> wt_next_generation s' = wt_next_generation s \<and>
    close_loop ord s ws = (s', ws @ map snd (wt_queue (s\<lparr>wt_order := ord\<rparr>)))"
  using assms
proof (induction ord arbitrary: s ws)
  case Nil
  then show ?case by (cases s) (simp add: wt_queue_def)
next
  case (Cons t ord)
  obtain slot g where t: "t = (slot, g)" by (cases t)
  have len: "slot < length (wt_slots s)" using wt_coreD(4) [OF Cons.prems, of t] t by simp
  let ?u = "s\<lparr>wt_closed := False\<rparr>"
  have pre: "wt_core (?u\<lparr>wt_order := t # ord\<rparr>)" using Cons.prems by simp
  have lu: "ticket_live ?u t' = ticket_live s t'" for t' by (simp add: ticket_live_def)
  show ?case
  proof (cases "ticket_live s t")
    case False
    then have "wt_core (?u\<lparr>wt_order := ord\<rparr>)" using drop_dead [OF pre] lu by simp
    moreover have "wt_queue (s\<lparr>wt_order := t # ord\<rparr>) = wt_queue (s\<lparr>wt_order := ord\<rparr>)" "close_loop (t # ord) s ws = close_loop ord s ws"
      using dead_skipped_close [of s slot g ord ws] False t len by (simp_all add: order_queue del: close_loop.simps)
    ultimately show ?thesis using Cons.IH [of s ws] by metis
  next
    case True
    then obtain s' where r: "retire (fst t) ?u = (s', Some (the (slot_waker ?u (fst t))))" "wt_core (s'\<lparr>wt_order := ord\<rparr>)"
      "wt_queue (s'\<lparr>wt_order := ord\<rparr>) = wt_queue (?u\<lparr>wt_order := ord\<rparr>)" "wt_closed s' = False" "wt_next_generation s' = wt_next_generation s"
      using retire_front [OF pre] lu by auto
    let ?s' = "fst (retire (fst t) s)"
    have s': "s' = ?s'\<lparr>wt_closed := False\<rparr>" "retire (fst t) s = (?s', Some (the (slot_waker s (fst t))))"
      "wt_closed ?s' = wt_closed s" "wt_next_generation ?s' = wt_next_generation s"
      using r(1) by (auto simp: retire_def Let_def split: option.splits)
    have q: "wt_queue (?s'\<lparr>wt_order := ord\<rparr>) = wt_queue (s\<lparr>wt_order := ord\<rparr>)"
      using r(3) s'(1) by (simp add: wt_queue_def)
    have "wt_core (?s'\<lparr>wt_closed := False, wt_order := ord\<rparr>)" using r(2) s'(1) by simp
    note IH = Cons.IH [OF this, of "ws @ [the (slot_waker s (fst t))]"]
    obtain s1 where s1: "retire (fst t) s = (s1, Some (the (slot_waker s (fst t))))" using s'(2) by metis
    have "close_loop (t # ord) s ws = close_loop ord ?s' (ws @ [the (slot_waker s (fst t))])"
      using s1 True t by (auto simp: ticket_live_def)
    moreover have "wt_queue (s\<lparr>wt_order := t # ord\<rparr>) = (t, the (slot_waker s (fst t))) # wt_queue (s\<lparr>wt_order := ord\<rparr>)"
      using True by (simp add: order_queue)
    ultimately show ?thesis using IH s'(3,4) q by simp
  qed
qed

lemma close_spec:
  assumes "wt_inv s"
  shows "\<exists>s'. wt_inv s' \<and> wt_queue s' = [] \<and> wt_closed s' \<and> wt_next_generation s' = wt_next_generation s \<and>
    close_waiters s = (s', map snd (wt_queue s))"
proof -
  have core: "wt_core s" using assms by (simp add: wt_inv_def)
  let ?u = "s\<lparr>wt_closed := True\<rparr>"
  have "wt_core (?u\<lparr>wt_closed := False, wt_order := wt_order s\<rparr>)" using core by (simp add: wt_core_def)
  from close_loop_spec [OF this, of "[]"] obtain s1 where s1: "wt_core (s1\<lparr>wt_closed := False\<rparr>)" "wt_order s1 = []" "wt_closed s1 \<and> wt_next_generation s1 = wt_next_generation s"
    "close_loop (wt_order s) ?u [] = (s1, map snd (wt_queue (?u\<lparr>wt_order := wt_order s\<rparr>)))" by auto
  have "wt_core s1" using s1(1,2) by (auto simp: wt_core_def)
  moreover have "wt_queue (?u\<lparr>wt_order := wt_order s\<rparr>) = wt_queue s" by (simp add: wt_queue_def)
  moreover have "wt_queue s1 = []" using s1(2) by (simp add: wt_queue_def)
  ultimately show ?thesis using publish_inv [of s1] s1(3,4) by (auto simp: close_waiters_def publish_def)
qed

section \<open>Parking\<close>

lemma take_slot_spec:
  assumes "wt_core s" "take_slot w g s = Some (s', slot)"
  shows "slot < length (wt_slots s')" "wt_slots s' ! slot = \<lparr>wl_waker = Some w, wl_generation = g\<rparr>"
    "\<And>i. i < length (wt_slots s) \<Longrightarrow> i \<noteq> slot \<Longrightarrow> wt_slots s' ! i = wt_slots s ! i"
    "length (wt_slots s) \<le> length (wt_slots s')" "\<And>i. i < length (wt_slots s') \<Longrightarrow> i \<noteq> slot \<Longrightarrow> i < length (wt_slots s)"
    "slot < length (wt_slots s) \<Longrightarrow> slot_waker s slot = None"
    "distinct (wt_free s')" "set (wt_free s') = {i. i < length (wt_slots s') \<and> slot_waker s' i = None}"
    "wt_order s' = wt_order s" "wt_closed s' = wt_closed s" "wt_next_generation s' = wt_next_generation s"
proof -
  note c = wt_coreD [OF assms(1)]
  have "slot < length (wt_slots s') \<and> wt_slots s' ! slot = \<lparr>wl_waker = Some w, wl_generation = g\<rparr> \<and>
    (\<forall>i. i < length (wt_slots s) \<longrightarrow> i \<noteq> slot \<longrightarrow> wt_slots s' ! i = wt_slots s ! i) \<and> length (wt_slots s) \<le> length (wt_slots s') \<and>
    (\<forall>i. i < length (wt_slots s') \<longrightarrow> i \<noteq> slot \<longrightarrow> i < length (wt_slots s)) \<and> (slot < length (wt_slots s) \<longrightarrow> slot_waker s slot = None) \<and>
    distinct (wt_free s') \<and> set (wt_free s') = {i. i < length (wt_slots s') \<and> slot_waker s' i = None} \<and>
    wt_order s' = wt_order s \<and> wt_closed s' = wt_closed s \<and> wt_next_generation s' = wt_next_generation s"
  proof (cases "wt_free s = []")
    case True
    then have none: "slot_waker s i \<noteq> None" if "i < length (wt_slots s)" for i using c(2) that by auto
    have s': "s' = s\<lparr>wt_slots := wt_slots s @ [\<lparr>wl_waker = Some w, wl_generation = g\<rparr>]\<rparr>" "slot = length (wt_slots s)"
      using assms(2) True by (auto simp: take_slot_def split: if_splits)
    show ?thesis unfolding s' using True none by (auto simp: nth_append less_Suc_eq)
  next
    case False
    then obtain xs where xs: "wt_free s = xs @ [slot]" and s': "s' = s\<lparr>wt_free := xs,
        wt_slots := (wt_slots s)[slot := \<lparr>wl_waker = Some w, wl_generation = g\<rparr>]\<rparr>"
      using assms(2) by (cases "wt_free s" rule: rev_cases) (auto simp: take_slot_def Let_def)
    have i: "slot < length (wt_slots s)" "slot_waker s slot = None" using c(2) xs by auto
    have "set xs = {i. i < length (wt_slots s) \<and> slot_waker s i = None} - {slot}" using c(1,2) xs by auto
    then show ?thesis unfolding s' using i c(1) xs by (auto simp: nth_list_update)
  qed
  then show "slot < length (wt_slots s')" "wt_slots s' ! slot = \<lparr>wl_waker = Some w, wl_generation = g\<rparr>"
    "\<And>i. i < length (wt_slots s) \<Longrightarrow> i \<noteq> slot \<Longrightarrow> wt_slots s' ! i = wt_slots s ! i"
    "length (wt_slots s) \<le> length (wt_slots s')" "\<And>i. i < length (wt_slots s') \<Longrightarrow> i \<noteq> slot \<Longrightarrow> i < length (wt_slots s)"
    "slot < length (wt_slots s) \<Longrightarrow> slot_waker s slot = None"
    "distinct (wt_free s')" "set (wt_free s') = {i. i < length (wt_slots s') \<and> slot_waker s' i = None}"
    "wt_order s' = wt_order s" "wt_closed s' = wt_closed s" "wt_next_generation s' = wt_next_generation s" by blast+
qed

lemma park_core:
  assumes "wt_core s" "take_slot w g (s\<lparr>wt_next_generation := g + 1\<rparr>) = Some (s', slot)" "g = wt_next_generation s" "g \<noteq> - 1" "\<not> wt_closed s"
  defines "s2 \<equiv> s'\<lparr>wt_order := wt_order s' @ [(slot, g)]\<rparr>"
  shows "wt_core s2" "wt_queue s2 = wt_queue s @ [((slot, g), w)]" "wt_next_generation s2 = g + 1" "\<not> wt_closed s2"
proof -
  let ?u = "s\<lparr>wt_next_generation := g + 1\<rparr>"
  have up: "unat (g + 1) = unat g + 1" using assms(4) by (metis add.commute add_eq_0_iff unatSuc Suc_eq_plus1)
  have cu: "wt_core ?u" using assms(1,3) up unfolding wt_core_def by (auto intro: less_SucI)
  note c = wt_coreD [OF assms(1)] and k = take_slot_spec [OF cu assms(2)]
  have ord: "wt_order s2 = wt_order s @ [(slot, g)]" using k(9) by (simp add: s2_def)
  have fresh: "snd t \<noteq> g" if "t \<in> set (wt_order s)" for t using c(5) [OF that] assms(3) by auto
  have new: "(slot, g) \<notin> set (wt_order s)" using fresh [of "(slot, g)"] by auto
  have slots: "wt_slots s2 = wt_slots s'" by (simp add: s2_def)
  have livenew: "ticket_live s2 (slot, g)" using k(1,2) by (simp add: ticket_live_def slots)
  have same: "ticket_live s2 t = ticket_live s t \<and> (ticket_live s t \<longrightarrow> slot_waker s2 (fst t) = slot_waker s (fst t))" if t: "t \<in> set (wt_order s)" for t
  proof (cases "fst t = slot")
    case True
    then have "slot_waker s slot = None" using k(6) c(4) [OF t] by simp
    then show ?thesis using True k(2) fresh [OF t] by (auto simp: ticket_live_def slots)
  next
    case False
    then show ?thesis using k(3) [of "fst t"] k(4) c(4) [OF t] by (auto simp: ticket_live_def slots)
  qed
  show "wt_next_generation s2 = g + 1" "\<not> wt_closed s2" using k(10,11) assms(5) by (simp_all add: s2_def)
  show "wt_queue s2 = wt_queue s @ [((slot, g), w)]"
  proof -
    have "map (\<lambda>t. (t, the (slot_waker s2 (fst t)))) (filter (ticket_live s2) (wt_order s)) = wt_queue s"
      unfolding wt_queue_def by (rule map_filter_cong) (use same in auto)
    then show ?thesis using livenew k(2) by (simp add: wt_queue_def ord) (simp add: slots)
  qed
  show "wt_core s2"
    unfolding wt_core_def
  proof (intro conjI)
    show "distinct (wt_free s2)" "set (wt_free s2) = {i. i < length (wt_slots s2) \<and> slot_waker s2 i = None}"
      using k(7,8) by (simp_all add: s2_def)
    show "distinct (wt_order s2)" using c(3) new ord by simp
    show "\<forall>t \<in> set (wt_order s2). fst t < length (wt_slots s2) \<and> unat (snd t) < unat (wt_next_generation s2)"
      unfolding \<open>wt_next_generation s2 = g + 1\<close> up ord slots using c(4,5) k(1,4) assms(3) by fastforce
    show "\<forall>i < length (wt_slots s2). slot_waker s2 i \<noteq> None \<longrightarrow> (i, wl_generation (wt_slots s2 ! i)) \<in> set (wt_order s2)"
    proof (intro allI impI)
      fix i
      assume i: "i < length (wt_slots s2)" "slot_waker s2 i \<noteq> None"
      show "(i, wl_generation (wt_slots s2 ! i)) \<in> set (wt_order s2)"
      proof (cases "i = slot")
        case True
        then show ?thesis using k(2) ord slots by simp
      next
        case False
        then show ?thesis using i k(3,5) [of i] c(6) [of i] slots ord by simp
      qed
    qed
    show "wt_closed s2 \<longrightarrow> wt_order s2 = []" using assms(5) k(10) by (simp add: s2_def)
  qed
qed

lemma park_spec:
  assumes "wt_inv s" "wt_next_generation s \<noteq> - 1" "park w s \<noteq> None" "\<not> wt_closed s"
  shows "\<exists>s' t. park w s = Some (s', Inr t) \<and> wt_inv s' \<and> wt_queue s' = wt_queue s @ [(t, w)] \<and> t \<notin> fst ` set (wt_queue s) \<and>
    unat (wt_next_generation s') = unat (wt_next_generation s) + 1 \<and> \<not> wt_closed s'"
proof -
  let ?g = "wt_next_generation s"
  have core: "wt_core s" using assms(1) by (simp add: wt_inv_def)
  obtain s1 slot where t: "take_slot w ?g (s\<lparr>wt_next_generation := ?g + 1\<rparr>) = Some (s1, slot)"
    using assms(3,4) by (auto simp: park_def Let_def split: option.splits)
  note p = park_core [OF core t refl assms(2,4)]
  let ?s2 = "s1\<lparr>wt_order := wt_order s1 @ [(slot, ?g)]\<rparr>"
  have "park w s = Some (publish (compact ?s2), Inr (slot, ?g))" using assms(4) t by (simp add: park_def Let_def)
  moreover have "wt_inv (publish (compact ?s2))" "wt_queue (publish (compact ?s2)) = wt_queue s @ [((slot, ?g), w)]"
    using publish_inv [of "compact ?s2"] compact_core [OF p(1)] p(2) by simp_all
  moreover have "(slot, ?g) \<notin> fst ` set (wt_queue s)"
    using wt_coreD(5) [OF core live_in_order [OF core], of "(slot, ?g)"] queue_ticket_live [OF core, of "(slot, ?g)"] by auto
  moreover have "\<not> wt_closed (publish (compact ?s2))" using p(4) by (simp add: publish_def compact_def)
  moreover have "unat (wt_next_generation (publish (compact ?s2))) = unat ?g + 1"
  proof -
    have "wt_next_generation (publish (compact ?s2)) = ?g + 1" using p(3) by (simp add: publish_def compact_def)
    then show ?thesis using assms(2) by (metis add.commute add_eq_0_iff unatSuc Suc_eq_plus1)
  qed
  ultimately show ?thesis by blast
qed

lemma refresh_spec:
  assumes "wt_inv s"
  shows "wt_inv (refresh_ticket t w s)" "wt_queue (refresh_ticket t w s) = map (\<lambda>p. if fst p = t then (t, w) else p) (wt_queue s)"
    "wt_next_generation (refresh_ticket t w s) = wt_next_generation s" "wt_closed (refresh_ticket t w s) = wt_closed s"
proof -
  have core: "wt_core s" using assms by (simp add: wt_inv_def)
  let ?f = "\<lambda>p. if fst p = t then (t, w) else p"
  have id: "map ?f q = q" if "\<And>v. (t, v) \<in> set q \<Longrightarrow> w = v" for q
    by (rule map_idI) (use that in auto)
  have "wt_inv (refresh_ticket t w s) \<and> wt_queue (refresh_ticket t w s) = map ?f (wt_queue s)"
  proof (cases "ticket_live s t \<and> slot_waker s (fst t) \<noteq> Some w")
    case False
    then have "refresh_ticket t w s = s" by (auto simp: refresh_ticket_def Let_def)
    moreover have "w = v" if "(t, v) \<in> set (wt_queue s)" for v
    proof -
      have "ticket_live s t" "v = the (slot_waker s (fst t))" using that by (auto simp: wt_queue_def)
      then show ?thesis using False by simp
    qed
    then have "map ?f (wt_queue s) = wt_queue s" by (rule id)
    ultimately show ?thesis using assms by simp
  next
    case True
    let ?s = "s\<lparr>wt_slots := (wt_slots s)[fst t := (wt_slots s ! fst t)\<lparr>wl_waker := Some w\<rparr>]\<rparr>"
    have i: "fst t < length (wt_slots s)" "slot_waker s (fst t) \<noteq> None" using True by (auto simp: ticket_live_def)
    have eq: "refresh_ticket t w s = ?s" using True by (simp add: refresh_ticket_def Let_def)
    have live: "ticket_live ?s = ticket_live s" using i by (auto simp: ticket_live_def fun_eq_iff nth_list_update)
    have same: "t' = t" if "ticket_live s t'" "fst t' = fst t" for t' using that True by (auto simp: ticket_live_def prod_eq_iff)
    define s2 where "s2 = ?s"
    have "wt_free s2 = wt_free s" "wt_order s2 = wt_order s" "wt_closed s2 = wt_closed s" "wt_next_generation s2 = wt_next_generation s"
      "length (wt_slots s2) = length (wt_slots s)" "slot_waker s2 j = None \<longleftrightarrow> slot_waker s j = None"
      "wl_generation (wt_slots s2 ! j) = wl_generation (wt_slots s ! j)" for j
      using i by (cases "j = fst t"; simp add: s2_def)+
    then have "wt_core ?s" using core unfolding s2_def [symmetric] wt_core_def by simp
    moreover have "wt_queue ?s = map ?f (wt_queue s)"
    proof -
      have "(t', the (slot_waker ?s (fst t'))) = ?f (t', the (slot_waker s (fst t')))" if "ticket_live s t'" for t'
        using i(1) same [OF that] by (cases "fst t' = fst t") auto
      then have *: "map (\<lambda>t'. (t', the (slot_waker ?s (fst t')))) (filter (ticket_live s) xs) =
          map (\<lambda>t'. ?f (t', the (slot_waker s (fst t')))) (filter (ticket_live s) xs)" for xs by (intro map_cong) auto
      have ord: "wt_order ?s = wt_order s" by simp
      show ?thesis unfolding wt_queue_def live map_map comp_def ord by (rule *)
    qed
    ultimately show ?thesis unfolding eq using assms by (simp add: wt_inv_def)
  qed
  then show "wt_inv (refresh_ticket t w s)" "wt_queue (refresh_ticket t w s) = map ?f (wt_queue s)" by simp_all
qed (simp_all add: refresh_ticket_def Let_def)

lemma park_closed: "wt_closed s \<Longrightarrow> park w s = Some (s, Inl ())"
  by (simp add: park_def)

end
