(* ===== verification/Waiters_Theorems.thy ===== *)
theory Waiters_Theorems
  imports Waiters_Props
begin

text \<open>
  The wait list over whole executions, against an abstract queue that knows nothing of slots, generations,
  tombstones or compaction, and the two places that hand wakes on: the release of freed capacity and the
  drop of an abandoned wait.
\<close>

interpretation wait_list: wait_queue wt_inv wt_queue wake_one cancel_ticket
  by unfold_locales (use wake_one_spec cancel_spec in blast)+

section \<open>Executions and their specification\<close>

datatype 'w wait_event =
    EPark 'w "unit + ticket" | ERefresh ticket 'w | ECancel ticket bool | EWake "'w option" | EClose "'w list"

inductive wait_step :: "'w waiters \<Rightarrow> 'w wait_event \<Rightarrow> 'w waiters \<Rightarrow> bool" where
  do_park: "park w s = Some (s', r) \<Longrightarrow> wait_step s (EPark w r) s'"
| do_refresh: "wait_step s (ERefresh t w) (refresh_ticket t w s)"
| do_cancel: "cancel_ticket t s = (s', b) \<Longrightarrow> wait_step s (ECancel t b) s'"
| do_wake: "wake_one s = (s', r) \<Longrightarrow> wait_step s (EWake r) s'"
| do_close: "close_waiters s = (s', ws) \<Longrightarrow> wait_step s (EClose ws) s'"

type_synonym 'w wait_spec = "bool \<times> (ticket \<times> 'w) list"

inductive spec_step :: "'w wait_spec \<Rightarrow> 'w wait_event \<Rightarrow> 'w wait_spec \<Rightarrow> bool" where
  spec_park: "t \<notin> fst ` set q \<Longrightarrow> spec_step (False, q) (EPark w (Inr t)) (False, q @ [(t, w)])"
| spec_park_closed: "spec_step (True, q) (EPark w (Inl ())) (True, q)"
| spec_refresh: "spec_step (c, q) (ERefresh t w) (c, map (\<lambda>p. if fst p = t then (t, w) else p) q)"
| spec_cancel: "spec_step (c, q) (ECancel t (t \<in> fst ` set q)) (c, filter (\<lambda>p. fst p \<noteq> t) q)"
| spec_wake: "spec_step (c, q) (EWake (if q = [] then None else Some (snd (hd q)))) (c, tl q)"
| spec_close: "spec_step (c, q) (EClose (map snd q)) (True, [])"

abbreviation wait_abs :: "'w waiters \<Rightarrow> 'w wait_spec" where
  "wait_abs s \<equiv> (wt_closed s, wt_queue s)"

lemma waiters_new_inv: "wt_inv waiters_new" "wt_queue waiters_new = []" "unat (wt_next_generation waiters_new) = 0"
  by (simp_all add: wt_inv_def wt_core_def wt_queue_def waiters_new_def)

lemma wait_step_sim:
  assumes "wait_step s e s'" "wt_inv s" "wt_next_generation s \<noteq> - 1"
  shows "wt_inv s' \<and> spec_step (wait_abs s) e (wait_abs s') \<and> unat (wt_next_generation s') \<le> unat (wt_next_generation s) + 1"
  using assms(1)
proof cases
  case (do_park w r)
  show ?thesis
  proof (cases "wt_closed s")
    case True
    then show ?thesis using do_park assms(2) spec_park_closed by (auto simp: park_closed)
  next
    case False
    have "park w s \<noteq> None" using do_park by simp
    then obtain s1 t where p: "park w s = Some (s1, Inr t)" "wt_inv s1" "wt_queue s1 = wt_queue s @ [(t, w)]" "t \<notin> fst ` set (wt_queue s)"
      "unat (wt_next_generation s1) = unat (wt_next_generation s) + 1" "\<not> wt_closed s1" using park_spec [OF assms(2,3) _ False] by metis
    then show ?thesis using do_park False spec_park [of t "wt_queue s" w] by simp
  qed
next
  case (do_refresh t w)
  then show ?thesis using refresh_spec [OF assms(2), of t w] spec_refresh [of "wt_closed s" "wt_queue s" t w] by simp
next
  case (do_cancel t b)
  then show ?thesis using cancel_spec [OF assms(2), of t] spec_cancel [of "wt_closed s" "wt_queue s" t] by auto
next
  case (do_wake r)
  then show ?thesis using wake_one_spec [OF assms(2)] spec_wake [of "wt_closed s" "wt_queue s"] by auto
next
  case (do_close ws)
  then show ?thesis using close_spec [OF assms(2)] spec_close [of "wt_closed s" "wt_queue s"] by auto
qed

lemma wait_run_sim:
  assumes "run wait_step waiters_new evs s" "length evs < 2 ^ 64 - 1"
  shows "wt_inv s \<and> run spec_step (False, []) evs (wait_abs s) \<and> unat (wt_next_generation s) \<le> length evs"
  using assms
proof (induction "waiters_new :: 'a waiters" evs s rule: run.induct)
  case run_nil
  then show ?case using waiters_new_inv by (simp add: waiters_new_def wt_queue_def)
next
  case (run_snoc es s e s')
  then have IH: "wt_inv s" "run spec_step (False, []) es (wait_abs s)" "unat (wt_next_generation s) \<le> length es" by simp_all
  have "wt_next_generation s \<noteq> - 1"
  proof
    assume "wt_next_generation s = - 1"
    then have "unat (wt_next_generation s) = 2 ^ 64 - 1" by (simp add: unsigned_minus_1_eq_mask mask_eq_exp_minus_1)
    then show False using IH(3) run_snoc.prems by simp
  qed
  from wait_step_sim [OF run_snoc.hyps(3) IH(1) this] show ?case using IH run.run_snoc by fastforce
qed

section \<open>Handing wakes on\<close>

lemma release_spec:
  assumes "wt_inv s"
  shows "\<exists>s'. wt_inv s' \<and> wt_queue s' = drop n (wt_queue s) \<and> release_capacity n s = (s', map snd (take n (wt_queue s)))"
proof (cases "n = 0 \<or> \<not> any_waiting s")
  case True
  then have "n = 0 \<or> wt_queue s = []" using assms by (auto simp: any_waiting_def wt_inv_def)
  then show ?thesis using True assms by (auto simp: release_capacity_def)
next
  case False
  then show ?thesis using wait_list.wake_times_law [OF assms, of n] by (auto simp: release_capacity_def)
qed

lemma drop_spec:
  assumes "wt_inv s"
  shows "\<exists>s'. wt_inv s' \<and> drop_registration (Some t) s =
      (s', if t \<in> fst ` set (wt_queue s) \<or> wt_queue s = [] then None else Some (snd (hd (wt_queue s)))) \<and>
    wt_queue s' = (if t \<in> fst ` set (wt_queue s) then filter (\<lambda>p. fst p \<noteq> t) (wt_queue s) else tl (wt_queue s))"
proof (cases "t \<in> fst ` set (wt_queue s)")
  case True
  then show ?thesis using cancel_spec [OF assms, of t] by (auto simp: drop_registration_def)
next
  case False
  then have dead: "\<not> ticket_live s t" using queue_ticket_live [of s t] assms by (simp add: wt_inv_def)
  then have "drop_registration (Some t) s = wake_one s" by (simp add: drop_registration_def cancel_ticket_def)
  then show ?thesis using wake_one_spec [OF assms] False by auto
qed

section \<open>Properties\<close>

lemmas wait_eval = park_def take_slot_def waiters_new_def compact_def compact_due_def publish_def Let_def

definition demo_parked :: "nat waiters" where
  "demo_parked = fst (the (park 5 waiters_new))"

definition demo_parked_two :: "nat waiters" where
  "demo_parked_two = fst (the (park 6 demo_parked))"

lemma demo_parked_eval:
  "demo_parked = \<lparr>wt_slots = [\<lparr>wl_waker = Some 5, wl_generation = 0\<rparr>], wt_free = [], wt_order = [(0, 0)],
     wt_next_generation = 1, wt_closed = False, wt_waiting = 1\<rparr>"
  "demo_parked_two = \<lparr>wt_slots = [\<lparr>wl_waker = Some 5, wl_generation = 0\<rparr>, \<lparr>wl_waker = Some 6, wl_generation = 1\<rparr>], wt_free = [],
     wt_order = [(0, 0), (1, 1)], wt_next_generation = 2, wt_closed = False, wt_waiting = 2\<rparr>"
  by (simp_all add: demo_parked_two_def demo_parked_def wait_eval)

lemma demo_parked_run: "run wait_step waiters_new [EPark 5 (Inr (0, 0)), EPark 6 (Inr (1, 1))] demo_parked_two"
proof -
  have "map_option snd (park 5 (waiters_new :: nat waiters)) = Some (Inr (0, 0))" "map_option snd (park 6 demo_parked) = Some (Inr (1, 1))"
    by (simp_all add: demo_parked_eval wait_eval)
  then have "wait_step waiters_new (EPark 5 (Inr (0, 0))) demo_parked" "wait_step demo_parked (EPark 6 (Inr (1, 1))) demo_parked_two"
    by (auto simp: demo_parked_def demo_parked_two_def intro!: do_park)
  from run_snoc [of wait_step, OF run_single [of wait_step, OF this(1)] this(2)] show ?thesis by simp
qed

text \<open>
  C30. The wait list refines a plain queue. Every execution of parks, refreshes, cancellations, wakes and
  closings, of fewer than \<open>2\<^sup>6\<^sup>4 - 1\<close> operations, is an execution of the abstract queue with the same
  answers: a park appends a ticket not in use, a cancellation removes the named ticket and says whether it
  was there, a wake takes the longest waiting caller, closing wakes all in order and refuses later parks.
  The published count, which lets the shard skip the lock, is the length of the queue.
\<close>

theorem waiters_refine_queue:
  assumes "run wait_step waiters_new evs s" "length evs < 2 ^ 64 - 1"
  shows "run spec_step (False, []) evs (wt_closed s, wt_queue s) \<and> wt_waiting s = length (wt_queue s) \<and>
    any_waiting s = (wt_queue s \<noteq> [])"
  using wait_run_sim [OF assms] by (auto simp: wt_inv_def any_waiting_def)

theorem waiters_refine_queue_witness:
  "run spec_step (False, []) [EPark 5 (Inr (0, 0)), EPark 6 (Inr (1, 1))] (wt_closed demo_parked_two, wt_queue demo_parked_two) \<and>
   wt_waiting demo_parked_two = 2"
proof -
  have "wt_waiting demo_parked_two = 2" by (simp add: demo_parked_eval)
  then show ?thesis using waiters_refine_queue [OF demo_parked_run] by simp
qed

text \<open>
  C31. Wakes are handed on, never dropped. In every reachable wait list, releasing \<open>freed\<close> slots wakes
  exactly the \<open>freed\<close> longest waiting callers (all of them when fewer wait), in arrival order; a waiting
  future that is dropped while still registered leaves the queue and wakes nobody, and one dropped after
  its wake already arrived passes that wake to the longest waiting caller.
\<close>

theorem waiters_hand_over:
  assumes "run wait_step waiters_new evs s" "length evs < 2 ^ 64 - 1"
  shows "(\<exists>s'. release_capacity freed s = (s', map snd (take freed (wt_queue s))) \<and> wt_queue s' = drop freed (wt_queue s)) \<and>
    (t \<in> fst ` set (wt_queue s) \<longrightarrow> (\<exists>s'. drop_registration (Some t) s = (s', None) \<and> wt_queue s' = filter (\<lambda>p. fst p \<noteq> t) (wt_queue s))) \<and>
    (t \<notin> fst ` set (wt_queue s) \<and> wt_queue s \<noteq> [] \<longrightarrow>
      (\<exists>s'. drop_registration (Some t) s = (s', Some (snd (hd (wt_queue s)))) \<and> wt_queue s' = tl (wt_queue s)))"
proof -
  have inv: "wt_inv s" using wait_run_sim [OF assms] by simp
  have "t \<in> fst ` set (wt_queue s) \<Longrightarrow> wt_queue s \<noteq> []" by auto
  then show ?thesis
    using release_spec [OF inv, of freed] drop_spec [OF inv, of t] by (cases "t \<in> fst ` set (wt_queue s)"; cases "wt_queue s = []") (simp_all, blast+)
qed

theorem waiters_hand_over_witness:
  "\<exists>s s'. run wait_step waiters_new [EPark 5 (Inr (0, 0)), EPark 6 (Inr (1, 1))] demo_parked_two \<and>
     release_capacity 1 demo_parked_two = (s, [5]) \<and> drop_registration (Some (7, 7)) demo_parked_two = (s', Some 5)"
proof -
  have "wt_queue demo_parked_two = [((0, 0), 5), ((1, 1), 6)]"
    by (simp add: demo_parked_eval wt_queue_def ticket_live_def)
  then show ?thesis using waiters_hand_over [OF demo_parked_run, of 1 "(7, 7)"] demo_parked_run by auto
qed

section \<open>When compaction runs\<close>

text \<open>
  The order is compacted when the free slots are at most half as many as the entries, so a list of live
  callers is scanned on every park, and a list whose entries are mostly tombstones is left alone.
\<close>

definition wait_slots :: "nat \<Rightarrow> nat \<Rightarrow> nat waiters" where
  "wait_slots live dead =
     \<lparr>wt_slots = map (\<lambda>i. \<lparr>wl_waker = Some i, wl_generation = of_nat i\<rparr>) [0..<live] @
        map (\<lambda>i. \<lparr>wl_waker = None, wl_generation = of_nat (live + i) + 1\<rparr>) [0..<dead],
      wt_free = map ((+) live) [0..<dead], wt_order = map (\<lambda>i. (i, of_nat i)) [0..<live + dead],
      wt_next_generation = of_nat (live + dead), wt_closed = False, wt_waiting = live\<rparr>"

lemma compaction_inverted:
  "8 < n \<Longrightarrow> compact_due (wait_slots n 0)" "live < dead \<Longrightarrow> \<not> compact_due (wait_slots live dead)"
  by (simp_all add: compact_due_def wait_slots_def)

end
