(* ===== verification/Semaphore.thy ===== *)
theory Semaphore
  imports Waiters_Theorems
begin

text \<open>
  The counted permit of \<^verbatim>\<open>crates/grommet/src/semaphore.rs\<close> on top of the wait list, and a system of callers
  that acquire, wait, are polled when woken, give up, and release. An operation of the source is one step;
  the waker of a caller is its index, and a caller is polled only after it was woken, as an executor does.
\<close>

section \<open>The semaphore\<close>

record semaphore =
  sm_permits :: nat
  sm_waiters :: "nat waiters"
  sm_closed :: bool

definition semaphore_new :: "nat \<Rightarrow> semaphore" where
  "semaphore_new permits = \<lparr>sm_permits = permits, sm_waiters = waiters_new, sm_closed = False\<rparr>"

text \<open>\<open>take\<close>, the compare-exchange loop, which without interference runs once.\<close>

definition sem_take :: "nat \<Rightarrow> nat \<times> bool" where
  "sem_take permits = (if permits = 0 then (permits, False) else (permits - 1, True))"

definition try_acquire :: "semaphore \<Rightarrow> semaphore \<times> bool" where
  "try_acquire s = (let (p, got) = sem_take (sm_permits s) in (s\<lparr>sm_permits := p\<rparr>, got))"

text \<open>The closure that \<open>acquire\<close> passes to \<open>park_until\<close>.\<close>

definition acquire_attempt :: "bool \<Rightarrow> nat \<Rightarrow> nat \<times> unit attempt" where
  "acquire_attempt closed permits =
     (case sem_take permits of
        (p, True) \<Rightarrow> (p, AReady ())
      | (p, False) \<Rightarrow> (p, if closed then AClosed else ARetry))"

type_synonym acquire_result = "semaphore \<times> ticket option \<times> unit wait_result"

definition acquire_start :: "nat \<Rightarrow> semaphore \<Rightarrow> acquire_result option" where
  "acquire_start w s =
     map_option (\<lambda>(wt, p, tk, r). (s\<lparr>sm_waiters := wt, sm_permits := p\<rparr>, tk, r))
       (park_until_start w (acquire_attempt (sm_closed s)) (sm_permits s) (sm_waiters s))"

definition acquire_poll :: "nat \<Rightarrow> ticket option \<Rightarrow> semaphore \<Rightarrow> acquire_result option" where
  "acquire_poll w tk s =
     map_option (\<lambda>(wt, p, tk, r). (s\<lparr>sm_waiters := wt, sm_permits := p\<rparr>, tk, r))
       (park_until_poll w (acquire_attempt (sm_closed s)) tk (sm_permits s) (sm_waiters s))"

definition sem_release :: "semaphore \<Rightarrow> semaphore \<times> nat option" where
  "sem_release s =
     (let s = s\<lparr>sm_permits := sm_permits s + 1\<rparr> in
      if any_waiting (sm_waiters s)
      then (let (wt, woken) = wake_one (sm_waiters s) in (s\<lparr>sm_waiters := wt\<rparr>, woken))
      else (s, None))"

definition sem_close :: "semaphore \<Rightarrow> semaphore \<times> nat list" where
  "sem_close s = (let (wt, woken) = close_waiters (sm_waiters s) in (s\<lparr>sm_closed := True, sm_waiters := wt\<rparr>, woken))"

definition sem_available :: "semaphore \<Rightarrow> nat" where
  "sem_available s = sm_permits s"

section \<open>Callers\<close>

datatype caller = Idle | Waiting "ticket option" | Holding | Refused

record sem_sys =
  ss_sem :: semaphore
  ss_callers :: "caller list"
  ss_woken :: "nat set"

datatype sem_event = SAcquire nat | STry nat | SPoll nat | SDrop nat | SRelease nat | SClose

definition sem_init :: "nat \<Rightarrow> nat \<Rightarrow> sem_sys" where
  "sem_init permits callers = \<lparr>ss_sem = semaphore_new permits, ss_callers = replicate callers Idle, ss_woken = {}\<rparr>"

definition caller_after :: "ticket option \<Rightarrow> unit wait_result \<Rightarrow> caller" where
  "caller_after tk r = (case r of WDone _ \<Rightarrow> Holding | WClosed \<Rightarrow> Refused | WPending \<Rightarrow> Waiting tk)"

definition set_caller :: "nat \<Rightarrow> caller \<Rightarrow> sem_sys \<Rightarrow> sem_sys" where
  "set_caller c st x = x\<lparr>ss_callers := (ss_callers x)[c := st]\<rparr>"

definition caller_is :: "sem_sys \<Rightarrow> nat \<Rightarrow> caller \<Rightarrow> bool" where
  "caller_is x c st \<longleftrightarrow> c < length (ss_callers x) \<and> ss_callers x ! c = st"

fun sem_step :: "sem_event \<Rightarrow> sem_sys \<Rightarrow> sem_sys option" where
  "sem_step (SAcquire c) x =
     (if caller_is x c Idle then
        map_option (\<lambda>(s, tk, r). set_caller c (caller_after tk r) (x\<lparr>ss_sem := s\<rparr>)) (acquire_start c (ss_sem x))
      else None)"
| "sem_step (STry c) x =
     (if caller_is x c Idle then
        (let (s, got) = try_acquire (ss_sem x) in Some (set_caller c (if got then Holding else Idle) (x\<lparr>ss_sem := s\<rparr>)))
      else None)"
| "sem_step (SPoll c) x =
     (if c < length (ss_callers x) \<and> c \<in> ss_woken x then
        (case ss_callers x ! c of
           Waiting tk \<Rightarrow>
             map_option (\<lambda>(s, tk, r). set_caller c (caller_after tk r) (x\<lparr>ss_sem := s, ss_woken := ss_woken x - {c}\<rparr>))
               (acquire_poll c tk (ss_sem x))
         | _ \<Rightarrow> None)
      else None)"
| "sem_step (SDrop c) x =
     (if c < length (ss_callers x) then
        (case ss_callers x ! c of
           Waiting tk \<Rightarrow>
             (let (wt, woken) = drop_registration tk (sm_waiters (ss_sem x)) in
              Some (set_caller c Idle (x\<lparr>ss_sem := (ss_sem x)\<lparr>sm_waiters := wt\<rparr>, ss_woken := ss_woken x - {c} \<union> set_option woken\<rparr>)))
         | _ \<Rightarrow> None)
      else None)"
| "sem_step (SRelease c) x =
     (if caller_is x c Holding then
        (let (s, woken) = sem_release (ss_sem x) in
         Some (set_caller c Idle (x\<lparr>ss_sem := s, ss_woken := ss_woken x \<union> set_option woken\<rparr>)))
      else None)"
| "sem_step SClose x =
     (let (s, woken) = sem_close (ss_sem x) in Some (x\<lparr>ss_sem := s, ss_woken := ss_woken x \<union> set woken\<rparr>))"

definition sem_trans :: "sem_sys \<Rightarrow> sem_event \<Rightarrow> sem_sys \<Rightarrow> bool" where
  "sem_trans x e y \<longleftrightarrow> sem_step e x = Some y"

section \<open>Permits are conserved\<close>

definition holders :: "sem_sys \<Rightarrow> nat" where
  "holders x = length (filter ((=) Holding) (ss_callers x))"

definition conserved :: "nat \<Rightarrow> sem_sys \<Rightarrow> bool" where
  "conserved n x \<longleftrightarrow> sm_permits (ss_sem x) + holders x = n"

lemma filter_update_count:
  "c < length xs \<Longrightarrow> length (filter P (xs[c := v])) + (if P (xs ! c) then 1 else 0) = length (filter P xs) + (if P v then 1 else 0)"
proof (induction xs arbitrary: c)
  case (Cons x xs)
  then show ?case by (cases c) auto
qed simp

lemma holders_set:
  "c < length (ss_callers x) \<Longrightarrow>
   holders (set_caller c st x) + (if ss_callers x ! c = Holding then 1 else 0) = holders x + (if st = Holding then 1 else 0)"
  using filter_update_count [of c "ss_callers x" "(=) Holding" st] by (auto simp: holders_def set_caller_def)

lemma attempt_count:
  "acquire_attempt closed p = (p', r) \<Longrightarrow> p' + (if r = AReady () then 1 else 0) = p"
  by (auto simp: acquire_attempt_def sem_take_def split: if_splits)

lemma poll_count:
  assumes "park_until_poll w (acquire_attempt closed) tk p s = Some (s', p', tk', r)"
  shows "p' + (if r = WDone () then 1 else 0) = p"
proof -
  obtain p1 a where att: "acquire_attempt closed p = (p1, a)" by (cases "acquire_attempt closed p")
  have "(p' = p \<and> r = WClosed) \<or> (p' = p1 \<and> (r = WDone () \<longleftrightarrow> a = AReady ()))"
  proof (cases "case tk of Some t \<Rightarrow> Some (refresh_ticket t w s, Inr t) | None \<Rightarrow> park w s")
    case None
    then show ?thesis using assms by (simp add: park_until_poll_def)
  next
    case (Some y)
    then show ?thesis
      using assms att by (cases y; cases "snd y"; cases a) (simp_all add: park_until_poll_def)
  qed
  then show ?thesis using attempt_count [OF att] by auto
qed

lemma start_count:
  assumes "park_until_start w (acquire_attempt closed) p s = Some (s', p', tk', r)"
  shows "p' + (if r = WDone () then 1 else 0) = p"
proof -
  obtain p1 a where att: "acquire_attempt closed p = (p1, a)" by (cases "acquire_attempt closed p")
  show ?thesis
  proof (cases a)
    case ARetry
    then have "park_until_poll w (acquire_attempt closed) None p1 s = Some (s', p', tk', r)" using assms att by (simp add: park_until_start_def)
    from poll_count [OF this] show ?thesis using attempt_count [OF att] ARetry by simp
  qed (use assms att attempt_count [OF att] in \<open>auto simp: park_until_start_def\<close>)
qed

lemma caller_after_holding: "caller_after tk r = Holding \<longleftrightarrow> r = WDone ()"
  by (cases r) (auto simp: caller_after_def)

lemma sem_step_conserved:
  assumes "sem_step e x = Some y" "conserved n x"
  shows "conserved n y"
proof (cases e)
  case (SAcquire c)
  then obtain wt p tk r where c: "caller_is x c Idle" and
    st: "park_until_start c (acquire_attempt (sm_closed (ss_sem x))) (sm_permits (ss_sem x)) (sm_waiters (ss_sem x)) = Some (wt, p, tk, r)" and
    y: "y = set_caller c (caller_after tk r) (x\<lparr>ss_sem := (ss_sem x)\<lparr>sm_waiters := wt, sm_permits := p\<rparr>\<rparr>)"
    using assms(1) by (auto simp: acquire_start_def split: if_splits)
  have p: "sm_permits (ss_sem y) = p" using y by (simp add: set_caller_def)
  have h: "holders y = holders x + (if r = WDone () then 1 else 0)"
    using c holders_set [of c "x\<lparr>ss_sem := (ss_sem x)\<lparr>sm_waiters := wt, sm_permits := p\<rparr>\<rparr>" "caller_after tk r"]
    by (simp add: y caller_is_def caller_after_holding) (simp add: holders_def)
  show ?thesis using start_count [OF st] assms(2) unfolding conserved_def p h by simp
next
  case (STry c)
  then obtain s got where c: "caller_is x c Idle" and t: "try_acquire (ss_sem x) = (s, got)" and
    y: "y = set_caller c (if got then Holding else Idle) (x\<lparr>ss_sem := s\<rparr>)"
    using assms(1) by (auto split: if_splits prod.splits)
  have p: "sm_permits s + (if got then 1 else 0) = sm_permits (ss_sem x)"
    using t by (auto simp: try_acquire_def sem_take_def split: if_splits)
  have h: "holders y = holders x + (if got then 1 else 0)"
    using c holders_set [of c "x\<lparr>ss_sem := s\<rparr>" "if got then Holding else Idle"] by (simp add: y caller_is_def split: if_splits) (simp_all add: holders_def)
  show ?thesis using p h assms(2) y by (simp add: conserved_def set_caller_def)
next
  case (SPoll c)
  then obtain tk0 wt p tk r where c: "c < length (ss_callers x)" "ss_callers x ! c = Waiting tk0" and
    st: "park_until_poll c (acquire_attempt (sm_closed (ss_sem x))) tk0 (sm_permits (ss_sem x)) (sm_waiters (ss_sem x)) = Some (wt, p, tk, r)" and
    y: "y = set_caller c (caller_after tk r) (x\<lparr>ss_sem := (ss_sem x)\<lparr>sm_waiters := wt, sm_permits := p\<rparr>, ss_woken := ss_woken x - {c}\<rparr>)"
    using assms(1) by (auto simp: acquire_poll_def split: if_splits caller.splits)
  have p: "sm_permits (ss_sem y) = p" using y by (simp add: set_caller_def)
  have h: "holders y = holders x + (if r = WDone () then 1 else 0)"
    using c holders_set [of c "x\<lparr>ss_sem := (ss_sem x)\<lparr>sm_waiters := wt, sm_permits := p\<rparr>, ss_woken := ss_woken x - {c}\<rparr>" "caller_after tk r"]
    by (simp add: y caller_after_holding) (simp add: holders_def)
  show ?thesis using poll_count [OF st] assms(2) unfolding conserved_def p h by simp
next
  case (SDrop c)
  then obtain tk wt woken where c: "c < length (ss_callers x)" "ss_callers x ! c = Waiting tk" and
    y: "y = set_caller c Idle (x\<lparr>ss_sem := (ss_sem x)\<lparr>sm_waiters := wt\<rparr>, ss_woken := ss_woken x - {c} \<union> set_option woken\<rparr>)"
    using assms(1) by (auto split: if_splits caller.splits prod.splits)
  have "holders y = holders x" using c holders_set [of c "x\<lparr>ss_sem := (ss_sem x)\<lparr>sm_waiters := wt\<rparr>, ss_woken := ss_woken x - {c} \<union> set_option woken\<rparr>" Idle]
    by (simp add: y) (simp add: holders_def)
  then show ?thesis using assms(2) y by (simp add: conserved_def set_caller_def)
next
  case (SRelease c)
  then obtain s woken where c: "caller_is x c Holding" and r: "sem_release (ss_sem x) = (s, woken)" and
    y: "y = set_caller c Idle (x\<lparr>ss_sem := s, ss_woken := ss_woken x \<union> set_option woken\<rparr>)"
    using assms(1) by (auto split: if_splits prod.splits)
  have p: "sm_permits s = sm_permits (ss_sem x) + 1" using r by (auto simp: sem_release_def Let_def split: if_splits prod.splits)
  have "holders y + 1 = holders x" using c holders_set [of c "x\<lparr>ss_sem := s, ss_woken := ss_woken x \<union> set_option woken\<rparr>" Idle]
    by (simp add: y caller_is_def) (simp add: holders_def)
  then show ?thesis using p assms(2) y by (simp add: conserved_def set_caller_def)
next
  case SClose
  then show ?thesis using assms by (auto simp: sem_close_def conserved_def holders_def Let_def split: prod.splits)
qed

interpretation permits: invariant "\<lambda>x. x = sem_init n callers" sem_trans "conserved n" for n callers
proof unfold_locales
  show "x = sem_init n callers \<Longrightarrow> conserved n x" for x
    by (simp add: conserved_def sem_init_def semaphore_new_def holders_def)
  show "conserved n x \<Longrightarrow> sem_trans x e y \<Longrightarrow> conserved n y" for x e y
    using sem_step_conserved by (simp add: sem_trans_def)
qed

section \<open>Properties\<close>

text \<open>
  C32. Permits are conserved. In every state that any number of callers reach by acquiring, trying, being
  polled, giving up, releasing and closing, the free permits and the permits held add up to the initial
  number: none is issued twice and none is lost, also by a wait that is abandoned.
\<close>

theorem semaphore_conserves_permits:
  assumes "run sem_trans (sem_init n callers) evs x"
  shows "sem_available (ss_sem x) + holders x = n"
  using permits.reachable_inv [OF refl assms] by (simp add: conserved_def sem_available_def)

definition demo_sem :: sem_sys where
  "demo_sem = the (sem_step (SAcquire 0) (sem_init 1 3))"

theorem semaphore_conserves_permits_witness:
  "run sem_trans (sem_init 1 3) [SAcquire 0] demo_sem \<and> sem_available (ss_sem demo_sem) = 0 \<and> holders demo_sem = 1"
proof -
  have e: "sem_step (SAcquire 0) (sem_init 1 3) = Some demo_sem"
    by (simp add: demo_sem_def sem_init_def semaphore_new_def caller_is_def acquire_start_def park_until_start_def acquire_attempt_def sem_take_def)
  then have r: "run sem_trans (sem_init 1 3) [SAcquire 0] demo_sem" by (intro run_single) (simp add: sem_trans_def)
  have "holders demo_sem = 1"
    by (simp add: demo_sem_def sem_init_def semaphore_new_def caller_is_def acquire_start_def park_until_start_def acquire_attempt_def
        sem_take_def holders_def set_caller_def caller_after_def numeral_3_eq_3)
  then show ?thesis using semaphore_conserves_permits [OF r] r by simp
qed

section \<open>A wait that is never woken\<close>

fun sem_steps :: "sem_event list \<Rightarrow> sem_sys \<Rightarrow> sem_sys option" where
  "sem_steps [] x = Some x"
| "sem_steps (e # es) x = Option.bind (sem_step e x) (sem_steps es)"

lemma sem_steps_run: "sem_steps es x = Some y \<Longrightarrow> run sem_trans x es y"
proof (induction es arbitrary: x)
  case (Cons e es)
  then obtain z where z: "sem_trans x e z" "sem_steps es z = Some y" by (auto simp: sem_trans_def split: Option.bind_splits)
  show ?case using run_trans [OF Cons.IH [OF z(2)] run_single [of sem_trans, OF z(1)]] by simp
qed simp

lemmas sem_eval = sem_init_def semaphore_new_def caller_is_def acquire_start_def acquire_poll_def park_until_start_def park_until_poll_def
  acquire_attempt_def sem_take_def set_caller_def caller_after_def try_acquire_def sem_release_def any_waiting_def wake_one_def retire_def
  refresh_ticket_def ticket_live_def finish_registration_def wait_eval

text \<open>
  C33. A wake can be lost. A caller that was woken and finds its permit taken by another caller stays pending with a ticket whose
  registration is over: refreshing it does nothing, so no later release wakes the caller although a permit
  is free. Caller 1 waits, is woken by the release of caller 0, loses the permit to caller 2, and after
  caller 2 has released it is still waiting, unregistered and not woken.
\<close>

theorem semaphore_strands_a_waiter:
  "\<exists>x. run sem_trans (sem_init 1 3) [SAcquire 0, SAcquire 1, SRelease 0, STry 2, SPoll 1, SRelease 2] x \<and>
     sem_available (ss_sem x) = 1 \<and> ss_callers x = [Idle, Waiting (Some (0, 0)), Idle] \<and> ss_woken x = {} \<and>
     wt_queue (sm_waiters (ss_sem x)) = [] \<and> sem_step (SPoll 1) x = None"
proof -
  let ?wt = "\<lparr>wt_slots = [\<lparr>wl_waker = None, wl_generation = 1\<rparr>], wt_free = [0], wt_order = [], wt_next_generation = 1,
    wt_closed = False, wt_waiting = 0\<rparr>"
  let ?x = "\<lparr>ss_sem = \<lparr>sm_permits = 1, sm_waiters = ?wt, sm_closed = False\<rparr>,
    ss_callers = [Idle, Waiting (Some (0, 0)), Idle], ss_woken = {}\<rparr>"
  have "sem_steps [SAcquire 0, SAcquire 1, SRelease 0, STry 2, SPoll 1, SRelease 2] (sem_init 1 3) = Some ?x"
    by (simp add: sem_eval numeral_3_eq_3 numeral_2_eq_2)
  from sem_steps_run [OF this] show ?thesis by (intro exI [of _ ?x]) (simp add: sem_available_def wt_queue_def)
qed

end
