(* ===== verification/Mailbox.thy ===== *)
theory Mailbox
  imports Doorbell Waiters_Theorems
begin

text \<open>
  The mailbox of \<^verbatim>\<open>crates/grommet/src/mailbox.rs\<close>: a bounded ring between many senders and one shard, the
  doorbell that wakes the shard, the wait list of senders parked on a full ring, the parked flag, the count
  of sender handles and the departed flag. The ring is the bounded first-in first-out queue that the ring
  theories show it to be; an operation is one step, the fences of the source being what makes its accesses
  ordered. The wakers an operation calls are appended to a log.
\<close>

section \<open>State\<close>

record ('a, 'w) mailbox =
  mb_ring :: "'a list"
  mb_capacity :: nat
  mb_bell :: "'w doorbell"
  mb_waiters :: "'w waiters"
  mb_parked :: bool
  mb_producers :: nat
  mb_departed :: bool
  mb_freed :: nat
  mb_woken :: "'w list"

definition mailbox_channel :: "nat \<Rightarrow> ('a, 'w) mailbox option" where
  "mailbox_channel capacity =
     (if capacity = 0 then None
      else Some \<lparr>mb_ring = [], mb_capacity = capacity, mb_bell = bell_new, mb_waiters = waiters_new, mb_parked = False,
                 mb_producers = 1, mb_departed = False, mb_freed = 0, mb_woken = []\<rparr>)"

definition mb_ring_bell :: "('a, 'w) mailbox \<Rightarrow> ('a, 'w) mailbox" where
  "mb_ring_bell m = (let (b, ws) = bell_ring (mb_bell m) in m\<lparr>mb_bell := b, mb_woken := mb_woken m @ ws\<rparr>)"

section \<open>The sending half\<close>

definition mailbox_clone :: "('a, 'w) mailbox \<Rightarrow> ('a, 'w) mailbox" where
  "mailbox_clone m = m\<lparr>mb_producers := mb_producers m + 1\<rparr>"

definition mailbox_drop :: "('a, 'w) mailbox \<Rightarrow> ('a, 'w) mailbox" where
  "mailbox_drop m =
     (let last = (mb_producers m = 1); m = m\<lparr>mb_producers := mb_producers m - 1\<rparr> in
      if last then mb_ring_bell m else m)"

datatype 'a try_send_error = Full 'a | Closed 'a

fun try_send_error_into_inner :: "'a try_send_error \<Rightarrow> 'a" where
  "try_send_error_into_inner (Full a) = a" | "try_send_error_into_inner (Closed a) = a"

definition mb_try_send_deferred :: "'a \<Rightarrow> ('a, 'w) mailbox \<Rightarrow> ('a, 'w) mailbox \<times> ('a try_send_error + unit)" where
  "mb_try_send_deferred item m =
     (if mb_departed m then (m, Inl (Closed item))
      else if length (mb_ring m) < mb_capacity m then (m\<lparr>mb_ring := mb_ring m @ [item]\<rparr>, Inr ())
      else (m, Inl (Full item)))"

text \<open>\<open>Shared::wake_shard\<close>, called by \<open>Mailbox::announce\<close>.\<close>

definition mb_announce :: "('a, 'w) mailbox \<Rightarrow> ('a, 'w) mailbox" where
  "mb_announce m = (if mb_parked m then mb_ring_bell m else m)"

definition mb_try_send :: "'a \<Rightarrow> ('a, 'w) mailbox \<Rightarrow> ('a, 'w) mailbox \<times> ('a try_send_error + unit)" where
  "mb_try_send item m =
     (case mb_try_send_deferred item m of
        (m, Inr u) \<Rightarrow> (mb_announce m, Inr u)
      | (m, Inl e) \<Rightarrow> (m, Inl e))"

text \<open>The closure that \<open>send\<close> passes to \<open>park_until\<close>; the item is put back on every path that waits.\<close>

definition send_attempt :: "'a \<Rightarrow> ('a, 'w) mailbox \<Rightarrow> ('a, 'w) mailbox \<times> unit attempt" where
  "send_attempt item m =
     (case mb_try_send item m of
        (m, Inr u) \<Rightarrow> (m, AReady u)
      | (m, Inl (Full _)) \<Rightarrow> (m, ARetry)
      | (m, Inl (Closed _)) \<Rightarrow> (m, AClosed))"

type_synonym ('a, 'w) send_result = "('a, 'w) mailbox \<times> ticket option \<times> unit wait_result"

definition mb_send_start :: "'w \<Rightarrow> 'a \<Rightarrow> ('a, 'w) mailbox \<Rightarrow> ('a, 'w) send_result option" where
  "mb_send_start w item m =
     map_option (\<lambda>(wt, m, tk, r). (m\<lparr>mb_waiters := wt\<rparr>, tk, r)) (park_until_start w (send_attempt item) m (mb_waiters m))"

definition mb_send_poll :: "'w \<Rightarrow> 'a \<Rightarrow> ticket option \<Rightarrow> ('a, 'w) mailbox \<Rightarrow> ('a, 'w) send_result option" where
  "mb_send_poll w item tk m =
     map_option (\<lambda>(wt, m, tk, r). (m\<lparr>mb_waiters := wt\<rparr>, tk, r)) (park_until_poll w (send_attempt item) tk m (mb_waiters m))"

definition mb_send_drop :: "ticket option \<Rightarrow> ('a, 'w) mailbox \<Rightarrow> ('a, 'w) mailbox" where
  "mb_send_drop tk m =
     (let (wt, woken) = drop_registration tk (mb_waiters m) in
      m\<lparr>mb_waiters := wt, mb_woken := mb_woken m @ (case woken of None \<Rightarrow> [] | Some w \<Rightarrow> [w])\<rparr>)"

section \<open>The receiving half\<close>

definition mb_unpark :: "('a, 'w) mailbox \<Rightarrow> ('a, 'w) mailbox" where
  "mb_unpark m = (if mb_parked m then m\<lparr>mb_parked := False\<rparr> else m)"

definition mb_take :: "('a, 'w) mailbox \<Rightarrow> ('a, 'w) mailbox \<times> 'a option" where
  "mb_take m =
     (case mb_ring m of
        [] \<Rightarrow> (m, None)
      | item # rest \<Rightarrow> (let m = mb_unpark (m\<lparr>mb_ring := rest\<rparr>) in (m\<lparr>mb_freed := mb_freed m + 1\<rparr>, Some item)))"

definition mb_release_capacity :: "('a, 'w) mailbox \<Rightarrow> ('a, 'w) mailbox" where
  "mb_release_capacity m =
     (let (wt, ws) = release_capacity (mb_freed m) (mb_waiters m) in
      m\<lparr>mb_freed := 0, mb_waiters := wt, mb_woken := mb_woken m @ ws\<rparr>)"

datatype 'a recv_result = RItem 'a | RClosed | RPending

definition mb_poll_recv :: "'w \<Rightarrow> ('a, 'w) mailbox \<Rightarrow> (('a, 'w) mailbox \<times> 'a recv_result) option" where
  "mb_poll_recv w m =
     (case mb_take m of
        (m, Some item) \<Rightarrow> Some (m, RItem item)
      | (m, None) \<Rightarrow>
          (let m = mb_release_capacity m; closed = (mb_producers m = 0) in
           case bell_register w (mb_bell m) of
             None \<Rightarrow> None
           | Some (b, ws) \<Rightarrow>
               (let m = m\<lparr>mb_bell := b, mb_woken := mb_woken m @ ws, mb_parked := True\<rparr> in
                case mb_take m of
                  (m, Some item) \<Rightarrow> Some (mb_release_capacity (mb_unpark m), RItem item)
                | (m, None) \<Rightarrow> if closed then Some (mb_unpark m, RClosed) else Some (m, RPending))))"

datatype try_recv_error = RecvEmpty | RecvClosed

definition mb_try_recv :: "('a, 'w) mailbox \<Rightarrow> ('a, 'w) mailbox \<times> (try_recv_error + 'a)" where
  "mb_try_recv m =
     (let closed = (mb_producers m = 0); (m, item) = mb_take m; m = mb_release_capacity m in
      (m, case item of Some a \<Rightarrow> Inr a | None \<Rightarrow> if closed then Inl RecvClosed else Inl RecvEmpty))"

definition inbox_drop :: "('a, 'w) mailbox \<Rightarrow> ('a, 'w) mailbox" where
  "inbox_drop m =
     (let (wt, ws) = close_waiters (mb_waiters m) in
      m\<lparr>mb_departed := True, mb_waiters := wt, mb_woken := mb_woken m @ ws, mb_bell := bell_close (mb_bell m)\<rparr>)"

section \<open>Executions\<close>

text \<open>
  The steps carry their answers. The second component of the state records whether a deferred push has not
  been announced yet; a handle is needed to send, and the inbox is used until it is dropped.
\<close>

datatype ('a, 'w) mail_event =
    MClone | MDrop
  | MTrySend 'a "'a try_send_error + unit"
  | MDeferred 'a "'a try_send_error + unit"
  | MAnnounce
  | MSend 'w 'a "ticket option" "unit wait_result"
  | MSendPoll 'w 'a "ticket option" "unit wait_result"
  | MSendDrop "ticket option"
  | MPollRecv 'w "'a recv_result"
  | MTryRecv "try_recv_error + 'a"
  | MRelease
  | MInboxDrop

inductive mail_step :: "('a, 'w) mailbox \<times> bool \<Rightarrow> ('a, 'w) mail_event \<Rightarrow> ('a, 'w) mailbox \<times> bool \<Rightarrow> bool" where
  mail_clone: "0 < mb_producers m \<Longrightarrow> mail_step (m, u) MClone (mailbox_clone m, u)"
| mail_drop: "0 < mb_producers m \<Longrightarrow> mail_step (m, u) MDrop (mailbox_drop m, u)"
| mail_try_send: "0 < mb_producers m \<Longrightarrow> mb_try_send a m = (m', r) \<Longrightarrow> mail_step (m, u) (MTrySend a r) (m', u \<and> r \<noteq> Inr ())"
| mail_deferred: "0 < mb_producers m \<Longrightarrow> mb_try_send_deferred a m = (m', r) \<Longrightarrow> mail_step (m, u) (MDeferred a r) (m', u \<or> r = Inr ())"
| mail_announce: "0 < mb_producers m \<Longrightarrow> mail_step (m, u) MAnnounce (mb_announce m, False)"
| mail_send: "0 < mb_producers m \<Longrightarrow> mb_send_start w a m = Some (m', tk, r) \<Longrightarrow> mail_step (m, u) (MSend w a tk r) (m', u \<and> r \<noteq> WDone ())"
| mail_send_poll: "0 < mb_producers m \<Longrightarrow> mb_send_poll w a tk m = Some (m', tk', r) \<Longrightarrow>
    mail_step (m, u) (MSendPoll w a tk' r) (m', u \<and> r \<noteq> WDone ())"
| mail_send_drop: "mail_step (m, u) (MSendDrop tk) (mb_send_drop tk m, u)"
| mail_recv: "\<not> mb_departed m \<Longrightarrow> mb_poll_recv w m = Some (m', r) \<Longrightarrow> mail_step (m, u) (MPollRecv w r) (m', u)"
| mail_try_recv: "\<not> mb_departed m \<Longrightarrow> mb_try_recv m = (m', r) \<Longrightarrow> mail_step (m, u) (MTryRecv r) (m', u)"
| mail_release: "\<not> mb_departed m \<Longrightarrow> mail_step (m, u) MRelease (mb_release_capacity m, u)"
| mail_inbox_drop: "\<not> mb_departed m \<Longrightarrow> mail_step (m, u) MInboxDrop (inbox_drop m, u)"

definition mail_init :: "nat \<Rightarrow> ('a, 'w) mailbox \<times> bool \<Rightarrow> bool" where
  "mail_init capacity x \<longleftrightarrow> mailbox_channel capacity = Some (fst x) \<and> \<not> snd x"

end
