(* ===== verification/Router.thy ===== *)
theory Router
  imports Mailbox Bits
begin

unbundle bit_operations_syntax

text \<open>
  Keys, work items and the router of \<^verbatim>\<open>crates/grommet/src/key.rs\<close>, \<^verbatim>\<open>work.rs\<close> and \<^verbatim>\<open>router.rs\<close>: the placement
  hash, the slot table, stamping, single submissions and batches with their deferred announcements. What the
  \<open>Work\<close> trait asks of a work item is a record of functions, an argument of the operations that use it. The
  waiting submissions take the outcome of the wait as an argument.
\<close>

section \<open>Keys\<close>

text \<open>The finalizer of the placement hash on 64-bit words.\<close>

definition xor_shift :: "u64 \<Rightarrow> u64" where
  "xor_shift h = h XOR drop_bit 33 h"

definition mix :: "u64 \<Rightarrow> u64" where
  "mix h = xor_shift (xor_shift (xor_shift h * 0xff51afd7ed558ccd) * 0xc4ceb9fe1a85ec53)"

definition shard_hash_unsigned :: "'a::len word \<Rightarrow> u64" where
  "shard_hash_unsigned k = ucast k"

definition shard_hash_signed :: "'a::len word \<Rightarrow> u64" where
  "shard_hash_signed k = scast k"

definition shard_hash_u128 :: "128 word \<Rightarrow> u64" where
  "shard_hash_u128 k = ucast k XOR ucast (drop_bit 64 k)"

section \<open>Work\<close>

record ('v, 'k, 'i) work_ops =
  wk_key :: "'v \<Rightarrow> 'k"
  wk_shard_hash :: "'k \<Rightarrow> u64"
  wk_class :: "'v \<Rightarrow> nat"
  wk_request_id :: "'v \<Rightarrow> 'i option"
  wk_time_to_live :: "'v \<Rightarrow> duration option"

record ('v, 'k, 'i) envelope =
  en_key :: 'k
  en_class :: nat
  en_request_id :: "'i option"
  en_expires_at :: "duration option"
  en_enqueued :: duration
  en_work :: 'v

section \<open>The slot table\<close>

definition SLOTS_PER_SHARD :: nat where "SLOTS_PER_SHARD = 64"

text \<open>The standard library's \<open>next_power_of_two\<close>, used for the number of slots: doubling from one until the argument is reached.\<close>

function double_until :: "nat \<Rightarrow> nat \<Rightarrow> nat" where
  "double_until p n = (if n \<le> p \<or> p = 0 then p else double_until (2 * p) n)"
  by pat_completeness auto
termination by (relation "measure (\<lambda>(p, n). n - p)") auto

declare double_until.simps [simp del]

definition slots_power_of_two :: "nat \<Rightarrow> nat" where
  "slots_power_of_two n = double_until 1 n"

record ('v, 'k, 'i, 'w) router =
  ro_shards :: "(('v, 'k, 'i) envelope, 'w) mailbox list"
  ro_slots :: "16 word list"
  ro_mask :: u64
  ro_stamp_arrival :: bool

definition router_with_options ::
  "(('v, 'k, 'i) envelope, 'w) mailbox list \<Rightarrow> bool \<Rightarrow> ('v, 'k, 'i, 'w) router option" where
  "router_with_options shards stamp_arrival =
     (if shards = [] \<or> length shards > 65536 then None
      else
        (let count = slots_power_of_two (length shards * SLOTS_PER_SHARD) in
         Some \<lparr>ro_shards = shards, ro_slots = map (\<lambda>slot. of_nat (slot mod length shards)) [0..<count],
               ro_mask = of_nat count - 1, ro_stamp_arrival = stamp_arrival\<rparr>))"

definition router_new :: "(('v, 'k, 'i) envelope, 'w) mailbox list \<Rightarrow> ('v, 'k, 'i, 'w) router option" where
  "router_new shards = router_with_options shards True"

definition shard_slot :: "u64 \<Rightarrow> u64 \<Rightarrow> nat" where
  "shard_slot msk h = unat (mix h AND msk)"

definition shard_index :: "('v, 'k, 'i) work_ops \<Rightarrow> ('v, 'k, 'i, 'w) router \<Rightarrow> 'k \<Rightarrow> nat" where
  "shard_index ops r key = unat (ro_slots r ! shard_slot (ro_mask r) (wk_shard_hash ops key))"

section \<open>Submissions\<close>

datatype 'v submit_error = SubmitFull 'v | ShardDown 'v | InvalidClass 'v

fun submit_error_into_work :: "'v submit_error \<Rightarrow> 'v" where
  "submit_error_into_work (SubmitFull v) = v"
| "submit_error_into_work (ShardDown v) = v"
| "submit_error_into_work (InvalidClass v) = v"

fun submit_error_map :: "('v \<Rightarrow> 'u) \<Rightarrow> 'v submit_error \<Rightarrow> 'u submit_error" where
  "submit_error_map f (SubmitFull v) = SubmitFull (f v)"
| "submit_error_map f (ShardDown v) = ShardDown (f v)"
| "submit_error_map f (InvalidClass v) = InvalidClass (f v)"

definition arrival :: "duration \<Rightarrow> ('v, 'k, 'i, 'w) router \<Rightarrow> duration option" where
  "arrival now r = (if ro_stamp_arrival r then Some now else None)"

definition stamp :: "('v, 'k, 'i) work_ops \<Rightarrow> nat \<Rightarrow> 'v \<Rightarrow> duration option \<Rightarrow> 'v submit_error + ('v, 'k, 'i) envelope" where
  "stamp ops classes work at =
     (if wk_class ops work \<ge> classes then Inl (InvalidClass work)
      else
        (let (enqueued, expires_at) =
             (case at of
                Some now \<Rightarrow> (now, map_option (duration_saturating_add now) (wk_time_to_live ops work))
              | None \<Rightarrow> (0, None)) in
         Inr \<lparr>en_key = wk_key ops work, en_class = wk_class ops work, en_request_id = wk_request_id ops work,
              en_expires_at = expires_at, en_enqueued = enqueued, en_work = work\<rparr>))"

fun submit_result :: "('v, 'k, 'i) envelope try_send_error + unit \<Rightarrow> 'v submit_error + unit" where
  "submit_result (Inr u) = Inr u"
| "submit_result (Inl (Full e)) = Inl (SubmitFull (en_work e))"
| "submit_result (Inl (Closed e)) = Inl (ShardDown (en_work e))"

definition on_shard :: "nat \<Rightarrow> (('v, 'k, 'i) envelope, 'w) mailbox \<Rightarrow> ('v, 'k, 'i, 'w) router \<Rightarrow> ('v, 'k, 'i, 'w) router" where
  "on_shard i m r = r\<lparr>ro_shards := (ro_shards r)[i := m]\<rparr>"

definition router_try_send ::
  "('v, 'k, 'i) work_ops \<Rightarrow> ('v, 'k, 'i) envelope \<Rightarrow> ('v, 'k, 'i, 'w) router \<Rightarrow> ('v, 'k, 'i, 'w) router \<times> ('v submit_error + unit)" where
  "router_try_send ops e r =
     (let index = shard_index ops r (en_key e); (m, res) = mb_try_send e (ro_shards r ! index) in
      (on_shard index m r, submit_result res))"

definition try_submit ::
  "('v, 'k, 'i) work_ops \<Rightarrow> nat \<Rightarrow> duration \<Rightarrow> 'v \<Rightarrow> ('v, 'k, 'i, 'w) router \<Rightarrow> ('v, 'k, 'i, 'w) router \<times> ('v submit_error + unit)" where
  "try_submit ops classes now work r =
     (case stamp ops classes work (arrival now r) of
        Inl e \<Rightarrow> (r, Inl e)
      | Inr e \<Rightarrow> router_try_send ops e r)"

section \<open>Deferred announcements\<close>

definition DEFERRED_WORDS :: nat where "DEFERRED_WORDS = 8"

definition DEFERRED_SHARDS :: nat where "DEFERRED_SHARDS = DEFERRED_WORDS * 64"

record deferred_set =
  df_words :: "u64 list"
  df_any :: bool

definition deferred_new :: deferred_set where
  "deferred_new = \<lparr>df_words = replicate DEFERRED_WORDS 0, df_any = False\<rparr>"

definition defer_shard :: "nat \<Rightarrow> deferred_set \<Rightarrow> deferred_set \<times> bool" where
  "defer_shard shard d =
     (if shard \<ge> DEFERRED_SHARDS then (d, False)
      else (d\<lparr>df_words := (df_words d)[shard div 64 := df_words d ! (shard div 64) OR push_bit (shard mod 64) 1], df_any := True\<rparr>, True))"

text \<open>The shards named by one word of the bitmap, lowest first.\<close>

function word_shards :: "nat \<Rightarrow> u64 \<Rightarrow> nat list" where
  "word_shards word bs =
     (if bs = 0 then [] else (word * 64 + trailing_zeros bs) # word_shards word (bs AND (bs - 1)))"
  by pat_completeness auto
termination
proof (relation "measure (\<lambda>(word, bs). card (bits bs))", goal_cases)
  case (2 word bs)
  show ?case using lowest_card [OF 2] by (simp only: in_measure case_prod_conv)
qed simp

declare word_shards.simps [simp del]

definition deferred_shards :: "deferred_set \<Rightarrow> nat list" where
  "deferred_shards d = concat (map (\<lambda>word. word_shards word (df_words d ! word)) [0..<length (df_words d)])"

definition announce_shard :: "nat \<Rightarrow> ('v, 'k, 'i, 'w) router \<Rightarrow> ('v, 'k, 'i, 'w) router" where
  "announce_shard i r = on_shard i (mb_announce (ro_shards r ! i)) r"

definition deferred_announce :: "deferred_set \<Rightarrow> ('v, 'k, 'i, 'w) router \<Rightarrow> deferred_set \<times> ('v, 'k, 'i, 'w) router" where
  "deferred_announce d r =
     (if \<not> df_any d then (d, r)
      else (d\<lparr>df_words := replicate (length (df_words d)) 0, df_any := False\<rparr>, fold announce_shard (deferred_shards d) r))"

section \<open>Batches\<close>

record 'v batch =
  ba_submitted :: nat
  ba_rejected :: "'v submit_error list"

definition batch_new :: "'v batch" where
  "batch_new = \<lparr>ba_submitted = 0, ba_rejected = []\<rparr>"

definition batch_record :: "'v submit_error + unit \<Rightarrow> 'v batch \<Rightarrow> 'v batch" where
  "batch_record outcome b =
     (case outcome of
        Inr _ \<Rightarrow> b\<lparr>ba_submitted := ba_submitted b + 1\<rparr>
      | Inl e \<Rightarrow> b\<lparr>ba_rejected := ba_rejected b @ [e]\<rparr>)"

definition batch_into_result :: "'v batch \<Rightarrow> 'v batch + unit" where
  "batch_into_result b = (if ba_rejected b = [] then Inr () else Inl b)"

definition batch_into_work :: "'v batch \<Rightarrow> 'v list" where
  "batch_into_work b = map submit_error_into_work (ba_rejected b)"

definition router_try_send_deferred ::
  "('v, 'k, 'i) work_ops \<Rightarrow> ('v, 'k, 'i) envelope \<Rightarrow> deferred_set \<Rightarrow> ('v, 'k, 'i, 'w) router \<Rightarrow>
   deferred_set \<times> ('v, 'k, 'i, 'w) router \<times> ('v submit_error + unit)" where
  "router_try_send_deferred ops e d r =
     (let index = shard_index ops r (en_key e); (m, res) = mb_try_send_deferred e (ro_shards r ! index); r = on_shard index m r in
      case res of
        Inr _ \<Rightarrow>
          (let (d, tracked) = defer_shard index d in
           if tracked then (d, r, Inr ()) else (d, announce_shard index r, Inr ()))
      | Inl _ \<Rightarrow> (d, r, submit_result res))"

fun try_batch_loop ::
  "('v, 'k, 'i) work_ops \<Rightarrow> nat \<Rightarrow> duration option \<Rightarrow> 'v list \<Rightarrow> 'v batch \<Rightarrow> deferred_set \<Rightarrow> ('v, 'k, 'i, 'w) router \<Rightarrow>
   'v batch \<times> deferred_set \<times> ('v, 'k, 'i, 'w) router" where
  "try_batch_loop ops classes at [] b d r = (b, d, r)"
| "try_batch_loop ops classes at (item # items) b d r =
     (case stamp ops classes item at of
        Inr e \<Rightarrow>
          (let (d, r, res) = router_try_send_deferred ops e d r in try_batch_loop ops classes at items (batch_record res b) d r)
      | Inl err \<Rightarrow> try_batch_loop ops classes at items (b\<lparr>ba_rejected := ba_rejected b @ [err]\<rparr>) d r)"

definition try_submit_batch ::
  "('v, 'k, 'i) work_ops \<Rightarrow> nat \<Rightarrow> duration \<Rightarrow> 'v list \<Rightarrow> ('v, 'k, 'i, 'w) router \<Rightarrow> ('v, 'k, 'i, 'w) router \<times> ('v batch + unit)" where
  "try_submit_batch ops classes now items r =
     (let (b, d, r) = try_batch_loop ops classes (arrival now r) items batch_new deferred_new r;
          (d, r) = deferred_announce d r in
      (r, batch_into_result b))"

text \<open>
  The waiting batch runs until a mailbox is full. Then it announces everything it pushed and waits for room
  with the same arrival; \<open>resume_batch\<close> continues with the outcome of that wait.
\<close>

datatype ('v, 'k, 'i, 'w) batch_run =
    BatchDone "('v, 'k, 'i, 'w) router" "'v batch + unit"
  | BatchWaits "('v, 'k, 'i) envelope" "'v list" "'v batch" deferred_set "('v, 'k, 'i, 'w) router"

fun batch_loop ::
  "('v, 'k, 'i) work_ops \<Rightarrow> nat \<Rightarrow> duration option \<Rightarrow> 'v list \<Rightarrow> 'v batch \<Rightarrow> deferred_set \<Rightarrow> ('v, 'k, 'i, 'w) router \<Rightarrow>
   ('v, 'k, 'i, 'w) batch_run" where
  "batch_loop ops classes at [] b d r = (let (d, r) = deferred_announce d r in BatchDone r (batch_into_result b))"
| "batch_loop ops classes at (item # items) b d r =
     (case stamp ops classes item at of
        Inl err \<Rightarrow> batch_loop ops classes at items (b\<lparr>ba_rejected := ba_rejected b @ [err]\<rparr>) d r
      | Inr e \<Rightarrow>
          (case router_try_send_deferred ops e d r of
             (d, r, Inr u) \<Rightarrow> batch_loop ops classes at items (batch_record (Inr u) b) d r
           | (d, r, Inl (SubmitFull work)) \<Rightarrow>
               (let (d, r) = deferred_announce d r in
                case stamp ops classes work at of
                  Inr e \<Rightarrow> BatchWaits e items b d r
                | Inl err \<Rightarrow> batch_loop ops classes at items (batch_record (Inl err) b) d r)
           | (d, r, Inl err) \<Rightarrow> batch_loop ops classes at items (batch_record (Inl err) b) d r))"

definition submit_batch ::
  "('v, 'k, 'i) work_ops \<Rightarrow> nat \<Rightarrow> duration \<Rightarrow> 'v list \<Rightarrow> ('v, 'k, 'i, 'w) router \<Rightarrow> ('v, 'k, 'i, 'w) batch_run" where
  "submit_batch ops classes now items r = batch_loop ops classes (arrival now r) items batch_new deferred_new r"

definition resume_batch ::
  "('v, 'k, 'i) work_ops \<Rightarrow> nat \<Rightarrow> duration option \<Rightarrow> 'v submit_error + unit \<Rightarrow> 'v list \<Rightarrow> 'v batch \<Rightarrow> deferred_set \<Rightarrow>
   ('v, 'k, 'i, 'w) router \<Rightarrow> ('v, 'k, 'i, 'w) batch_run" where
  "resume_batch ops classes at outcome items b d r = batch_loop ops classes at items (batch_record outcome b) d r"

text \<open>\<open>Router::send\<close>: the first poll of a waiting submission, and how its outcome is reported.\<close>

definition router_send_start ::
  "('v, 'k, 'i) work_ops \<Rightarrow> 'w \<Rightarrow> ('v, 'k, 'i) envelope \<Rightarrow> ('v, 'k, 'i, 'w) router \<Rightarrow>
   (('v, 'k, 'i, 'w) router \<times> ticket option \<times> unit wait_result) option" where
  "router_send_start ops w e r =
     (let index = shard_index ops r (en_key e) in
      map_option (\<lambda>(m, tk, res). (on_shard index m r, tk, res)) (mb_send_start w e (ro_shards r ! index)))"

fun send_outcome :: "('v, 'k, 'i) envelope \<Rightarrow> unit wait_result \<Rightarrow> ('v submit_error + unit) option" where
  "send_outcome e (WDone u) = Some (Inr u)"
| "send_outcome e WClosed = Some (Inl (ShardDown (en_work e)))"
| "send_outcome e WPending = None"

definition submit_start ::
  "('v, 'k, 'i) work_ops \<Rightarrow> nat \<Rightarrow> duration \<Rightarrow> 'w \<Rightarrow> 'v \<Rightarrow> ('v, 'k, 'i, 'w) router \<Rightarrow>
   (('v, 'k, 'i, 'w) router \<times> ticket option \<times> ('v submit_error + unit) option) option" where
  "submit_start ops classes now w work r =
     (case stamp ops classes work (arrival now r) of
        Inl err \<Rightarrow> Some (r, None, Some (Inl err))
      | Inr e \<Rightarrow> map_option (\<lambda>(r, tk, res). (r, tk, send_outcome e res)) (router_send_start ops w e r))"

end
