(* ===== verification/Mailbox_Props.thy ===== *)
theory Mailbox_Props
  imports Mailbox
begin

text \<open>
  The mailbox delivers every accepted item once and in order, never holds more than its capacity, and never
  lets its shard sleep on an announced item or on a mailbox without senders.
\<close>

section \<open>What a send does\<close>

lemma send_attempt_cases:
  assumes "send_attempt item m = (m1, r)"
  shows "(r = AReady () \<and> mb_try_send item m = (m1, Inr ())) \<or> (r \<noteq> AReady () \<and> m1 = m)"
  using assms
  by (auto simp: send_attempt_def mb_try_send_def mb_try_send_deferred_def split: prod.splits sum.splits try_send_error.splits if_splits)

lemma park_poll_cases:
  assumes "park_until_poll w attempt tk x s = Some (s', x', tk', r)"
  shows "(x' = x \<and> r = WClosed) \<or> (\<exists>a. attempt x = (x', a) \<and> (\<forall>v. r = WDone v \<longleftrightarrow> a = AReady v))"
proof (cases "case tk of Some t \<Rightarrow> Some (refresh_ticket t w s, Inr t) | None \<Rightarrow> park w s")
  case None
  then show ?thesis using assms by (simp add: park_until_poll_def)
next
  case (Some y)
  obtain x1 a where att: "attempt x = (x1, a)" by (cases "attempt x")
  show ?thesis using assms Some att by (cases y; cases "snd y"; cases a) (auto simp: park_until_poll_def)
qed

definition sent :: "'a \<Rightarrow> ('a, 'w) mailbox \<Rightarrow> ('a, 'w) mailbox \<Rightarrow> unit wait_result \<Rightarrow> bool" where
  "sent item m m' r \<longleftrightarrow> (\<exists>m1 wt. m' = m1\<lparr>mb_waiters := wt\<rparr> \<and>
     (if r = WDone () then mb_try_send item m = (m1, Inr ()) else m1 = m))"

lemma send_poll_cases:
  assumes "park_until_poll w (send_attempt item) tk m s = Some (wt, m1, tk', r)"
  shows "if r = WDone () then mb_try_send item m = (m1, Inr ()) else m1 = m"
  using park_poll_cases [OF assms] send_attempt_cases [of item m m1] by auto

lemma send_start_cases:
  assumes "park_until_start w (send_attempt item) m s = Some (wt, m1, tk', r)"
  shows "if r = WDone () then mb_try_send item m = (m1, Inr ()) else m1 = m"
proof -
  obtain m2 a where att: "send_attempt item m = (m2, a)" by (cases "send_attempt item m")
  show ?thesis
  proof (cases a)
    case ARetry
    then have "m2 = m" using send_attempt_cases [OF att] by simp
    then have "park_until_poll w (send_attempt item) None m s = Some (wt, m1, tk', r)" using assms att ARetry by (simp add: park_until_start_def)
    then show ?thesis by (rule send_poll_cases)
  qed (use assms att send_attempt_cases [OF att] in \<open>auto simp: park_until_start_def\<close>)
qed

lemma mb_send_sent:
  "mb_send_start w item m = Some (m', tk, r) \<Longrightarrow> sent item m m' r"
  "mb_send_poll w item tk0 m = Some (m', tk, r) \<Longrightarrow> sent item m m' r"
  using send_start_cases send_poll_cases by (fastforce simp: mb_send_start_def mb_send_poll_def sent_def)+

section \<open>The invariant\<close>

definition asleep :: "('a, 'w) mailbox \<Rightarrow> bool" where
  "asleep m \<longleftrightarrow> mb_parked m \<and> ws_waker (bell_owner (mb_bell m)) \<noteq> None \<and> \<not> mb_departed m"

definition mail_inv :: "('a, 'w) mailbox \<times> bool \<Rightarrow> bool" where
  "mail_inv x \<longleftrightarrow> (let (m, u) = x in
     0 < mb_capacity m \<and> length (mb_ring m) \<le> mb_capacity m \<and> ws_state (bell_owner (mb_bell m)) = WAITING \<and>
     (bell_closed (mb_bell m) \<longleftrightarrow> mb_departed m) \<and>
     (asleep m \<longrightarrow> (mb_ring m = [] \<or> u) \<and> 0 < mb_producers m))"

lemma ring_bell_awake:
  assumes "ws_state (bell_owner (mb_bell m)) = WAITING" "bell_closed (mb_bell m) \<longleftrightarrow> mb_departed m"
  shows "\<not> asleep (mb_ring_bell m)" "ws_state (bell_owner (mb_bell (mb_ring_bell m))) = WAITING"
    "bell_closed (mb_bell (mb_ring_bell m)) = bell_closed (mb_bell m)" "mb_ring (mb_ring_bell m) = mb_ring m"
    "mb_capacity (mb_ring_bell m) = mb_capacity m" "mb_departed (mb_ring_bell m) = mb_departed m"
    "mb_parked (mb_ring_bell m) = mb_parked m" "mb_producers (mb_ring_bell m) = mb_producers m"
  using assms by (auto simp: asleep_def mb_ring_bell_def bell_ring_def slot_wake_def slot_take_def Let_def)

lemma announce_awake:
  assumes "mail_inv (m, u)"
  shows "\<not> asleep (mb_announce m)" "mail_inv (mb_announce m, v)" "mb_ring (mb_announce m) = mb_ring m"
  using assms ring_bell_awake [of m] by (auto simp: mail_inv_def mb_announce_def asleep_def)

lemma try_send_inv:
  assumes "mail_inv (m, u)" "mb_try_send item m = (m', r)"
  shows "mail_inv (m', u \<and> r \<noteq> Inr ())" "mb_ring m' = mb_ring m @ (if r = Inr () then [item] else [])"
proof -
  have "mail_inv (m', u \<and> r \<noteq> Inr ()) \<and> mb_ring m' = mb_ring m @ (if r = Inr () then [item] else [])"
  proof (cases "mb_departed m \<or> mb_capacity m \<le> length (mb_ring m)")
    case True
    then have "\<exists>e. mb_try_send_deferred item m = (m, Inl e)" by (auto simp: mb_try_send_deferred_def)
    then show ?thesis using assms by (auto simp: mb_try_send_def)
  next
    case False
    let ?m = "m\<lparr>mb_ring := mb_ring m @ [item]\<rparr>"
    have "mail_inv (?m, True)" using assms(1) False by (auto simp: mail_inv_def asleep_def)
    note a = announce_awake [OF this]
    have "m' = mb_announce ?m" "r = Inr ()" using assms(2) False by (auto simp: mb_try_send_def mb_try_send_deferred_def)
    then show ?thesis using a by simp
  qed
  then show "mail_inv (m', u \<and> r \<noteq> Inr ())" "mb_ring m' = mb_ring m @ (if r = Inr () then [item] else [])" by auto
qed

lemma waiters_irrelevant [simp]:
  "mail_inv (m\<lparr>mb_waiters := wt\<rparr>, u) = mail_inv (m, u)" "mail_inv (m\<lparr>mb_waiters := wt, mb_woken := ws\<rparr>, u) = mail_inv (m, u)"
  by (simp_all add: mail_inv_def asleep_def)

lemma sent_inv:
  assumes "mail_inv (m, u)" "sent item m m' r"
  shows "mail_inv (m', u \<and> r \<noteq> WDone ())" "mb_ring m' = mb_ring m @ (if r = WDone () then [item] else [])"
proof -
  obtain m1 wt where m': "m' = m1\<lparr>mb_waiters := wt\<rparr>" "if r = WDone () then mb_try_send item m = (m1, Inr ()) else m1 = m"
    using assms(2) by (auto simp: sent_def)
  show "mail_inv (m', u \<and> r \<noteq> WDone ())" "mb_ring m' = mb_ring m @ (if r = WDone () then [item] else [])"
    using m' assms(1) try_send_inv [OF assms(1), of item m1 "Inr ()"] by (cases "r = WDone ()"; simp)+
qed

lemma release_inv:
  assumes "mail_inv (m, u)"
  shows "mail_inv (mb_release_capacity m, u)" "mb_ring (mb_release_capacity m) = mb_ring m"
    "mb_producers (mb_release_capacity m) = mb_producers m" "mb_bell (mb_release_capacity m) = mb_bell m"
    "mb_departed (mb_release_capacity m) = mb_departed m"
  using assms by (auto simp: mb_release_capacity_def mail_inv_def asleep_def split: prod.splits)

lemma take_cases:
  assumes "mail_inv (m, u)" "mb_take m = (m', r)"
  shows "mail_inv (m', u)" "mb_ring m = (case r of None \<Rightarrow> [] | Some a \<Rightarrow> [a]) @ mb_ring m'" "r = None \<Longrightarrow> m' = m"
    "r \<noteq> None \<Longrightarrow> \<not> mb_parked m'"
  using assms by (auto simp: mb_take_def mb_unpark_def mail_inv_def asleep_def Let_def split: list.splits if_splits)

lemma unpark_inv: "mail_inv (m, u) \<Longrightarrow> mail_inv (mb_unpark m, u)" "mb_ring (mb_unpark m) = mb_ring m"
  by (auto simp: mb_unpark_def mail_inv_def asleep_def)

lemma poll_recv_inv:
  assumes "mail_inv (m, u)" "\<not> mb_departed m" "mb_poll_recv w m = Some (m', r)"
  shows "mail_inv (m', u)" "mb_ring m = (case r of RItem a \<Rightarrow> [a] | _ \<Rightarrow> []) @ mb_ring m'"
    "r = RPending \<Longrightarrow> asleep m'" "r = RClosed \<Longrightarrow> mb_producers m' = 0 \<and> mb_ring m' = []"
proof -
  obtain m1 i where t: "mb_take m = (m1, i)" by (cases "mb_take m")
  note tc = take_cases [OF assms(1) t]
  have "mail_inv (m', u) \<and> mb_ring m = (case r of RItem a \<Rightarrow> [a] | _ \<Rightarrow> []) @ mb_ring m' \<and> (r = RPending \<longrightarrow> asleep m') \<and>
    (r = RClosed \<longrightarrow> mb_producers m' = 0 \<and> mb_ring m' = [])"
  proof (cases i)
    case (Some a)
    then show ?thesis using assms(3) t tc by (auto simp: mb_poll_recv_def)
  next
    case None
    then have m1: "m1 = m" "mb_ring m = []" using tc(2,3) t by (auto simp: mb_take_def Let_def split: list.splits)
    let ?m = "mb_release_capacity m"
    note ri = release_inv [OF assms(1)]
    have st: "ws_state (bell_owner (mb_bell m)) = WAITING" using assms(1) by (simp add: mail_inv_def)
    define b where "b = (mb_bell m)\<lparr>bell_owner := store_waker w (bell_owner (mb_bell m))\<rparr>"
    have b: "bell_register w (mb_bell ?m) = Some (b, [])" "ws_waker (bell_owner b) = Some w" "ws_state (bell_owner b) = WAITING"
      "bell_closed b = bell_closed (mb_bell m)"
      using ri(4) st by (auto simp: bell_register_def slot_register_def store_waker_def b_def)
    let ?p = "?m\<lparr>mb_bell := b, mb_woken := mb_woken ?m @ [], mb_parked := True\<rparr>"
    have empty: "mb_take ?p = (?p, None)" using m1 ri(2) by (simp add: mb_take_def)
    have eq: "(m', r) = (if mb_producers m = 0 then (mb_unpark ?p, RClosed) else (?p, RPending))"
      using assms(3) t None m1 b empty ri(3) by (auto simp: mb_poll_recv_def Let_def split: if_splits)
    have "mail_inv (mb_unpark ?p, u)" "mb_producers m \<noteq> 0 \<Longrightarrow> mail_inv (?p, u)" "asleep ?p"
      using ri(1) b m1 ri(2,3,5) assms(1,2) by (auto simp: mail_inv_def asleep_def mb_unpark_def)
    then show ?thesis using eq m1 ri(2,3) by (auto simp: unpark_inv(2) mb_unpark_def split: if_splits)
  qed
  then show "mail_inv (m', u)" "mb_ring m = (case r of RItem a \<Rightarrow> [a] | _ \<Rightarrow> []) @ mb_ring m'"
    "r = RPending \<Longrightarrow> asleep m'" "r = RClosed \<Longrightarrow> mb_producers m' = 0 \<and> mb_ring m' = []" by auto
qed

lemma try_recv_inv:
  assumes "mail_inv (m, u)" "mb_try_recv m = (m', r)"
  shows "mail_inv (m', u)" "mb_ring m = (case r of Inr a \<Rightarrow> [a] | _ \<Rightarrow> []) @ mb_ring m'"
proof -
  obtain m1 i where t: "mb_take m = (m1, i)" by (cases "mb_take m")
  note tc = take_cases [OF assms(1) t] and ri = release_inv [OF take_cases(1) [OF assms(1) t]]
  have "m' = mb_release_capacity m1" "r = (case i of Some a \<Rightarrow> Inr a | None \<Rightarrow> if mb_producers m = 0 then Inl RecvClosed else Inl RecvEmpty)"
    using assms(2) t by (auto simp: mb_try_recv_def Let_def)
  then show "mail_inv (m', u)" "mb_ring m = (case r of Inr a \<Rightarrow> [a] | _ \<Rightarrow> []) @ mb_ring m'"
    using tc(2) ri(1,2) by (auto split: option.splits)
qed

section \<open>Executions\<close>

fun mail_given :: "('a, 'w) mail_event \<Rightarrow> 'a list" where
  "mail_given (MTrySend a (Inr _)) = [a]"
| "mail_given (MDeferred a (Inr _)) = [a]"
| "mail_given (MSend w a tk (WDone _)) = [a]"
| "mail_given (MSendPoll w a tk (WDone _)) = [a]"
| "mail_given _ = []"

fun mail_taken :: "('a, 'w) mail_event \<Rightarrow> 'a list" where
  "mail_taken (MPollRecv w (RItem a)) = [a]"
| "mail_taken (MTryRecv (Inr a)) = [a]"
| "mail_taken _ = []"

lemma given_sum: "mail_given (MTrySend a r) = (if r = Inr () then [a] else [])" "mail_given (MDeferred a r) = (if r = Inr () then [a] else [])"
  by (cases r; simp)+

lemma given_wait: "mail_given (MSend w a tk r) = (if r = WDone () then [a] else [])" "mail_given (MSendPoll w a tk r) = (if r = WDone () then [a] else [])"
  by (cases r; simp)+

lemma taken_recv: "mail_taken (MPollRecv w r) = (case r of RItem a \<Rightarrow> [a] | _ \<Rightarrow> [])" "mail_taken (MTryRecv q) = (case q of Inr a \<Rightarrow> [a] | _ \<Rightarrow> [])"
  by (cases r; simp) (cases q; simp)

lemma mail_step_sim:
  assumes "mail_step x e y" "mail_inv x"
  shows "mail_inv y \<and> mb_ring (fst x) @ mail_given e = mail_taken e @ mb_ring (fst y)"
  using assms
proof cases
  case (mail_clone m u)
  then show ?thesis using assms(2) by (auto simp: mailbox_clone_def mail_inv_def asleep_def)
next
  case (mail_drop m u)
  show ?thesis
  proof (cases "mb_producers m = 1")
    case True
    let ?m = "m\<lparr>mb_producers := 0\<rparr>"
    have "ws_state (bell_owner (mb_bell ?m)) = WAITING" "bell_closed (mb_bell ?m) \<longleftrightarrow> mb_departed ?m" using assms(2) mail_drop by (auto simp: mail_inv_def)
    from ring_bell_awake [OF this] show ?thesis using assms(2) mail_drop True by (auto simp: mailbox_drop_def mail_inv_def)
  next
    case False
    then show ?thesis using assms(2) mail_drop by (auto simp: mailbox_drop_def mail_inv_def asleep_def)
  qed
next
  case (mail_try_send m a m' r u)
  then show ?thesis using try_send_inv [of m u a m' r] assms(2) by (simp add: given_sum)
next
  case (mail_deferred m a m' r u)
  then show ?thesis using assms(2) by (auto simp: given_sum mb_try_send_deferred_def mail_inv_def asleep_def split: if_splits)
next
  case (mail_announce m u)
  then show ?thesis using announce_awake(2) [of m u False] announce_awake(3) [of m u] assms(2) by simp
next
  case (mail_send m w a m' tk r u)
  then show ?thesis using sent_inv [of m u a m' r] mb_send_sent(1) [of w a m m' tk r] assms(2) by (simp add: given_wait)
next
  case (mail_send_poll m w a tk m' tk' r u)
  then show ?thesis using sent_inv [of m u a m' r] mb_send_sent(2) [of w a tk m m' tk' r] assms(2) by (simp add: given_wait)
next
  case (mail_send_drop m u tk)
  then show ?thesis using assms(2) by (simp add: mb_send_drop_def split: prod.splits)
next
  case (mail_recv m w m' r u)
  then show ?thesis using poll_recv_inv [of m u w m' r] assms(2) by (simp add: taken_recv)
next
  case (mail_try_recv m m' r u)
  then show ?thesis using try_recv_inv [of m u m' r] assms(2) by (simp add: taken_recv)
next
  case (mail_release m u)
  then show ?thesis using release_inv [of m u] assms(2) by simp
next
  case (mail_inbox_drop m u)
  then show ?thesis using assms(2) by (auto simp: inbox_drop_def mail_inv_def asleep_def bell_close_def slot_take_def split: prod.splits)
qed

section \<open>What a call answers\<close>

lemma poll_recv_answer:
  assumes "mail_inv (m, u)" "\<not> mb_departed m"
  shows "\<exists>m'. mb_poll_recv w m = Some (m', case mb_ring m of a # _ \<Rightarrow> RItem a | [] \<Rightarrow> if mb_producers m = 0 then RClosed else RPending)"
proof (cases "mb_ring m")
  case (Cons a rest)
  then show ?thesis by (simp add: mb_poll_recv_def mb_take_def Let_def)
next
  case Nil
  have "ws_state (bell_owner (mb_bell m)) = WAITING" using assms(1) by (simp add: mail_inv_def)
  then show ?thesis using Nil release_inv(2-4) [OF assms(1)]
    by (auto simp: mb_poll_recv_def mb_take_def Let_def bell_register_def slot_register_def)
qed

lemma poll_recv_waker:
  assumes "mail_inv (m, u)" "mb_poll_recv w m = Some (m', RPending)"
  shows "ws_waker (bell_owner (mb_bell m')) = Some w"
  using assms(2) release_inv(2-4) [OF assms(1)] assms(1) [unfolded mail_inv_def]
  by (auto simp: mb_poll_recv_def mb_take_def Let_def bell_register_def slot_register_def store_waker_def split: list.splits if_splits)

lemma try_recv_answer:
  "snd (mb_try_recv m) = (case mb_ring m of a # _ \<Rightarrow> Inr a | [] \<Rightarrow> if mb_producers m = 0 then Inl RecvClosed else Inl RecvEmpty)"
  by (cases "mb_ring m") (auto simp: mb_try_recv_def mb_take_def Let_def)

lemma try_send_answer:
  "snd (mb_try_send a m) =
     (if mb_departed m then Inl (Closed a) else if length (mb_ring m) < mb_capacity m then Inr () else Inl (Full a))"
  by (simp add: mb_try_send_def mb_try_send_deferred_def)

section \<open>The steps of the senders\<close>

fun by_sender :: "('a, 'w) mail_event \<Rightarrow> bool" where
  "by_sender (MPollRecv w r) = False"
| "by_sender (MTryRecv r) = False"
| "by_sender MRelease = False"
| "by_sender MInboxDrop = False"
| "by_sender _ = True"

lemma sender_departed:
  assumes "mail_step x e y" "by_sender e"
  shows "mb_departed (fst y) = mb_departed (fst x)" "mail_taken e = []"
    "mb_producers (fst x) = 0 \<Longrightarrow> mb_producers (fst y) = 0 \<and> mb_ring (fst y) = mb_ring (fst x)"
proof -
  have ring: "mb_departed (mb_ring_bell m) = mb_departed m" for m :: "('a, 'b) mailbox" by (simp add: mb_ring_bell_def case_prod_beta)
  then have ts: "mb_departed (fst (mb_try_send a m)) = mb_departed m" for a and m :: "('a, 'b) mailbox"
    by (auto simp: mb_try_send_def mb_try_send_deferred_def mb_announce_def)
  have sent: "mb_departed m' = mb_departed m" if "sent a m m' r" for a and m m' :: "('a, 'b) mailbox" and r
    using that ts [of a m] by (auto simp: sent_def split: if_splits)
  show "mb_departed (fst y) = mb_departed (fst x)"
    using assms(1,2)
  proof cases
    case (mail_try_send m a m' r u)
    then show ?thesis using ts [of a m] by simp
  qed (auto simp: mailbox_clone_def mailbox_drop_def ring Let_def mb_announce_def mb_send_drop_def mb_try_send_deferred_def
      dest!: mb_send_sent sent split: if_splits prod.splits)
  show "mail_taken e = []" using assms(2) by (cases e) auto
  show "mb_producers (fst x) = 0 \<Longrightarrow> mb_producers (fst y) = 0 \<and> mb_ring (fst y) = mb_ring (fst x)"
    using assms by cases (auto simp: mb_send_drop_def split: prod.splits)
qed

text \<open>
  \<open>watching w log m\<close>: since the log of calls was \<open>log\<close>, the waker \<open>w\<close> has been called, or it is still in
  the doorbell of a parked shard.
\<close>

definition watching :: "'w \<Rightarrow> 'w list \<Rightarrow> ('a, 'w) mailbox \<Rightarrow> bool" where
  "watching w log m \<longleftrightarrow> (\<exists>new. mb_woken m = log @ new \<and>
     (w \<in> set new \<or> asleep m \<and> ws_waker (bell_owner (mb_bell m)) = Some w))"

lemma watching_ring_bell:
  assumes "mail_inv (m, u)" "watching w log m"
  shows "watching w log (mb_ring_bell m)"
  using assms
  by (auto simp: watching_def mail_inv_def asleep_def mb_ring_bell_def bell_ring_def slot_wake_def slot_take_def Let_def
      split: option.splits)

lemma watching_cong:
  assumes "watching w log m" "mb_woken m' = mb_woken m @ ws" "mb_bell m' = mb_bell m" "mb_parked m' = mb_parked m" "mb_departed m' = mb_departed m"
  shows "watching w log m'"
  using assms by (auto simp: watching_def asleep_def)

lemma watching_announce:
  assumes "mail_inv (m, u)" "watching w log m"
  shows "watching w log (mb_announce m)"
  using watching_ring_bell [OF assms] assms(2) by (simp add: mb_announce_def)

lemma watching_try_send:
  assumes "mail_inv (m, u)" "watching w log m"
  shows "watching w log (fst (mb_try_send a m))"
proof (cases "mb_departed m \<or> mb_capacity m \<le> length (mb_ring m)")
  case False
  let ?m = "m\<lparr>mb_ring := mb_ring m @ [a]\<rparr>"
  have "mail_inv (?m, True)" "watching w log ?m" using assms False by (auto simp: mail_inv_def asleep_def watching_def)
  then show ?thesis using watching_announce False by (simp add: mb_try_send_def mb_try_send_deferred_def)
qed (use assms in \<open>auto simp: mb_try_send_def mb_try_send_deferred_def\<close>)

lemma watching_sent:
  assumes "mail_inv (m, u)" "watching w log m" "sent a m m' r"
  shows "watching w log m'"
proof -
  obtain m1 wt where m1: "m' = m1\<lparr>mb_waiters := wt\<rparr>" "m1 = m \<or> m1 = fst (mb_try_send a m)"
    using assms(3) by (auto simp: sent_def split: if_splits)
  then have "watching w log m1" using assms(2) watching_try_send [OF assms(1,2), of a] by auto
  then show ?thesis unfolding m1(1) by (rule watching_cong [where ws = "[]"]) simp_all
qed

lemma watching_step:
  assumes "mail_step x e y" "by_sender e" "mail_inv x" "watching w log (fst x)"
  shows "watching w log (fst y)"
  using assms(1,2)
proof cases
  case (mail_clone m u)
  then show ?thesis using assms(4) watching_cong [of w log m "mailbox_clone m" "[]"] by (simp add: mailbox_clone_def)
next
  case (mail_drop m u)
  let ?m = "m\<lparr>mb_producers := mb_producers m - 1\<rparr>"
  have w: "watching w log ?m" using assms(4) mail_drop watching_cong [of w log m ?m "[]"] by simp
  have "ws_state (bell_owner (mb_bell m)) = WAITING" "bell_closed (mb_bell m) = mb_departed m" using assms(3) mail_drop by (auto simp: mail_inv_def)
  then have "watching w log (mb_ring_bell ?m)" using w
    by (auto simp: watching_def asleep_def mb_ring_bell_def bell_ring_def slot_wake_def slot_take_def Let_def split: option.splits)
  then show ?thesis using w mail_drop by (auto simp: mailbox_drop_def Let_def)
next
  case (mail_try_send m a m' r u)
  then show ?thesis using watching_try_send [of m u w log a] assms(3,4) by simp
next
  case (mail_deferred m a m' r u)
  then show ?thesis using assms(4) watching_cong [of w log m m' "[]"] by (auto simp: mb_try_send_deferred_def split: if_splits)
next
  case (mail_announce m u)
  then show ?thesis using watching_announce [of m u] assms(3,4) by simp
next
  case (mail_send m v a m' tk r u)
  then show ?thesis using watching_sent [of m u w log a m' r] mb_send_sent(1) [of v a m m' tk r] assms(3,4) by simp
next
  case (mail_send_poll m v a tk m' tk' r u)
  then show ?thesis using watching_sent [of m u w log a m' r] mb_send_sent(2) [of v a tk m m' tk' r] assms(3,4) by simp
next
  case (mail_send_drop m u tk)
  then show ?thesis using assms(4) by (auto simp: mb_send_drop_def intro: watching_cong split: prod.splits)
qed simp_all

lemma watching_run:
  assumes "run mail_step x evs y" "list_all by_sender evs" "mail_inv x" "watching w log (fst x)"
  shows "mail_inv y \<and> watching w log (fst y)"
  using assms
proof (induction rule: run.induct)
  case (run_snoc x es y e z)
  then show ?case using watching_step [of y e z] mail_step_sim [of y e z] by simp
qed simp

section \<open>The wait list is closed only with the inbox\<close>

definition closes_late :: "('a, 'w) mailbox \<Rightarrow> bool" where
  "closes_late m \<longleftrightarrow> (wt_closed (mb_waiters m) \<longrightarrow> mb_departed m)"

lemma closed_publish [simp]: "wt_closed (publish s) = wt_closed s" "wt_closed (compact s) = wt_closed s"
  by (simp_all add: publish_def compact_def)

lemma closed_retire [simp]: "wt_closed (fst (retire i s)) = wt_closed s"
  by (simp add: retire_def Let_def split: option.splits)

lemma closed_wake_loop: "wt_closed (fst (wake_loop ts s)) = wt_closed s"
proof (induction ts s rule: wake_loop.induct)
  case (2 slot generation rest s)
  obtain s1 x where r: "retire slot s = (s1, x)" by (cases "retire slot s")
  have "wt_closed s1 = wt_closed s" using closed_retire [of slot s] r by simp
  then show ?case using 2 r by (cases x) auto
qed simp

lemma closed_wake_times: "(\<And>s. wt_closed (fst (wake s)) = wt_closed s) \<Longrightarrow> wt_closed (fst (wake_times wake n s)) = wt_closed s"
proof (induction n arbitrary: s)
  case (Suc n)
  obtain s1 x where w: "wake s = (s1, x)" by (cases "wake s")
  then have "wt_closed s1 = wt_closed s" using Suc.prems [of s] by simp
  then show ?case using Suc w by (cases x) (simp_all add: case_prod_beta)
qed simp

lemma closed_waiters_ops:
  fixes s :: "'w waiters"
  shows "wt_closed (fst (wake_one s)) = wt_closed s" "wt_closed (fst (release_capacity n s)) = wt_closed s"
  "wt_closed (fst (cancel_ticket t s)) = wt_closed s" "wt_closed (refresh_ticket t w s) = wt_closed s"
  "wt_closed (finish_registration tk s) = wt_closed s" "wt_closed (fst (drop_registration tk s)) = wt_closed s"
proof -
  show o: "wt_closed (fst (wake_one s)) = wt_closed s" for s :: "'w waiters"
    using closed_wake_loop [of "wt_order s" s] by (simp add: wake_one_def case_prod_beta)
  show "wt_closed (fst (release_capacity n s)) = wt_closed s" using closed_wake_times [of wake_one n s] o by (simp add: release_capacity_def)
  show c: "wt_closed (fst (cancel_ticket t s)) = wt_closed s" for t and s :: "'w waiters" by (simp add: cancel_ticket_def)
  show "wt_closed (refresh_ticket t w s) = wt_closed s" by (simp add: refresh_ticket_def Let_def)
  show "wt_closed (finish_registration tk s) = wt_closed s" using c by (simp add: finish_registration_def split: option.splits)
  show "wt_closed (fst (drop_registration tk s)) = wt_closed s"
    using c o by (auto simp: drop_registration_def split: option.splits prod.splits bool.splits) (metis fst_conv)+
qed

lemma closed_park: "park w s = Some (s', x) \<Longrightarrow> wt_closed s' = wt_closed s \<and> (\<forall>u. x = Inl u \<longrightarrow> wt_closed s)"
  by (auto simp: park_def take_slot_def Let_def split: if_splits option.splits)

lemma closed_poll:
  assumes "park_until_poll w attempt tk x s = Some (s', x', tk', r)"
  shows "wt_closed s' = wt_closed s" "r = WClosed \<Longrightarrow> wt_closed s \<or> snd (attempt x) = AClosed"
proof -
  obtain s1 y where p: "(case tk of Some t \<Rightarrow> Some (refresh_ticket t w s, Inr t) | None \<Rightarrow> park w s) = Some (s1, y)"
    using assms by (auto simp: park_until_poll_def split: option.splits)
  have s1: "wt_closed s1 = wt_closed s" "\<And>u. y = Inl u \<Longrightarrow> wt_closed s"
    using p closed_park [of w s s1 y] by (auto simp: closed_waiters_ops(4) split: option.splits)
  obtain x1 a where att: "attempt x = (x1, a)" by (cases "attempt x")
  have "wt_closed s' = wt_closed s \<and> (r = WClosed \<longrightarrow> wt_closed s \<or> snd (attempt x) = AClosed)"
    using assms p att s1 closed_waiters_ops(5) [of _ s1] by (cases y; cases a) (auto simp: park_until_poll_def)
  then show "wt_closed s' = wt_closed s" "r = WClosed \<Longrightarrow> wt_closed s \<or> snd (attempt x) = AClosed" by auto
qed

lemma try_send_keeps: "mb_waiters (fst (mb_try_send a m)) = mb_waiters m" "mb_departed (fst (mb_try_send a m)) = mb_departed m"
  by (simp_all add: mb_try_send_def mb_try_send_deferred_def mb_announce_def mb_ring_bell_def case_prod_beta)

lemma attempt_closed: "snd (send_attempt a m) = AClosed \<Longrightarrow> mb_departed m"
  by (auto simp: send_attempt_def mb_try_send_def mb_try_send_deferred_def split: if_splits)

lemma attempt_keeps: "mb_waiters (fst (send_attempt a m)) = mb_waiters m" "mb_departed (fst (send_attempt a m)) = mb_departed m"
  using try_send_keeps [of a m] by (auto simp: send_attempt_def split: prod.splits sum.splits try_send_error.splits)

lemma closed_start:
  assumes "park_until_start w (send_attempt a) m s = Some (s', m', tk', r)"
  shows "wt_closed s' = wt_closed s" "r = WClosed \<Longrightarrow> wt_closed s \<or> mb_departed m"
proof -
  obtain m1 x where att: "send_attempt a m = (m1, x)" by (cases "send_attempt a m")
  have "wt_closed s' = wt_closed s \<and> (r = WClosed \<longrightarrow> wt_closed s \<or> mb_departed m)"
  proof (cases x)
    case ARetry
    then have "m1 = m" using send_attempt_cases [OF att] by simp
    then have "park_until_poll w (send_attempt a) None m s = Some (s', m', tk', r)" using assms att ARetry by (simp add: park_until_start_def)
    from closed_poll [OF this] show ?thesis using attempt_closed [of a m] by auto
  qed (use assms att attempt_closed [of a m] in \<open>auto simp: park_until_start_def\<close>)
  then show "wt_closed s' = wt_closed s" "r = WClosed \<Longrightarrow> wt_closed s \<or> mb_departed m" by auto
qed

lemma send_closed:
  assumes "mb_send_start w a m = Some (m', tk, r) \<or> mb_send_poll w a tk0 m = Some (m', tk, r)" "closes_late m"
  shows "wt_closed (mb_waiters m') = wt_closed (mb_waiters m)" "r = WClosed \<Longrightarrow> mb_departed m"
  using assms closed_start(1,2) closed_poll(1,2) attempt_closed
  unfolding mb_send_start_def mb_send_poll_def closes_late_def by fastforce+

lemma take_keeps: "mb_waiters (fst (mb_take m)) = mb_waiters m" "mb_departed (fst (mb_take m)) = mb_departed m"
  by (auto simp: mb_take_def mb_unpark_def Let_def split: list.splits)

lemma release_closes_late: "closes_late (mb_release_capacity m) \<longleftrightarrow> closes_late m"
  using closed_waiters_ops(2) [of "mb_freed m" "mb_waiters m"] by (simp add: closes_late_def mb_release_capacity_def case_prod_beta)

lemma poll_recv_closes_late:
  assumes "mb_poll_recv w m = Some (m', r)" "closes_late m"
  shows "closes_late m'"
proof (cases "mb_ring m")
  case (Cons a rest)
  then show ?thesis using assms by (auto simp: mb_poll_recv_def mb_take_def mb_unpark_def Let_def closes_late_def split: if_splits)
next
  case Nil
  have "mb_ring (mb_release_capacity m) = []" using Nil by (simp add: mb_release_capacity_def case_prod_beta)
  then show ?thesis using Nil assms release_closes_late [of m]
    by (auto simp: mb_poll_recv_def mb_take_def mb_unpark_def Let_def closes_late_def split: option.splits if_splits)
qed

lemma mail_step_closes_late:
  assumes "mail_step x e y" "closes_late (fst x)"
  shows "closes_late (fst y)"
  using assms(1)
proof cases
  case (mail_try_send m a m' r u)
  then show ?thesis using try_send_keeps [of a m] assms(2) by (simp add: closes_late_def)
next
  case (mail_send m w a m' tk r u)
  then show ?thesis using send_closed(1) [of w a m m' tk r] sender_departed(1) [OF assms(1)] assms(2) by (simp add: closes_late_def)
next
  case (mail_send_poll m w a tk m' tk' r u)
  then show ?thesis using send_closed(1) [of w a m m' tk' r tk] sender_departed(1) [OF assms(1)] assms(2) by (simp add: closes_late_def)
next
  case (mail_send_drop m u tk)
  then show ?thesis using assms(2) closed_waiters_ops(6) [of tk "mb_waiters m"] by (simp add: closes_late_def mb_send_drop_def case_prod_beta)
next
  case (mail_recv m w m' r u)
  then show ?thesis using assms(2) poll_recv_closes_late by auto
next
  case (mail_try_recv m m' r u)
  then have "m' = mb_release_capacity (fst (mb_take m))" by (auto simp: mb_try_recv_def Let_def split: prod.splits)
  then show ?thesis using mail_try_recv assms(2) take_keeps [of m] by (simp add: release_closes_late) (simp add: closes_late_def)
next
  case (mail_release m u)
  then show ?thesis using assms(2) by (simp add: release_closes_late)
qed (use assms(2) in \<open>auto simp: closes_late_def mailbox_clone_def mailbox_drop_def mb_announce_def mb_ring_bell_def inbox_drop_def
      mb_try_send_deferred_def Let_def case_prod_beta split: if_splits\<close>)

lemma mail_run_closes_late: "run mail_step x evs y \<Longrightarrow> closes_late (fst x) \<Longrightarrow> closes_late (fst y)"
  by (induction rule: run.induct) (auto intro: mail_step_closes_late)

lemma mail_init_closes_late: "mail_init cap x \<Longrightarrow> closes_late (fst x)"
  by (cases x) (auto simp: mail_init_def mailbox_channel_def closes_late_def waiters_new_def split: if_splits)

text \<open>How a wait for room ends: the item is the newest in the queue, or the shard has departed.\<close>

lemma send_ended:
  assumes "mail_step (m, u) e (m', u')" "e = MSend w a tk r \<or> e = MSendPoll w a tk r" "mail_inv (m, u)" "closes_late m"
  shows "r = WDone () \<Longrightarrow> \<not> mb_departed m' \<and> (\<exists>q. mb_ring m' = q @ [a])" "r = WClosed \<Longrightarrow> mb_departed m'"
proof -
  obtain tk0 where s: "mb_send_start w a m = Some (m', tk, r) \<or> mb_send_poll w a tk0 m = Some (m', tk, r)"
    using assms(1,2) by (auto elim: mail_step.cases)
  then have sent: "sent a m m' r" using mb_send_sent(1) [of w a m m' tk r] mb_send_sent(2) [of w a tk0 m m' tk r] by blast
  have d: "mb_departed m' = mb_departed m" using sender_departed(1) [OF assms(1)] assms(2) by auto
  show "\<not> mb_departed m' \<and> (\<exists>q. mb_ring m' = q @ [a])" if "r = WDone ()"
  proof -
    have "snd (mb_try_send a m) = Inr ()" using sent that by (auto simp: sent_def)
    then show ?thesis using d try_send_answer [of a m] sent_inv [OF assms(3) sent] that by (auto split: if_splits)
  qed
  show "r = WClosed \<Longrightarrow> mb_departed m'" using send_closed(2) [OF s assms(4)] d by simp
qed

interpretation mail: history "mail_init cap" mail_step mail_inv mail_given mail_taken "\<lambda>x. mb_ring (fst x)" for cap
proof unfold_locales
  show "mail_inv x" if "mail_init cap x" for x :: "('a, 'b) mailbox \<times> bool"
    using that by (cases x) (auto simp: mail_init_def mailbox_channel_def mail_inv_def asleep_def bell_new_def waker_slot_new_def split: if_splits)
  show "mb_ring (fst x) = []" if "mail_init cap x" for x :: "('a, 'b) mailbox \<times> bool"
    using that by (cases x) (auto simp: mail_init_def mailbox_channel_def split: if_splits)
qed (use mail_step_sim in blast)+

section \<open>Properties\<close>

lemma mail_step_capacity: "mail_step x e y \<Longrightarrow> mb_capacity (fst y) = mb_capacity (fst x)"
proof -
  have ring: "mb_capacity (mb_ring_bell m) = mb_capacity m" "mb_capacity (mb_announce m) = mb_capacity m"
    "mb_capacity (mb_release_capacity m) = mb_capacity m" "mb_capacity (mb_unpark m) = mb_capacity m"
    "mb_capacity (fst (mb_take m)) = mb_capacity m" for m :: "('a, 'b) mailbox"
    by (auto simp: mb_ring_bell_def mb_announce_def mb_release_capacity_def mb_unpark_def mb_take_def Let_def split: list.splits prod.splits)
  then have ts: "mb_capacity (fst (mb_try_send a m)) = mb_capacity m" for a and m :: "('a, 'b) mailbox"
    by (auto simp: mb_try_send_def mb_try_send_deferred_def)
  have sent: "mb_capacity m' = mb_capacity m" if "sent a m m' r" for a and m m' :: "('a, 'b) mailbox" and r
    using that ts [of a m] by (auto simp: sent_def split: if_splits)
  assume "mail_step x e y"
  then show ?thesis
  proof cases
    case (mail_try_send m a m' r u)
    then show ?thesis using ts [of a m] by simp
  next
    case (mail_recv m w m' r u)
    then show ?thesis
      by (cases "mb_ring m") (auto simp: mb_poll_recv_def mb_take_def Let_def ring split: option.splits list.splits if_splits)
  next
    case (mail_try_recv m m' r u)
    then show ?thesis by (cases "mb_ring m") (auto simp: mb_try_recv_def mb_take_def Let_def ring split: prod.splits)
  qed (auto simp: mailbox_clone_def mailbox_drop_def ring Let_def mb_send_drop_def mb_try_send_deferred_def inbox_drop_def
      dest!: mb_send_sent sent split: if_splits prod.splits)
qed

lemma mail_capacity:
  assumes "run mail_step x evs y" "mail_init cap x"
  shows "mb_capacity (fst y) = cap"
  using assms
proof (induction rule: run.induct)
  case (run_snoc x es y e z)
  then show ?case using mail_step_capacity [of y e z] by simp
qed (auto simp: mail_init_def mailbox_channel_def split: if_splits)

text \<open>
  \<open>will_wake w m u\<close>: whatever the senders do from here on, \<open>w\<close> has been called once an announced item is
  queued or no sender is left.
\<close>

definition will_wake :: "'w \<Rightarrow> ('a, 'w) mailbox \<Rightarrow> bool \<Rightarrow> bool" where
  "will_wake w m u \<longleftrightarrow> (\<forall>evs m' u'. run mail_step (m, u) evs (m', u') \<and> list_all by_sender evs \<and>
     (mb_ring m' \<noteq> [] \<and> \<not> u' \<or> mb_producers m' = 0) \<longrightarrow> (\<exists>ws. mb_woken m' = mb_woken m @ ws \<and> w \<in> set ws))"

lemma pending_poll_will_wake:
  assumes "mail_inv (m, u)" "\<not> mb_departed m" "mb_poll_recv w m = Some (m', RPending)"
  shows "asleep m' \<and> will_wake w m' u"
proof -
  note p = poll_recv_inv [OF assms]
  have w: "watching w (mb_woken m') m'" using p(3) poll_recv_waker [OF assms(1,3)] by (simp add: watching_def)
  have "\<exists>ws. mb_woken m2 = mb_woken m' @ ws \<and> w \<in> set ws"
    if "run mail_step (m', u) evs (m2, u2)" "list_all by_sender evs" "mb_ring m2 \<noteq> [] \<and> \<not> u2 \<or> mb_producers m2 = 0" for evs m2 u2
  proof -
    have "mail_inv (m2, u2)" "watching w (mb_woken m') m2" using watching_run [OF that(1,2) p(1)] w by auto
    then show ?thesis using that(3) by (auto simp: watching_def mail_inv_def)
  qed
  then show ?thesis using p(3) unfolding will_wake_def by blast
qed

text \<open>
  A mailbox of one place on which the shard goes to sleep with waker 9, and a sender that then sends.
\<close>

definition demo_mail :: "(nat, nat) mailbox" where
  "demo_mail = the (mailbox_channel 1)"

definition demo_mail_asleep :: "(nat, nat) mailbox" where
  "demo_mail_asleep = fst (the (mb_poll_recv 9 demo_mail))"

definition demo_mail_sent :: "(nat, nat) mailbox" where
  "demo_mail_sent = fst (mb_try_send 5 demo_mail_asleep)"

lemmas mail_eval = demo_mail_def demo_mail_asleep_def demo_mail_sent_def mailbox_channel_def

lemma demo_mail_init: "mail_init 1 (demo_mail, False)"
  by (simp add: mail_init_def mail_eval)

lemma demo_mail_run: "run mail_step (demo_mail_asleep, False) [MTrySend 5 (Inr ())] (demo_mail_sent, False)"
proof -
  have "mb_producers demo_mail_asleep = 1" "mb_try_send 5 demo_mail_asleep = (demo_mail_sent, Inr ())"
    unfolding demo_mail_sent_def by code_simp+
  then have "mail_step (demo_mail_asleep, False) (MTrySend 5 (Inr ())) (demo_mail_sent, False \<and> (Inr () :: nat try_send_error + unit) \<noteq> Inr ())"
    by (intro mail_try_send) simp_all
  then show ?thesis by (intro run_single) simp
qed

text \<open>
  C34. The mailbox delivers, and wakes its shard. Over every execution of its operations by any number of
  senders and the one shard: the items accepted are, in order, the items received followed by the items still
  queued, and never more than the capacity it was built with are queued. A send is refused only by a departed
  shard or a full queue; a receive hands out the head of the queue if there is one, and otherwise reports that
  the senders are gone or that there is nothing yet. A poll of the inbox that answers pending has left the
  shard asleep, and whatever the senders do from then on, its waker has been called as soon as an item is
  queued that is not a push a batch has still to announce, and as soon as the last sender is gone. So the
  shard never sleeps on an announced item or on a mailbox without senders.
\<close>

theorem mailbox_delivers:
  assumes "mail_init cap x0" "run mail_step x0 evs (m, unannounced)"
  shows "concat (map mail_given evs) = concat (map mail_taken evs) @ mb_ring m \<and> length (mb_ring m) \<le> mb_capacity m \<and> mb_capacity m = cap \<and>
    (\<forall>a. snd (mb_try_send a m) =
       (if mb_departed m then Inl (Closed a) else if length (mb_ring m) < cap then Inr () else Inl (Full a))) \<and>
    snd (mb_try_recv m) = (case mb_ring m of a # _ \<Rightarrow> Inr a | [] \<Rightarrow> if mb_producers m = 0 then Inl RecvClosed else Inl RecvEmpty) \<and>
    (\<not> mb_departed m \<longrightarrow> (\<exists>m' r. mb_poll_recv w m = Some (m', r) \<and>
       r = (case mb_ring m of a # _ \<Rightarrow> RItem a | [] \<Rightarrow> if mb_producers m = 0 then RClosed else RPending) \<and>
       (r = RPending \<longrightarrow> asleep m' \<and> will_wake w m' unannounced))) \<and>
    (asleep m \<longrightarrow> (mb_ring m = [] \<or> unannounced) \<and> 0 < mb_producers m)"
proof -
  have inv: "mail_inv (m, unannounced)" by (rule mail.reachable_inv [OF assms])
  have cap: "mb_capacity m = cap" using mail_capacity [OF assms(2,1)] by simp
  have poll: "\<not> mb_departed m \<longrightarrow> (\<exists>m' r. mb_poll_recv w m = Some (m', r) \<and>
      r = (case mb_ring m of a # _ \<Rightarrow> RItem a | [] \<Rightarrow> if mb_producers m = 0 then RClosed else RPending) \<and>
      (r = RPending \<longrightarrow> asleep m' \<and> will_wake w m' unannounced))"
    using poll_recv_answer [OF inv, of w] pending_poll_will_wake [OF inv, of w] by fastforce
  have "concat (map mail_given evs) = concat (map mail_taken evs) @ mb_ring m" using mail.run_fifo [OF assms] by simp
  moreover have "length (mb_ring m) \<le> mb_capacity m" "asleep m \<longrightarrow> (mb_ring m = [] \<or> unannounced) \<and> 0 < mb_producers m"
    using inv by (simp_all add: mail_inv_def)
  ultimately show ?thesis using poll cap by (simp only: try_send_answer try_recv_answer) simp
qed

theorem mailbox_delivers_witness:
  "mail_init 1 (demo_mail, False) \<and> mb_poll_recv 9 demo_mail = Some (demo_mail_asleep, RPending) \<and> asleep demo_mail_asleep \<and>
   run mail_step (demo_mail_asleep, False) [MTrySend 5 (Inr ())] (demo_mail_sent, False) \<and> mb_ring demo_mail_sent = [5] \<and>
   (\<exists>ws. mb_woken demo_mail_sent = mb_woken demo_mail_asleep @ ws \<and> 9 \<in> set ws)"
proof -
  have e: "\<not> mb_departed demo_mail" "mb_ring demo_mail = []" "mb_producers demo_mail = 1" "mb_ring demo_mail_sent = [5]" by code_simp+
  from mailbox_delivers [OF demo_mail_init run.run_nil, where w = 9] e
  obtain m' where p: "mb_poll_recv 9 demo_mail = Some (m', RPending)" and m': "asleep m'" "will_wake 9 m' False" by auto
  have a: "m' = demo_mail_asleep" using p by (simp add: demo_mail_asleep_def)
  have "\<exists>ws. mb_woken demo_mail_sent = mb_woken demo_mail_asleep @ ws \<and> 9 \<in> set ws"
    using m'(2) demo_mail_run e(4) unfolding will_wake_def a by force
  then show ?thesis using p m' a e demo_mail_init demo_mail_run by blast
qed

end
