(* ===== verification/Router_Props.thy ===== *)
theory Router_Props
  imports Router Mailbox_Props
begin

unbundle bit_operations_syntax

text \<open>
  Routing: the placement hash is a bijection, every key has exactly one shard and the slots are spread
  evenly. The set of shards a batch has yet to announce is the set its bitmap names.
\<close>

section \<open>The placement hash\<close>

definition unmix :: "u64 \<Rightarrow> u64" where
  "unmix h = xor_shift (xor_shift (xor_shift h * 0x9cb4b2f8129337db) * 0x4f74430c22a54005)"

lemma xor_shift_inverse: "xor_shift (xor_shift h) = h"
  by (rule bit_word_eqI) (auto simp: xor_shift_def bit_simps)

lemma mix_inverse: "unmix (mix h) = h" "mix (unmix h) = h"
proof -
  have units: "(0xff51afd7ed558ccd :: u64) * 0x4f74430c22a54005 = 1" "(0x4f74430c22a54005 :: u64) * 0xff51afd7ed558ccd = 1"
    "(0xc4ceb9fe1a85ec53 :: u64) * 0x9cb4b2f8129337db = 1" "(0x9cb4b2f8129337db :: u64) * 0xc4ceb9fe1a85ec53 = 1"
    by code_simp+
  have a: "x * 0xff51afd7ed558ccd * 0x4f74430c22a54005 = x" "x * 0x4f74430c22a54005 * 0xff51afd7ed558ccd = x"
    "x * 0xc4ceb9fe1a85ec53 * 0x9cb4b2f8129337db = x" "x * 0x9cb4b2f8129337db * 0xc4ceb9fe1a85ec53 = x" for x :: u64
    unfolding mult.assoc units by (rule mult_1_right)+
  show "unmix (mix h) = h" "mix (unmix h) = h" unfolding mix_def unmix_def by (simp_all only: xor_shift_inverse a)
qed

section \<open>The slot table\<close>

lemma double_until_power:
  "0 < p \<Longrightarrow> \<exists>k. double_until p n = p * 2 ^ k \<and> n \<le> p * 2 ^ k \<and> (\<forall>j. n \<le> p * 2 ^ j \<longrightarrow> k \<le> j)"
proof (induction p n rule: double_until.induct)
  case (1 p n)
  show ?case
  proof (cases "n \<le> p")
    case True
    then show ?thesis by (intro exI [of _ 0]) (simp add: double_until.simps)
  next
    case False
    then obtain k where k: "double_until (2 * p) n = 2 * p * 2 ^ k" "n \<le> 2 * p * 2 ^ k" "\<forall>j. n \<le> 2 * p * 2 ^ j \<longrightarrow> k \<le> j"
      using 1 by auto
    have "double_until p n = double_until (2 * p) n" using False 1(2) by (simp add: double_until.simps [of p n])
    moreover have "Suc k \<le> j" if "n \<le> p * 2 ^ j" for j
    proof (cases j)
      case 0
      then show ?thesis using that False by simp
    next
      case (Suc i)
      then have "n \<le> 2 * p * 2 ^ i" using that by (simp add: algebra_simps)
      then show ?thesis using k(3) Suc by simp
    qed
    ultimately show ?thesis using k by (intro exI [of _ "Suc k"]) (simp add: algebra_simps)
  qed
qed

lemma router_slots:
  assumes "router_with_options shards st = Some r"
  obtains k where "length (ro_slots r) = 2 ^ k" "ro_mask r = of_nat (2 ^ k) - 1" "k \<le> 22" "length shards * 64 \<le> 2 ^ k"
    "\<And>j. j < 2 ^ k \<Longrightarrow> unat (ro_slots r ! j) = j mod length shards" "0 < length shards" "ro_shards r = shards"
proof -
  have n: "shards \<noteq> []" "length shards \<le> 65536" using assms by (auto simp: router_with_options_def split: if_splits)
  obtain k where k: "slots_power_of_two (length shards * 64) = 2 ^ k" "length shards * 64 \<le> 2 ^ k" "\<forall>j. length shards * 64 \<le> 2 ^ j \<longrightarrow> k \<le> j"
    using double_until_power [of 1 "length shards * 64"] by (auto simp: slots_power_of_two_def)
  have "length shards * 64 \<le> 2 ^ 22" using n(2) by simp
  then have k22: "k \<le> 22" using k(3) by blast
  have r: "ro_slots r = map (\<lambda>slot. of_nat (slot mod length shards)) [0..<2 ^ k]" "ro_mask r = of_nat (2 ^ k) - 1" "ro_shards r = shards"
    using assms n k(1) by (auto simp: router_with_options_def SLOTS_PER_SHARD_def Let_def)
  have "unat (ro_slots r ! j) = j mod length shards" if "j < 2 ^ k" for j
  proof -
    have "j mod length shards < 2 ^ 16" using n less_le_trans [OF mod_less_divisor [of "length shards" j]] by auto
    then show ?thesis using r(1) that by (simp add: unsigned_of_nat take_bit_nat_eq_self)
  qed
  then show thesis using that [of k] r k(2) k22 n by simp
qed

lemma shard_slot_bound:
  assumes "k \<le> 22"
  shows "shard_slot (of_nat (2 ^ k) - 1) h = unat (mix h) mod 2 ^ k"
proof -
  have "(of_nat (2 ^ k) - 1 :: u64) = mask k" by (simp add: mask_eq_exp_minus_1)
  then have "mix h AND (of_nat (2 ^ k) - 1) = take_bit k (mix h)" by (simp only: take_bit_eq_mask)
  then have "shard_slot (of_nat (2 ^ k) - 1) h = take_bit k (unat (mix h))" by (simp only: shard_slot_def unsigned_take_bit_eq)
  then show ?thesis by (simp only: take_bit_eq_mod)
qed

lemma shard_index_bound:
  assumes "router_with_options shards st = Some r"
  shows "shard_index ops r key < length shards"
proof -
  obtain k where k: "ro_mask r = of_nat (2 ^ k) - 1" "k \<le> 22"
      "\<And>j. j < 2 ^ k \<Longrightarrow> unat (ro_slots r ! j) = j mod length shards" "0 < length shards"
    using router_slots [OF assms] by blast
  have "shard_slot (ro_mask r) (wk_shard_hash ops key) < 2 ^ k" unfolding k(1) shard_slot_bound [OF k(2)] by simp
  then show ?thesis using k(3,4) by (simp add: shard_index_def)
qed

text \<open>Among the first \<open>c\<close> slots, how many a shard owns.\<close>

lemma residue_count:
  assumes "i < n"
  shows "length (filter (\<lambda>j. j mod n = i) [0..<c]) = c div n + (if i < c mod n then 1 else 0)"
proof (induction c)
  case (Suc c)
  have n: "0 < n" using assms by simp
  show ?case
  proof (cases "Suc c mod n = 0")
    case True
    then have "c mod n = n - 1" "Suc c div n = Suc (c div n)" using n by (auto simp: mod_Suc div_Suc split: if_splits)
    then show ?thesis using Suc True assms by auto
  next
    case False
    then have "Suc c mod n = Suc (c mod n)" "Suc c div n = c div n" by (auto simp: mod_Suc div_Suc)
    then show ?thesis using Suc by auto
  qed
qed simp

section \<open>Deferred announcements\<close>

definition deferred_ok :: "deferred_set \<Rightarrow> bool" where
  "deferred_ok d \<longleftrightarrow> length (df_words d) = 8 \<and> (df_any d \<or> df_words d = replicate 8 0)"

definition pending :: "deferred_set \<Rightarrow> nat set" where
  "pending d = {i. i < 512 \<and> i mod 64 \<in> bits (df_words d ! (i div 64))}"

lemma word_shards_set: "set (word_shards w x) = {i. i div 64 = w \<and> i mod 64 \<in> bits x}"
proof (induction w x rule: word_shards.induct)
  case (1 w x)
  show ?case
  proof (cases "x = 0")
    case True
    then show ?thesis by (simp add: word_shards.simps)
  next
    case False
    have t: "trailing_zeros x < 64" "trailing_zeros x \<in> bits x" using False by simp_all
    have "set (word_shards w x) = insert (w * 64 + trailing_zeros x) {i. i div 64 = w \<and> i mod 64 \<in> bits x - {trailing_zeros x}}"
      using 1 [OF False] False by (simp add: word_shards.simps [of w x] clear_lowest del: bits_simps)
    also have "\<dots> = {i. i div 64 = w \<and> i mod 64 \<in> bits x}" using t by auto (metis div_mult_mod_eq)
    finally show ?thesis .
  qed
qed

lemma deferred_shards_set:
  assumes "deferred_ok d"
  shows "set (deferred_shards d) = pending d"
proof -
  have len: "length (df_words d) = 8" using assms by (simp add: deferred_ok_def)
  have lt: "i div 64 < 8 \<longleftrightarrow> i < 512" for i :: nat by linarith
  have "set (deferred_shards d) = (\<Union>w \<in> {0..<8}. {i. i div 64 = w \<and> i mod 64 \<in> bits (df_words d ! w)})"
    unfolding deferred_shards_def len set_concat set_map set_upt image_image word_shards_set ..
  then show ?thesis unfolding pending_def lt [symmetric] by auto
qed

lemma defer_spec:
  assumes "deferred_ok d" "defer_shard i d = (d', tracked)"
  shows "deferred_ok d'" "tracked \<longleftrightarrow> i < 512" "pending d' = (if i < 512 then insert i (pending d) else pending d)"
proof -
  have eq: "DEFERRED_SHARDS = 512" by (simp add: DEFERRED_SHARDS_def DEFERRED_WORDS_def)
  show "tracked \<longleftrightarrow> i < 512" using assms(2) by (auto simp: defer_shard_def eq split: if_splits)
  show "deferred_ok d'" using assms by (auto simp: defer_shard_def deferred_ok_def split: if_splits)
  show "pending d' = (if i < 512 then insert i (pending d) else pending d)"
  proof (cases "i < 512")
    case False
    then show ?thesis using assms(2) by (auto simp: defer_shard_def eq)
  next
    case True
    then have len: "i div 64 < length (df_words d)" using assms(1) by (simp add: deferred_ok_def)
    have w: "df_words d' = (df_words d)[i div 64 := df_words d ! (i div 64) OR push_bit (i mod 64) 1]"
      using assms(2) True by (auto simp: defer_shard_def eq)
    have b: "bits (df_words d ! (i div 64) OR push_bit (i mod 64) 1) = insert (i mod 64) (bits (df_words d ! (i div 64)))" by simp
    have "j mod 64 \<in> bits (df_words d' ! (j div 64)) \<longleftrightarrow> j = i \<or> j mod 64 \<in> bits (df_words d ! (j div 64))" for j
    proof (cases "j div 64 = i div 64")
      case True
      have "j = i \<longleftrightarrow> j mod 64 = i mod 64" using True by (metis div_mult_mod_eq)
      then show ?thesis using True len b w by simp
    next
      case False
      then show ?thesis using w by auto
    qed
    then show ?thesis using True by (auto simp: pending_def)
  qed
qed

lemma deferred_new_ok: "deferred_ok deferred_new" "pending deferred_new = {}"
proof -
  show "deferred_ok deferred_new" by (simp add: deferred_ok_def deferred_new_def DEFERRED_WORDS_def)
  have "i div 64 < 8" if "i < 512" for i :: nat using that by linarith
  then show "pending deferred_new = {}" by (auto simp: pending_def deferred_new_def DEFERRED_WORDS_def)
qed

section \<open>Properties\<close>

text \<open>
  C35. The placement hash is a permutation of the 64-bit words: \<open>unmix\<close> undoes it and it undoes \<open>unmix\<close>, so
  distinct identities never collide before the table narrows them.
\<close>

theorem mix_roundtrip: "unmix (mix h) = h \<and> mix (unmix h) = h"
  using mix_inverse by simp

definition owned :: "('v, 'k, 'i, 'w) router \<Rightarrow> nat \<Rightarrow> nat" where
  "owned r i = length (filter (\<lambda>s. unat s = i) (ro_slots r))"

lemma owned_count:
  assumes "router_with_options shards st = Some r" "i < length shards"
  shows "owned r i = length (ro_slots r) div length shards + (if i < length (ro_slots r) mod length shards then 1 else 0)"
proof -
  obtain k where k: "length (ro_slots r) = 2 ^ k" "\<And>j. j < 2 ^ k \<Longrightarrow> unat (ro_slots r ! j) = j mod length shards"
    using router_slots [OF assms(1)] by blast
  have "ro_slots r = map ((!) (ro_slots r)) [0..<2 ^ k]" using k(1) map_nth [of "ro_slots r"] by simp
  then have "owned r i = length (filter (\<lambda>s. unat s = i) (map ((!) (ro_slots r)) [0..<2 ^ k]))" unfolding owned_def by (rule arg_cong)
  also have "\<dots> = length (filter (\<lambda>j. unat (ro_slots r ! j) = i) [0..<2 ^ k])" by (simp add: filter_map comp_def)
  also have "filter (\<lambda>j. unat (ro_slots r ! j) = i) [0..<2 ^ k] = filter (\<lambda>j. j mod length shards = i) [0..<2 ^ k]"
    by (rule filter_cong [OF refl]) (simp add: k(2))
  finally show ?thesis using residue_count [OF assms(2), of "2 ^ k"] k(1) by simp
qed

text \<open>
  C36. Every key has exactly one shard. A router is built exactly for one to 65536 shards; then its table
  has a power of two of slots, every slot and every key names an existing shard, whatever the hash of the
  key is, every shard owns at least \<open>SLOTS_PER_SHARD\<close> slots, and the shares of two shards differ by at
  most one slot.
\<close>

theorem routing_total:
  "(router_with_options shards st = None \<longleftrightarrow> shards = [] \<or> 65536 < length shards) \<and>
   (\<forall>r. router_with_options shards st = Some r \<longrightarrow>
      (\<exists>k. length (ro_slots r) = 2 ^ k) \<and> (\<forall>s \<in> set (ro_slots r). unat s < length shards) \<and>
      (\<forall>ops key. shard_index ops r key < length shards) \<and>
      (\<forall>i < length shards. SLOTS_PER_SHARD \<le> owned r i) \<and>
      (\<forall>i < length shards. \<forall>j < length shards. owned r i \<le> owned r j + 1))"
proof -
  have "(\<exists>k. length (ro_slots r) = 2 ^ k) \<and> (\<forall>s \<in> set (ro_slots r). unat s < length shards) \<and>
      (\<forall>ops key. shard_index ops r key < length shards) \<and>
      (\<forall>i < length shards. SLOTS_PER_SHARD \<le> owned r i) \<and>
      (\<forall>i < length shards. \<forall>j < length shards. owned r i \<le> owned r j + 1)"
    if r: "router_with_options shards st = Some r" for r :: "('a, 'b, 'c, 'd) router"
  proof -
    obtain k where k: "length (ro_slots r) = 2 ^ k" "length shards * 64 \<le> 2 ^ k"
      "\<And>j. j < 2 ^ k \<Longrightarrow> unat (ro_slots r ! j) = j mod length shards" "0 < length shards"
      using router_slots [OF r] by blast
    have slots: "\<forall>s \<in> set (ro_slots r). unat s < length shards"
      unfolding all_set_conv_all_nth k(1) using k(3,4) by simp
    have "64 \<le> (2 ^ k) div length shards" using k(4) div_le_mono [OF k(2), of "length shards"] by simp
    then have "SLOTS_PER_SHARD \<le> owned r i" if "i < length shards" for i
      using owned_count [OF r that] k(1) by (simp add: SLOTS_PER_SHARD_def)
    then show ?thesis using k(1) slots shard_index_bound [OF r] owned_count [OF r] by auto
  qed
  moreover have "router_with_options shards st = None \<longleftrightarrow> shards = [] \<or> 65536 < length shards"
    by (auto simp: router_with_options_def Let_def)
  ultimately show ?thesis by blast
qed

definition demo_ops :: "(nat, nat, nat) work_ops" where
  "demo_ops = \<lparr>wk_key = id, wk_shard_hash = of_nat, wk_class = (\<lambda>v. v mod 3), wk_request_id = (\<lambda>v. None), wk_time_to_live = (\<lambda>v. None)\<rparr>"

definition demo_shard :: "((nat, nat, nat) envelope, nat) mailbox" where
  "demo_shard = the (mailbox_channel 1)"

lemma demo_router_built: "router_with_options [demo_shard, demo_shard, demo_shard] True \<noteq> None"
  by (simp add: router_with_options_def Let_def)

theorem routing_total_witness:
  "\<exists>r. router_with_options [demo_shard, demo_shard, demo_shard] True = Some r \<and> shard_index demo_ops r 5 < 3 \<and> SLOTS_PER_SHARD \<le> owned r 2"
proof -
  obtain r where "router_with_options [demo_shard, demo_shard, demo_shard] True = Some r" using demo_router_built by auto
  then show ?thesis using routing_total [of "[demo_shard, demo_shard, demo_shard]" True] by (auto simp: numeral_3_eq_3)
qed

end
