(* ===== verification/Router_Batch.thy ===== *)
theory Router_Batch
  imports Router_Props
begin

text \<open>
  Batches. A reference on plain queues decides every item from the class, the owning shard, its departed flag
  and the room in its queue; the batch operations of the router, with their deferred announcements, their
  waits and their resumptions, do what it says, and announce what they pushed before they wait and before
  they return.
\<close>

section \<open>What a batch should do\<close>

text \<open>
  The reference keeps a list of queues and takes the items in order. It is written over the owning shard, its
  departed flag and its capacity alone, without the deferred set, the announcements or the results of a send.
\<close>

definition queues :: "('v, 'k, 'i, 'w) router \<Rightarrow> ('v, 'k, 'i) envelope list list" where
  "queues r = map mb_ring (ro_shards r)"

definition envelope_of :: "('v, 'k, 'i) work_ops \<Rightarrow> duration option \<Rightarrow> 'v \<Rightarrow> ('v, 'k, 'i) envelope" where
  "envelope_of ops arr v =
     \<lparr>en_key = wk_key ops v, en_class = wk_class ops v, en_request_id = wk_request_id ops v,
      en_expires_at = (case arr of None \<Rightarrow> None | Some now \<Rightarrow> map_option (duration_saturating_add now) (wk_time_to_live ops v)),
      en_enqueued = (case arr of None \<Rightarrow> 0 | Some now \<Rightarrow> now), en_work = v\<rparr>"

text \<open>Why an item is refused, if it is, when the queues are \<open>qs\<close>.\<close>

definition verdict :: "('v, 'k, 'i) work_ops \<Rightarrow> nat \<Rightarrow> ('v, 'k, 'i, 'w) router \<Rightarrow> ('v, 'k, 'i) envelope list list \<Rightarrow> 'v \<Rightarrow> 'v submit_error option" where
  "verdict ops classes r qs v =
     (let i = shard_index ops r (wk_key ops v); m = ro_shards r ! i in
      if classes \<le> wk_class ops v then Some (InvalidClass v)
      else if mb_departed m then Some (ShardDown v)
      else if mb_capacity m \<le> length (qs ! i) then Some (SubmitFull v)
      else None)"

definition deposit :: "('v, 'k, 'i) work_ops \<Rightarrow> ('v, 'k, 'i, 'w) router \<Rightarrow> ('v, 'k, 'i) envelope \<Rightarrow> ('v, 'k, 'i) envelope list list \<Rightarrow> ('v, 'k, 'i) envelope list list" where
  "deposit ops r e qs = (let i = shard_index ops r (en_key e) in qs[i := qs ! i @ [e]])"

text \<open>
  The queues at the end, each item processed with its verdict, and the item waited for with the items behind
  it. Only the waiting form, with \<open>waits\<close>, stops at a full queue.
\<close>

fun batch_spec :: "('v, 'k, 'i) work_ops \<Rightarrow> nat \<Rightarrow> duration option \<Rightarrow> bool \<Rightarrow> ('v, 'k, 'i, 'w) router \<Rightarrow> 'v list \<Rightarrow> ('v, 'k, 'i) envelope list list \<Rightarrow>
    ('v, 'k, 'i) envelope list list \<times> ('v \<times> 'v submit_error option) list \<times> ('v \<times> 'v list) option" where
  "batch_spec ops classes arr waits r [] qs = (qs, [], None)"
| "batch_spec ops classes arr waits r (v # vs) qs =
     (case verdict ops classes r qs v of
        None \<Rightarrow> apsnd (apfst (Cons (v, None))) (batch_spec ops classes arr waits r vs (deposit ops r (envelope_of ops arr v) qs))
      | Some (SubmitFull _) \<Rightarrow>
          if waits then (qs, [], Some (v, vs))
          else apsnd (apfst (Cons (v, Some (SubmitFull v)))) (batch_spec ops classes arr waits r vs qs)
      | Some err \<Rightarrow> apsnd (apfst (Cons (v, Some err))) (batch_spec ops classes arr waits r vs qs))"

definition landed :: "('v, 'k, 'i) work_ops \<Rightarrow> duration option \<Rightarrow> ('v \<times> 'v submit_error option) list \<Rightarrow> ('v, 'k, 'i) envelope list" where
  "landed ops arr outs = map (envelope_of ops arr \<circ> fst) (filter (\<lambda>x. snd x = None) outs)"

definition tally :: "('v \<times> 'v submit_error option) list \<Rightarrow> 'v batch" where
  "tally outs = \<lparr>ba_submitted = length (filter (\<lambda>x. snd x = None) outs), ba_rejected = List.map_filter snd outs\<rparr>"

definition batch_plus :: "'v batch \<Rightarrow> 'v batch \<Rightarrow> 'v batch" where
  "batch_plus b c = \<lparr>ba_submitted = ba_submitted b + ba_submitted c, ba_rejected = ba_rejected b @ ba_rejected c\<rparr>"

lemma batch_plus_new [simp]: "batch_plus batch_new b = b" "batch_plus b (tally []) = b"
  by (simp_all add: batch_plus_def batch_new_def tally_def)

lemma batch_plus_assoc: "batch_plus (batch_plus a b) c = batch_plus a (batch_plus b c)"
  by (simp add: batch_plus_def)

lemma tally_append: "tally (xs @ ys) = batch_plus (tally xs) (tally ys)"
  by (simp add: tally_def batch_plus_def List.map_filter_def)

lemma tally_Cons: "batch_plus b (tally ((v, x) # outs)) =
    batch_plus (batch_record (case x of None \<Rightarrow> Inr () | Some e \<Rightarrow> Inl e) b) (tally outs)"
  by (cases x) (simp_all add: tally_def batch_plus_def batch_record_def)

lemma landed_Cons: "landed ops arr ((v, x) # outs) = (if x = None then [envelope_of ops arr v] else []) @ landed ops arr outs"
  by (simp add: landed_def)

lemma envelope_of_key [simp]: "en_key (envelope_of ops arr v) = wk_key ops v" "en_work (envelope_of ops arr v) = v"
  by (simp_all add: envelope_of_def)

lemma stamp_eq: "stamp ops classes v arr = (if classes \<le> wk_class ops v then Inl (InvalidClass v) else Inr (envelope_of ops arr v))"
  by (cases arr) (simp_all add: stamp_def envelope_of_def)

lemma verdict_cases: "verdict ops classes r qs v \<in> {None, Some (InvalidClass v), Some (ShardDown v), Some (SubmitFull v)}"
  by (simp add: verdict_def Let_def)

lemma batch_spec_Cons:
  assumes "batch_spec ops classes arr waits r (v # vs) qs = (qs', outs, w)"
  obtains (accept) outs' where "verdict ops classes r qs v = None" "outs = (v, None) # outs'"
      "batch_spec ops classes arr waits r vs (deposit ops r (envelope_of ops arr v) qs) = (qs', outs', w)"
  | (refuse) err outs' where "verdict ops classes r qs v = Some err" "outs = (v, Some err) # outs'" "submit_error_into_work err = v"
      "\<forall>u. err = SubmitFull u \<longrightarrow> \<not> waits" "batch_spec ops classes arr waits r vs qs = (qs', outs', w)"
  | (wait) "waits" "verdict ops classes r qs v = Some (SubmitFull v)" "qs' = qs" "outs = []" "w = Some (v, vs)"
proof -
  obtain q1 o1 w1 where acc: "batch_spec ops classes arr waits r vs (deposit ops r (envelope_of ops arr v) qs) = (q1, o1, w1)" by (rule prod_cases3)
  obtain q2 o2 w2 where rej: "batch_spec ops classes arr waits r vs qs = (q2, o2, w2)" by (rule prod_cases3)
  consider "verdict ops classes r qs v = None" | "waits" "verdict ops classes r qs v = Some (SubmitFull v)"
    | err where "verdict ops classes r qs v = Some err" "submit_error_into_work err = v" "\<forall>u. err = SubmitFull u \<longrightarrow> \<not> waits"
    using verdict_cases [of ops classes r qs v] by (cases waits) auto
  then show thesis
  proof cases
    case 1
    then have "q1 = qs'" "outs = (v, None) # o1" "w1 = w" using assms acc by simp_all
    then show thesis using accept [OF 1] acc by simp
  next
    case 2
    then have "qs' = qs" "outs = []" "w = Some (v, vs)" using assms by simp_all
    then show thesis by (rule wait [OF 2])
  next
    case (3 err)
    then have "qs' = q2" "outs = (v, Some err) # o2" "w = w2" using assms rej by (cases err; simp)+
    then show thesis using refuse [OF 3(1) _ 3(2,3)] rej by blast
  qed
qed

lemma batch_spec_queues:
  assumes "batch_spec ops classes arr waits r vs qs = (qs', outs, w)"
  shows "length qs' = length qs \<and>
    (\<forall>i < length qs. qs' ! i = qs ! i @ filter (\<lambda>e. shard_index ops r (en_key e) = i) (landed ops arr outs))"
  using assms
proof (induction vs arbitrary: qs outs)
  case (Cons v vs)
  let ?qs = "deposit ops r (envelope_of ops arr v) qs"
  have dep: "length ?qs = length qs"
    "i < length qs \<Longrightarrow> ?qs ! i = qs ! i @ (if shard_index ops r (wk_key ops v) = i then [envelope_of ops arr v] else [])" for i
    by (auto simp: deposit_def Let_def nth_list_update)
  from Cons.prems show ?case
  proof (cases rule: batch_spec_Cons)
    case (accept outs')
    then show ?thesis using Cons.IH [OF accept(3)] dep by (simp add: landed_Cons)
  next
    case (refuse err outs')
    then show ?thesis using Cons.IH [OF refuse(5)] by (simp add: landed_Cons)
  qed (simp add: landed_def)
qed (simp add: landed_def)

text \<open>Every item is accounted for, the refused ones with an error that carries them.\<close>

definition accounted :: "bool \<Rightarrow> 'v list \<Rightarrow> ('v \<times> 'v submit_error option) list \<Rightarrow> ('v \<times> 'v list) option \<Rightarrow> bool" where
  "accounted waits vs outs w \<longleftrightarrow>
     vs = map fst outs @ (case w of None \<Rightarrow> [] | Some (v, rest) \<Rightarrow> v # rest) \<and> (w \<noteq> None \<longrightarrow> waits) \<and>
     (\<forall>(v, x) \<in> set outs. \<forall>err. x = Some err \<longrightarrow> submit_error_into_work err = v \<and> (waits \<longrightarrow> err \<noteq> SubmitFull v))"

lemma batch_spec_accounted:
  assumes "batch_spec ops classes arr waits r vs qs = (qs', outs, w)"
  shows "accounted waits vs outs w \<and> (\<forall>v rest. w = Some (v, rest) \<longrightarrow> verdict ops classes r qs' v = Some (SubmitFull v))"
  using assms
proof (induction vs arbitrary: qs outs)
  case (Cons v vs)
  from Cons.prems show ?case
  proof (cases rule: batch_spec_Cons)
    case (accept outs')
    then show ?thesis using Cons.IH [OF accept(3)] by (simp add: accounted_def)
  next
    case (refuse err outs')
    then show ?thesis using Cons.IH [OF refuse(5)] by (auto simp: accounted_def)
  qed (simp add: accounted_def)
qed (simp add: accounted_def)

section \<open>What a batch does\<close>

text \<open>The well-formed router: every shard's mailbox keeps its invariant, with the shards in \<open>P\<close> holding deferred pushes.\<close>

definition routed :: "('v, 'k, 'i) work_ops \<Rightarrow> nat set \<Rightarrow> ('v, 'k, 'i, 'w) router \<Rightarrow> bool" where
  "routed ops P r \<longleftrightarrow> P \<subseteq> {..<length (ro_shards r)} \<and> (\<forall>key. shard_index ops r key < length (ro_shards r)) \<and>
     (\<forall>i < length (ro_shards r). mail_inv (ro_shards r ! i, i \<in> P))"

lemma routedD:
  assumes "routed ops P r"
  shows "P \<subseteq> {..<length (ro_shards r)}" "shard_index ops r key < length (ro_shards r)"
    "i < length (ro_shards r) \<Longrightarrow> mail_inv (ro_shards r ! i, i \<in> P)"
  using assms by (auto simp: routed_def)

text \<open>
  \<open>became r qs r'\<close>: the table, and of every mailbox the departed flag, the capacity, the wait list and the
  number of senders, are as they were; the queues are \<open>qs\<close>; and a waker watched in a mailbox has been called or is still there.
\<close>

definition evolves :: "('a, 'w) mailbox \<Rightarrow> ('a, 'w) mailbox \<Rightarrow> bool" where
  "evolves m m' \<longleftrightarrow> mb_departed m' = mb_departed m \<and> mb_capacity m' = mb_capacity m \<and> mb_waiters m' = mb_waiters m \<and>
     mb_producers m' = mb_producers m \<and> (\<forall>w log. watching w log m \<longrightarrow> watching w log m')"

definition became :: "('v, 'k, 'i, 'w) router \<Rightarrow> ('v, 'k, 'i) envelope list list \<Rightarrow> ('v, 'k, 'i, 'w) router \<Rightarrow> bool" where
  "became r qs r' \<longleftrightarrow> queues r' = qs \<and> list_all2 evolves (ro_shards r) (ro_shards r') \<and>
     ro_slots r' = ro_slots r \<and> ro_mask r' = ro_mask r \<and> ro_stamp_arrival r' = ro_stamp_arrival r"

lemma evolves_refl: "evolves m m"
  by (simp add: evolves_def)

lemma became_refl: "became r (queues r) r"
  by (simp add: became_def list_all2_refl evolves_refl)

lemma became_trans:
  assumes "became r qs r'" "became r' qs' r''"
  shows "became r qs' r''"
proof -
  have "list_all2 evolves (ro_shards r) (ro_shards r'')"
    using assms by (auto simp: became_def list_all2_conv_all_nth evolves_def)
  then show ?thesis using assms by (simp add: became_def)
qed

lemma becameD:
  assumes "became r qs r'"
  shows "length (ro_shards r') = length (ro_shards r)" "shard_index ops r' = shard_index ops r" "queues r' = qs"
    "i < length (ro_shards r) \<Longrightarrow> evolves (ro_shards r ! i) (ro_shards r' ! i)"
  using assms by (auto simp: became_def shard_index_def fun_eq_iff list_all2_lengthD list_all2_nthD dest: list_all2_lengthD [symmetric])

lemma index_on_shard [simp]: "shard_index ops (on_shard i m r) = shard_index ops r" "length (ro_shards (on_shard i m r)) = length (ro_shards r)"
  by (simp_all add: shard_index_def on_shard_def fun_eq_iff)

lemma on_shard_became:
  assumes "i < length (ro_shards r)" "evolves (ro_shards r ! i) m"
  shows "became r ((queues r)[i := mb_ring m]) (on_shard i m r)"
proof -
  have "list_all2 evolves (ro_shards r) ((ro_shards r)[i := m])"
    using assms by (auto simp: list_all2_conv_all_nth nth_list_update evolves_refl)
  then show ?thesis by (simp add: became_def on_shard_def queues_def map_update)
qed

lemma spec_became:
  assumes "routed ops P r" "became r qs r'"
  shows "verdict ops classes r' q v = verdict ops classes r q v" "deposit ops r' e q = deposit ops r e q"
    "batch_spec ops classes arr waits r' vs q = batch_spec ops classes arr waits r vs q"
proof -
  note b = becameD [OF assms(2)]
  show v: "verdict ops classes r' q v = verdict ops classes r q v" for q v
    using b(4) [OF routedD(2) [OF assms(1)], of "wk_key ops v"] by (simp add: verdict_def b(2) evolves_def Let_def)
  show d: "deposit ops r' e q = deposit ops r e q" for e q by (simp add: deposit_def b(2))
  show "batch_spec ops classes arr waits r' vs q = batch_spec ops classes arr waits r vs q"
    by (induction vs arbitrary: q) (auto simp: v d split: option.splits submit_error.splits)
qed

lemma announce_evolves: "mail_inv (m, u) \<Longrightarrow> evolves m (mb_announce m)"
  using watching_announce [of m u] by (simp add: evolves_def) (simp add: mb_announce_def mb_ring_bell_def case_prod_beta)

lemma announce_shard_spec:
  assumes "routed ops P r" "i < length (ro_shards r)"
  shows "routed ops (P - {i}) (announce_shard i r)" "became r (queues r) (announce_shard i r)"
proof -
  have inv: "mail_inv (ro_shards r ! i, i \<in> P)" using assms by (simp add: routed_def)
  note a = announce_awake(2) [OF inv, of False] announce_awake(3) [OF inv]
  show "routed ops (P - {i}) (announce_shard i r)"
    using assms a(1) by (auto simp: routed_def announce_shard_def) (auto simp: on_shard_def nth_list_update)
  show "became r (queues r) (announce_shard i r)"
    using on_shard_became [OF assms(2) announce_evolves [OF inv]] a(2) assms(2) by (simp add: announce_shard_def queues_def flip: map_update)
qed

lemma announce_all:
  assumes "routed ops P r" "set xs \<subseteq> {..<length (ro_shards r)}"
  shows "routed ops (P - set xs) (fold announce_shard xs r) \<and> became r (queues r) (fold announce_shard xs r)"
  using assms
proof (induction xs arbitrary: P r)
  case (Cons i xs)
  have i: "i < length (ro_shards r)" using Cons.prems by simp
  note a = announce_shard_spec [OF Cons.prems(1) i]
  have "length (ro_shards (announce_shard i r)) = length (ro_shards r)" by (simp add: announce_shard_def)
  then have "routed ops (P - {i} - set xs) (fold announce_shard xs (announce_shard i r))"
    "became (announce_shard i r) (queues (announce_shard i r)) (fold announce_shard xs (announce_shard i r))"
    using Cons.IH [OF a(1)] Cons.prems(2) by auto
  then show ?case using became_trans [OF a(2)] becameD(3) [OF a(2)] by (simp add: Diff_insert2 [symmetric])
qed (simp add: became_refl)

lemma deferred_announce_spec:
  assumes "deferred_ok d" "routed ops (pending d) r" "deferred_announce d r = (d', r')"
  shows "deferred_ok d'" "pending d' = {}" "routed ops {} r'" "became r (queues r) r'"
proof -
  have zero: "pending d = {}" if "df_words d = replicate 8 0" for d :: deferred_set
  proof -
    have "i div 64 < 8" if "i < 512" for i :: nat using that by linarith
    then show ?thesis using that by (auto simp: pending_def)
  qed
  have len: "length (df_words d) = 8" using assms(1) by (simp add: deferred_ok_def)
  have "deferred_ok d' \<and> pending d' = {} \<and> routed ops {} r' \<and> became r (queues r) r'"
  proof (cases "df_any d")
    case False
    then have "df_words d = replicate 8 0" using assms(1) by (simp add: deferred_ok_def)
    then show ?thesis using assms False zero [of d] by (simp add: deferred_announce_def became_refl)
  next
    case True
    have sub: "set (deferred_shards d) \<subseteq> {..<length (ro_shards r)}"
      using deferred_shards_set [OF assms(1)] assms(2) by (simp add: routed_def)
    have d': "d' = d\<lparr>df_words := replicate 8 0, df_any := False\<rparr>" "r' = fold announce_shard (deferred_shards d) r"
      using assms(3) True len by (auto simp: deferred_announce_def)
    show ?thesis using announce_all [OF assms(2) sub] deferred_shards_set [OF assms(1)] zero [of d'] d' by (simp add: deferred_ok_def)
  qed
  then show "deferred_ok d'" "pending d' = {}" "routed ops {} r'" "became r (queues r) r'" by auto
qed

lemma deferred_send_inv:
  assumes "mail_inv (m, u)" "mb_try_send_deferred e m = (m', res)"
  shows "mail_inv (m', u \<or> res = Inr ())" "evolves m m'"
    "res = (if mb_departed m then Inl (Closed e) else if mb_capacity m \<le> length (mb_ring m) then Inl (Full e) else Inr ())"
    "m' = (if res = Inr () then m\<lparr>mb_ring := mb_ring m @ [e]\<rparr> else m)"
  using assms by (auto simp: mb_try_send_deferred_def mail_inv_def asleep_def evolves_def watching_def split: if_splits)

lemma on_shard_routed:
  assumes "routed ops P r" "i < length (ro_shards r)" "mail_inv (m, i \<in> Q)" "Q - {i} = P - {i}" "Q \<subseteq> {..<length (ro_shards r)}"
  shows "routed ops Q (on_shard i m r)"
proof -
  have "mail_inv (ro_shards (on_shard i m r) ! j, j \<in> Q)" if "j < length (ro_shards r)" for j
  proof (cases "j = i")
    case True
    then show ?thesis using assms(2,3) by (simp add: on_shard_def)
  next
    case False
    then have "j \<in> Q \<longleftrightarrow> j \<in> P" using assms(4) by blast
    then show ?thesis using assms(1) False that by (simp add: routed_def on_shard_def)
  qed
  then show ?thesis using assms(1,5) by (simp add: routed_def)
qed

lemma send_deferred_spec:
  assumes d: "deferred_ok d" and r: "routed ops (pending d) r" and c: "wk_class ops v < classes"
    and s: "router_try_send_deferred ops (envelope_of ops arr v) d r = (d', r', res)"
  shows "deferred_ok d' \<and> routed ops (pending d') r' \<and>
    became r (if res = Inr () then deposit ops r (envelope_of ops arr v) (queues r) else queues r) r' \<and>
    res = (case verdict ops classes r (queues r) v of None \<Rightarrow> Inr () | Some err \<Rightarrow> Inl err)"
proof -
  let ?e = "envelope_of ops arr v" and ?i = "shard_index ops r (wk_key ops v)"
  let ?m = "ro_shards r ! ?i"
  have i: "?i < length (ro_shards r)" by (rule routedD(2) [OF r])
  obtain m q where q: "mb_try_send_deferred ?e ?m = (m, q)" by (cases "mb_try_send_deferred ?e ?m")
  note t = deferred_send_inv [OF routedD(3) [OF r i] q]
  obtain d1 tr where df: "defer_shard ?i d = (d1, tr)" by (cases "defer_shard ?i d")
  note ds = defer_spec [OF d df]
  have qi: "queues r ! ?i = mb_ring ?m" using i by (simp add: queues_def)
  have v: "verdict ops classes r (queues r) v =
      (if mb_departed ?m then Some (ShardDown v) else if mb_capacity ?m \<le> length (mb_ring ?m) then Some (SubmitFull v) else None)"
    using c qi by (simp add: verdict_def Let_def)
  let ?r1 = "on_shard ?i m r"
  note b = on_shard_became [OF i t(2)]
  show ?thesis
  proof (cases "q = Inr ()")
    case False
    then have m: "m = ?m" "q = Inl (Full ?e) \<or> q = Inl (Closed ?e)" using t(3,4) by (simp_all split: if_splits)
    have "?r1 = r" using m(1) by (simp add: on_shard_def)
    then have "d' = d" "r' = r" "res = submit_result q" using s q m(2) by (auto simp: router_try_send_deferred_def Let_def)
    then show ?thesis using d r v t(3) False became_refl [of r] by (auto split: if_splits)
  next
    case True
    then have dep: "deposit ops r ?e (queues r) = (queues r)[?i := mb_ring m]" using t(4) qi by (simp add: deposit_def Let_def)
    have "routed ops (insert ?i (pending d)) ?r1"
      by (rule on_shard_routed [OF r i]) (use t(1) True routedD(1) [OF r] i in auto)
    note o = this announce_shard_spec [OF this, of ?i]
    have res: "res = Inr ()" "d' = d1" "r' = (if tr then ?r1 else announce_shard ?i ?r1)"
      using s q True df by (auto simp: router_try_send_deferred_def Let_def split: if_splits)
    have v': "verdict ops classes r (queues r) v = None" using v t(3) True by (simp split: if_splits)
    have "routed ops (pending d') r' \<and> became r ((queues r)[?i := mb_ring m]) r'"
    proof (cases "?i < 512")
      case True
      then show ?thesis using res ds o(1) b by simp
    next
      case False
      then have "insert ?i (pending d) - {?i} = pending d'" using res(2) ds(3) by (auto simp: pending_def)
      then show ?thesis using False res ds(2) o(2,3) i became_trans [OF b] becameD(3) [OF b] by simp
    qed
    then show ?thesis using ds(1) res v' dep by simp
  qed
qed

lemma try_loop_spec:
  assumes "deferred_ok d" "routed ops (pending d) r" "try_batch_loop ops classes arr items b d r = (b', d', r')"
    and "batch_spec ops classes arr False r items (queues r) = (qs, outs, w)"
  shows "b' = batch_plus b (tally outs) \<and> became r qs r' \<and> deferred_ok d' \<and> routed ops (pending d') r'"
  using assms
proof (induction items arbitrary: b d r outs)
  case Nil
  then show ?case using became_refl by auto
next
  case (Cons v items)
  from Cons.prems(4) obtain x outs' q1 where
    o: "outs = (v, x) # outs'" "verdict ops classes r (queues r) v = x" "batch_spec ops classes arr False r items q1 = (qs, outs', w)"
      "q1 = (if x = None then deposit ops r (envelope_of ops arr v) (queues r) else queues r)"
    by (cases rule: batch_spec_Cons) auto
  show ?case
  proof (cases "classes \<le> wk_class ops v")
    case True
    then have x: "x = Some (InvalidClass v)" using o(2) by (simp add: verdict_def Let_def)
    have "try_batch_loop ops classes arr items (batch_record (Inl (InvalidClass v)) b) d r = (b', d', r')"
      using Cons.prems(3) True by (simp add: stamp_eq batch_record_def)
    from Cons.IH [OF Cons.prems(1,2) this] show ?thesis using o x tally_Cons [of b v x outs'] by simp
  next
    case False
    obtain d1 r1 res where s: "router_try_send_deferred ops (envelope_of ops arr v) d r = (d1, r1, res)" by (rule prod_cases3)
    have "wk_class ops v < classes" using False by simp
    note sp = send_deferred_spec [OF Cons.prems(1,2) this s]
    have l: "try_batch_loop ops classes arr items (batch_record res b) d1 r1 = (b', d', r')" using Cons.prems(3) False s by (simp add: stamp_eq)
    have res: "res = (case x of None \<Rightarrow> Inr () | Some err \<Rightarrow> Inl err)" and b1: "became r q1 r1"
      using sp o(2,4) by (auto split: option.splits)
    have "batch_spec ops classes arr False r1 items (queues r1) = (qs, outs', w)"
      using spec_became(3) [OF Cons.prems(2) b1] o(3) becameD(3) [OF b1] by simp
    from Cons.IH [OF _ _ l this] sp show ?thesis using o(1) tally_Cons [of b v x outs'] res became_trans [OF b1] by simp
  qed
qed

text \<open>
  \<open>leaves ops arr out r' w c\<close>: a run of the waiting form left the router \<open>r'\<close>, and either returned the
  account \<open>c\<close>, or waits for the item \<open>w\<close> with nothing unannounced.
\<close>

definition leaves :: "('v, 'k, 'i) work_ops \<Rightarrow> duration option \<Rightarrow> ('v, 'k, 'i, 'w) batch_run \<Rightarrow> ('v, 'k, 'i, 'w) router \<Rightarrow> ('v \<times> 'v list) option \<Rightarrow> 'v batch \<Rightarrow> bool" where
  "leaves ops arr out r' w c \<longleftrightarrow>
     (case out of
        BatchDone r1 res \<Rightarrow> r1 = r' \<and> w = None \<and> res = (if ba_rejected c = [] then Inr () else Inl c)
      | BatchWaits e rest b d r1 \<Rightarrow> r1 = r' \<and> b = c \<and> e = envelope_of ops arr (en_work e) \<and> w = Some (en_work e, rest) \<and>
          deferred_ok d \<and> pending d = {})"

lemma batch_loop_spec:
  assumes "deferred_ok d" "routed ops (pending d) r" "batch_spec ops classes arr True r items (queues r) = (qs, outs, w)"
  shows "\<exists>r'. leaves ops arr (batch_loop ops classes arr items b d r) r' w (batch_plus b (tally outs)) \<and> became r qs r' \<and> routed ops {} r'"
  using assms
proof (induction items arbitrary: b d r outs)
  case Nil
  obtain d' r' where a: "deferred_announce d r = (d', r')" by (cases "deferred_announce d r")
  note t = deferred_announce_spec [OF Nil(1,2) a]
  have "qs = queues r" "outs = []" "w = None" using Nil(3) by simp_all
  then show ?case using a t by (intro exI [of _ r']) (simp add: leaves_def batch_into_result_def)
next
  case (Cons v items)
  show ?case
  proof (cases "classes \<le> wk_class ops v")
    case True
    then have "verdict ops classes r (queues r) v = Some (InvalidClass v)" by (simp add: verdict_def Let_def)
    with Cons.prems(3) obtain outs' where o: "outs = (v, Some (InvalidClass v)) # outs'"
      "batch_spec ops classes arr True r items (queues r) = (qs, outs', w)" by (cases rule: batch_spec_Cons) auto
    have "batch_loop ops classes arr (v # items) b d r = batch_loop ops classes arr items (batch_record (Inl (InvalidClass v)) b) d r"
      using True by (simp add: stamp_eq batch_record_def)
    then show ?thesis using Cons.IH [OF Cons.prems(1,2) o(2), of "batch_record (Inl (InvalidClass v)) b"] o(1)
      by (simp add: tally_Cons)
  next
    case False
    then have st: "stamp ops classes v arr = Inr (envelope_of ops arr v)" by (simp add: stamp_eq)
    obtain d1 r1 res where s: "router_try_send_deferred ops (envelope_of ops arr v) d r = (d1, r1, res)" by (rule prod_cases3)
    have "wk_class ops v < classes" using False by simp
    note sp = send_deferred_spec [OF Cons.prems(1,2) this s]
    show ?thesis using Cons.prems(3)
    proof (cases rule: batch_spec_Cons)
      case (accept outs')
      then have res: "res = Inr ()" and b1: "became r (deposit ops r (envelope_of ops arr v) (queues r)) r1" using sp by auto
      have "batch_spec ops classes arr True r1 items (queues r1) = (qs, outs', w)"
        using spec_became(3) [OF Cons.prems(2) b1] accept(3) becameD(3) [OF b1] by simp
      from Cons.IH [OF _ _ this, of d1 "batch_record (Inr ()) b"] sp show ?thesis
        using accept(2) s st res became_trans [OF b1] by (auto simp: tally_Cons)
    next
      case (refuse err outs')
      then have res: "res = Inl err" and b1: "became r (queues r) r1" using sp by auto
      have err: "\<nexists>u. err = SubmitFull u" using refuse(4) by blast
      have "batch_spec ops classes arr True r1 items (queues r1) = (qs, outs', w)"
        using spec_became(3) [OF Cons.prems(2) b1] refuse(5) becameD(3) [OF b1] by simp
      moreover have "batch_loop ops classes arr (v # items) b d r = batch_loop ops classes arr items (batch_record (Inl err) b) d1 r1"
        using s st res err by (cases err) simp_all
      ultimately show ?thesis using Cons.IH [of d1 r1 outs' "batch_record (Inl err) b"] sp refuse(2) became_trans [OF b1]
        by (auto simp: tally_Cons)
    next
      case wait
      then have res: "res = Inl (SubmitFull v)" and b1: "became r (queues r) r1" using sp by auto
      obtain d2 r2 where a: "deferred_announce d1 r1 = (d2, r2)" by (cases "deferred_announce d1 r1")
      note as = deferred_announce_spec [of d1 ops r1, OF _ _ a]
      have "batch_loop ops classes arr (v # items) b d r = BatchWaits (envelope_of ops arr v) items b d2 r2" using st s res a by simp
      moreover have "became r qs r2" using became_trans [OF b1 as(4)] sp becameD(3) [OF b1] wait(3) by simp
      ultimately show ?thesis using as sp wait by (intro exI [of _ r2]) (simp add: leaves_def)
    qed
  qed
qed

section \<open>The course of a waiting batch\<close>

text \<open>
  While a batch waits for room, senders and shards go on: every mailbox takes any steps of its own. The wait
  ends with a poll of the waiting send, the last step of its mailbox before the batch resumes; at that moment
  no other batch is between a push and its announcement.
\<close>

definition waited :: "('v, 'k, 'i) work_ops \<Rightarrow> ('v, 'k, 'i) envelope \<Rightarrow> ('v, 'k, 'i, 'w) router \<Rightarrow> 'v submit_error + unit \<Rightarrow> ('v, 'k, 'i, 'w) router \<Rightarrow> bool" where
  "waited ops e r res r' \<longleftrightarrow> length (ro_shards r') = length (ro_shards r) \<and> ro_slots r' = ro_slots r \<and> ro_mask r' = ro_mask r \<and>
     (\<forall>i < length (ro_shards r). \<exists>evs. run mail_step (ro_shards r ! i, False) evs (ro_shards r' ! i, False)) \<and>
     (\<exists>evs x ev w tk wr. run mail_step (ro_shards r ! shard_index ops r (en_key e), False) evs x \<and>
        mail_step x ev (ro_shards r' ! shard_index ops r (en_key e), False) \<and>
        (ev = MSend w e tk wr \<or> ev = MSendPoll w e tk wr) \<and> send_outcome e wr = Some res)"

inductive batch_course :: "('v, 'k, 'i) work_ops \<Rightarrow> nat \<Rightarrow> duration option \<Rightarrow> ('v, 'k, 'i, 'w) batch_run \<Rightarrow> ('v, 'k, 'i, 'w) router list \<Rightarrow>
    ('v, 'k, 'i, 'w) batch_run \<Rightarrow> bool" for ops classes arr where
  course_stop: "batch_course ops classes arr out [] out"
| course_wait: "waited ops e r res r' \<Longrightarrow> batch_course ops classes arr (resume_batch ops classes arr res rest b d r') rs out \<Longrightarrow>
    batch_course ops classes arr (BatchWaits e rest b d r) (r' # rs) out"

text \<open>
  The reference for a course: after each wait the item waited for has landed, or its shard has departed, and
  the rest meets the queues as they are then. It answers the router and the queues of the last stretch, all
  items processed with their verdicts, and the item waited for at the end.
\<close>

definition after_wait :: "('v, 'k, 'i) work_ops \<Rightarrow> ('v, 'k, 'i, 'w) router \<Rightarrow> 'v \<Rightarrow> 'v submit_error option" where
  "after_wait ops r v = (if mb_departed (ro_shards r ! shard_index ops r (wk_key ops v)) then Some (ShardDown v) else None)"

fun spec_course :: "('v, 'k, 'i) work_ops \<Rightarrow> nat \<Rightarrow> duration option \<Rightarrow> ('v, 'k, 'i, 'w) router \<Rightarrow> 'v list \<Rightarrow> ('v, 'k, 'i, 'w) router list \<Rightarrow>
    ('v, 'k, 'i, 'w) router \<times> ('v, 'k, 'i) envelope list list \<times> ('v \<times> 'v submit_error option) list \<times> ('v \<times> 'v list) option" where
  "spec_course ops classes arr r vs [] = (r, batch_spec ops classes arr True r vs (queues r))"
| "spec_course ops classes arr r vs (r' # rs) =
     (case batch_spec ops classes arr True r vs (queues r) of
        (qs, outs, None) \<Rightarrow> (r, qs, outs, None)
      | (qs, outs, Some (v, rest)) \<Rightarrow>
          (case spec_course ops classes arr r' rest rs of
             (r0, qs', outs', w) \<Rightarrow> (r0, qs', outs @ (v, after_wait ops r' v) # outs', w)))"

text \<open>An item that landed after a wait is then the newest in the queue of its shard.\<close>

fun waits_landed :: "('v, 'k, 'i) work_ops \<Rightarrow> nat \<Rightarrow> duration option \<Rightarrow> ('v, 'k, 'i, 'w) router \<Rightarrow> 'v list \<Rightarrow> ('v, 'k, 'i, 'w) router list \<Rightarrow> bool" where
  "waits_landed ops classes arr r vs [] = True"
| "waits_landed ops classes arr r vs (r' # rs) =
     (case batch_spec ops classes arr True r vs (queues r) of
        (qs, outs, None) \<Rightarrow> True
      | (qs, outs, Some (v, rest)) \<Rightarrow>
          (after_wait ops r' v = None \<longrightarrow> (\<exists>q. queues r' ! shard_index ops r (wk_key ops v) = q @ [envelope_of ops arr v])) \<and>
          waits_landed ops classes arr r' rest rs)"

lemma spec_course_accounted:
  assumes "spec_course ops classes arr r vs rs = (r0, qs, outs, w)"
  shows "accounted True vs outs w \<and> (\<forall>v rest. w = Some (v, rest) \<longrightarrow> verdict ops classes r0 qs v = Some (SubmitFull v))"
  using assms
proof (induction rs arbitrary: r vs outs)
  case Nil
  then show ?case using batch_spec_accounted [of ops classes arr True r0 vs "queues r0" qs outs w] by auto
next
  case (Cons r' rs)
  obtain qs1 outs1 w1 where b: "batch_spec ops classes arr True r vs (queues r) = (qs1, outs1, w1)" by (rule prod_cases3)
  note ac = batch_spec_accounted [OF b]
  show ?case
  proof (cases w1)
    case None
    then show ?thesis using Cons.prems b ac by simp
  next
    case (Some x)
    obtain v rest where x: "x = (v, rest)" by (cases x)
    obtain r2 qs2 outs2 w2 where c: "spec_course ops classes arr r' rest rs = (r2, qs2, outs2, w2)" by (rule prod_cases4)
    have o: "outs = outs1 @ (v, after_wait ops r' v) # outs2" "r2 = r0" "qs2 = qs" "w2 = w" using Cons.prems b Some x c by auto
    show ?thesis using Cons.IH [OF c [unfolded o(2-4)]] ac Some x o(1) by (auto simp: accounted_def after_wait_def)
  qed
qed

abbreviation all_late :: "('v, 'k, 'i, 'w) router \<Rightarrow> bool" where
  "all_late r \<equiv> \<forall>i < length (ro_shards r). closes_late (ro_shards r ! i)"

lemma became_late:
  assumes "became r qs r'" "all_late r"
  shows "all_late r'"
  using becameD [OF assms(1)] assms(2) by (simp add: evolves_def closes_late_def)

lemma waited_ok:
  assumes r: "routed ops {} r" "all_late r" and w: "waited ops e r res r'" and e: "en_key e = wk_key ops (en_work e)"
  shows "routed ops {} r'" "all_late r'" "res = (case after_wait ops r' (en_work e) of None \<Rightarrow> Inr () | Some err \<Rightarrow> Inl err)"
    "res = Inr () \<Longrightarrow> \<exists>q. queues r' ! shard_index ops r (en_key e) = q @ [e]"
proof -
  let ?i = "shard_index ops r (en_key e)"
  have len: "length (ro_shards r') = length (ro_shards r)" and idx: "shard_index ops r' = shard_index ops r"
    using w by (auto simp: waited_def shard_index_def fun_eq_iff)
  have i: "?i < length (ro_shards r)" by (rule routedD(2) [OF r(1)])
  have runs: "\<exists>evs. run mail_step (ro_shards r ! j, False) evs (ro_shards r' ! j, False)" if "j < length (ro_shards r)" for j
    using w that by (simp add: waited_def)
  have inv: "mail_inv (ro_shards r ! j, False)" if "j < length (ro_shards r)" for j using routedD(3) [OF r(1) that] by simp
  have "mail_inv (ro_shards r' ! j, False) \<and> closes_late (ro_shards r' ! j)" if "j < length (ro_shards r)" for j
    using runs [OF that] mail.run_inv [OF _ inv [OF that]] mail_run_closes_late r(2) that by fastforce
  then show "routed ops {} r'" "all_late r'" using routedD(2) [OF r(1)] len by (auto simp: routed_def idx)
  obtain evs m u ev wk tk wr where s: "run mail_step (ro_shards r ! ?i, False) evs (m, u)"
    "mail_step (m, u) ev (ro_shards r' ! ?i, False)" "ev = MSend wk e tk wr \<or> ev = MSendPoll wk e tk wr" "send_outcome e wr = Some res"
    using w by (auto simp: waited_def)
  have "mail_inv (m, u)" "closes_late m" using mail.run_inv [OF s(1) inv [OF i]] mail_run_closes_late [OF s(1)] r(2) i by auto
  note t = send_ended [OF s(2,3) this]
  have "(if mb_departed (ro_shards r' ! ?i) then res = Inl (ShardDown (en_work e))
      else res = Inr () \<and> (\<exists>q. mb_ring (ro_shards r' ! ?i) = q @ [e]))"
    using t s(4) by (cases wr) auto
  then show "res = (case after_wait ops r' (en_work e) of None \<Rightarrow> Inr () | Some err \<Rightarrow> Inl err)"
    "res = Inr () \<Longrightarrow> \<exists>q. queues r' ! ?i = q @ [e]"
    using i by (auto simp: after_wait_def idx e queues_def len split: if_splits)
qed

lemma course_spec:
  assumes "batch_course ops classes arr x rs out" "leaves ops arr x r1 w (batch_plus b (tally outs))" "became r qs r1" "routed ops {} r1"
    "all_late r" "batch_spec ops classes arr True r vs (queues r) = (qs, outs, w)"
  shows "\<exists>r0 qs' outs' w' r'. spec_course ops classes arr r vs rs = (r0, qs', outs', w') \<and> leaves ops arr out r' w' (batch_plus b (tally outs')) \<and>
    became r0 qs' r' \<and> routed ops {} r' \<and> length rs \<le> length outs' \<and> waits_landed ops classes arr r vs rs"
  using assms
proof (induction arbitrary: r1 w b outs r qs vs rule: batch_course.induct)
  case (course_stop out)
  then show ?case by auto
next
  case (course_wait e ra res r2 rest b1 d rs out)
  have l: "ra = r1" "b1 = batch_plus b (tally outs)" "e = envelope_of ops arr (en_work e)" "w = Some (en_work e, rest)" "deferred_ok d" "pending d = {}"
    using course_wait.prems(1) by (simp_all add: leaves_def)
  have k: "en_key e = wk_key ops (en_work e)" by (subst l(3)) simp
  note wo = waited_ok [OF course_wait.prems(3) became_late [OF course_wait.prems(2,4)] course_wait.hyps(1) [unfolded l(1)] k]
  obtain qs2 outs2 w2 where s2: "batch_spec ops classes arr True r2 rest (queues r2) = (qs2, outs2, w2)" by (rule prod_cases3)
  have "routed ops (pending d) r2" using wo(1) l(6) by simp
  from batch_loop_spec [OF l(5) this s2, of "batch_record res b1"] obtain r3 where
    "leaves ops arr (resume_batch ops classes arr res rest b1 d r2) r3 w2 (batch_plus (batch_record res b1) (tally outs2))"
    "became r2 qs2 r3" "routed ops {} r3" unfolding resume_batch_def by blast
  from course_wait.IH [OF this wo(2) s2] obtain r0 qs' outs' w' r' where c:
    "spec_course ops classes arr r2 rest rs = (r0, qs', outs', w')" "leaves ops arr out r' w' (batch_plus (batch_record res b1) (tally outs'))"
    "became r0 qs' r'" "routed ops {} r'" "length rs \<le> length outs'" "waits_landed ops classes arr r2 rest rs" by blast
  let ?outs = "outs @ (en_work e, after_wait ops r2 (en_work e)) # outs'"
  have "batch_plus b (tally ?outs) = batch_plus (batch_record res b1) (tally outs')"
    using tally_Cons [of "batch_plus b (tally outs)"] wo(3) l(2) by (simp add: tally_append flip: batch_plus_assoc)
  moreover have "waits_landed ops classes arr r vs (r2 # rs)"
    using wo(3,4) c(6) l(3,4) k course_wait.prems(5) becameD(2) [OF course_wait.prems(2), of ops] by (simp split: option.splits)
  ultimately show ?case using c l(4) course_wait.prems(5) by (intro exI [of _ r0] exI [of _ qs'] exI [of _ ?outs] exI [of _ w'] exI [of _ r']) simp
qed

section \<open>Properties\<close>

definition reachable_mail :: "('a, 'w) mailbox \<Rightarrow> bool" where
  "reachable_mail m \<longleftrightarrow> (\<exists>cap x evs. mail_init cap x \<and> run mail_step x evs (m, False))"

definition none_stranded :: "('v, 'k, 'i, 'w) router \<Rightarrow> bool" where
  "none_stranded r \<longleftrightarrow> (\<forall>m \<in> set (ro_shards r). asleep m \<longrightarrow> mb_ring m = [])"

text \<open>A shard that slept before and has something queued after has had its waker called in between.\<close>

definition all_woken :: "('v, 'k, 'i, 'w) router \<Rightarrow> ('v, 'k, 'i, 'w) router \<Rightarrow> bool" where
  "all_woken r r' \<longleftrightarrow> (\<forall>i < length (ro_shards r). \<forall>w. asleep (ro_shards r ! i) \<and> ws_waker (bell_owner (mb_bell (ro_shards r ! i))) = Some w \<and>
     mb_ring (ro_shards r' ! i) \<noteq> [] \<longrightarrow> (\<exists>ws. mb_woken (ro_shards r' ! i) = mb_woken (ro_shards r ! i) @ ws \<and> w \<in> set ws))"

lemma routed_start:
  assumes "router_with_options shards st = Some r" "\<forall>m \<in> set shards. reachable_mail m"
  shows "routed ops {} r" "all_late r"
proof -
  have sh: "ro_shards r = shards" using router_slots [OF assms(1)] by blast
  have "mail_inv (m, False) \<and> closes_late m" if m: "m \<in> set shards" for m
  proof -
    obtain cap x evs where "mail_init cap x" "run mail_step x evs (m, False)" using assms(2) m unfolding reachable_mail_def by blast
    then show ?thesis using mail.reachable_inv mail_run_closes_late [of x evs "(m, False)"] mail_init_closes_late [of cap x] by simp blast
  qed
  then show "routed ops {} r" "all_late r" using shard_index_bound [OF assms(1)] by (simp_all add: routed_def sh)
qed

lemma routed_none_stranded: "routed ops {} r \<Longrightarrow> none_stranded r"
  by (auto simp: routed_def none_stranded_def mail_inv_def in_set_conv_nth)

lemma became_all_woken:
  assumes "became r qs r'" "routed ops {} r'"
  shows "all_woken r r'"
  unfolding all_woken_def
proof (intro allI impI)
  fix i w
  assume i: "i < length (ro_shards r)" and a: "asleep (ro_shards r ! i) \<and> ws_waker (bell_owner (mb_bell (ro_shards r ! i))) = Some w \<and> mb_ring (ro_shards r' ! i) \<noteq> []"
  then have "watching w (mb_woken (ro_shards r ! i)) (ro_shards r ! i)" by (simp add: watching_def)
  then have "watching w (mb_woken (ro_shards r ! i)) (ro_shards r' ! i)" using becameD(4) [OF assms(1) i] by (simp add: evolves_def)
  moreover have "mail_inv (ro_shards r' ! i, False)" using routedD(3) [OF assms(2), of i] becameD(1) [OF assms(1)] i by simp
  ultimately show "\<exists>ws. mb_woken (ro_shards r' ! i) = mb_woken (ro_shards r ! i) @ ws \<and> w \<in> set ws"
    using a by (auto simp: watching_def mail_inv_def)
qed

lemma try_batch_spec:
  assumes "routed ops {} r" "batch_spec ops classes (arrival now r) False r items (queues r) = (qs, outs, w)"
  shows "\<exists>r'. try_submit_batch ops classes now items r = (r', if ba_rejected (tally outs) = [] then Inr () else Inl (tally outs)) \<and>
    became r qs r' \<and> routed ops {} r'"
proof -
  obtain b d r1 where l: "try_batch_loop ops classes (arrival now r) items batch_new deferred_new r = (b, d, r1)" by (rule prod_cases3)
  obtain d2 r2 where a: "deferred_announce d r1 = (d2, r2)" by (cases "deferred_announce d r1")
  have "routed ops (pending deferred_new) r" using assms(1) by (simp add: deferred_new_ok(2))
  note t = try_loop_spec [OF deferred_new_ok(1) this l assms(2)]
  note as = deferred_announce_spec [of d ops r1, OF _ _ a]
  have "became r qs r2" using became_trans [of r qs r1, OF _ as(4)] t becameD(3) [of r qs r1] by simp
  then show ?thesis using as(3) t l a by (intro exI [of _ r2]) (simp add: try_submit_batch_def batch_into_result_def)
qed

text \<open>
  C37. A batch does what the reference says, and leaves no shard asleep on what it pushed. On a router over
  mailboxes in reachable states, \<open>try_submit_batch\<close> decides every item in order: an item of no class is
  refused as such, then one whose shard has departed, then one whose shard's queue is full at that moment;
  every other item is appended, with the one arrival of the batch, to the queue of the shard that owns its
  key. The report counts the items that landed and lists the refused ones, each in the error that says why.
  The waiting form, \<open>submit_batch\<close> followed by \<open>resume_batch\<close> after each wait, does the same, except that it
  refuses nothing as full: it waits exactly at an item whose queue is full, and after the wait the item is the
  newest of its queue, or its shard has departed and it is refused as such; the rest meets the queues as
  they are then, whatever senders and shards did meanwhile. It waits at most once for each item, and when it
  returns every item is in the account. At every wait and at the end nothing is left unannounced: a shard
  that slept and has something queued has had its waker called, and a sleeping shard has an empty queue.
\<close>

theorem batch_accounts:
  assumes "router_with_options shards st = Some r" "\<forall>m \<in> set shards. reachable_mail m" and "arr = (if st then Some now else None)"
  shows "(\<exists>qs outs r'. batch_spec ops classes arr False r items (queues r) = (qs, outs, None) \<and>
      try_submit_batch ops classes now items r = (r', if ba_rejected (tally outs) = [] then Inr () else Inl (tally outs)) \<and>
      accounted False items outs None \<and>
      (\<forall>i < length shards. qs ! i = queues r ! i @ filter (\<lambda>e. shard_index ops r (en_key e) = i) (landed ops arr outs)) \<and>
      became r qs r' \<and> all_woken r r' \<and> none_stranded r') \<and>
    (\<forall>rs out. batch_course ops classes arr (submit_batch ops classes now items r) rs out \<longrightarrow>
      (\<exists>r0 qs outs w r'. spec_course ops classes arr r items rs = (r0, qs, outs, w) \<and> leaves ops arr out r' w (tally outs) \<and>
        accounted True items outs w \<and> length rs \<le> length outs \<and> waits_landed ops classes arr r items rs \<and>
        (\<forall>v rest. w = Some (v, rest) \<longrightarrow> verdict ops classes r0 qs v = Some (SubmitFull v)) \<and>
        became r0 qs r' \<and> all_woken r0 r' \<and> none_stranded r'))"
proof -
  note start = routed_start(1) [OF assms(1,2), of ops] routed_start(2) [OF assms(1,2)]
  have len: "length (queues r) = length shards" and arr: "arrival now r = arr"
    using assms(1,3) by (auto simp: queues_def arrival_def router_with_options_def Let_def split: if_splits)
  obtain qs outs w where s: "batch_spec ops classes arr False r items (queues r) = (qs, outs, w)" by (rule prod_cases3)
  have ac: "accounted False items outs w" using batch_spec_accounted [OF s] by simp
  then have w: "w = None" by (cases w) (simp_all add: accounted_def)
  obtain r' where r': "try_submit_batch ops classes now items r = (r', if ba_rejected (tally outs) = [] then Inr () else Inl (tally outs))"
    "became r qs r'" "routed ops {} r'" using try_batch_spec [OF start(1) s [folded arr]] by blast
  have sync: "\<exists>qs outs r'. batch_spec ops classes arr False r items (queues r) = (qs, outs, None) \<and>
      try_submit_batch ops classes now items r = (r', if ba_rejected (tally outs) = [] then Inr () else Inl (tally outs)) \<and>
      accounted False items outs None \<and>
      (\<forall>i < length shards. qs ! i = queues r ! i @ filter (\<lambda>e. shard_index ops r (en_key e) = i) (landed ops arr outs)) \<and>
      became r qs r' \<and> all_woken r r' \<and> none_stranded r'"
    using s ac r' batch_spec_queues [OF s] became_all_woken [OF r'(2,3)] routed_none_stranded [OF r'(3)] unfolding w len by blast
  obtain qs1 outs1 w1 where s1: "batch_spec ops classes arr True r items (queues r) = (qs1, outs1, w1)" by (rule prod_cases3)
  have "routed ops (pending deferred_new) r" using start(1) by (simp add: deferred_new_ok(2))
  from batch_loop_spec [OF deferred_new_ok(1) this s1, of batch_new] obtain r1 where r1:
    "leaves ops arr (submit_batch ops classes now items r) r1 w1 (batch_plus batch_new (tally outs1))" "became r qs1 r1" "routed ops {} r1"
    unfolding submit_batch_def arr by blast
  have "\<exists>r0 qs outs w r'. spec_course ops classes arr r items rs = (r0, qs, outs, w) \<and> leaves ops arr out r' w (tally outs) \<and>
        accounted True items outs w \<and> length rs \<le> length outs \<and> waits_landed ops classes arr r items rs \<and>
        (\<forall>v rest. w = Some (v, rest) \<longrightarrow> verdict ops classes r0 qs v = Some (SubmitFull v)) \<and>
        became r0 qs r' \<and> all_woken r0 r' \<and> none_stranded r'"
    if c: "batch_course ops classes arr (submit_batch ops classes now items r) rs out" for rs out
  proof -
    obtain r0 qs' outs' w' r' where t: "spec_course ops classes arr r items rs = (r0, qs', outs', w')"
      "leaves ops arr out r' w' (batch_plus batch_new (tally outs'))" "became r0 qs' r'" "routed ops {} r'"
      "length rs \<le> length outs'" "waits_landed ops classes arr r items rs"
      using course_spec [OF c r1 start(2) s1] by blast
    then show ?thesis using spec_course_accounted [OF t(1)] became_all_woken [OF t(3,4)] routed_none_stranded [OF t(4)] by auto
  qed
  then show ?thesis using sync by blast
qed

lemma demo_shard_reachable: "reachable_mail demo_shard"
  unfolding reachable_mail_def
  by (rule exI [of _ 1], rule exI [of _ "(demo_shard, False)"], rule exI [of _ "[]"])
    (simp add: mail_init_def demo_shard_def mailbox_channel_def run.run_nil)

text \<open>
  One shard with room for one item. Item 1 lands, item 2 has class 2 of two and item 3 finds the queue full.
  The waiting form waits for item 3, the shard takes item 1, and the send then goes through.
\<close>

definition demo_router :: "(nat, nat, nat, nat) router" where
  "demo_router = the (router_with_options [demo_shard] True)"

definition demo_run :: "(nat, nat, nat, nat) batch_run" where
  "demo_run = submit_batch demo_ops 2 0 [1, 2, 3] demo_router"

definition demo_full :: "(nat, nat, nat, nat) router" where
  "demo_full = (case demo_run of BatchWaits e rest b d r \<Rightarrow> r | BatchDone r res \<Rightarrow> r)"

definition demo_room :: "((nat, nat, nat) envelope, nat) mailbox" where
  "demo_room = fst (mb_try_recv (ro_shards demo_full ! 0))"

definition demo_resent :: "((nat, nat, nat) envelope, nat) mailbox" where
  "demo_resent = fst (mb_try_send (envelope_of demo_ops (Some 0) 3) demo_room)"

lemma demo_router: "router_with_options [demo_shard] True = Some demo_router"
  by (simp add: demo_router_def router_with_options_def Let_def)

definition demo_later :: "(nat, nat, nat, nat) router" where
  "demo_later = demo_full\<lparr>ro_shards := [demo_resent]\<rparr>"

lemma demo_work [simp]: "wk_key demo_ops v = v" "wk_class demo_ops v = v mod 3"
  by (simp_all add: demo_ops_def)

lemma demo_shard_fields [simp]: "mb_departed demo_shard = False" "mb_capacity demo_shard = 1" "mb_ring demo_shard = []"
    "mb_producers demo_shard = 1" "wt_waiting (mb_waiters demo_shard) = 0" "mb_parked demo_shard = False"
  by (simp_all add: demo_shard_def mailbox_channel_def waiters_new_def)

lemma demo_index [simp]: "shard_index demo_ops demo_router k = 0"
  using shard_index_bound [OF demo_router, of demo_ops k] by simp

lemma demo_router_shards [simp]: "ro_shards demo_router = [demo_shard]"
  using router_slots [OF demo_router] by blast

lemma demo_spec:
  "batch_spec demo_ops 2 (Some 0) False demo_router [1, 2, 3] (queues demo_router) =
     ([[envelope_of demo_ops (Some 0) 1]], [(1, None), (2, Some (InvalidClass 2)), (3, Some (SubmitFull 3))], None)"
  "batch_spec demo_ops 2 (Some 0) True demo_router [1, 2, 3] (queues demo_router) =
     ([[envelope_of demo_ops (Some 0) 1]], [(1, None), (2, Some (InvalidClass 2))], Some (3, []))"
  by (simp_all add: verdict_def Let_def deposit_def queues_def)

lemma demo_run_waits:
  obtains b d where "demo_run = BatchWaits (envelope_of demo_ops (Some 0) 3) [] b d demo_full"
    "became demo_router [[envelope_of demo_ops (Some 0) 1]] demo_full"
proof -
  have sh: "\<forall>m \<in> set [demo_shard]. reachable_mail m" using demo_shard_reachable by simp
  have "arrival 0 demo_router = Some 0" by (simp add: demo_router_def router_with_options_def Let_def arrival_def)
  moreover have "routed demo_ops (pending deferred_new) demo_router" using routed_start(1) [OF demo_router sh] by (simp add: deferred_new_ok(2))
  ultimately obtain r' where l: "leaves demo_ops (Some 0) demo_run r' (Some (3, [])) (batch_plus batch_new (tally [(1, None), (2, Some (InvalidClass 2))]))"
    "became demo_router [[envelope_of demo_ops (Some 0) 1]] r'"
    using batch_loop_spec [OF deferred_new_ok(1) _ demo_spec(2), of batch_new] unfolding demo_run_def submit_batch_def by auto
  then obtain e b d where e: "demo_run = BatchWaits e [] b d r'" "en_work e = 3" "e = envelope_of demo_ops (Some 0) (en_work e)"
    by (auto simp: leaves_def split: batch_run.splits)
  have "demo_full = r'" by (simp add: demo_full_def e(1))
  then show thesis using that [of b d] l(2) e by simp
qed

lemma demo_full_facts [simp]: "shard_index demo_ops demo_full k = 0" "length (ro_shards demo_full) = 1"
    "mb_ring (ro_shards demo_full ! 0) = [envelope_of demo_ops (Some 0) 1]" "evolves demo_shard (ro_shards demo_full ! 0)"
proof -
  have b: "became demo_router [[envelope_of demo_ops (Some 0) 1]] demo_full" using demo_run_waits by blast
  note f = becameD(1) [OF b] becameD(2) [OF b, of demo_ops] becameD(3,4) [OF b]
  show "shard_index demo_ops demo_full k = 0" "length (ro_shards demo_full) = 1" using f(1,2) by simp_all
  then show "mb_ring (ro_shards demo_full ! 0) = [envelope_of demo_ops (Some 0) 1]" using f(3) by (simp add: queues_def map_eq_Cons_conv) force
  show "evolves demo_shard (ro_shards demo_full ! 0)" using f(4) [of 0] by simp
qed

lemma demo_room_fields [simp]: "mb_ring demo_room = []" "mb_capacity demo_room = 1" "\<not> mb_departed demo_room" "mb_producers demo_room = 1"
    "\<not> mb_departed (ro_shards demo_full ! 0)" "\<not> mb_departed demo_resent"
proof -
  note ev = demo_full_facts(4) [unfolded evolves_def]
  show "mb_ring demo_room = []" "mb_capacity demo_room = 1" "mb_producers demo_room = 1" and d: "\<not> mb_departed demo_room"
    using ev by (auto simp: demo_room_def mb_try_recv_def mb_take_def mb_unpark_def mb_release_capacity_def release_capacity_def any_waiting_def Let_def)
  show "\<not> mb_departed (ro_shards demo_full ! 0)" using ev by simp
  show "\<not> mb_departed demo_resent" using d by (simp add: demo_resent_def try_send_keeps)
qed

lemma send_with_room:
  assumes "\<not> mb_departed m" "length (mb_ring m) < mb_capacity m"
  shows "mb_send_start w a m = Some (fst (mb_try_send a m), None, WDone ())"
proof -
  have "mb_try_send a m = (fst (mb_try_send a m), Inr ())" using try_send_answer [of a m] assms by (simp add: prod_eq_iff)
  then have "send_attempt a m = (fst (mb_try_send a m), AReady ())" by (auto simp: send_attempt_def split: prod.splits)
  moreover have "x\<lparr>mb_waiters := mb_waiters x\<rparr> = x" for x :: "('a, 'b) mailbox" by (cases x) simp
  ultimately show ?thesis using try_send_keeps(1) [of a m] by (simp add: mb_send_start_def park_until_start_def)
qed

lemma demo_waited: "waited demo_ops (envelope_of demo_ops (Some 0) 3) demo_full (Inr ()) demo_later"
proof -
  let ?e = "envelope_of demo_ops (Some 0) 3" and ?m = "ro_shards demo_full ! 0"
  have "mail_step (?m, False) (MTryRecv (snd (mb_try_recv ?m))) (demo_room, False)" by (rule mail_try_recv) (simp_all add: demo_room_def)
  then have recv: "run mail_step (?m, False) [MTryRecv (snd (mb_try_recv ?m))] (demo_room, False)" by (rule run_single)
  have "mb_send_start 9 ?e demo_room = Some (demo_resent, None, WDone ())" by (simp add: send_with_room demo_resent_def)
  from mail_send [OF _ this, of False] have send: "mail_step (demo_room, False) (MSend 9 ?e None (WDone ())) (demo_resent, False)" by simp
  have "\<exists>evs. run mail_step (?m, False) evs (demo_resent, False)" using run_snoc [OF recv send] by blast
  moreover have "\<exists>evs x ev w tk wr. run mail_step (?m, False) evs x \<and> mail_step x ev (demo_resent, False) \<and>
      (ev = MSend w ?e tk wr \<or> ev = MSendPoll w ?e tk wr) \<and> send_outcome ?e wr = Some (Inr ())"
    using recv send by (metis send_outcome.simps(1))
  ultimately show ?thesis by (simp add: waited_def demo_later_def)
qed

lemma demo_later_spec:
  "spec_course demo_ops 2 (Some 0) demo_router [1, 2, 3] [demo_later] =
     (demo_later, [mb_ring demo_resent], [(1, None), (2, Some (InvalidClass 2)), (3, None)], None)"
proof -
  have "shard_index demo_ops demo_later 3 = 0" using demo_full_facts(1) [of 3] by (simp add: demo_later_def shard_index_def)
  then have "after_wait demo_ops demo_later 3 = None" "queues demo_later = [mb_ring demo_resent]"
    by (simp_all add: after_wait_def demo_later_def queues_def)
  then show ?thesis unfolding spec_course.simps demo_spec(2) by simp
qed

theorem batch_accounts_witness:
  "router_with_options [demo_shard] True = Some demo_router \<and> reachable_mail demo_shard \<and>
   (\<exists>r'. try_submit_batch demo_ops 2 0 [1, 2, 3] demo_router =
      (r', Inl \<lparr>ba_submitted = 1, ba_rejected = [InvalidClass 2, SubmitFull 3]\<rparr>) \<and> none_stranded r') \<and>
   (\<exists>r'. batch_course demo_ops 2 (Some 0) (submit_batch demo_ops 2 0 [1, 2, 3] demo_router) [demo_later]
      (BatchDone r' (Inl \<lparr>ba_submitted = 2, ba_rejected = [InvalidClass 2]\<rparr>)) \<and> none_stranded r')"
proof -
  have sh: "\<forall>m \<in> set [demo_shard]. reachable_mail m" using demo_shard_reachable by simp
  have "Some 0 = (if True then Some 0 else (None :: duration option))" by simp
  note acc = batch_accounts [OF demo_router sh this, of demo_ops 2 "[1, 2, 3]"]
  have t: "tally [(1, None), (2, Some (InvalidClass 2)), (3, Some (SubmitFull 3))] = \<lparr>ba_submitted = 1, ba_rejected = [InvalidClass 2, SubmitFull (3 :: nat)]\<rparr>"
    "tally [(1, None), (2, Some (InvalidClass 2)), (3, None)] = \<lparr>ba_submitted = 2, ba_rejected = [InvalidClass (2 :: nat)]\<rparr>"
    by (simp_all add: tally_def)
  obtain b d where w: "submit_batch demo_ops 2 0 [1, 2, 3] demo_router = BatchWaits (envelope_of demo_ops (Some 0) 3) [] b d demo_full" using demo_run_waits unfolding demo_run_def by blast
  define out where "out = resume_batch demo_ops 2 (Some 0) (Inr ()) [] b d demo_later"
  have c: "batch_course demo_ops 2 (Some 0) (submit_batch demo_ops 2 0 [1, 2, 3] demo_router) [demo_later] out"
    unfolding w out_def by (rule course_wait [OF demo_waited course_stop])
  have sync: "\<exists>r'. try_submit_batch demo_ops 2 0 [1, 2, 3] demo_router = (r', Inl \<lparr>ba_submitted = 1, ba_rejected = [InvalidClass 2, SubmitFull 3]\<rparr>) \<and> none_stranded r'"
    using acc [THEN conjunct1, unfolded demo_spec(1)] t(1) by (auto simp del: One_nat_def)
  obtain r' where "leaves demo_ops (Some 0) out r' None (tally [(1, None), (2, Some (InvalidClass 2)), (3, None)])" "none_stranded r'"
    using acc [THEN conjunct2, THEN spec, THEN spec, THEN mp, OF c, unfolded demo_later_spec] by auto
  then have "out = BatchDone r' (Inl \<lparr>ba_submitted = 2, ba_rejected = [InvalidClass 2]\<rparr>)" unfolding t(2) by (cases out) (simp_all add: leaves_def)
  then show ?thesis using sync c \<open>none_stranded r'\<close> demo_router demo_shard_reachable by blast
qed

end
