(* ===== verification/Metrics.thy ===== *)
theory Metrics
  imports Core_Scheduler
begin

text \<open>
  The counters of one shard and the snapshot published from them, \<^verbatim>\<open>crates/grommet/src/metrics.rs\<close>. Counters
  are 64-bit words and wrap. The latency histograms are those of an external library: their type is a
  parameter, and the operations the shard uses of it are the record \<open>hist_ops\<close>.
\<close>

record 'h hist_ops =
  ho_new :: 'h
  ho_record :: "u64 \<Rightarrow> 'h \<Rightarrow> 'h"
  ho_add :: "'h \<Rightarrow> 'h \<Rightarrow> 'h"

section \<open>Counters\<close>

record 'h shard_hot =
  ht_panicked :: u64
  ht_failed :: u64
  ht_in_doubt :: u64
  ht_coalesced :: u64
  ht_evicted :: u64
  ht_busy_nanos :: u64
  ht_queue_wait_nanos :: u64
  ht_started_by_class :: "u64 list"
  ht_completed_by_class :: "u64 list"
  ht_expired_by_class :: "u64 list"
  ht_inflight_age_max_nanos :: u64
  ht_queue_wait :: 'h
  ht_process :: 'h

definition hot_default :: "'h hist_ops \<Rightarrow> nat \<Rightarrow> 'h shard_hot" where
  "hot_default ho classes =
     \<lparr>ht_panicked = 0, ht_failed = 0, ht_in_doubt = 0, ht_coalesced = 0, ht_evicted = 0, ht_busy_nanos = 0,
      ht_queue_wait_nanos = 0, ht_started_by_class = replicate classes 0, ht_completed_by_class = replicate classes 0,
      ht_expired_by_class = replicate classes 0, ht_inflight_age_max_nanos = 0, ht_queue_wait = ho_new ho, ht_process = ho_new ho\<rparr>"

definition counter_add :: "u64 \<Rightarrow> u64 \<Rightarrow> u64" where
  "counter_add value counter = counter + value"

definition counter_bump :: "u64 \<Rightarrow> u64" where
  "counter_bump counter = counter + 1"

text \<open>Bumping the counter of a class indexes the array, which panics outside it.\<close>

definition bump_class :: "class_id \<Rightarrow> u64 list \<Rightarrow> u64 list option" where
  "bump_class class counters =
     (if class < length counters then Some (counters[class := counter_bump (counters ! class)]) else None)"

definition counters_total :: "u64 list \<Rightarrow> u64" where
  "counters_total counters = fold (\<lambda>counter total. total + counter) counters 0"

definition hot_started :: "'h shard_hot \<Rightarrow> u64" where
  "hot_started hot = counters_total (ht_started_by_class hot)"

definition hot_completed :: "'h shard_hot \<Rightarrow> u64" where
  "hot_completed hot = counters_total (ht_completed_by_class hot)"

definition hot_expired :: "'h shard_hot \<Rightarrow> u64" where
  "hot_expired hot = counters_total (ht_expired_by_class hot)"

definition record_queue_wait :: "'h hist_ops \<Rightarrow> u64 \<Rightarrow> 'h shard_hot \<Rightarrow> 'h shard_hot" where
  "record_queue_wait ho nanos hot = hot\<lparr>ht_queue_wait := ho_record ho nanos (ht_queue_wait hot)\<rparr>"

definition record_process :: "'h hist_ops \<Rightarrow> u64 \<Rightarrow> 'h shard_hot \<Rightarrow> 'h shard_hot" where
  "record_process ho nanos hot = hot\<lparr>ht_process := ho_record ho nanos (ht_process hot)\<rparr>"

section \<open>The published snapshot\<close>

record 'h shard_stats =
  st_started :: u64
  st_completed :: u64
  st_panicked :: u64
  st_failed :: u64
  st_in_doubt :: u64
  st_coalesced :: u64
  st_expired :: u64
  st_evicted :: u64
  st_busy_nanos :: u64
  st_queue_wait_nanos :: u64
  st_inflight :: "u64 list"
  st_ready :: "u64 list"
  st_pending :: u64
  st_resident :: u64
  st_evicting :: u64
  st_eviction_backlog :: u64
  st_queue_capacity :: u64
  st_started_by_class :: "u64 list"
  st_completed_by_class :: "u64 list"
  st_expired_by_class :: "u64 list"
  st_inflight_age_max_nanos :: u64
  st_queue_wait :: 'h
  st_process :: 'h

definition stats_default :: "'h hist_ops \<Rightarrow> nat \<Rightarrow> 'h shard_stats" where
  "stats_default ho classes =
     \<lparr>st_started = 0, st_completed = 0, st_panicked = 0, st_failed = 0, st_in_doubt = 0, st_coalesced = 0, st_expired = 0,
      st_evicted = 0, st_busy_nanos = 0, st_queue_wait_nanos = 0, st_inflight = replicate classes 0, st_ready = replicate classes 0,
      st_pending = 0, st_resident = 0, st_evicting = 0, st_eviction_backlog = 0, st_queue_capacity = 0,
      st_started_by_class = replicate classes 0, st_completed_by_class = replicate classes 0, st_expired_by_class = replicate classes 0,
      st_inflight_age_max_nanos = 0, st_queue_wait = ho_new ho, st_process = ho_new ho\<rparr>"

text \<open>Clearing a histogram and adding the shard's own copy to it.\<close>

definition republish :: "'h hist_ops \<Rightarrow> 'h \<Rightarrow> 'h" where
  "republish ho from = ho_add ho from (ho_new ho)"

definition stats_publish :: "'h hist_ops \<Rightarrow> 'h shard_hot \<Rightarrow> snapshot \<Rightarrow> 'h shard_stats" where
  "stats_publish ho hot snap =
     \<lparr>st_started = hot_started hot, st_completed = hot_completed hot, st_panicked = ht_panicked hot, st_failed = ht_failed hot,
      st_in_doubt = ht_in_doubt hot, st_coalesced = ht_coalesced hot, st_expired = hot_expired hot, st_evicted = ht_evicted hot,
      st_busy_nanos = ht_busy_nanos hot, st_queue_wait_nanos = ht_queue_wait_nanos hot,
      st_inflight = map of_nat (sn_inflight snap), st_ready = map of_nat (sn_ready snap), st_pending = of_nat (sn_pending snap),
      st_resident = of_nat (sn_resident snap), st_evicting = of_nat (sn_evicting snap),
      st_eviction_backlog = of_nat (sn_eviction_backlog snap), st_queue_capacity = of_nat (sn_queue_capacity snap),
      st_started_by_class = ht_started_by_class hot, st_completed_by_class = ht_completed_by_class hot,
      st_expired_by_class = ht_expired_by_class hot, st_inflight_age_max_nanos = ht_inflight_age_max_nanos hot,
      st_queue_wait = republish ho (ht_queue_wait hot), st_process = republish ho (ht_process hot)\<rparr>"

definition merge_queue_wait_into :: "'h hist_ops \<Rightarrow> 'h shard_stats \<Rightarrow> 'h \<Rightarrow> 'h" where
  "merge_queue_wait_into ho st into = ho_add ho (st_queue_wait st) into"

definition merge_process_into :: "'h hist_ops \<Rightarrow> 'h shard_stats \<Rightarrow> 'h \<Rightarrow> 'h" where
  "merge_process_into ho st into = ho_add ho (st_process st) into"

end
