(* ===== verification/Shard.thy ===== *)
theory Shard
  imports Metrics Outstanding Wheel Router
begin

text \<open>
  The shard reactor of \<^verbatim>\<open>crates/grommet/src/shard.rs\<close>: the loop that composes the mailbox, the core scheduler,
  the outstanding set, the timer wheel and the counters. The local variables of \<open>run\<close> are one record and
  each stage of a turn is a function on it. What the processor's futures answer, the readings of the clock,
  the waker and the driver's decision to wait are arguments of a turn, so every behaviour of the code the
  shard hosts is covered; the hooks \<open>on_coalesced\<close> and \<open>on_expired\<close> are recorded as calls and return.
\<close>

section \<open>Configuration\<close>

datatype fallout = Untouched | InDoubt

definition is_in_doubt :: "fallout \<Rightarrow> bool" where
  "is_in_doubt f \<longleftrightarrow> f = InDoubt"

datatype panic_policy = ContinueOnPanic | AbortOnPanic

record shard_config =
  sc_scheduler :: config
  sc_admit_batch :: nat
  sc_complete_batch :: nat
  sc_flush_slots :: nat
  sc_tick :: duration
  sc_panic_policy :: panic_policy
  sc_coalesce_duplicates :: bool

definition shard_config_new :: "nat list \<Rightarrow> shard_config" where
  "shard_config_new budgets =
     \<lparr>sc_scheduler = config_new budgets, sc_admit_batch = 64, sc_complete_batch = 64, sc_flush_slots = 256,
      sc_tick = NANOS_PER_SEC, sc_panic_policy = ContinueOnPanic, sc_coalesce_duplicates = False\<rparr>"

section \<open>Futures and what they resolve to\<close>

record ('v, 'i) stamped =
  sm_enqueued :: duration
  sm_request_id :: "'i option"
  sm_work :: 'v

datatype ('k, 'v, 'i, 's) shard_future =
    RunOne nat "('k, ('v, 'i) stamped, 's) dispatch"
  | RunFlush 'k 's

datatype ('k, 's, 'i) outcome =
    Ran nat "('k, 's) completion" "'i option" bool "fallout option"
  | Flushed 'k

text \<open>What one poll of the processor's own future answers.\<close>

datatype 's answer = Waits | Returns "'s disposition" | Fails fallout | Panics

definition run_one :: "nat \<Rightarrow> ('k, ('v, 'i) stamped, 's) dispatch \<Rightarrow> 's answer \<Rightarrow>
    (('k, 'v, 'i, 's) shard_future, ('k, 's, 'i) outcome) poll_result" where
  "run_one sequence d a =
     (let ran = (\<lambda>state panicked fallout.
        poll_result.Ready (Ran sequence \<lparr>co_key = di_key d, co_class = di_class d, co_state = state\<rparr>
          (sm_request_id (di_payload d)) panicked fallout)) in
      case a of
        Waits \<Rightarrow> poll_result.Pending (RunOne sequence d)
      | Returns state \<Rightarrow> ran state False None
      | Fails fallout \<Rightarrow> ran Drop False (Some fallout)
      | Panics \<Rightarrow> ran Drop True (Some InDoubt))"

definition run_flush :: "'k \<Rightarrow> 's \<Rightarrow> 's answer \<Rightarrow> (('k, 'v, 'i, 's) shard_future, ('k, 's, 'i) outcome) poll_result" where
  "run_flush key state a =
     (case a of Waits \<Rightarrow> poll_result.Pending (RunFlush key state) | _ \<Rightarrow> poll_result.Ready (Flushed key))"

definition shard_poller :: "(nat \<Rightarrow> ('k, 'v, 'i, 's) shard_future \<Rightarrow> 's answer \<times> nat list) \<Rightarrow>
    (('k, 'v, 'i, 's) shard_future, ('k, 's, 'i) outcome) poller" where
  "shard_poller answer index f =
     (let (a, wakes) = answer index f in
      ((case f of RunOne sequence d \<Rightarrow> run_one sequence d a | RunFlush key state \<Rightarrow> run_flush key state a), wakes))"

section \<open>Ages of the dispatches in flight\<close>

record in_flight_ages =
  ag_started_at :: "duration list"
  ag_live :: "bool list"
  ag_next :: nat

definition ages_new :: "nat \<Rightarrow> in_flight_ages" where
  "ages_new slots =
     (let slots = max slots 1 in \<lparr>ag_started_at = replicate slots 0, ag_live = replicate slots False, ag_next = 0\<rparr>)"

definition ages_begin :: "duration \<Rightarrow> in_flight_ages \<Rightarrow> in_flight_ages \<times> nat" where
  "ages_begin now a =
     (let sequence = ag_next a; slot = sequence mod length (ag_started_at a) in
      (a\<lparr>ag_next := (sequence + 1) mod 2 ^ 64, ag_started_at := (ag_started_at a)[slot := now], ag_live := (ag_live a)[slot := True]\<rparr>,
       sequence))"

definition ages_finish :: "nat \<Rightarrow> duration \<Rightarrow> in_flight_ages \<Rightarrow> in_flight_ages \<times> duration" where
  "ages_finish sequence now a =
     (let slot = sequence mod length (ag_started_at a) in
      (a\<lparr>ag_live := (ag_live a)[slot := False]\<rparr>, now - ag_started_at a ! slot))"

definition ages_oldest :: "duration \<Rightarrow> in_flight_ages \<Rightarrow> duration" where
  "ages_oldest now a =
     (case map fst (filter snd (zip (ag_started_at a) (ag_live a))) of
        [] \<Rightarrow> 0
      | t # ts \<Rightarrow> now - fold min ts t)"

section \<open>The state of a shard\<close>

datatype shard_timer = Tick

definition TIMERS :: nat where "TIMERS = 64"

abbreviation WHEEL_SHIFT :: nat where "WHEEL_SHIFT \<equiv> 10"

datatype ('k, 'v) hook = OnCoalesced 'k 'v | OnExpired 'k 'v

record ('k, 'v, 'i, 's, 'w, 'h) shard =
  sd_cfg :: shard_config
  sd_rx :: "(('v, 'k, 'i) envelope, 'w) mailbox"
  sd_book :: "('k, ('v, 'i) stamped, 's) scheduler"
  sd_live :: "('k \<times> 'i) set"
  sd_outstanding :: "(('k, 'v, 'i, 's) shard_future, 'w) inner"
  sd_ages :: in_flight_ages
  sd_staged :: "('k \<times> 's) list"
  sd_timers :: "shard_timer wheel"
  sd_open :: bool
  sd_final_flush :: bool
  sd_flushes :: nat
  sd_now :: duration
  sd_hot :: "'h shard_hot"
  sd_stats :: "'h shard_stats"
  sd_calls :: "('k, 'v) hook list"

definition shard_capacity :: "shard_config \<Rightarrow> nat" where
  "shard_capacity conf = sum_list (max_inflight (sc_scheduler conf)) + sc_flush_slots conf"

definition insert_tick :: "duration \<Rightarrow> shard_config \<Rightarrow> shard_timer wheel \<Rightarrow> shard_timer wheel option" where
  "insert_tick now conf w =
     (case try_insert_duration WHEEL_SHIFT (duration_saturating_add now (sc_tick conf)) Tick w of
        Some (w, Inr _) \<Rightarrow> Some w
      | _ \<Rightarrow> None)"

text \<open>The variables of \<open>run\<close> before its first poll; the identity of the wheel is an argument.\<close>

definition shard_start :: "'h hist_ops \<Rightarrow> shard_config \<Rightarrow> (('v, 'k, 'i) envelope, 'w) mailbox \<Rightarrow> u32 \<Rightarrow> duration \<Rightarrow>
    ('k, 'v, 'i, 's, 'w, 'h) shard option" where
  "shard_start ho conf rx wheel_id now = do {
     outstanding \<leftarrow> outstanding_with_capacity (shard_capacity conf);
     timers \<leftarrow> wheel_with_capacity_at_tick TIMERS 0 wheel_id;
     timers \<leftarrow> insert_tick now conf timers;
     let classes = length (max_inflight (sc_scheduler conf));
     Some \<lparr>sd_cfg = conf, sd_rx = rx, sd_book = new (sc_scheduler conf), sd_live = {}, sd_outstanding = outstanding,
           sd_ages = ages_new (sum_list (max_inflight (sc_scheduler conf))), sd_staged = [], sd_timers = timers, sd_open = True,
           sd_final_flush = True, sd_flushes = 0, sd_now = now, sd_hot = hot_default ho classes,
           sd_stats = stats_default ho classes, sd_calls = []\<rparr>
   }"

section \<open>Admission\<close>

definition admit_tracked :: "('v, 'k, 'i) envelope \<Rightarrow> 'i option \<Rightarrow> ('k, 'v, 'i, 's, 'w, 'h) shard \<Rightarrow>
    ('k, 'v, 'i, 's, 'w, 'h) shard option" where
  "admit_tracked e tracked s = do {
     counters \<leftarrow> bump_class (en_class e) (ht_started_by_class (sd_hot s));
     book \<leftarrow> admit \<lparr>ad_key = en_key e, ad_class = en_class e, ad_expires_at = en_expires_at e,
       ad_payload = \<lparr>sm_enqueued = en_enqueued e, sm_request_id = tracked, sm_work = en_work e\<rparr>\<rparr> (sd_book s);
     Some (s\<lparr>sd_hot := (sd_hot s)\<lparr>ht_started_by_class := counters\<rparr>, sd_book := book\<rparr>)
   }"

definition admit_one :: "('v, 'k, 'i) envelope \<Rightarrow> ('k, 'v, 'i, 's, 'w, 'h) shard \<Rightarrow> ('k, 'v, 'i, 's, 'w, 'h) shard option" where
  "admit_one e s =
     (case en_request_id e of
        Some rid \<Rightarrow>
          if sc_coalesce_duplicates (sd_cfg s) then
            if (en_key e, rid) \<in> sd_live s then
              Some (s\<lparr>sd_hot := (sd_hot s)\<lparr>ht_coalesced := counter_bump (ht_coalesced (sd_hot s))\<rparr>,
                      sd_calls := sd_calls s @ [OnCoalesced (en_key e) (en_work e)]\<rparr>)
            else admit_tracked e (Some rid) (s\<lparr>sd_live := insert (en_key e, rid) (sd_live s)\<rparr>)
          else admit_tracked e None s
      | None \<Rightarrow> admit_tracked e None s)"

record admitted =
  am_count :: nat
  am_closed :: bool
  am_at :: duration

text \<open>
  A bounded burst from the mailbox; \<open>first\<close> is the reading of the clock taken with the first item. The
  capacity the burst freed is handed to waiting senders however it ended.
\<close>

function drain_loop :: "nat \<Rightarrow> 'w \<Rightarrow> duration \<Rightarrow> admitted \<Rightarrow> ('k, 'v, 'i, 's, 'w, 'h) shard \<Rightarrow>
    (('k, 'v, 'i, 's, 'w, 'h) shard \<times> admitted) option" where
  "drain_loop limit w first taken s =
     (if am_count taken < limit \<and> \<not> is_saturated (sd_book s) then
        (case mb_poll_recv w (sd_rx s) of
           None \<Rightarrow> None
         | Some (rx, RItem e) \<Rightarrow>
             (case admit_one e (s\<lparr>sd_rx := rx\<rparr>) of
                None \<Rightarrow> None
              | Some s \<Rightarrow>
                  drain_loop limit w first
                    (taken\<lparr>am_count := am_count taken + 1, am_at := (if am_count taken = 0 then first else am_at taken)\<rparr>) s)
         | Some (rx, RClosed) \<Rightarrow> Some (s\<lparr>sd_rx := rx\<rparr>, taken\<lparr>am_closed := True\<rparr>)
         | Some (rx, RPending) \<Rightarrow> Some (s\<lparr>sd_rx := rx\<rparr>, taken))
      else Some (s, taken))"
  by pat_completeness auto
termination
  by (relation "measure (\<lambda>(limit, w, first, taken, s). limit - am_count taken)") auto

declare drain_loop.simps [simp del]

definition drain_inbox :: "'w \<Rightarrow> duration \<Rightarrow> ('k, 'v, 'i, 's, 'w, 'h) shard \<Rightarrow>
    (('k, 'v, 'i, 's, 'w, 'h) shard \<times> admitted) option" where
  "drain_inbox w first s =
     map_option (\<lambda>(s, taken). (s\<lparr>sd_rx := mb_release_capacity (sd_rx s)\<rparr>, taken))
       (drain_loop (max (sc_admit_batch (sd_cfg s)) 1) w first \<lparr>am_count = 0, am_closed = False, am_at = sd_now s\<rparr> s)"

section \<open>Dispatch\<close>

text \<open>A dispatch takes one place of its class budget, which is why the loop that fills a class ends.\<close>

lemma idle_link_inflight: "idle_link key now s = Some s' \<Longrightarrow> inflight s' = inflight s \<and> cfg s' = cfg s"
  by (auto simp: idle_link_def Let_def split: if_splits option.splits bind_splits)

lemma place_inflight: "place key target now s = Some s' \<Longrightarrow> inflight s' = inflight s \<and> cfg s' = cfg s"
  by (auto simp: place_def ring_push_def split: option.splits if_splits dest: idle_link_inflight)

lemma next_loop_inflight:
  "next_loop c now s = Some (s', d) \<Longrightarrow>
   cfg s' = cfg s \<and> inflight s' = (if d = None then inflight s else (inflight s)[c := inflight s ! c + 1])"
proof (induction c now s rule: next_loop.induct)
  case (1 c now s)
  note step = next_loop.simps [of c now s]
  show ?case
  proof (cases "c < length (ready s) \<and> ready s ! c \<noteq> []")
    case False
    then show ?thesis using "1.prems" by (auto simp: step split: if_splits list.splits)
  next
    case True
    then obtain key rest where r: "ready s ! c = key # rest" "c < length (ready s)" by (cases "ready s ! c") auto
    let ?s1 = "s\<lparr>ready := (ready s)[c := rest]\<rparr>"
    obtain slot where k: "map_of (keys ?s1) key = Some slot" using "1.prems" r by (auto simp: step Let_def split: option.splits)
    obtain sl q pend exps tk where h: "next_head key c now (slab ?s1) (queue slot) (pending ?s1) (expired ?s1) = Some (sl, q, pend, exps, tk)"
      using "1.prems" r k by (auto simp: step Let_def split: option.splits)
    show ?thesis
    proof (cases tk)
      case (Some x)
      then show ?thesis using "1.prems" r k h by (auto simp: step Let_def)
    next
      case None
      let ?s2 = "?s1\<lparr>slab := sl, pending := pend, expired := exps\<rparr>"
      obtain slot' target where t: "settle sl (slot\<lparr>queue := q\<rparr>) = Some (slot', target)" "target \<noteq> Some c"
        using "1.prems" r k h None by (auto simp: step Let_def split: option.splits if_splits)
      obtain s3 where p: "place key target now (set_slot key slot' ?s2) = Some s3"
        using "1.prems" r k h None t by (auto simp: step Let_def split: option.splits)
      have "next_loop c now s3 = Some (s', d)" using "1.prems" r k h None t p by (simp add: step Let_def)
      from "1.IH" [OF _ r(1) refl k h refl refl refl refl refl refl None t(1) refl t(2) p this] r(2)
      show ?thesis using place_inflight [OF p] by simp
    qed
  qed
qed

lemma next_dispatch_progress:
  assumes "next_dispatch c now s = Some (s', Some d)"
  shows "max_inflight (cfg s') ! c - inflight s' ! c < max_inflight (cfg s) ! c - inflight s ! c"
  using assms next_loop_inflight [of c now s s' "Some d"] by (auto simp: next_dispatch_def split: if_splits)

definition start_dispatch :: "'h hist_ops \<Rightarrow> ('k, ('v, 'i) stamped, 's) dispatch \<Rightarrow> ('k, 'v, 'i, 's, 'w, 'h) shard \<Rightarrow>
    ('k, 'v, 'i, 's, 'w, 'h) shard option" where
  "start_dispatch ho d s =
     (let waited = of_nat (sd_now s - sm_enqueued (di_payload d));
          hot = (sd_hot s)\<lparr>ht_queue_wait_nanos := counter_add waited (ht_queue_wait_nanos (sd_hot s))\<rparr>;
          (ages, sequence) = ages_begin (sd_now s) (sd_ages s) in
      map_option (\<lambda>outstanding. s\<lparr>sd_hot := record_queue_wait ho waited hot, sd_ages := ages, sd_outstanding := outstanding\<rparr>)
        (outstanding_push (RunOne sequence d) (sd_outstanding s)))"

lemma start_dispatch_book: "start_dispatch ho d s = Some s' \<Longrightarrow> sd_book s' = sd_book s"
  by (auto simp: start_dispatch_def Let_def split: prod.splits)

function dispatch_class :: "'h hist_ops \<Rightarrow> class_id \<Rightarrow> ('k, 'v, 'i, 's, 'w, 'h) shard \<Rightarrow> ('k, 'v, 'i, 's, 'w, 'h) shard option" where
  "dispatch_class ho class s =
     (case next_dispatch class (sd_now s) (sd_book s) of
        None \<Rightarrow> None
      | Some (book, None) \<Rightarrow> Some (s\<lparr>sd_book := book\<rparr>)
      | Some (book, Some d) \<Rightarrow>
          (case start_dispatch ho d (s\<lparr>sd_book := book\<rparr>) of
             None \<Rightarrow> None
           | Some s' \<Rightarrow> dispatch_class ho class s'))"
  by pat_completeness auto
termination
  by (relation "measure (\<lambda>(ho, class, s). max_inflight (cfg (sd_book s)) ! class - inflight (sd_book s) ! class)")
    (auto dest!: start_dispatch_book dest: next_dispatch_progress)

declare dispatch_class.simps [simp del]

primrec dispatch_classes :: "'h hist_ops \<Rightarrow> class_id list \<Rightarrow> ('k, 'v, 'i, 's, 'w, 'h) shard \<Rightarrow> ('k, 'v, 'i, 's, 'w, 'h) shard option" where
  "dispatch_classes ho [] s = Some s"
| "dispatch_classes ho (class # rest) s =
     (case dispatch_class ho class s of None \<Rightarrow> None | Some s \<Rightarrow> dispatch_classes ho rest s)"

definition dispatch_ready :: "'h hist_ops \<Rightarrow> ('k, 'v, 'i, 's, 'w, 'h) shard \<Rightarrow> ('k, 'v, 'i, 's, 'w, 'h) shard option" where
  "dispatch_ready ho s = dispatch_classes ho [0..<length (max_inflight (sc_scheduler (sd_cfg s)))] s"

section \<open>Shedding expired work\<close>

definition shed_one :: "'k \<times> class_id \<times> ('v, 'i) stamped \<Rightarrow> ('k, 'v, 'i, 's, 'w, 'h) shard \<Rightarrow> ('k, 'v, 'i, 's, 'w, 'h) shard option" where
  "shed_one x s =
     (case x of (key, class, stamped) \<Rightarrow> do {
        counters \<leftarrow> bump_class class (ht_expired_by_class (sd_hot s));
        Some (s\<lparr>sd_hot := (sd_hot s)\<lparr>ht_expired_by_class := counters\<rparr>,
                sd_live := (case sm_request_id stamped of Some rid \<Rightarrow> sd_live s - {(key, rid)} | None \<Rightarrow> sd_live s),
                sd_calls := sd_calls s @ [OnExpired key (sm_work stamped)]\<rparr>)
      })"

lemma shed_one_book: "shed_one x s = Some s' \<Longrightarrow> sd_book s' = sd_book s"
  by (auto simp: shed_one_def split: prod.splits bind_splits)

function shed_expired :: "('k, 'v, 'i, 's, 'w, 'h) shard \<Rightarrow> ('k, 'v, 'i, 's, 'w, 'h) shard option" where
  "shed_expired s =
     (case pop_expired (sd_book s) of
        (book, None) \<Rightarrow> Some (s\<lparr>sd_book := book\<rparr>)
      | (book, Some x) \<Rightarrow>
          (case shed_one x (s\<lparr>sd_book := book\<rparr>) of
             None \<Rightarrow> None
           | Some s' \<Rightarrow> shed_expired s'))"
  by pat_completeness auto
termination
  by (relation "measure (\<lambda>s. length (expired (sd_book s)))")
    (auto simp: pop_expired_def split: list.splits dest!: shed_one_book)

declare shed_expired.simps [simp del]

section \<open>Flushes\<close>

primrec start_flushes :: "('k \<times> 's) list \<Rightarrow> ('k, 'v, 'i, 's, 'w, 'h) shard \<Rightarrow> ('k, 'v, 'i, 's, 'w, 'h) shard option" where
  "start_flushes [] s = Some s"
| "start_flushes (x # xs) s = do {
     outstanding \<leftarrow> outstanding_push (RunFlush (fst x) (snd x)) (sd_outstanding s);
     start_flushes xs (s\<lparr>sd_hot := (sd_hot s)\<lparr>ht_evicted := counter_bump (ht_evicted (sd_hot s))\<rparr>,
       sd_flushes := sd_flushes s + 1, sd_outstanding := outstanding\<rparr>)
   }"

definition begin_flushes :: "('k, 'v, 'i, 's, 'w, 'h) shard \<Rightarrow> ('k, 'v, 'i, 's, 'w, 'h) shard option" where
  "begin_flushes s =
     (let room = min (sc_flush_slots (sd_cfg s) - sd_flushes s) (length (sd_staged s)) in
      start_flushes (take room (sd_staged s)) (s\<lparr>sd_staged := drop room (sd_staged s)\<rparr>))"

section \<open>Harvesting completions\<close>

text \<open>
  The callback that \<open>harvest\<close> runs on each output touches nothing of the outstanding set, so the outputs
  are handled, in order, after the pass. The flag says that a caught panic demands an abort.
\<close>

definition note_fallout :: "fallout option \<Rightarrow> 'h shard_hot \<Rightarrow> 'h shard_hot" where
  "note_fallout f hot =
     (case f of
        None \<Rightarrow> hot
      | Some f \<Rightarrow>
          (let hot = hot\<lparr>ht_failed := counter_bump (ht_failed hot)\<rparr> in
           if is_in_doubt f then hot\<lparr>ht_in_doubt := counter_bump (ht_in_doubt hot)\<rparr> else hot))"

definition note_panic :: "bool \<Rightarrow> 'h shard_hot \<Rightarrow> 'h shard_hot" where
  "note_panic panicked hot = (if panicked then hot\<lparr>ht_panicked := counter_bump (ht_panicked hot)\<rparr> else hot)"

definition handle_ran :: "'h hist_ops \<Rightarrow> duration \<Rightarrow> nat \<Rightarrow> ('k, 's) completion \<Rightarrow> 'i option \<Rightarrow> bool \<Rightarrow> fallout option \<Rightarrow>
    ('k, 'v, 'i, 's, 'w, 'h) shard \<Rightarrow> ('k, 'v, 'i, 's, 'w, 'h) shard option" where
  "handle_ran ho moment sequence c rid panicked f s = do {
     counters \<leftarrow> bump_class (co_class c) (ht_completed_by_class (sd_hot s));
     let (ages, took) = ages_finish sequence moment (sd_ages s);
     let hot = record_process ho (of_nat took) ((sd_hot s)\<lparr>ht_completed_by_class := counters\<rparr>);
     book \<leftarrow> Core_Scheduler.complete c moment (sd_book s);
     Some (s\<lparr>sd_hot := note_panic panicked (note_fallout f hot), sd_ages := ages,
             sd_live := (case rid of Some i \<Rightarrow> sd_live s - {(co_key c, i)} | None \<Rightarrow> sd_live s), sd_book := book\<rparr>)
   }"

definition handle_flushed :: "duration \<Rightarrow> 'k \<Rightarrow> ('k, 'v, 'i, 's, 'w, 'h) shard \<Rightarrow> ('k, 'v, 'i, 's, 'w, 'h) shard option" where
  "handle_flushed moment key s =
     (if sd_flushes s = 0 then None
      else map_option (\<lambda>book. s\<lparr>sd_flushes := sd_flushes s - 1, sd_book := book\<rparr>) (finish_evict key moment (sd_book s)))"

definition handle_outcome :: "'h hist_ops \<Rightarrow> duration \<Rightarrow> ('k, 's, 'i) outcome \<Rightarrow> ('k, 'v, 'i, 's, 'w, 'h) shard \<Rightarrow>
    ('k, 'v, 'i, 's, 'w, 'h) shard option" where
  "handle_outcome ho moment out s =
     (case out of
        Ran sequence c rid panicked f \<Rightarrow> handle_ran ho moment sequence c rid panicked f s
      | Flushed key \<Rightarrow> handle_flushed moment key s)"

primrec handle_outcomes :: "'h hist_ops \<Rightarrow> duration \<Rightarrow> ('k, 's, 'i) outcome list \<Rightarrow> ('k, 'v, 'i, 's, 'w, 'h) shard \<Rightarrow>
    ('k, 'v, 'i, 's, 'w, 'h) shard option" where
  "handle_outcomes ho moment [] s = Some s"
| "handle_outcomes ho moment (out # outs) s =
     (case handle_outcome ho moment out s of None \<Rightarrow> None | Some s \<Rightarrow> handle_outcomes ho moment outs s)"

fun demands_abort :: "panic_policy \<Rightarrow> ('k, 's, 'i) outcome \<Rightarrow> bool" where
  "demands_abort policy (Ran sequence c rid panicked f) = (panicked \<and> policy = AbortOnPanic)"
| "demands_abort policy (Flushed key) = False"

definition harvest_completions :: "'h hist_ops \<Rightarrow> (nat \<Rightarrow> ('k, 'v, 'i, 's) shard_future \<Rightarrow> 's answer \<times> nat list) \<Rightarrow> duration \<Rightarrow>
    ('k, 'v, 'i, 's, 'w, 'h) shard \<Rightarrow> (('k, 'v, 'i, 's, 'w, 'h) shard \<times> harvest_report \<times> bool) option" where
  "harvest_completions ho answer moment s =
     (let hr = harvest (shard_poller answer) (max (sc_complete_batch (sd_cfg s)) 1) (sd_outstanding s) in
      case hr_report hr of
        None \<Rightarrow> None
      | Some report \<Rightarrow>
          map_option (\<lambda>s. (s, report, list_ex (demands_abort (sc_panic_policy (sd_cfg s))) (hr_out hr)))
            (handle_outcomes ho moment (hr_out hr) (s\<lparr>sd_outstanding := hr_inner hr\<rparr>)))"

section \<open>Timers\<close>

definition publish_stats :: "'h hist_ops \<Rightarrow> ('k, 'v, 'i, 's, 'w, 'h) shard \<Rightarrow> ('k, 'v, 'i, 's, 'w, 'h) shard" where
  "publish_stats ho s =
     (let hot = (sd_hot s)\<lparr>ht_inflight_age_max_nanos := of_nat (ages_oldest (sd_now s) (sd_ages s))\<rparr> in
      s\<lparr>sd_hot := hot, sd_stats := stats_publish ho hot (take_snapshot (sd_book s))\<rparr>)"

definition on_tick :: "'h hist_ops \<Rightarrow> ('k, 'v, 'i, 's, 'w, 'h) shard \<Rightarrow> ('k, 'v, 'i, 's, 'w, 'h) shard option" where
  "on_tick ho s = do {
     let s = publish_stats ho s;
     (book, staged) \<leftarrow> (if sd_staged s = [] then evict (sd_now s) [] (sd_book s) else Some (sd_book s, sd_staged s));
     timers \<leftarrow> insert_tick (sd_now s) (sd_cfg s) (sd_timers s);
     Some (s\<lparr>sd_book := book, sd_staged := staged, sd_timers := timers\<rparr>)
   }"

primrec run_due :: "'h hist_ops \<Rightarrow> shard_timer list \<Rightarrow> ('k, 'v, 'i, 's, 'w, 'h) shard \<Rightarrow> ('k, 'v, 'i, 's, 'w, 'h) shard option" where
  "run_due ho [] s = Some s"
| "run_due ho (timer # due) s =
     (case (case timer of Tick \<Rightarrow> on_tick ho s) of None \<Rightarrow> None | Some s \<Rightarrow> run_due ho due s)"

definition service_timers :: "'h hist_ops \<Rightarrow> ('k, 'v, 'i, 's, 'w, 'h) shard \<Rightarrow> (('k, 'v, 'i, 's, 'w, 'h) shard \<times> bool) option" where
  "service_timers ho s =
     (if \<not> is_due_duration WHEEL_SHIFT (sd_now s) (sd_timers s) then Some (s, False)
      else
        (case advance_duration WHEEL_SHIFT (sd_now s) [] (sd_timers s) of
           Some (Some (timers, due)) \<Rightarrow> map_option (\<lambda>s. (s, True)) (run_due ho due (s\<lparr>sd_timers := timers\<rparr>))
         | _ \<Rightarrow> None))"

section \<open>One turn of the loop\<close>

record ('k, 'v, 'i, 's, 'w) turn_env =
  te_waker :: 'w
  te_answer :: "nat \<Rightarrow> ('k, 'v, 'i, 's) shard_future \<Rightarrow> 's answer \<times> nat list"
  te_first :: duration
  te_admitted :: duration
  te_at :: duration
  te_finished :: duration
  te_wait_pending :: bool
  te_waited :: duration

datatype turn_end = Continues | Sleeps | Exits | Aborts

text \<open>Admitting, with the busy time it took.\<close>

definition admit_stage :: "('k, 'v, 'i, 's, 'w) turn_env \<Rightarrow> ('k, 'v, 'i, 's, 'w, 'h) shard \<Rightarrow>
    (('k, 'v, 'i, 's, 'w, 'h) shard \<times> nat) option" where
  "admit_stage env s =
     (if \<not> sd_open s then Some (s, 0)
      else do {
        (s, taken) \<leftarrow> drain_inbox (te_waker env) (te_first env) s;
        let s = (if am_closed taken then s\<lparr>sd_open := False\<rparr> else s);
        let s = (if am_count taken > 0 then
            s\<lparr>sd_now := te_admitted env,
              sd_hot := (sd_hot s)\<lparr>ht_busy_nanos := counter_add (of_nat (te_admitted env - am_at taken)) (ht_busy_nanos (sd_hot s))\<rparr>\<rparr>
          else s);
        Some (s, am_count taken + (if am_closed taken then 1 else 0))
      })"

definition busy_after_harvest :: "('k, 'v, 'i, 's, 'w) turn_env \<Rightarrow> ('k, 'v, 'i, 's, 'w, 'h) shard \<Rightarrow> ('k, 'v, 'i, 's, 'w, 'h) shard" where
  "busy_after_harvest env s =
     s\<lparr>sd_now := te_finished env,
       sd_hot := (sd_hot s)\<lparr>ht_busy_nanos := counter_add (of_nat (te_finished env - te_at env)) (ht_busy_nanos (sd_hot s))\<rparr>\<rparr>"

text \<open>The part of a turn that follows the exit test.\<close>

definition work_stage :: "'h hist_ops \<Rightarrow> ('k, 'v, 'i, 's, 'w) turn_env \<Rightarrow> ('k, 'v, 'i, 's, 'w, 'h) shard \<Rightarrow>
    (('k, 'v, 'i, 's, 'w, 'h) shard \<times> turn_end) option" where
  "work_stage ho env s = do {
     (s, admitted) \<leftarrow> admit_stage env s;
     (s, report, abort) \<leftarrow> harvest_completions ho (te_answer env) (te_at env) s;
     if abort then Some (publish_stats ho s, Aborts)
     else do {
       let s = (if h_finished report > 0 then busy_after_harvest env s else s);
       (s, fired) \<leftarrow> service_timers ho s;
       if admitted > 0 \<or> h_finished report > 0 \<or> fired \<or> h_more_ready report then Some (s, Continues)
       else do {
         deadline \<leftarrow> next_wakeup_duration WHEEL_SHIFT (sd_timers s);
         if te_wait_pending env then Some (s, Sleeps) else Some (s\<lparr>sd_now := te_waited env\<rparr>, Continues)
       }
     }
   }"

text \<open>The end of the loop: the last flush hands out every idle key's state, once.\<close>

definition exit_stage :: "'h hist_ops \<Rightarrow> ('k, 'v, 'i, 's, 'w, 'h) shard \<Rightarrow> (('k, 'v, 'i, 's, 'w, 'h) shard \<times> turn_end) option" where
  "exit_stage ho s =
     (if sd_final_flush s then do {
        (book, staged) \<leftarrow> evict_all (sd_staged s) (sd_book s);
        let s = s\<lparr>sd_final_flush := False, sd_book := book, sd_staged := staged\<rparr>;
        if staged \<noteq> [] then Some (s, Continues) else Some (publish_stats ho s, Exits)
      }
      else Some (publish_stats ho s, Exits))"

definition turn :: "'h hist_ops \<Rightarrow> ('k, 'v, 'i, 's, 'w) turn_env \<Rightarrow> ('k, 'v, 'i, 's, 'w, 'h) shard \<Rightarrow>
    (('k, 'v, 'i, 's, 'w, 'h) shard \<times> turn_end) option" where
  "turn ho env s = do {
     s \<leftarrow> dispatch_ready ho s;
     s \<leftarrow> shed_expired s;
     s \<leftarrow> begin_flushes s;
     if check_invariants (sd_book s) \<noteq> Inr () then None
     else if \<not> sd_open s \<and> outstanding_is_empty (sd_outstanding s) \<and> sd_staged s = [] then exit_stage ho s
     else work_stage ho env s
   }"

text \<open>A poll of the shard's task registers its waker and reads the clock before its first turn.\<close>

definition shard_wake :: "'w \<Rightarrow> duration \<Rightarrow> ('k, 'v, 'i, 's, 'w, 'h) shard \<Rightarrow> ('k, 'v, 'i, 's, 'w, 'h) shard option" where
  "shard_wake w now s = map_option (\<lambda>outstanding. s\<lparr>sd_outstanding := outstanding, sd_now := now\<rparr>) (register_owner w (sd_outstanding s))"

end
