(* ===== verification/Outstanding_Accounts.thy ===== *)
theory Outstanding_Accounts
  imports Outstanding_Theorems "HOL-Library.Multiset"
begin

text \<open>
  What a client of the outstanding set relies on: the futures it holds, as a multiset. A push adds one, a
  harvest moves futures to the outputs they resolved to and loses none.
\<close>

section \<open>The futures held\<close>

definition opt_mset :: "'f option \<Rightarrow> 'f multiset" where
  "opt_mset v = (case v of None \<Rightarrow> {#} | Some f \<Rightarrow> {#f#})"

lemma opt_mset_simps [simp]: "opt_mset None = {#}" "opt_mset (Some f) = {#f#}"
  by (simp_all add: opt_mset_def)

definition held_futures :: "('f, 'w) inner \<Rightarrow> 'f multiset" where
  "held_futures s = (\<Sum>v\<in>#mset (in_storage s). opt_mset v)"

lemma held_update:
  "i < length xs \<Longrightarrow> (\<Sum>v\<in>#mset (xs[i := v']). opt_mset v) + opt_mset (xs ! i) = (\<Sum>v\<in>#mset xs. opt_mset v) + opt_mset v'"
proof (induction xs arbitrary: i)
  case (Cons x xs)
  then show ?case by (cases i) (auto simp: add_ac)
qed simp

lemma held_size: "size (held_futures s) = card (occupied s)"
proof -
  have "size (\<Sum>v\<in>#mset xs. opt_mset v) = length (filter (\<lambda>v. v \<noteq> None) xs)" for xs :: "'a option list"
    by (induction xs) auto
  then show ?thesis by (simp add: held_futures_def occupied_def is_occupied_def length_filter_conv_card)
qed

lemma live_size:
  assumes "store_wf s"
  shows "in_live s = size (held_futures s)"
proof -
  note w = store_wfD [OF assms]
  have "occupied s \<subseteq> {..<length (in_storage s)}" by (auto simp: occupied_def)
  then have "length (in_free s) + card (occupied s) = length (in_storage s)"
    using distinct_card [OF w(1)] w(2) card_Diff_subset [of "occupied s" "{..<length (in_storage s)}"]
      card_mono [of "{..<length (in_storage s)}" "occupied s"] finite_subset by fastforce
  then show ?thesis using w(3) held_size [of s] by simp
qed

text \<open>Between operations nobody is registering or waking on the owner's bell.\<close>

definition calm :: "'w shared \<Rightarrow> bool" where
  "calm sh \<longleftrightarrow> ws_state (bell_owner (sh_bell sh)) = WAITING"

lemma waking_busy: "set_waking x \<noteq> WAITING"
  by (simp add: set_waking_def WAITING_def WAKING_def REGISTERING_def)

lemma calm_steps [simp]: "calm (ring_bell sh) = calm sh" "calm (notify j sh) = calm sh" "calm (fold notify ws sh) = calm sh"
  "calm (sh\<lparr>sh_ready := r\<rparr>) = calm sh" "calm (guard_restore wake g sh) = calm sh"
proof -
  show ring: "calm (ring_bell sh) = calm sh" for sh :: "'a shared"
    using waking_busy by (auto simp: calm_def ring_bell_def bell_ring_def slot_wake_def slot_take_def Let_def)
  show r: "calm (sh\<lparr>sh_ready := r\<rparr>) = calm sh" for sh :: "'a shared" and r by (simp add: calm_def)
  show n: "calm (notify j sh) = calm sh" for j and sh :: "'a shared" by (auto simp: notify_def ring r Let_def split: option.splits)
  show "calm (fold notify ws sh) = calm sh" by (induction ws arbitrary: sh) (simp_all add: n)
  show "calm (guard_restore wake g sh) = calm sh" by (simp add: guard_restore_def Let_def ring r)
qed

lemma register_calm:
  assumes "calm (in_shared s)"
  obtains s' where "register_owner w s = Some s'" "calm (in_shared s')"
  using assms that by (auto simp: register_owner_def bell_register_def slot_register_def calm_def store_waker_def)

lemma register_owner_inv: "register_owner w s = Some s' \<Longrightarrow> out_inv s \<Longrightarrow> out_inv s'"
  using out_step_inv [OF step_owner] .

lemma push_accounts:
  assumes "out_inv s" "in_live s < length (in_storage s)"
  obtains s' where "outstanding_push f s = Some s'" "out_inv s'" "held_futures s' = add_mset f (held_futures s)"
    "length (in_storage s') = length (in_storage s)" "calm (in_shared s') = calm (in_shared s)"
proof -
  have "in_free s \<noteq> []" using store_wfD(3) [OF out_invD(5) [OF assms(1)]] assms(2) by auto
  from try_push_room [OF assms(1) this, of f] obtain s' where s': "outstanding_try_push f s = Some (s', Inr ())" "out_inv s'"
    "in_storage s' = (in_storage s)[last (in_free s) := Some f]" "occupied s' = insert (last (in_free s)) (occupied s)"
    "last (in_free s) \<notin> occupied s" by metis
  have "last (in_free s) \<in> occupied s'" using s'(4) by simp
  then have i: "last (in_free s) < length (in_storage s)" using s'(3) by (simp add: occupied_def)
  then have "in_storage s ! last (in_free s) = None" using s'(5) by (simp add: occupied_def is_occupied_def)
  then have "held_futures s' = add_mset f (held_futures s)"
    using held_update [OF i, of "Some f"] by (simp add: held_futures_def s'(3))
  moreover have "outstanding_push f s = Some s'" unfolding outstanding_push_def s'(1) by simp
  moreover have "calm (in_shared s') = calm (in_shared s)"
    using s'(1) by (auto simp: outstanding_try_push_def Let_def split: if_splits option.splits)
  ultimately show thesis using that [of s'] s'(2,3) by simp
qed

lemma register_owner_held:
  "register_owner w s = Some s' \<Longrightarrow> held_futures s' = held_futures s \<and> length (in_storage s') = length (in_storage s)"
  by (auto simp: register_owner_def held_futures_def)

section \<open>A harvest conserves them\<close>

text \<open>A poller that keeps a tag of every future: pending futures keep it and outputs carry it on.\<close>

definition keeps_tags :: "('f, 'o) poller \<Rightarrow> ('f \<Rightarrow> 't) \<Rightarrow> ('o \<Rightarrow> 't) \<Rightarrow> bool" where
  "keeps_tags poll tag otag \<longleftrightarrow>
     (\<forall>i f. case fst (poll i f) of Pending g \<Rightarrow> tag g = tag f | Ready out \<Rightarrow> otag out = tag f | _ \<Rightarrow> False)"

definition account :: "('f \<Rightarrow> 't) \<Rightarrow> ('o \<Rightarrow> 't) \<Rightarrow> ('f, 'w, 'o) pass \<Rightarrow> nat \<times> bool \<times> 't multiset" where
  "account tag otag p =
     (length (in_storage (p_inner p)), calm (in_shared (p_inner p)),
      image_mset tag (held_futures (p_inner p)) + image_mset otag (mset (p_out p)))"

lemma account_cong:
  "in_storage (p_inner p') = in_storage (p_inner p) \<Longrightarrow> p_out p' = p_out p \<Longrightarrow>
   calm (in_shared (p_inner p')) = calm (in_shared (p_inner p)) \<Longrightarrow> account tag otag p' = account tag otag p"
  by (simp add: account_def held_futures_def)

lemma account_steps [simp]:
  "account tag otag (clear_current b p) = account tag otag p" "account tag otag (move_cursor i p) = account tag otag p"
  "account tag otag (run_wakes ws p) = account tag otag p" "account tag otag (hold_word w p) = account tag otag p"
  "account tag otag (hold_summary w p) = account tag otag p" "account tag otag (split_word w b p) = account tag otag p"
  "account tag otag (split_summary w b p) = account tag otag p" "account tag otag (with_guard f p) = account tag otag p"
  "account tag otag (p\<lparr>p_guard := g\<rparr>) = account tag otag p"
  by (rule account_cong; simp add: clear_current_def move_cursor_def run_wakes_def hold_word_def hold_summary_def split_word_def
      split_summary_def with_guard_def Let_def split: prod.splits)+

lemma poll_slot_account:
  assumes t: "keeps_tags poll tag otag" and i: "i < length (in_storage (p_inner p))" "is_occupied (p_inner p) i"
  shows "account tag otag (fst (poll_slot poll i b p)) = account tag otag p \<and> snd (poll_slot poll i b p)"
proof -
  obtain f where f: "in_storage (p_inner p) ! i = Some f" using i(2) by (auto simp: is_occupied_def)
  obtain res wakes where r: "poll i f = (res, wakes)" by (cases "poll i f")
  let ?p = "run_wakes wakes (p\<lparr>p_polled := p_polled p + 1, p_trace := p_trace p @ [Polled i]\<rparr>)"
  have st: "in_storage (p_inner ?p) = in_storage (p_inner p)" "p_out ?p = p_out p"
    "calm (in_shared (p_inner ?p)) = calm (in_shared (p_inner p))" by (simp_all add: run_wakes_def)
  have tg: "case res of Pending g \<Rightarrow> tag g = tag f | Ready out \<Rightarrow> otag out = tag f | _ \<Rightarrow> False"
    using t r by (metis keeps_tags_def fst_conv)
  have upd: "held_futures ((p_inner p)\<lparr>in_storage := (in_storage (p_inner p))[i := v]\<rparr>) + {#f#} = held_futures (p_inner p) + opt_mset v" for v
    using held_update [OF i(1), of v] f by (simp add: held_futures_def)
  have "image_mset tag (held_futures ((p_inner p)\<lparr>in_storage := (in_storage (p_inner p))[i := v]\<rparr>)) + {#tag f#} =
      image_mset tag (held_futures (p_inner p)) + image_mset tag (opt_mset v)" for v
    using arg_cong [OF upd [of v], of "image_mset tag"] by simp
  then have acc: "image_mset tag (\<Sum>v\<in>#mset ((in_storage (p_inner p))[i := v]). opt_mset v) + {#tag f#} =
      image_mset tag (held_futures (p_inner p)) + image_mset tag (opt_mset v)" for v by (simp add: held_futures_def)
  show ?thesis
  proof (cases res)
    case (Pending g)
    then have "account tag otag (store_slot i (Some g) ?p) = account tag otag p"
      using acc [of "Some g"] tg st by (simp add: account_def store_slot_def held_futures_def)
    then show ?thesis using Pending r f by (simp add: poll_slot_def Let_def)
  next
    case (Ready out)
    let ?q = "release_slot i ?p"
    have "account tag otag (?q\<lparr>p_out := p_out ?q @ [out], p_finished := p_finished ?q + 1\<rparr>) = account tag otag p"
      using acc [of None] tg Ready st by (simp add: account_def release_slot_def store_slot_def held_futures_def Let_def)
    then show ?thesis using Ready r f by (simp add: poll_slot_def Let_def)
  qed (use tg in auto)
qed

lemma poll_current_account:
  assumes "keeps_tags poll tag otag"
  shows "account tag otag (fst (poll_current poll cap p)) = account tag otag p \<and> snd (poll_current poll cap p) \<noteq> Unwound"
  using assms
proof (induction poll cap p rule: poll_current.induct)
  case (1 poll cap p)
  let ?b = "trailing_zeros (g_current_bits (p_guard p))"
  let ?i = "g_current_word (p_guard p) * WORD_BITS + ?b"
  obtain p' ok where ps: "poll_slot poll ?i ?b p = (p', ok)" by (cases "poll_slot poll ?i ?b p") auto
  have sl: "?i < length (in_storage (p_inner p)) \<Longrightarrow> is_occupied (p_inner p) ?i \<Longrightarrow> account tag otag p' = account tag otag p \<and> ok"
    using poll_slot_account [OF "1.prems", of ?i p ?b] ps by simp
  show ?case
    unfolding poll_current.simps [of poll cap p] Let_def
    using 1 ps sl by (auto simp: Let_def)
qed

lemma scan_announced_account:
  assumes "keeps_tags poll tag otag"
  shows "account tag otag (fst (scan_announced poll cap p)) = account tag otag p \<and> snd (scan_announced poll cap p) \<noteq> Unwound"
  using assms
proof (induction poll cap p rule: scan_announced.induct)
  case (1 poll cap p)
  show ?case
  proof (cases "next_announced (p_guard p)")
    case None
    then show ?thesis by (simp add: scan_announced.simps [of poll cap p])
  next
    case (Some gw)
    obtain g w where gw: "gw = (g, w)" by (cases gw)
    obtain p' e where pc: "poll_current poll cap (hold_word w (p\<lparr>p_guard := g\<rparr>)) = (p', e)" by (cases "poll_current poll cap (hold_word w (p\<lparr>p_guard := g\<rparr>))")
    have "account tag otag p' = account tag otag p \<and> e \<noteq> Unwound" using poll_current_account [OF "1.prems", of cap "hold_word w (p\<lparr>p_guard := g\<rparr>)"] pc by simp
    then show ?thesis using 1 Some gw pc by (simp add: scan_announced.simps [of poll cap p])
  qed
qed

lemma scan_summaries_account:
  assumes "keeps_tags poll tag otag"
  shows "account tag otag (fst (scan_summaries poll cap start n steps p)) = account tag otag p \<and>
    snd (scan_summaries poll cap start n steps p) \<noteq> Unwound"
proof (induction steps arbitrary: p)
  case (Cons step steps)
  let ?q = "if step > 0 then hold_summary ((start + step) mod n) p else p"
  obtain p' e where sa: "scan_announced poll cap ?q = (p', e)" by (cases "scan_announced poll cap ?q")
  have "account tag otag p' = account tag otag p \<and> e \<noteq> Unwound" using scan_announced_account [OF assms, of cap ?q] sa by (simp split: if_splits)
  then show ?case using Cons [of p'] sa by (simp add: Let_def)
qed simp

lemma and_then_account:
  assumes "account tag otag (fst r) = A \<and> snd r \<noteq> Unwound" "\<And>p. account tag otag (fst (f p)) = account tag otag p \<and> snd (f p) \<noteq> Unwound"
  shows "account tag otag (fst (and_then f r)) = A \<and> snd (and_then f r) \<noteq> Unwound"
  using assms by (cases r) (auto simp: and_then_def split: pass_exit.splits)

lemma start_word_account:
  assumes "keeps_tags poll tag otag"
  shows "account tag otag (fst (harvest_start_word poll cap w b q)) = account tag otag q \<and> snd (harvest_start_word poll cap w b q) \<noteq> Unwound"
  by (simp add: harvest_start_word_def Let_def poll_current_account [OF assms])

lemma harvest_pass_account:
  assumes t: "keeps_tags poll tag otag"
  shows "account tag otag (fst (harvest_pass poll cap s)) = (length (in_storage s), calm (in_shared s), image_mset tag (held_futures s)) \<and> snd (harvest_pass poll cap s) \<noteq> Unwound"
proof -
  let ?p = "\<lparr>p_inner = s, p_guard = guard_new, p_polled = 0, p_finished = 0, p_out = [], p_trace = []\<rparr>"
  note pc = poll_current_account [OF t]
  have a0: "account tag otag ?p = (length (in_storage s), calm (in_shared s), image_mset tag (held_futures s))" by (simp add: account_def)
  have "account tag otag (fst (harvest_single poll cap b ?p)) = account tag otag ?p \<and> snd (harvest_single poll cap b ?p) \<noteq> Unwound" for b
    unfolding harvest_single_def by (rule and_then_account) (use pc in auto)
  moreover have "account tag otag (fst (harvest_multi poll cap w b ?p)) = account tag otag ?p \<and> snd (harvest_multi poll cap w b ?p) \<noteq> Unwound" for w b
  proof -
    show ?thesis unfolding harvest_multi_def Let_def
      by (intro and_then_account) (simp_all add: pc start_word_account [OF t] scan_announced_account [OF t] scan_summaries_account [OF t])
  qed
  ultimately show ?thesis using a0 by (simp add: harvest_pass_def Let_def)
qed

text \<open>A harvest returns, and what it held is what it still holds and what it delivered.\<close>

lemma harvest_accounts:
  assumes "keeps_tags poll tag otag"
  shows "image_mset tag (held_futures s) = image_mset tag (held_futures (hr_inner (harvest poll cap s))) + image_mset otag (mset (hr_out (harvest poll cap s)))"
    "hr_report (harvest poll cap s) \<noteq> None" "length (in_storage (hr_inner (harvest poll cap s))) = length (in_storage s)"
    "calm (in_shared (hr_inner (harvest poll cap s))) = calm (in_shared s)"
proof -
  obtain p e where pe: "harvest_pass poll cap s = (p, e)" by (cases "harvest_pass poll cap s")
  note h = harvest_exits [of cap s poll p e] and a = harvest_pass_account [OF assms, of cap s]
  have st: "held_futures (restore_pass k p) = held_futures (p_inner p)" for k by (simp add: held_futures_def restore_pass_def)
  show "image_mset tag (held_futures s) = image_mset tag (held_futures (hr_inner (harvest poll cap s))) + image_mset otag (mset (hr_out (harvest poll cap s)))"
    using h pe a st harvest_idle [of cap s poll] by (cases "cap = 0 \<or> length (in_storage s) = 0") (auto simp: account_def)
  show "hr_report (harvest poll cap s) \<noteq> None"
    using h pe a harvest_idle [of cap s poll] by (cases "cap = 0 \<or> length (in_storage s) = 0") auto
  show "length (in_storage (hr_inner (harvest poll cap s))) = length (in_storage s)"
    using h pe a harvest_idle [of cap s poll] by (cases "cap = 0 \<or> length (in_storage s) = 0") (auto simp: account_def restore_pass_def)
  show "calm (in_shared (hr_inner (harvest poll cap s))) = calm (in_shared s)"
    using h pe a harvest_idle [of cap s poll] by (cases "cap = 0 \<or> length (in_storage s) = 0") (auto simp: account_def restore_pass_def)
qed

lemma with_capacity_calm: "outstanding_with_capacity cap = Some s \<Longrightarrow> calm (in_shared s) \<and> held_futures s = {#}"
  by (auto simp: outstanding_with_capacity_def calm_def bell_new_def waker_slot_new_def held_futures_def split: option.splits)

end
