(* ===== verification/Shard_Books.thy ===== *)
theory Shard_Books
  imports Shard Outstanding_Accounts Sched_Theorems
begin

text \<open>
  The books a shard keeps around its scheduler: the jobs it has started, the flushes it still owes and the
  request ids it tracks. \<open>desk\<close> ties them to the scheduler's own state; each lemma below is one operation
  of the scheduler as the shard calls it, which never panics and keeps the books balanced.
\<close>

section \<open>Jobs\<close>

datatype ('k, 'i) job = RunJob 'k class_id "'i option" | FlushJob 'k

fun future_job :: "('k, 'v, 'i, 's) shard_future \<Rightarrow> ('k, 'i) job" where
  "future_job (RunOne n d) = RunJob (di_key d) (di_class d) (sm_request_id (di_payload d))"
| "future_job (RunFlush k st) = FlushJob k"

fun outcome_job :: "('k, 's, 'i) outcome \<Rightarrow> ('k, 'i) job" where
  "outcome_job (Ran n c rid p f) = RunJob (co_key c) (co_class c) rid"
| "outcome_job (Flushed k) = FlushJob k"

lemma poller_keeps_jobs: "keeps_tags (shard_poller answer) future_job outcome_job"
  by (auto simp: keeps_tags_def shard_poller_def run_one_def run_flush_def Let_def
      split: prod.splits shard_future.splits answer.splits)

fun run_of :: "('k, 'i) job \<Rightarrow> ('k \<times> class_id) multiset" where
  "run_of (RunJob k c i) = {#(k, c)#}"
| "run_of (FlushJob k) = {#}"

fun flush_of :: "('k, 'i) job \<Rightarrow> 'k multiset" where
  "flush_of (RunJob k c i) = {#}"
| "flush_of (FlushJob k) = {#k#}"

fun id_of :: "'k \<Rightarrow> ('k, 'i) job \<Rightarrow> 'i multiset" where
  "id_of k (RunJob j c i) = (if j = k then opt_mset i else {#})"
| "id_of k (FlushJob j) = {#}"

abbreviation runs :: "('k, 'i) job multiset \<Rightarrow> ('k \<times> class_id) multiset" where
  "runs J \<equiv> (\<Sum>j\<in>#J. run_of j)"

abbreviation flush_keys :: "('k, 'i) job multiset \<Rightarrow> 'k multiset" where
  "flush_keys J \<equiv> (\<Sum>j\<in>#J. flush_of j)"

lemma job_size: "size J = size (runs J) + size (flush_keys J)"
proof (induction J)
  case (add j J)
  then show ?case by (cases j) auto
qed simp

section \<open>Request ids\<close>

definition ids :: "(class_id \<times> ('v, 'i) stamped) list \<Rightarrow> 'i multiset" where
  "ids xs = (\<Sum>x\<in>#mset xs. opt_mset (sm_request_id (snd x)))"

lemma ids_simps [simp]: "ids [] = {#}" "ids (x # xs) = opt_mset (sm_request_id (snd x)) + ids xs" "ids (xs @ ys) = ids xs + ids ys"
  by (simp_all add: ids_def)

definition for_key :: "'k \<Rightarrow> ('k \<times> 'a) list \<Rightarrow> 'a list" where
  "for_key k xs = map snd (filter (\<lambda>x. fst x = k) xs)"

lemma for_key_simps [simp]: "for_key k [] = []" "for_key k (x # xs) = (if fst x = k then [snd x] else []) @ for_key k xs"
  "for_key k (xs @ ys) = for_key k xs @ for_key k ys"
  by (simp_all add: for_key_def)

text \<open>The ids of a key that the shard has on its hands: queued, expired and not yet reported, or running.\<close>

definition ids_on_hand :: "'k \<Rightarrow> ('k, ('v, 'i) stamped, 's) scheduler \<Rightarrow> 'k ledger \<Rightarrow> ('k, 'i) job multiset \<Rightarrow> 'i multiset" where
  "ids_on_hand k book L J = ids (held k (book, L)) + ids (for_key k (expired book)) + (\<Sum>j\<in>#J. id_of k j)"

definition tracked :: "('k \<times> 'i) set \<Rightarrow> 'k \<Rightarrow> 'i set" where
  "tracked idx k = {i. (k, i) \<in> idx}"

lemma tracked_finite: "finite idx \<Longrightarrow> finite (tracked idx k)"
  by (rule finite_subset [of _ "snd ` idx"]) (auto simp: tracked_def intro: rev_image_eqI)

definition forget :: "'k \<Rightarrow> 'i option \<Rightarrow> ('k \<times> 'i) set \<Rightarrow> ('k \<times> 'i) set" where
  "forget k i idx = (case i of Some i \<Rightarrow> idx - {(k, i)} | None \<Rightarrow> idx)"

lemma tracked_forget:
  assumes "finite idx" and "M + opt_mset (if j = k then i else None) = mset_set (tracked idx j)"
  shows "M = mset_set (tracked (forget k i idx) j)"
proof (cases "j = k \<and> i \<noteq> None")
  case True
  then obtain i' where i: "i = Some i'" "j = k" by auto
  have "mset_set (tracked idx k) = add_mset i' M" using assms(2) i by simp
  then have "i' \<in># mset_set (tracked idx k)" by simp
  then have "i' \<in> tracked idx k" using tracked_finite [OF assms(1)] by simp
  then have "mset_set (tracked idx k) = add_mset i' (mset_set (tracked idx k - {i'}))"
    using mset_set.remove [OF tracked_finite [OF assms(1)]] by simp
  moreover have "tracked idx k - {i'} = tracked (forget k i idx) k" using i by (auto simp: tracked_def forget_def)
  ultimately show ?thesis using assms(2) i by simp
next
  case False
  then have "tracked (forget k i idx) j = tracked idx j" by (cases i) (auto simp: tracked_def forget_def)
  then show ?thesis using assms(2) False by (auto split: if_splits)
qed

lemma finite_forget: "finite idx \<Longrightarrow> finite (forget k i idx)"
  by (cases i) (auto simp: forget_def)

section \<open>Keys of one class\<close>

text \<open>
  A client may send the work of a key always under one class, \<open>cls\<close> of the key. Then no key changes its ring,
  which is what a shard relies on when it stops: \<open>tidy\<close> states it for the scheduler and, once the last flush
  has begun, that every key left is being flushed and has no work. With \<open>None\<close> nothing is claimed.
\<close>

definition uniform :: "('k \<Rightarrow> class_id) \<Rightarrow> ('k, 'p, 's) scheduler \<Rightarrow> bool" where
  "uniform cls book \<longleftrightarrow> (\<forall>k. \<forall>x\<in>set (queue_of k book). it_class x = cls k)"

definition all_flushing :: "('k, 'p, 's) scheduler \<Rightarrow> bool" where
  "all_flushing book \<longleftrightarrow> (\<forall>k. queue_of k book = [] \<and> pres (abs_sched book) k \<in> {None, Some Evicting})"

fun tidy :: "('k \<Rightarrow> class_id) option \<times> bool \<Rightarrow> ('k, 'p, 's) scheduler \<Rightarrow> bool" where
  "tidy (None, ending) book = True"
| "tidy (Some cls, ending) book = (uniform cls book \<and> (ending \<longrightarrow> all_flushing book))"

text \<open>A class whose ring is empty, or whose budget is used up, has been served.\<close>

definition served_class :: "('k, 'p, 's) scheduler \<Rightarrow> class_id \<Rightarrow> bool" where
  "served_class book c \<longleftrightarrow> scheduler.ready book ! c = [] \<or> max_inflight (cfg book) ! c \<le> inflight book ! c"

lemma uniform_step:
  assumes "sched_inv (s, L)" "sched_step (s, L) e (s', L')" "uniform cls s" "\<And>k x. x \<in> set (given k e) \<Longrightarrow> fst x = cls k"
  shows "uniform cls s'"
  unfolding uniform_def
proof (intro allI ballI)
  fix k x assume x: "x \<in> set (queue_of k s')"
  have "held k (s, L) @ given k e = taken k e @ held k (s', L')" by (rule step_held [OF assms(2,1)])
  then have "set (held k (s', L')) \<subseteq> set (held k (s, L)) \<union> set (given k e)" by (metis Un_iff set_append subsetI)
  moreover have "(it_class x, it_payload x) \<in> set (held k (s', L'))" using x by (auto simp: held_def view_def)
  ultimately have "(it_class x, it_payload x) \<in> set (held k (s, L)) \<or> it_class x = cls k" using assms(4) [of "(it_class x, it_payload x)" k] by auto
  then show "it_class x = cls k" using assms(3) by (auto simp: held_def view_def uniform_def)
qed

lemma flushing_rings:
  assumes "sched_inv (s, L)" "all_flushing s"
  shows "c < length (max_inflight (cfg s)) \<Longrightarrow> scheduler.ready s ! c = []" "ac_idle (abs_sched s) = []" "flying L = Map.empty"
proof -
  note i = sched_invD [OF assms(1)]
  have p: "pres (abs_sched s) k \<noteq> Some (presence.Ready c)" "pres (abs_sched s) k \<noteq> Some Idle" "pres (abs_sched s) k \<noteq> Some InFlight" for k c
    using assms(2) unfolding all_flushing_def by (metis (no_types, lifting) empty_iff insert_iff option.distinct(1) option.inject presence.distinct(6,10,12))+
  show "scheduler.ready s ! c = []" if "c < length (max_inflight (cfg s))"
    using ring_iff [OF i(2), of _ c] p(1) that by (cases "scheduler.ready s ! c") auto
  show "ac_idle (abs_sched s) = []" using idle_iff [OF i(2)] p(2) by (cases "ac_idle (abs_sched s)") auto
  show "flying L = Map.empty" using flight_iff [OF i(2)] p(3) by (auto simp: fun_eq_iff domIff)
qed

text \<open>Each operation keeps it.\<close>

definition fitting :: "('k \<Rightarrow> class_id) option \<times> bool \<Rightarrow> 'k \<Rightarrow> class_id \<Rightarrow> bool" where
  "fitting t k c \<longleftrightarrow> (\<forall>cls. fst t = Some cls \<longrightarrow> c = cls k \<and> \<not> snd t)"

lemma tidyI: "(\<And>cls. fst t = Some cls \<Longrightarrow> uniform cls book \<and> (snd t \<longrightarrow> all_flushing book)) \<Longrightarrow> tidy t book"
  by (cases t; cases "fst t") auto

lemma tidyD: "tidy t book \<Longrightarrow> fst t = Some cls \<Longrightarrow> uniform cls book \<and> (snd t \<longrightarrow> all_flushing book)"
  by (cases t) auto

lemma tidy_new: "tidy t (new c)"
  by (rule tidyI) (simp add: uniform_def all_flushing_def queue_of_def new_def kqueue_def abs_sched_def kpres_def)

lemma tidy_expired [simp]: "tidy t (book\<lparr>expired := xs\<rparr>) = tidy t book"
proof -
  have "queue_of k (book\<lparr>expired := xs\<rparr>) = queue_of k book" "ac_keys (abs_sched (book\<lparr>expired := xs\<rparr>)) = ac_keys (abs_sched book)" for k
    by (simp_all add: queue_of_def abs_sched_def)
  then show ?thesis by (cases t; cases "fst t") (simp_all add: uniform_def all_flushing_def)
qed

lemma tidy_step:
  assumes "sched_inv (s, L)" "sched_step (s, L) e (s', L')" "tidy t s" "\<And>cls k x. fst t = Some cls \<Longrightarrow> x \<in> set (given k e) \<Longrightarrow> fst x = cls k"
    and "\<And>cls. fst t = Some cls \<Longrightarrow> snd t \<Longrightarrow> all_flushing s \<Longrightarrow> all_flushing s'"
  shows "tidy t s'"
  by (rule tidyI) (use uniform_step [OF assms(1,2)] assms(3-5) tidyD in blast)

lemma next_idle: "c < length (scheduler.ready s) \<Longrightarrow> scheduler.ready s ! c = [] \<Longrightarrow> next_dispatch c now s = Some (s', d) \<Longrightarrow> s' = s \<and> d = None"
  by (auto simp: next_dispatch_def next_loop.simps [of c now s] split: if_splits)

lemma tidy_next:
  assumes i: "sched_inv (s, L)" and c: "c < length (max_inflight (cfg s))" and n: "next_dispatch c now s = Some (s', d)" and "tidy t s"
  shows "tidy t s'"
proof (rule tidy_step [OF i step_next [OF c n] assms(4)])
  have "length (scheduler.ready s) = length (max_inflight (cfg s))" using lengths [OF sched_invD(2) [OF i]] by simp
  then show "all_flushing s'" if "all_flushing s" using next_idle [OF _ flushing_rings(1) [OF i that c] n] c that by simp
qed (simp add: given_def)

lemma abs_flushing: "all_flushing s \<longleftrightarrow> (\<forall>k. as_queue (a_slot (abs_sched s) k) = [] \<and> pres (abs_sched s) k \<in> {None, Some Evicting})"
  by (simp add: all_flushing_def queue_of_abs)

lemma tidy_complete:
  assumes i: "sched_inv (s, L)" and f: "flying L (co_key c) = Some (co_class c)" and n: "Core_Scheduler.complete c now s = Some s'" and "tidy t s"
  shows "tidy t s'"
  by (rule tidy_step [OF i step_complete [OF f n] assms(4)]) (use flushing_rings(3) [OF i] f in \<open>auto simp: given_def\<close>)

lemma tidy_finish:
  assumes i: "sched_inv (s, L)" and k: "k \<in> flushing L" and n: "finish_evict k now s = Some s'" "abs_sched s' = a_finish_evict k now (abs_sched s)" and "tidy t s"
  shows "tidy t s'"
proof (rule tidy_step [OF i step_finish [OF k n(1)] assms(5)])
  show "all_flushing s'" if "all_flushing s"
    using that by (auto simp: abs_flushing n(2) a_finish_evict_def Let_def a_slot_def acold_def)
qed (simp add: given_def)

lemma tidy_evict:
  assumes i: "sched_inv (s, L)" and n: "evict now [] s = Some (s', out)" "abs_sched s' = fst (a_evict_loop m now (abs_sched s))" and "tidy t s"
  shows "tidy t s'"
proof (rule tidy_step [OF i step_evict [OF n(1)] assms(4)])
  show "all_flushing s'" if "all_flushing s"
  proof -
    have "fst (a_evict_loop m now (abs_sched s)) = abs_sched s" using flushing_rings(2) [OF i that] by (cases m) simp_all
    then show ?thesis using that n(2) by (simp add: abs_flushing)
  qed
qed (simp add: given_def)

lemma presence_queue:
  assumes "spec_inv a fl"
  shows "pres a k = Some (presence.Ready c) \<Longrightarrow> as_queue (a_slot a k) \<noteq> [] \<and> it_class (hd (as_queue (a_slot a k))) = c"
    "pres a k = None \<Longrightarrow> as_queue (a_slot a k) = []" "pres a k = Some Idle \<Longrightarrow> as_queue (a_slot a k) = []"
proof -
  have sl: "slot_ok sl (as_presence sl)" if "ac_keys a k = Some sl" for sl using assms that by (simp add: spec_inv_def spec_slots_def)
  show "pres a k = Some (presence.Ready c) \<Longrightarrow> as_queue (a_slot a k) \<noteq> [] \<and> it_class (hd (as_queue (a_slot a k))) = c"
    using sl by (auto simp: kpres_eq_Some a_slot_def serves_def)
  show "pres a k = None \<Longrightarrow> as_queue (a_slot a k) = []" by (simp add: kpres_def a_slot_def acold_def)
  show "pres a k = Some Idle \<Longrightarrow> as_queue (a_slot a k) = []" using sl by (auto simp: kpres_eq_Some a_slot_def)
qed

text \<open>With one class per key, serving a class puts no key into the ring of another.\<close>

lemma next_keeps_empty:
  assumes i: "sched_inv (s, L)" and c: "c < length (max_inflight (cfg s))" and n: "next_dispatch c now s = Some (s', d)"
    and u: "uniform cls s" and c': "c' < length (max_inflight (cfg s))" and e: "scheduler.ready s ! c' = []"
  shows "scheduler.ready s' ! c' = []"
proof (rule ccontr)
  assume "scheduler.ready s' ! c' \<noteq> []"
  then obtain k where k: "k \<in> set (scheduler.ready s' ! c')" by (cases "scheduler.ready s' ! c'") auto
  note st = step_next [OF c n, of L]
  note q = sched_invD [OF i] and q' = sched_invD [OF sched_inv_step [OF st i]]
  have p': "pres (abs_sched s') k = Some (presence.Ready c')" using ring_iff [OF q'(2), of k c'] k c' step_cfg [OF st] i by simp
  have "uniform cls s'" by (rule uniform_step [OF i st u]) (simp add: given_def)
  then have cls: "cls k = c'" using presence_queue(1) [OF q'(2) p'] hd_in_set unfolding uniform_def queue_of_abs by metis
  have "queue_of k s \<noteq> []" using presence_queue(1) [OF q'(2) p'] step_held [OF st i, of k] by (auto simp: given_def held_def queue_of_abs view_def)
  then have "pres (abs_sched s) k \<notin> {None, Some Idle}" using presence_queue(2,3) [OF q(2)] by (auto simp: queue_of_abs)
  moreover have "pres (abs_sched s) k \<noteq> Some (presence.Ready x)" for x
  proof
    assume r: "pres (abs_sched s) k = Some (presence.Ready x)"
    then have "x = c'" using presence_queue(1) [OF q(2) r] u cls hd_in_set unfolding uniform_def queue_of_abs by metis
    then show False using r ring_iff [OF q(2), of k c'] e by simp
  qed
  moreover have "pres (abs_sched s) k \<noteq> Some InFlight"
    using flight_iff [OF q(2), of k] flight_iff [OF q'(2), of k] p' by (auto simp: fly_def split: option.splits if_splits)
  moreover have "k \<notin> flushing L" using q'(3) p' by (simp add: evictings_def)
  then have "pres (abs_sched s) k \<noteq> Some Evicting" using q(3) by (simp add: evictings_def)
  ultimately show False by (cases "pres (abs_sched s) k"; cases "the (pres (abs_sched s) k)") auto
qed

lemma served_next:
  assumes "sched_inv (s, L)" "c < length (max_inflight (cfg s))" "next_dispatch c now s = Some (s', d)" "uniform cls s"
    "c' < length (max_inflight (cfg s))" "served_class s c'"
  shows "served_class s' c'"
proof -
  have "length (inflight s) = length (max_inflight (cfg s))" using lengths [OF sched_invD(2) [OF assms(1)]] by simp
  moreover have "s' = s \<or> (cfg s' = cfg s \<and> inflight s' = (if d = None then inflight s else (inflight s)[c := inflight s ! c + 1]))"
    using assms(3) next_loop_inflight [of c now s s' d] by (auto simp: next_dispatch_def split: if_splits)
  ultimately show ?thesis
    using assms(6) next_keeps_empty [OF assms(1-5)] assms(2) by (auto simp: served_class_def nth_list_update split: if_splits)
qed

lemma served_none:
  assumes "sched_inv (s, L)" "c < length (max_inflight (cfg s))" "next_dispatch c now s = Some (s', None)"
  shows "served_class s' c"
  using next_ring [OF assms] by (auto simp: served_class_def turn_over_def)

text \<open>Once every key is idle, the last eviction leaves only keys that are being flushed.\<close>

lemma tidy_evict_all:
  assumes i: "sched_inv (s, L)" and n: "evict_all [] s = Some (s', out)" "ac_idle (abs_sched s') = []" and t: "tidy (o', False) s"
    and idle: "\<And>cls k. o' = Some cls \<Longrightarrow> pres (abs_sched s) k \<in> {None, Some Idle}"
  shows "tidy (o', True) s'"
proof (rule tidyI)
  fix cls assume "fst (o', True) = Some cls"
  then have o': "o' = Some cls" by simp
  note st = step_evict_all [OF n(1), of L]
  note j = sched_inv_step [OF st i] and q = sched_invD [OF i]
  have u: "uniform cls s'" by (rule uniform_step [OF i st]) (use t o' in \<open>simp_all add: given_def\<close>)
  note q' = sched_invD [OF j]
  have empty: "queue_of k s' = []" for k
    using step_held [OF st i, of k] idle [OF o', of k] presence_queue(2,3) [OF q(2), of k] by (auto simp: given_def taken_def held_def view_def queue_of_abs)
  moreover have "pres (abs_sched s') k \<in> {None, Some Evicting}" for k
  proof -
    have "pres (abs_sched s') k \<noteq> Some Idle" using idle_iff [OF q'(2), of k] n(2) by auto
    moreover have "pres (abs_sched s') k \<noteq> Some (presence.Ready x)" for x using presence_queue(1) [OF q'(2), of k x] empty [of k] by (auto simp: queue_of_abs)
    moreover have "pres (abs_sched s') k \<noteq> Some InFlight" using flight_iff [OF q'(2), of k] flight_iff [OF q(2), of k] idle [OF o', of k] by auto
    ultimately show ?thesis by (cases "pres (abs_sched s') k"; cases "the (pres (abs_sched s') k)") auto
  qed
  ultimately show "uniform cls s' \<and> (snd (o', True) \<longrightarrow> all_flushing s')" using u by (simp add: all_flushing_def)
qed

section \<open>The books balance\<close>

definition desk :: "(('k \<Rightarrow> class_id) option \<times> bool) \<Rightarrow> ('k, ('v, 'i) stamped, 's) scheduler \<Rightarrow> 'k ledger \<Rightarrow> ('k \<times> 'i) set \<Rightarrow> ('k, 'i) job multiset \<Rightarrow> 'k list \<Rightarrow> bool" where
  "desk t book L idx J staged \<longleftrightarrow> sched_inv (book, L) \<and> tidy t book \<and> runs J = mset_set (Map.graph (flying L)) \<and>
     flush_keys J + mset staged = mset_set (flushing L) \<and> finite idx \<and>
     (\<forall>k. ids_on_hand k book L J = mset_set (tracked idx k))"

lemma deskD:
  assumes "desk t book L idx J staged"
  shows "sched_inv (book, L)" "runs J = mset_set (Map.graph (flying L))" "flush_keys J + mset staged = mset_set (flushing L)"
    "finite idx" "ids_on_hand k book L J = mset_set (tracked idx k)"
  using assms by (auto simp: desk_def)

lemma sched_finite:
  assumes "sched_inv (s, L)"
  shows "finite (dom (flying L))" "finite (Map.graph (flying L))" "finite (flushing L)"
proof -
  note i = sched_invD [OF assms]
  have fin: "finite (dom (ac_keys (abs_sched s)))" by (rule keys_finite [OF i(2)])
  moreover have "dom (flying L) \<subseteq> dom (ac_keys (abs_sched s))" using flight_iff [OF i(2)] by (auto simp: kpres_eq_Some)
  ultimately show d: "finite (dom (flying L))" by (rule finite_subset [rotated])
  show "finite (Map.graph (flying L))" using d by simp
  have "flushing L \<subseteq> dom (ac_keys (abs_sched s))" using i(3) by (auto simp: evictings_def kpres_eq_Some)
  then show "finite (flushing L)" using fin finite_subset by blast
qed

lemma new_empty [simp]: "held k (new c, L) = []" "expired (new c) = []"
  by (simp_all add: held_def queue_of_def new_def kqueue_def)

lemma desk_new: "desk t (new c) \<lparr>flying = Map.empty, flushing = {}\<rparr> {} {#} []"
  by (simp add: desk_def sched_inv_init ids_on_hand_def tracked_def tidy_new)

text \<open>The class counters of the scheduler bound what is running.\<close>

lemma graph_card: "finite (dom m) \<Longrightarrow> card (Map.graph m) = card (dom m)"
  by (simp add: graph_eq_to_snd_dom card_image inj_on_def)

lemma desk_runs:
  assumes "desk t book L idx J staged"
  shows "size (runs J) = sum_list (inflight book)" "sum_list (inflight book) \<le> sum_list (max_inflight (cfg book))"
proof -
  note i = sched_invD [OF deskD(1) [OF assms]] and f = sched_finite [OF deskD(1) [OF assms]]
  show "size (runs J) = sum_list (inflight book)" using deskD(2) [OF assms] flying_total [OF i(2)] f graph_card by simp
  have "length (inflight book) = length (max_inflight (cfg book))" using lengths [OF i(2)] by simp
  moreover have "\<forall>c<a_classes (abs_sched book). ac_inflight (abs_sched book) ! c \<le> max_inflight (ac_cfg (abs_sched book)) ! c"
    using i(2) unfolding spec_inv_def spec_flights_def by blast
  ultimately show "sum_list (inflight book) \<le> sum_list (max_inflight (cfg book))"
    by (auto simp: sum_list_sum_nth atLeast0LessThan intro!: sum_mono)
qed

section \<open>The scheduler's operations at the desk\<close>

lemma desk_step:
  assumes "desk t book L idx J staged" "sched_step (book, L) e (book', L')"
  shows "sched_inv (book', L')" "held k (book, L) @ given k e = taken k e @ held k (book', L')" "cfg book' = cfg book"
  using assms(2) sched_inv_step [OF assms(2)] step_held [OF assms(2)] step_cfg [OF assms(2)] deskD(1) [OF assms(1)] by auto

text \<open>Work moves from the queue to the expired buffer or into a started job.\<close>

definition started_job :: "('k, ('v, 'i) stamped, 's) dispatch option \<Rightarrow> ('k, 'i) job multiset" where
  "started_job d = (case d of None \<Rightarrow> {#} | Some d \<Rightarrow> {#RunJob (di_key d) (di_class d) (sm_request_id (di_payload d))#})"

lemma next_expired:
  assumes "sched_inv (s, L)" "c < length (max_inflight (cfg s))" "next_dispatch c now s = Some (s', d)"
  shows "expired s' = expired s @ drop (length (expired s)) (expired s')"
    "d = Some x \<Longrightarrow> di_key x \<notin> dom (flying L)"
proof -
  note i = sched_invD [OF assms(1)]
  consider "s' = s" "d = None" | xs where "turn_over c now (abs_sched s) xs (abs_sched s') d" using next_ring [OF assms] by blast
  then have "(\<exists>E. expired s' = expired s @ E) \<and> (\<forall>x. d = Some x \<longrightarrow> di_key x \<in> set (ac_ready (abs_sched s) ! c))"
    by cases (auto simp: turn_over_def split: option.splits)
  moreover from this have "\<forall>x. d = Some x \<longrightarrow> pres (abs_sched s) (di_key x) = Some (presence.Ready c)" using ring_iff [OF i(2)] assms(2) by simp
  ultimately show "expired s' = expired s @ drop (length (expired s)) (expired s')" "d = Some x \<Longrightarrow> di_key x \<notin> dom (flying L)"
    using flight_iff [OF i(2)] by auto
qed

lemma desk_next:
  assumes d: "desk t book L idx J staged" and c: "c < length (max_inflight (cfg book))"
  obtains book' x L' where "next_dispatch c now book = Some (book', x)" "desk t book' L' idx (started_job x + J) staged" "cfg book' = cfg book"
    "\<And>c'. fst t \<noteq> None \<Longrightarrow> c' < length (max_inflight (cfg book)) \<Longrightarrow> served_class book c' \<Longrightarrow> served_class book' c'" "x = None \<Longrightarrow> served_class book' c"
proof -
  obtain book' where n: "next_dispatch c now book = Some (book', snd (a_next c now (abs_sched book)))"
    using next_run [OF deskD(1) [OF d] c, of now] by blast
  define x where "x = snd (a_next c now (abs_sched book))"
  let ?E = "drop (length (expired book)) (expired book')" and ?L = "L\<lparr>flying := fly x (flying L)\<rparr>"
  have n: "next_dispatch c now book = Some (book', x)" using n by (simp add: x_def)
  then have st: "sched_step (book, L) (Dispatched c now ?E x) (book', ?L)" using c by (intro step_next)
  note s = desk_step [OF d st] and ne = next_expired [OF deskD(1) [OF d] c n]
  have "Map.graph (fly x (flying L)) = (case x of None \<Rightarrow> Map.graph (flying L) | Some y \<Rightarrow> insert (di_key y, di_class y) (Map.graph (flying L)))"
    using ne(2) by (auto simp: fly_def domIff split: option.splits)
  moreover have "(di_key y, di_class y) \<notin> Map.graph (flying L)" if "x = Some y" for y using ne(2) [OF that] by (auto simp: graph_def)
  ultimately have runs: "runs (started_job x + J) = mset_set (Map.graph (flying ?L))"
    using deskD(2) [OF d] sched_finite(2) [OF deskD(1) [OF d]] by (auto simp: started_job_def split: option.splits)
  have "ids_on_hand k book' ?L (started_job x + J) = ids_on_hand k book L J" for k
  proof -
    have "ids (held k (book, L)) = ids (taken k (Dispatched c now ?E x)) + ids (held k (book', ?L))"
      using arg_cong [OF s(2) [of k], of ids] by (simp add: given_def)
    moreover have "ids (taken k (Dispatched c now ?E x)) = ids (for_key k ?E) + (\<Sum>j\<in>#started_job x. id_of k j)"
      by (auto simp: taken_def for_key_def started_job_def split: option.splits)
    moreover have "ids (for_key k (expired book')) = ids (for_key k (expired book)) + ids (for_key k ?E)"
      using arg_cong [OF ne(1), of "\<lambda>xs. ids (for_key k xs)"] by simp
    ultimately show ?thesis by (simp add: ids_on_hand_def add_ac)
  qed
  then have "desk t book' ?L idx (started_job x + J) staged"
    using d s(1) runs tidy_next [OF deskD(1) [OF d] c n] by (auto simp: desk_def started_job_def split: option.splits)
  moreover have "served_class book' c'" if "fst t \<noteq> None" "c' < length (max_inflight (cfg book))" "served_class book c'" for c'
    using that served_next [OF deskD(1) [OF d] c n] d tidyD [of t book] by (auto simp: desk_def)
  ultimately show thesis using that [OF n] s(3) served_none [OF deskD(1) [OF d] c] n by blast
qed

lemma desk_pop:
  assumes d: "desk t book L idx J staged"
  shows "case pop_expired book of
      (book', None) \<Rightarrow> book' = book \<and> expired book = []
    | (book', Some (k, c, p)) \<Rightarrow> desk t book' L (forget k (sm_request_id p) idx) J staged \<and> cfg book' = cfg book \<and>
        expired book = (k, c, p) # expired book'"
proof (cases "expired book")
  case Nil
  then show ?thesis by (simp add: pop_expired_def)
next
  case (Cons x xs)
  obtain k c p where x: "x = (k, c, p)" by (cases x)
  let ?b = "book\<lparr>expired := xs\<rparr>"
  have pe: "pop_expired book = (?b, Some (k, c, p))" using Cons x by (simp add: pop_expired_def)
  note s = desk_step [OF d step_pop [OF pe]]
  have "ids_on_hand j ?b L J + opt_mset (if j = k then sm_request_id p else None) = mset_set (tracked idx j)" for j
    using deskD(5) [OF d, of j] s(2) [of j] Cons x by (auto simp: ids_on_hand_def given_def taken_def add_ac)
  from tracked_forget [OF deskD(4) [OF d] this]
  have "desk t ?b L (forget k (sm_request_id p) idx) J staged"
    using d s(1) by (simp add: desk_def finite_forget)
  then show ?thesis using pe Cons x by simp
qed

definition watch :: "'k \<Rightarrow> 'i option \<Rightarrow> ('k \<times> 'i) set \<Rightarrow> ('k \<times> 'i) set" where
  "watch k i idx = (case i of Some i \<Rightarrow> insert (k, i) idx | None \<Rightarrow> idx)"

lemma tracked_watch:
  assumes "finite idx" "\<forall>r. i = Some r \<longrightarrow> (k, r) \<notin> idx"
  shows "mset_set (tracked (watch k i idx) j) = mset_set (tracked idx j) + (if j = k then opt_mset i else {#})"
proof (cases "j = k \<and> i \<noteq> None")
  case True
  then obtain r where r: "i = Some r" "j = k" by auto
  then have "tracked (watch k i idx) j = insert r (tracked idx k)" "r \<notin> tracked idx k" using assms(2) by (auto simp: tracked_def watch_def)
  then show ?thesis using r tracked_finite [OF assms(1), of k] by simp
next
  case False
  then have "tracked (watch k i idx) j = tracked idx j" by (cases i) (auto simp: tracked_def watch_def)
  then show ?thesis using False by auto
qed

lemma desk_admit:
  assumes d: "desk t book L idx J staged" and "ad_class it < length (max_inflight (cfg book))" "pending book < 2 ^ 32 - 1" "fitting t (ad_key it) (ad_class it)"
    and fresh: "\<forall>r. sm_request_id (ad_payload it) = Some r \<longrightarrow> (ad_key it, r) \<notin> idx"
  obtains book' where "admit it book = Some book'" "desk t book' L (watch (ad_key it) (sm_request_id (ad_payload it)) idx) J staged"
    "cfg book' = cfg book" "expired book' = expired book"
proof -
  obtain book' where a: "admit it book = Some book'"
    using admit_run [OF deskD(1) [OF d] assms(2,3)] by blast
  note st = step_admit [OF assms(2,3) a, of L]
  note s = desk_step [OF d st]
  have ex: "expired book' = expired book"
    using admit_run [OF deskD(1) [OF d] assms(2,3)] a by (auto simp: a_admit_def Let_def dest!: arg_cong [of _ _ ac_expired] split: if_splits)
  have ti: "tidy t book'"
    by (rule tidy_step [OF deskD(1) [OF d] st]) (use d assms(4) in \<open>auto simp: desk_def given_def fitting_def split: if_splits\<close>)
  let ?i = "sm_request_id (ad_payload it)"
  have "ids_on_hand k book' L J = ids_on_hand k book L J + (if k = ad_key it then opt_mset ?i else {#})" for k
    using arg_cong [OF s(2) [of k], of ids] ex by (auto simp: ids_on_hand_def given_def taken_def)
  then have "desk t book' L (watch (ad_key it) ?i idx) J staged"
    using d s(1) tracked_watch [OF deskD(4) [OF d] fresh] ti by (simp add: desk_def) (simp add: watch_def split: option.splits)
  then show thesis using that a s(3) ex by blast
qed

lemma desk_complete:
  assumes d: "desk t book L idx (add_mset (RunJob (co_key c) (co_class c) i) J) staged"
  obtains book' L' where "Core_Scheduler.complete c now book = Some book'" "desk t book' L' (forget (co_key c) i idx) J staged" "cfg book' = cfg book"
    "expired book' = expired book" "flying L (co_key c) = Some (co_class c)"
proof -
  let ?k = "co_key c" and ?L = "L\<lparr>flying := (flying L)(co_key c := None)\<rparr>"
  note fin = sched_finite [OF deskD(1) [OF d]]
  have r: "add_mset (?k, co_class c) (runs J) = mset_set (Map.graph (flying L))" using deskD(2) [OF d] by simp
  then have "(?k, co_class c) \<in># mset_set (Map.graph (flying L))" by (metis union_single_eq_member)
  then have f: "flying L ?k = Some (co_class c)" using fin(2) by (simp add: in_graphD)
  obtain book' where a: "Core_Scheduler.complete c now book = Some book'" 
    using complete_run [OF deskD(1) [OF d] f, of now] by blast
  note st = step_complete [OF f a]
  note s = desk_step [OF d st]
  have ex: "expired book' = expired book"
    using complete_run [OF deskD(1) [OF d] f, of now] a
    by (auto simp: a_complete_def a_place_def Let_def dest!: arg_cong [of _ _ ac_expired] split: list.splits)
  have "Map.graph (flying ?L) = Map.graph (flying L) - {(?k, co_class c)}" using f by (auto simp: graph_def split: if_splits)
  then have runs: "runs J = mset_set (Map.graph (flying ?L))"
    using r fin(2) mset_set.remove [of "Map.graph (flying L)" "(?k, co_class c)"] f by (simp add: in_graphI)
  have "ids_on_hand k book' ?L J + opt_mset (if k = ?k then i else None) = mset_set (tracked idx k)" for k
    using arg_cong [OF s(2) [of k], of ids] ex deskD(5) [OF d, of k] by (auto simp: ids_on_hand_def given_def taken_def add_ac)
  from tracked_forget [OF deskD(4) [OF d] this]
  have "desk t book' ?L (forget ?k i idx) J staged" using d s(1) runs tidy_complete [OF deskD(1) [OF d] f a] by (simp add: desk_def finite_forget)
  then show thesis using that a s(3) ex f by blast
qed

text \<open>An eviction stages keys that were idle, so none of them is being flushed already.\<close>

lemma flushed_keys: "map fst (concat (map (\<lambda>k. a_flushed k a) ks)) = filter (\<lambda>k. as_resident (a_slot a k) \<noteq> None) ks"
  by (induction ks) (auto simp: a_flushed_def split: option.splits)

lemma desk_release:
  assumes d: "desk t book L idx J []" and st: "sched_step (book, L) e (book', L\<lparr>flushing := flushing L \<union> fst ` set out\<rparr>)"
    and e: "\<And>k. given k e = []" "\<And>k. taken k e = []" "expired book' = expired book"
    and ti: "tidy t' book'" and out: "out = concat (map (\<lambda>k. a_flushed k (abs_sched book)) ks)" "distinct ks" "set ks \<subseteq> set (ac_idle (abs_sched book))"
  shows "desk t' book' (L\<lparr>flushing := flushing L \<union> fst ` set out\<rparr>) idx J (map fst out)"
proof -
  note i = sched_invD [OF deskD(1) [OF d]] and s = desk_step [OF d st]
  have "distinct (map fst out)" using out(1,2) flushed_keys [of "abs_sched book" ks] by simp
  then have dm: "mset (map fst out) = mset_set (fst ` set out)" using mset_set_set [of "map fst out"] by simp
  have "set (map fst out) \<subseteq> set ks" using out(1) flushed_keys [of "abs_sched book" ks] by (metis filter_is_subset)
  then have "pres (abs_sched book) k = Some Idle" if "k \<in> fst ` set out" for k
    using that out(3) idle_iff [OF i(2), of k] by auto
  then have "flushing L \<inter> fst ` set out = {}" using i(3) unfolding evictings_def by fastforce
  then have "flush_keys J + mset (map fst out) = mset_set (flushing L \<union> fst ` set out)"
    using deskD(3) [OF d] sched_finite(3) [OF deskD(1) [OF d]] dm by (simp add: mset_set_Union)
  moreover have "ids_on_hand k book' (L\<lparr>flushing := flushing L \<union> fst ` set out\<rparr>) J = ids_on_hand k book L J" for k
    using s(2) [of k] e by (simp add: ids_on_hand_def)
  ultimately show ?thesis using d s(1) ti by (simp add: desk_def)
qed

lemma evict_expired: "ac_expired (fst (a_evict_loop n now a)) = ac_expired a" "ac_expired (fst (a_evict_list ks a)) = ac_expired a"
proof -
  show "ac_expired (fst (a_evict_loop n now a)) = ac_expired a"
    by (induction n arbitrary: a) (auto simp: a_release_def Let_def split: list.splits)
  show "ac_expired (fst (a_evict_list ks a)) = ac_expired a"
    by (induction ks arbitrary: a) (auto simp: a_release_def Let_def)
qed

lemma desk_evict:
  assumes d: "desk t book L idx J []"
  obtains book' out L' where "evict now [] book = Some (book', out)" "desk t book' L' idx J (map fst out)" "cfg book' = cfg book"
    "expired book' = expired book"
proof -
  note i = sched_invD [OF deskD(1) [OF d]]
  obtain book' out where ev: "evict now [] book = Some (book', out)" "abs_sched book' = fst (a_evict_loop (evict_iters (cfg book)) now (abs_sched book))"
    "out = snd (a_evict_loop (evict_iters (cfg book)) now (abs_sched book))"
    using evict_run [OF deskD(1) [OF d], of now "[]"] by (auto simp: a_evict_def)
  obtain ks where ks: "ac_idle (abs_sched book) = ks @ ac_idle (abs_sched book')" "out = concat (map (\<lambda>k. a_flushed k (abs_sched book)) ks)"
    using a_evict_loop_evicted [OF i(2), of now "evict_iters (cfg book)"] ev(2,3) evictedD by metis
  have "distinct (ac_idle (abs_sched book))" using i(2) by (simp add: spec_inv_def spec_idle_def)
  then have dk: "distinct ks" "set ks \<subseteq> set (ac_idle (abs_sched book))" unfolding ks(1) by auto
  have ex: "expired book' = expired book" using arg_cong [OF ev(2), of ac_expired] by (simp add: evict_expired)
  note st = step_evict [OF ev(1), of L]
  have "desk t book' (L\<lparr>flushing := flushing L \<union> fst ` set out\<rparr>) idx J (map fst out)"
    by (rule desk_release [OF d st _ _ ex _ ks(2) dk]) (use tidy_evict [OF deskD(1) [OF d] ev(1,2)] d in \<open>simp_all add: given_def taken_def desk_def\<close>)
  then show thesis using that ev(1) ex desk_step(3) [OF d st] by blast
qed

lemma desk_evict_all:
  assumes d: "desk (o', False) book L idx J []" and idle: "\<And>cls k. o' = Some cls \<Longrightarrow> pres (abs_sched book) k \<in> {None, Some Idle}"
  obtains book' out L' where "evict_all [] book = Some (book', out)" "desk (o', True) book' L' idx J (map fst out)" "cfg book' = cfg book"
    "expired book' = expired book"
proof -
  note i = sched_invD [OF deskD(1) [OF d]]
  obtain book' out where ev: "evict_all [] book = Some (book', out)" "abs_sched book' = fst (a_evict_all (abs_sched book))"
    "out = snd (a_evict_all (abs_sched book))"
    using evict_all_run [OF deskD(1) [OF d], of "[]"] by auto
  note ch = a_evict_list_char [OF i(2) refl]
  have ks: "out = concat (map (\<lambda>k. a_flushed k (abs_sched book)) (ac_idle (abs_sched book)))" using ch ev(3) by (simp add: a_evict_all_def)
  have dk: "distinct (ac_idle (abs_sched book))" using i(2) by (simp add: spec_inv_def spec_idle_def)
  have ex: "expired book' = expired book" using arg_cong [OF ev(2), of ac_expired] by (simp add: evict_expired a_evict_all_def)
  note st = step_evict_all [OF ev(1), of L]
  have no: "ac_idle (abs_sched book') = []" using ev(2) ch by (simp add: a_evict_all_def)
  have ti: "tidy (o', True) book'" by (rule tidy_evict_all [OF deskD(1) [OF d] ev(1) no _ idle]) (use d in \<open>simp_all add: desk_def\<close>)
  have "desk (o', True) book' (L\<lparr>flushing := flushing L \<union> fst ` set out\<rparr>) idx J (map fst out)"
    by (rule desk_release [OF d st _ _ ex ti ks dk]) (simp_all add: given_def taken_def)
  then show thesis using that ev(1) ex desk_step(3) [OF d st] by blast
qed

lemma desk_finish:
  assumes d: "desk t book L idx (add_mset (FlushJob k) J) staged"
  obtains book' L' where "finish_evict k now book = Some book'" "desk t book' L' idx J staged" "cfg book' = cfg book"
    "expired book' = expired book"
proof -
  let ?L = "L\<lparr>flushing := flushing L - {k}\<rparr>"
  note fin = sched_finite(3) [OF deskD(1) [OF d]] and i = sched_invD [OF deskD(1) [OF d]]
  have r: "mset_set (flushing L) = add_mset k (flush_keys J + mset staged)" using deskD(3) [OF d] by simp
  then have "k \<in># mset_set (flushing L)" by simp
  then have f: "k \<in> flushing L" using fin by simp
  obtain book' where a: "finish_evict k now book = Some book'" "abs_sched book' = a_finish_evict k now (abs_sched book)"
    using finish_run [OF deskD(1) [OF d] f, of now] by blast
  note st = step_finish [OF f a(1)]
  note s = desk_step [OF d st]
  have ex: "expired book' = expired book"
    using arg_cong [OF a(2), of ac_expired] by (auto simp: a_finish_evict_def a_place_def Let_def split: if_splits list.splits)
  have "flush_keys J + mset staged = mset_set (flushing L - {k})"
    using r mset_set.remove [OF fin f] by simp
  moreover have "ids_on_hand j book' ?L J = mset_set (tracked idx j)" for j
    using s(2) [of j] ex deskD(5) [OF d, of j] by (simp add: ids_on_hand_def given_def taken_def)
  ultimately have "desk t book' ?L idx J staged" using d s(1) tidy_finish [OF deskD(1) [OF d] f a] by (simp add: desk_def)
  then show thesis using that a(1) s(3) ex by blast
qed

section \<open>Nothing in flight\<close>

lemma desk_quiet:
  assumes d: "desk t book L idx {#} []"
  shows "pres (abs_sched book) k \<noteq> Some InFlight" "pres (abs_sched book) k \<noteq> Some Evicting" "sum_list (inflight book) = 0"
proof -
  note i = sched_invD [OF deskD(1) [OF d]] and f = sched_finite [OF deskD(1) [OF d]]
  have "Map.graph (flying L) = {}" using deskD(2) [OF d] f(2) by (simp add: mset_set_empty_iff)
  then have "dom (flying L) = {}" by (auto simp: graph_def)
  then show "pres (abs_sched book) k \<noteq> Some InFlight" using flight_iff [OF i(2), of k] by auto
  have "flushing L = {}" using deskD(3) [OF d] f(3) by (simp add: mset_set_empty_iff)
  then show "pres (abs_sched book) k \<noteq> Some Evicting" using i(3) by (auto simp: evictings_def)
  show "sum_list (inflight book) = 0" using desk_runs(1) [OF d] by simp
qed

lemma desk_all_idle:
  assumes d: "desk t book L idx {#} []" and b: "\<forall>b\<in>set (max_inflight (cfg book)). 0 < b"
    and s: "\<forall>c<length (max_inflight (cfg book)). served_class book c"
  shows "pres (abs_sched book) k \<in> {None, Some Idle}"
proof -
  note i = sched_invD [OF deskD(1) [OF d]] and q = desk_quiet [OF d]
  have "pres (abs_sched book) k \<noteq> Some (presence.Ready c)" for c
  proof
    assume "pres (abs_sched book) k = Some (presence.Ready c)"
    then have c: "c < length (max_inflight (cfg book))" "scheduler.ready book ! c \<noteq> []" using ring_iff [OF i(2), of k c] by auto
    moreover have "length (inflight book) = length (max_inflight (cfg book))" using lengths [OF i(2)] by simp
    then have "inflight book ! c \<in> set (inflight book)" using c(1) by simp
    then have "inflight book ! c = 0" using q(3) by simp
    moreover have "0 < max_inflight (cfg book) ! c" using b c(1) by simp
    ultimately show False using s c by (auto simp: served_class_def)
  qed
  then show ?thesis using q(1,2) [of k] by (cases "pres (abs_sched book) k"; cases "the (pres (abs_sched book) k)") auto
qed

lemma desk_empty:
  assumes d: "desk (Some cls, True) book L idx {#} []" and e: "expired book = []"
  shows "keys book = []" "pending book = 0" "idx = {}"
proof -
  note i = sched_invD [OF deskD(1) [OF d]] and q = desk_quiet [OF d]
  have a: "all_flushing book" using d by (simp add: desk_def)
  have p: "pres (abs_sched book) k = None" for k using q(2) [of k] a by (auto simp: all_flushing_def)
  have "map_of (keys book) k = None" for k using p [of k] by (simp add: kpres_def abs_sched_def)
  then have "map_of (keys book) = Map.empty" by blast
  then show k: "keys book = []" by simp
  have "dom (flying L) = {}" using flushing_rings(3) [OF deskD(1) [OF d] a] by simp
  moreover have "ac_keys (abs_sched book) = Map.empty" using k by (simp add: abs_sched_def)
  ultimately show "pending book = 0" using i(2) by (simp add: spec_inv_def spec_counts_def ksum_def)
  have "mset_set (tracked idx k) = {#}" for k using deskD(5) [OF d, of k] a e by (simp add: ids_on_hand_def held_def all_flushing_def)
  then have "tracked idx k = {}" for k using tracked_finite [OF deskD(4) [OF d]] by (metis mset_set_empty_iff)
  then show "idx = {}" by (auto simp: tracked_def)
qed

end
