(* ===== verification/Shard_Timers.thy ===== *)
theory Shard_Timers
  imports Shard Wheel_Theorems
begin

text \<open>
  The shard's timer wheel holds exactly its periodic tick. Servicing it takes the tick out when it is due
  and puts it back, and the insertion cannot fail: the slot the tick freed is available again, as long as
  the generation counter of the slots has not run out, which takes 2^64 - 1 ticks.
\<close>

section \<open>The slab of a wheel never changes its size\<close>

lemma put_entries [simp]: "length (w_entries (set_head l s i w)) = length (w_entries w)" "length (w_entries (occupy l s w)) = length (w_entries w)"
  "length (w_entries (vacate l s w)) = length (w_entries w)" "length (w_entries (refresh w)) = length (w_entries w)"
  by (simp_all add: set_head_def occupy_def vacate_def refresh_def)

lemma file_entries: "wheel_file i d w = Some w' \<Longrightarrow> length (w_entries w') = length (w_entries w)"
  by (auto simp: wheel_file_def Let_def split: if_splits option.splits bind_splits prod.splits)

lemma release_entries: "wheel_release i w = Some w' \<Longrightarrow> length (w_entries w') = length (w_entries w)"
  by (auto simp: wheel_release_def Let_def split: if_splits option.splits bind_splits)

lemma refile_entries:
  assumes "refile i w = Some w'"
  shows "length (w_entries w') = length (w_entries w)"
  by (rule refile.raw_induct [where P = "\<lambda>i w w'. length (w_entries w') = length (w_entries w)", OF _ assms])
    (auto split: if_splits bind_splits dest!: file_entries)

lemma fire_list_entries:
  assumes "fire_list i out w = Some r"
  shows "length (w_entries (fst r)) = length (w_entries w)"
  by (rule fire_list.raw_induct [where P = "\<lambda>i out w r. length (w_entries (fst r)) = length (w_entries w)", OF _ assms])
    (force split: if_splits bind_splits dest!: release_entries)

lemma cascade_entries: "cascade w = Some w' \<Longrightarrow> length (w_entries w') = length (w_entries w)"
proof -
  have l: "cascade_level l w = Some w' \<Longrightarrow> length (w_entries w') = length (w_entries w)" for l and w w' :: "'a wheel"
    by (auto simp: cascade_level_def wheel_take_def Let_def split: if_splits dest!: refile_entries)
  have "cascade_levels ls w = Some w' \<Longrightarrow> length (w_entries w') = length (w_entries w)" for ls and w w' :: "'a wheel"
    by (induction ls arbitrary: w) (auto split: bind_splits dest!: l)
  then show "cascade w = Some w' \<Longrightarrow> length (w_entries w') = length (w_entries w)" by (simp add: cascade_def)
qed

lemma fire_entries: "fire out w = Some (w', out') \<Longrightarrow> length (w_entries w') = length (w_entries w)"
  by (auto simp: fire_def wheel_take_def Let_def split: if_splits dest!: fire_list_entries)

lemma advance_loop_entries:
  assumes "advance_loop target out w = Some r"
  shows "length (w_entries (fst r)) = length (w_entries w)"
  by (rule advance_loop.raw_induct [where P = "\<lambda>target out w r. length (w_entries (fst r)) = length (w_entries w)", OF _ assms])
    (force simp: Let_def split: if_splits bind_splits dest!: cascade_entries fire_entries)

lemma advance_entries: "advance_to target out w = Some (w', out') \<Longrightarrow> length (w_entries w') = length (w_entries w)"
  by (auto simp: advance_to_def split: if_splits dest!: advance_loop_entries)

lemma insert_entries: "try_insert_at d t w = Some (w', r) \<Longrightarrow> length (w_entries w') = length (w_entries w)"
  by (auto simp: try_insert_at_def wheel_allocate_def Let_def split: if_splits bind_splits dest!: file_entries)

section \<open>The tick\<close>

definition tick_ok :: "nat \<Rightarrow> shard_timer wheel \<Rightarrow> bool" where
  "tick_ok n w \<longleftrightarrow> wheel_inv w \<and> (\<exists>h d. timers w = [h \<mapsto> (d, Tick)]) \<and> 0 < length (w_entries w) \<and> unat (gens w 0) \<le> n"

definition idle_wheel :: "nat \<Rightarrow> shard_timer wheel \<Rightarrow> bool" where
  "idle_wheel n w \<longleftrightarrow> wheel_inv w \<and> timers w = Map.empty \<and> 0 < length (w_entries w) \<and> unat (gens w 0) \<le> n"

text \<open>With no timer pending, a slot is free unless every slot has been retired.\<close>

lemma idle_wheel_free:
  assumes "idle_wheel n w" "n < 2 ^ 64 - 1"
  shows "w_free w \<noteq> NIL"
proof
  assume free: "w_free w = NIL"
  have inv: "wheel_inv w" and t: "timers w = Map.empty" and len: "0 < length (w_entries w)" and g: "unat (gens w 0) \<le> n"
    using assms(1) by (auto simp: idle_wheel_def)
  obtain S F where wb: "wbut {} w S F" using wheel_invD [OF inv] by blast
  have v: "valid w 0" using len by (simp add: valid_def)
  have "F = []" using wbutD(4) [OF wb] free by (cases F) auto
  then have "e_level (ent w 0) \<noteq> FREE_LEVEL" using wbutD(5) [OF wb] v by auto
  moreover have "\<not> filed_ok (w_cursor w) (ent w 0)"
  proof
    assume "filed_ok (w_cursor w) (ent w 0)"
    then obtain tok where "e_token (ent w 0) = Some tok" by (auto simp: filed_ok_def)
    then have "tm w 0 = Some (gens w 0, e_deadline (ent w 0), tok)" using v by (simp add: tm_def gens_def)
    from handle_parts(2) [OF inv this] show False using t by simp
  qed
  ultimately have "gens w 0 = - 1" using wbutD(6) [OF wb v] by (auto simp: entry_ok_def gens_def)
  then have "unat (gens w 0) = 2 ^ 64 - 1" by (simp add: unsigned_minus_1_eq_mask mask_eq_exp_minus_1)
  then show False using g assms(2) by linarith
qed

lemma unat_succ_le: "unat (g + 1) \<le> unat g + 1" for g :: u64
  by (simp add: unat_word_ariths)

lemma insert_tick_ok:
  assumes w: "idle_wheel n w" "n < 2 ^ 64 - 1" and near: "now + sc_tick conf \<le> w_cursor w * 1024 + 2 ^ 57" "now + sc_tick conf \<le> 2 ^ 73"
  obtains w' where "insert_tick now conf w = Some w'" "tick_ok (n + 1) w'"
proof -
  let ?D = "duration_saturating_add now (sc_tick conf)"
  define d where "d = ?D div 1024 + (if ?D mod 1024 \<noteq> 0 then 1 else 0)"
  have D: "?D = now + sc_tick conf" using near(2) by (simp add: duration_saturating_add_def duration_max_def NANOS_PER_SEC_def)
  have dle: "d \<le> ?D div 1024 + 1" by (simp add: d_def)
  have "?D div 1024 \<le> 2 ^ 73 div 1024" unfolding D by (rule div_le_mono [OF near(2)])
  then have m: "d \<le> MAX_TICK" using dle by (simp add: MAX_TICK_def TICK_NONE_def)
  have "?D div 1024 \<le> (w_cursor w * 1024 + 2 ^ 57) div 1024" unfolding D by (rule div_le_mono [OF near(1)])
  also have "\<dots> = w_cursor w + 2 ^ 47" by simp
  finally have "d \<le> w_cursor w + 2 ^ 47 + 1" using dle by linarith
  then have fits: "fits (w_cursor w) d" using m by (simp add: fits_def MAX_DELAY_TICKS_def SPAN_TICKS_def) arith
  have inv: "wheel_inv w" using w(1) by (simp add: idle_wheel_def)
  obtain w' h where i: "try_insert_at d Tick w = Some (w', Inr h)" "wheel_inv w'" "timers w' = (timers w)(h \<mapsto> (d, Tick))"
    "\<exists>i. gens w i \<noteq> - 1 \<and> gens w' = (gens w)(i := gens w i + 1)"
    using insert_ok [OF inv fits idle_wheel_free [OF w], of Tick] by metis
  have "duration_to_tick_ceil 10 ?D = Some d" using m by (simp add: duration_to_tick_ceil_def d_def Let_def)
  then have "insert_tick now conf w = Some w'" using i(1) by (simp add: insert_tick_def try_insert_duration_def)
  moreover have "unat (gens w' 0) \<le> n + 1"
    using i(4) w(1) unat_succ_le [of "gens w 0"] by (auto simp: idle_wheel_def)
  then have "tick_ok (n + 1) w'" using i(2,3) w(1) insert_entries [OF i(1)] by (auto simp: tick_ok_def idle_wheel_def)
  ultimately show thesis by (rule that)
qed

section \<open>Servicing\<close>

text \<open>Sweeping the wheel takes out the tick, when it is due, and nothing else.\<close>

lemma advance_tick:
  assumes w: "tick_ok n w" and now: "now \<le> 2 ^ 72"
  obtains w' where "advance_duration WHEEL_SHIFT now [] w = Some (Some (w', []))" "tick_ok n w'"
    | w' where "advance_duration WHEEL_SHIFT now [] w = Some (Some (w', [Tick]))" "idle_wheel n w'" "w_cursor w' = now div 1024"
proof -
  obtain h d where t: "wheel_inv w" "timers w = [h \<mapsto> (d, Tick)]" using w by (auto simp: tick_ok_def)
  let ?t = "now div 1024"
  have "now div 1024 \<le> 2 ^ 72 div 1024" by (rule div_le_mono [OF now])
  then have m: "?t \<le> MAX_TICK" by (simp add: MAX_TICK_def TICK_NONE_def)
  then have ad: "advance_duration WHEEL_SHIFT now [] w = map_option Some (advance_to ?t [] w)"
    by (simp add: advance_duration_def duration_to_tick_floor_def Let_def)
  show thesis
  proof (cases "w_cursor w \<le> ?t")
    case False
    then have "advance_duration WHEEL_SHIFT now [] w = Some (Some (w, []))" using ad m by (simp add: advance_to_def)
    then show thesis using that(1) w by blast
  next
    case True
    obtain w' hs where a: "advance_to ?t [] w = Some (w', map (\<lambda>h. snd (the (timers w h))) hs)" "wheel_inv w'" "w_cursor w' = ?t"
      "distinct hs" "set hs = {h. \<exists>d t. timers w h = Some (d, t) \<and> d \<le> ?t}" "timers w' = timers w |` (- set hs)" "gens w' = gens w"
      using advance_timers [OF t(1) True m, of "[]"] by auto
    note len = advance_entries [OF a(1)]
    have "set hs = {} \<or> set hs = {h}" using a(5) t(2) by (auto split: if_splits)
    then consider "hs = []" | "hs = [h]" using a(4) by (cases hs; cases "tl hs") auto
    then show thesis
    proof cases
      case 1
      then have "tick_ok n w'" using a(2,6,7) len w by (simp add: tick_ok_def restrict_map_def)
      then show thesis using that(1) ad a(1) 1 by simp
    next
      case 2
      then have "idle_wheel n w'" using a(2,6,7) len w t(2) by (auto simp: idle_wheel_def tick_ok_def restrict_map_def fun_eq_iff)
      moreover have "advance_duration WHEEL_SHIFT now [] w = Some (Some (w', [Tick]))" using ad a(1) 2 t(2) by simp
      ultimately show thesis using that(2) a(3) by blast
    qed
  qed
qed

lemma first_tick:
  assumes "wheel_id \<noteq> 0" "now + sc_tick conf \<le> 2 ^ 57"
  obtains w w' where "wheel_with_capacity_at_tick TIMERS 0 wheel_id = Some w" "insert_tick now conf w = Some w'" "tick_ok 1 w'"
proof -
  have "TIMERS \<le> unat NIL" by (simp add: TIMERS_def unat_NIL)
  then obtain w :: "shard_timer wheel" where w: "wheel_with_capacity_at_tick TIMERS 0 wheel_id = Some w"
    by (simp add: wheel_with_capacity_at_tick_def)
  have "unat (gens w 0) = 0" "length (w_entries w) = 64" using w \<open>TIMERS \<le> unat NIL\<close>
    by (auto simp: wheel_with_capacity_at_tick_def gens_def ent_def TIMERS_def split: if_splits)
  then have "idle_wheel 0 w" using wheel_new_ok(1,2) [OF w assms(1)] by (simp add: idle_wheel_def)
  from insert_tick_ok [OF this, of now conf] show thesis using that [OF w] assms(2) by auto
qed

text \<open>The wheel always has an answer to when the shard must wake.\<close>

lemma wakeup_defined:
  assumes "wheel_inv w"
  shows "\<exists>t. next_wakeup_duration WHEEL_SHIFT w = Some t"
proof (cases "next_wakeup_tick w")
  case (Some tick)
  obtain S F where ex: "w_next_event w = Min (insert TICK_NONE (ev S (w_cursor w)))" using wheel_invD [OF assms] .
  then have "w_next_event w \<le> TICK_NONE" by simp
  then have "tick \<le> MAX_TICK" using Some by (auto simp: next_wakeup_tick_def MAX_TICK_def split: if_splits)
  then show ?thesis using Some by (simp add: next_wakeup_duration_def tick_to_duration_def)
qed (simp add: next_wakeup_duration_def)

end
