(* ===== verification/Shard_Inv.thy ===== *)
theory Shard_Inv
  imports Shard_Books Shard_Timers Mailbox_Props
begin

text \<open>
  The invariant of a shard and each stage of a turn: the stage returns, so nothing in it panics and every
  loop in it ends, and it keeps the invariant. Between a harvest and the handling of its outputs the jobs
  of the outputs are neither in the outstanding set nor done: they are the argument \<open>X\<close>. Likewise \<open>ys\<close> are
  the flushes taken from the staging buffer and not started yet.
\<close>

section \<open>The invariant\<close>

abbreviation class_count :: "shard_config \<Rightarrow> nat" where
  "class_count conf \<equiv> length (max_inflight (sc_scheduler conf))"

definition config_ok :: "shard_config \<Rightarrow> bool" where
  "config_ok conf \<longleftrightarrow> max_pending (sc_scheduler conf) < 2 ^ 32 \<and> sc_tick conf \<le> 2 ^ 56 \<and> shard_capacity conf \<le> OUTSTANDING_MAX_CAPACITY"

definition jobs :: "('k, 'v, 'i, 's, 'w, 'h) shard \<Rightarrow> ('k, 'i) job multiset" where
  "jobs s = image_mset future_job (held_futures (sd_outstanding s))"

definition books :: "('k \<Rightarrow> class_id) option \<Rightarrow> ('k, 'i) job multiset \<Rightarrow> 'k list \<Rightarrow> ('k, 'v, 'i, 's, 'w, 'h) shard \<Rightarrow> bool" where
  "books cls X ys s \<longleftrightarrow> (\<exists>L. desk (cls, \<not> sd_final_flush s) (sd_book s) L (sd_live s) (jobs s + X) (ys @ map fst (sd_staged s))) \<and>
     cfg (sd_book s) = sc_scheduler (sd_cfg s)"

definition set_ok :: "('k, 'i) job multiset \<Rightarrow> ('k, 'v, 'i, 's, 'w, 'h) shard \<Rightarrow> bool" where
  "set_ok X s \<longleftrightarrow> out_inv (sd_outstanding s) \<and> calm (in_shared (sd_outstanding s)) \<and>
     length (in_storage (sd_outstanding s)) = shard_capacity (sd_cfg s) \<and> sd_flushes s = size (flush_keys (jobs s + X)) \<and>
     sd_flushes s \<le> sc_flush_slots (sd_cfg s)"

definition counters_ok :: "('k, 'v, 'i, 's, 'w, 'h) shard \<Rightarrow> bool" where
  "counters_ok s \<longleftrightarrow> length (ht_started_by_class (sd_hot s)) = class_count (sd_cfg s) \<and>
     length (ht_completed_by_class (sd_hot s)) = class_count (sd_cfg s) \<and>
     length (ht_expired_by_class (sd_hot s)) = class_count (sd_cfg s) \<and>
     (\<forall>x\<in>set (expired (sd_book s)). fst (snd x) < class_count (sd_cfg s))"

definition mail_ok :: "('k \<Rightarrow> class_id) option \<Rightarrow> bool \<Rightarrow> ('k, 'v, 'i, 's, 'w, 'h) shard \<Rightarrow> bool" where
  "mail_ok cls u s \<longleftrightarrow> mail_inv (sd_rx s, u) \<and> \<not> mb_departed (sd_rx s) \<and>
     (\<forall>e\<in>set (mb_ring (sd_rx s)). en_class e < class_count (sd_cfg s) \<and> fitting (cls, False) (en_key e) (en_class e)) \<and>
     (\<not> sd_open s \<longrightarrow> mb_producers (sd_rx s) = 0 \<and> mb_ring (sd_rx s) = []) \<and> (\<not> sd_final_flush s \<longrightarrow> \<not> sd_open s)"

definition shard_inv :: "('k \<Rightarrow> class_id) option \<Rightarrow> nat \<Rightarrow> bool \<Rightarrow> ('k, 'i) job multiset \<Rightarrow> 'k list \<Rightarrow> ('k, 'v, 'i, 's, 'w, 'h) shard \<Rightarrow> bool" where
  "shard_inv cls n u X ys s \<longleftrightarrow> config_ok (sd_cfg s) \<and> books cls X ys s \<and> set_ok X s \<and> counters_ok s \<and> mail_ok cls u s \<and> tick_ok n (sd_timers s) \<and>
     sd_now s \<le> 2 ^ 72 \<and>
     (cls = None \<or> (\<forall>b\<in>set (max_inflight (sc_scheduler (sd_cfg s))). 0 < b))"

lemma shard_invD:
  assumes "shard_inv cls n u X ys s"
  shows "config_ok (sd_cfg s)" "books cls X ys s" "set_ok X s" "counters_ok s" "mail_ok cls u s" "tick_ok n (sd_timers s)" "sd_now s \<le> 2 ^ 72"
    "cls = None \<or> (\<forall>b\<in>set (max_inflight (sc_scheduler (sd_cfg s))). 0 < b)"
  using assms by (auto simp: shard_inv_def)

lemma books_desk:
  assumes "shard_inv cls n u X ys s"
  obtains L where "desk (cls, \<not> sd_final_flush s) (sd_book s) L (sd_live s) (jobs s + X) (ys @ map fst (sd_staged s))" "cfg (sd_book s) = sc_scheduler (sd_cfg s)"
  using assms by (auto simp: shard_inv_def books_def)

lemma bump_class_ok: "c < length xs \<Longrightarrow> \<exists>ys. bump_class c xs = Some ys \<and> length ys = length xs"
  by (simp add: bump_class_def)

text \<open>The outstanding set holds one future per job, and the two budgets bound them.\<close>

lemma live_jobs: "out_inv (sd_outstanding s) \<Longrightarrow> in_live (sd_outstanding s) = size (jobs s)"
  using live_size [OF out_invD(5)] by (simp add: jobs_def)

lemma push_ok:
  assumes s: "set_ok {#} s" and room: "size (jobs s) < shard_capacity (sd_cfg s)"
  obtains o' where "outstanding_push f (sd_outstanding s) = Some o'"
    "out_inv o'" "calm (in_shared o')" "length (in_storage o') = shard_capacity (sd_cfg s)"
    "image_mset future_job (held_futures o') = add_mset (future_job f) (jobs s)"
proof -
  have "in_live (sd_outstanding s) < length (in_storage (sd_outstanding s))" using s room live_jobs [of s] by (simp add: set_ok_def)
  from push_accounts [OF _ this, of f] obtain o' where "outstanding_push f (sd_outstanding s) = Some o'" "out_inv o'"
    "held_futures o' = add_mset f (held_futures (sd_outstanding s))" "length (in_storage o') = length (in_storage (sd_outstanding s))"
    "calm (in_shared o') = calm (in_shared (sd_outstanding s))" using s by (auto simp: set_ok_def)
  then show thesis using that s by (simp add: set_ok_def jobs_def)
qed

section \<open>Dispatch\<close>

lemma next_sheds_class:
  assumes "sched_inv (s, L)" "c < length (max_inflight (cfg s))" "next_dispatch c now s = Some (s', d)" "x \<in> set (expired s')"
  shows "x \<in> set (expired s) \<or> fst (snd x) = c"
proof -
  have st: "y \<in> set (takeWhile (stale c now) ys) \<Longrightarrow> it_class y = c" for y :: "'b item" and ys
    by (drule set_takeWhileD) (simp add: stale_def)
  have "s' = s \<or> (\<exists>xs. turn_over c now (abs_sched s) xs (abs_sched s') d)" using next_ring [OF assms(1-3)] by blast
  then show ?thesis using assms(4) st by (auto simp: turn_over_def sheds_def split: option.splits)
qed

lemma start_dispatch_ok:
  assumes i: "books cls (add_mset (RunJob (di_key d) (di_class d) (sm_request_id (di_payload d))) {#}) [] s" "set_ok {#} s"
  obtains s' where "start_dispatch ho d s = Some s'" "books cls {#} [] s'" "set_ok {#} s'" "counters_ok s' = counters_ok s" "mail_ok cls u s' = mail_ok cls u s"
    "sd_timers s' = sd_timers s" "sd_cfg s' = sd_cfg s" "sd_flushes s' = sd_flushes s" "sd_book s' = sd_book s" "sd_now s' = sd_now s" "sd_open s' = sd_open s"
    "sd_final_flush s' = sd_final_flush s"
proof -
  obtain L where D: "desk (cls, \<not> sd_final_flush s) (sd_book s) L (sd_live s) (add_mset (RunJob (di_key d) (di_class d) (sm_request_id (di_payload d))) (jobs s)) (map fst (sd_staged s))"
    and c: "cfg (sd_book s) = sc_scheduler (sd_cfg s)" using i(1) by (auto simp: books_def)
  have "size (runs (jobs s)) < sum_list (max_inflight (sc_scheduler (sd_cfg s)))" using desk_runs [OF D] c by simp
  then have "size (jobs s) < shard_capacity (sd_cfg s)"
    using i(2) job_size [of "jobs s"] by (simp add: set_ok_def shard_capacity_def)
  from push_ok [OF i(2) this] obtain o' where o': "outstanding_push (RunOne (snd (ages_begin (sd_now s) (sd_ages s))) d) (sd_outstanding s) = Some o'"
    "out_inv o'" "calm (in_shared o')" "length (in_storage o') = shard_capacity (sd_cfg s)"
    "image_mset future_job (held_futures o') = add_mset (RunJob (di_key d) (di_class d) (sm_request_id (di_payload d))) (jobs s)" by (metis future_job.simps(1))
  obtain s' where s': "start_dispatch ho d s = Some s'" "sd_outstanding s' = o'" "sd_book s' = sd_book s" "sd_live s' = sd_live s"
    "sd_staged s' = sd_staged s" "sd_cfg s' = sd_cfg s" "sd_flushes s' = sd_flushes s" "sd_rx s' = sd_rx s" "sd_timers s' = sd_timers s" "sd_now s' = sd_now s"
    "sd_open s' = sd_open s" "sd_final_flush s' = sd_final_flush s" "ht_started_by_class (sd_hot s') = ht_started_by_class (sd_hot s)" "ht_completed_by_class (sd_hot s') = ht_completed_by_class (sd_hot s)"
    "ht_expired_by_class (sd_hot s') = ht_expired_by_class (sd_hot s)"
    using o'(1) by (simp add: start_dispatch_def Let_def case_prod_beta record_queue_wait_def)
  have j: "jobs s' = add_mset (RunJob (di_key d) (di_class d) (sm_request_id (di_payload d))) (jobs s)" using s'(2) o'(5) by (simp add: jobs_def)
  show thesis
    by (rule that [OF s'(1)]) (use D c j o' i(2) s' in \<open>auto simp: books_def set_ok_def counters_ok_def mail_ok_def\<close>)
qed

lemma dispatch_class_ok:
  assumes "shard_inv cls n u {#} [] s" "c < class_count (sd_cfg s)"
  shows "\<exists>s'. dispatch_class ho c s = Some s' \<and> shard_inv cls n u {#} [] s' \<and> sd_cfg s' = sd_cfg s \<and> served_class (sd_book s') c \<and>
    (cls \<noteq> None \<longrightarrow> (\<forall>c'<class_count (sd_cfg s). served_class (sd_book s) c' \<longrightarrow> served_class (sd_book s') c'))"
  using assms
proof (induction ho c s rule: dispatch_class.induct)
  case (1 ho c s)
  note inv = shard_invD [OF "1.prems"(1)]
  obtain L where D: "desk (cls, \<not> sd_final_flush s) (sd_book s) L (sd_live s) (jobs s) (map fst (sd_staged s))" and cf: "cfg (sd_book s) = sc_scheduler (sd_cfg s)"
    using books_desk [OF "1.prems"(1)] by auto
  have c: "c < length (max_inflight (cfg (sd_book s)))" using "1.prems"(2) cf by simp
  obtain book' x L' where nx: "next_dispatch c (sd_now s) (sd_book s) = Some (book', x)"
    "desk (cls, \<not> sd_final_flush s) book' L' (sd_live s) (started_job x + jobs s) (map fst (sd_staged s))" "cfg book' = cfg (sd_book s)"
    "\<And>c'. cls \<noteq> None \<Longrightarrow> c' < length (max_inflight (cfg (sd_book s))) \<Longrightarrow> served_class (sd_book s) c' \<Longrightarrow> served_class book' c'" "x = None \<Longrightarrow> served_class book' c"
    using desk_next [OF D c] by (metis fst_conv)
  let ?s = "s\<lparr>sd_book := book'\<rparr>"
  have "\<forall>y\<in>set (expired book'). fst (snd y) < class_count (sd_cfg s)"
    using next_sheds_class [OF deskD(1) [OF D] c nx(1)] inv(4) "1.prems"(2) by (auto simp: counters_ok_def)
  then have ok: "set_ok {#} ?s" "counters_ok ?s" "mail_ok cls u ?s" "books cls (started_job x) [] ?s"
    using inv nx(2,3) cf by (auto simp: set_ok_def counters_ok_def mail_ok_def books_def jobs_def add.commute)
  show ?case
  proof (cases x)
    case None
    then have "shard_inv cls n u {#} [] ?s" using ok inv by (simp add: shard_inv_def started_job_def)
    then show ?thesis using nx(1,4,5) None cf by (simp add: dispatch_class.simps [of ho c s])
  next
    case (Some d)
    then have "books cls (add_mset (RunJob (di_key d) (di_class d) (sm_request_id (di_payload d))) {#}) [] ?s" using ok(4) by (simp add: started_job_def)
    from start_dispatch_ok [OF this ok(1), of ho u] obtain s' where s': "start_dispatch ho d ?s = Some s'" "books cls {#} [] s'" "set_ok {#} s'"
      "counters_ok s' = counters_ok ?s" "mail_ok cls u s' = mail_ok cls u ?s" "sd_timers s' = sd_timers ?s" "sd_cfg s' = sd_cfg ?s" "sd_now s' = sd_now ?s" "sd_book s' = sd_book ?s" by blast
    then have "shard_inv cls n u {#} [] s'" using ok inv by (simp add: shard_inv_def)
    from "1.IH" [OF nx(1) refl Some s'(1) this]
    show ?thesis using nx(1,4) Some s'(1,7,9) "1.prems"(2) cf by (auto simp: dispatch_class.simps [of ho c s])
  qed
qed

lemma dispatch_classes_ok:
  assumes "shard_inv cls n u {#} [] s" "\<forall>c\<in>set cs. c < class_count (sd_cfg s)"
  shows "\<exists>s'. dispatch_classes ho cs s = Some s' \<and> shard_inv cls n u {#} [] s' \<and> sd_cfg s' = sd_cfg s \<and>
    (cls \<noteq> None \<longrightarrow> (\<forall>c<class_count (sd_cfg s). c \<in> set cs \<or> served_class (sd_book s) c \<longrightarrow> served_class (sd_book s') c))"
  using assms
proof (induction cs arbitrary: s)
  case (Cons c cs)
  obtain s1 where s1: "dispatch_class ho c s = Some s1" "shard_inv cls n u {#} [] s1" "sd_cfg s1 = sd_cfg s" "served_class (sd_book s1) c"
    "cls \<noteq> None \<longrightarrow> (\<forall>c'<class_count (sd_cfg s). served_class (sd_book s) c' \<longrightarrow> served_class (sd_book s1) c')"
    using dispatch_class_ok [OF Cons.prems(1), of c ho] Cons.prems(2) by auto
  then show ?case using Cons.IH [OF s1(2)] Cons.prems(2) by auto
qed simp

lemma dispatch_ready_ok:
  assumes "shard_inv cls n u {#} [] s"
  obtains s' where "dispatch_ready ho s = Some s'" "shard_inv cls n u {#} [] s'" "sd_cfg s' = sd_cfg s"
    "cls \<noteq> None \<longrightarrow> (\<forall>c<class_count (sd_cfg s). served_class (sd_book s') c)"
  using dispatch_classes_ok [OF assms, of "[0..<class_count (sd_cfg s)]" ho] by (auto simp: dispatch_ready_def)

section \<open>Shedding\<close>

lemma shed_expired_ok:
  assumes "shard_inv cls n u {#} [] s"
  shows "\<exists>s'. shed_expired s = Some s' \<and> shard_inv cls n u {#} [] s' \<and> sd_cfg s' = sd_cfg s \<and> expired (sd_book s') = [] \<and>
    (\<forall>c. served_class (sd_book s') c = served_class (sd_book s) c)"
  using assms
proof (induction s rule: shed_expired.induct)
  case (1 s)
  note inv = shard_invD [OF "1.prems"]
  obtain L where D: "desk (cls, \<not> sd_final_flush s) (sd_book s) L (sd_live s) (jobs s) (map fst (sd_staged s))" and cf: "cfg (sd_book s) = sc_scheduler (sd_cfg s)"
    using books_desk [OF "1.prems"] by auto
  note dp = desk_pop [OF D]
  obtain book' x where pe: "pop_expired (sd_book s) = (book', x)" by (cases "pop_expired (sd_book s)")
  show ?case
  proof (cases x)
    case None
    then show ?thesis using "1.prems" dp pe by (simp add: shed_expired.simps [of s])
  next
    case (Some y)
    obtain k c p where y: "y = (k, c, p)" by (cases y)
    have d: "desk (cls, \<not> sd_final_flush s) book' L (forget k (sm_request_id p) (sd_live s)) (jobs s) (map fst (sd_staged s))" "cfg book' = cfg (sd_book s)"
      "expired (sd_book s) = (k, c, p) # expired book'" using dp pe Some y by auto
    have "c < length (ht_expired_by_class (sd_hot s))" using inv(4) d(3) by (auto simp: counters_ok_def)
    then obtain cs where cs: "bump_class c (ht_expired_by_class (sd_hot s)) = Some cs" "length cs = length (ht_expired_by_class (sd_hot s))"
      using bump_class_ok by blast
    let ?s = "s\<lparr>sd_book := book'\<rparr>"
    obtain s' where s': "shed_one y ?s = Some s'" "sd_book s' = book'" "sd_live s' = forget k (sm_request_id p) (sd_live s)"
      "sd_outstanding s' = sd_outstanding s" "sd_staged s' = sd_staged s" "sd_cfg s' = sd_cfg s" "sd_flushes s' = sd_flushes s"
      "sd_rx s' = sd_rx s" "sd_timers s' = sd_timers s" "sd_now s' = sd_now s" "sd_open s' = sd_open s" "sd_final_flush s' = sd_final_flush s" "sd_hot s' = (sd_hot s)\<lparr>ht_expired_by_class := cs\<rparr>"
      using cs y by (simp add: shed_one_def forget_def cong: option.case_cong)
    have sv: "served_class book' c = served_class (sd_book s) c" for c
      using pe by (auto simp: pop_expired_def served_class_def split: list.splits)
    have "shard_inv cls n u {#} [] s'"
      using inv d cs(2) s' cf by (auto simp: shard_inv_def set_ok_def counters_ok_def mail_ok_def books_def jobs_def)
    from "1.IH" [OF pe [symmetric] Some s'(1) this] show ?thesis using pe Some s'(1,2,6) sv by (simp add: shed_expired.simps [of s])
  qed
qed

section \<open>Flushes\<close>

lemma desk_flush:
  "desk t book L idx J (k # staged) \<longleftrightarrow> desk t book L idx (add_mset (FlushJob k) J) staged"
  by (simp add: desk_def ids_on_hand_def)

lemma start_flushes_ok:
  assumes "shard_inv cls n u {#} (map fst xs) s" "sd_flushes s + length xs \<le> sc_flush_slots (sd_cfg s)"
  shows "\<exists>s'. start_flushes xs s = Some s' \<and> shard_inv cls n u {#} [] s' \<and> sd_cfg s' = sd_cfg s \<and> sd_staged s' = sd_staged s \<and>
    sd_book s' = sd_book s \<and> sd_open s' = sd_open s"
  using assms
proof (induction xs arbitrary: s)
  case (Cons x xs)
  note inv = shard_invD [OF Cons.prems(1)]
  obtain L where D: "desk (cls, \<not> sd_final_flush s) (sd_book s) L (sd_live s) (add_mset (FlushJob (fst x)) (jobs s)) (map fst xs @ map fst (sd_staged s))"
    and cf: "cfg (sd_book s) = sc_scheduler (sd_cfg s)"
    using books_desk [OF Cons.prems(1)] by (auto simp: desk_flush)
  have "size (runs (jobs s)) \<le> sum_list (max_inflight (sc_scheduler (sd_cfg s)))" using desk_runs [OF D] cf by simp
  then have "size (jobs s) < shard_capacity (sd_cfg s)"
    using inv(3) Cons.prems(2) job_size [of "jobs s"] by (simp add: set_ok_def shard_capacity_def)
  from push_ok [OF inv(3) this, of "RunFlush (fst x) (snd x)"]
  obtain o' where o': "outstanding_push (RunFlush (fst x) (snd x)) (sd_outstanding s) = Some o'" "out_inv o'" "calm (in_shared o')"
    "length (in_storage o') = shard_capacity (sd_cfg s)" "image_mset future_job (held_futures o') = add_mset (FlushJob (fst x)) (jobs s)"
    by (metis future_job.simps(2))
  let ?s = "s\<lparr>sd_hot := (sd_hot s)\<lparr>ht_evicted := counter_bump (ht_evicted (sd_hot s))\<rparr>, sd_flushes := sd_flushes s + 1, sd_outstanding := o'\<rparr>"
  have j: "jobs ?s = add_mset (FlushJob (fst x)) (jobs s)" using o'(5) by (simp add: jobs_def)
  have "shard_inv cls n u {#} (map fst xs) ?s"
    using inv o' j D cf Cons.prems(2) by (auto simp: shard_inv_def set_ok_def counters_ok_def mail_ok_def books_def)
  from Cons.IH [OF this] show ?case using Cons.prems(2) o'(1) by simp
qed simp

lemma begin_flushes_ok:
  assumes "shard_inv cls n u {#} [] s"
  obtains s' where "begin_flushes s = Some s'" "shard_inv cls n u {#} [] s'" "sd_cfg s' = sd_cfg s" "sd_book s' = sd_book s"
proof -
  let ?r = "min (sc_flush_slots (sd_cfg s) - sd_flushes s) (length (sd_staged s))"
  let ?s = "s\<lparr>sd_staged := drop ?r (sd_staged s)\<rparr>"
  have "map fst (take ?r (sd_staged s)) @ map fst (drop ?r (sd_staged s)) = map fst (sd_staged s)"
    by (metis map_append append_take_drop_id)
  then have "shard_inv cls n u {#} (map fst (take ?r (sd_staged s))) ?s"
    using assms by (simp add: shard_inv_def set_ok_def counters_ok_def mail_ok_def books_def jobs_def)
  moreover have "sd_flushes ?s + length (take ?r (sd_staged s)) \<le> sc_flush_slots (sd_cfg ?s)"
    using shard_invD(3) [OF assms] unfolding set_ok_def by simp linarith
  ultimately have "\<exists>s'. start_flushes (take ?r (sd_staged s)) ?s = Some s' \<and> shard_inv cls n u {#} [] s' \<and> sd_cfg s' = sd_cfg ?s \<and> sd_book s' = sd_book ?s"
    using start_flushes_ok by blast
  then show thesis using that by (auto simp: begin_flushes_def Let_def)
qed

section \<open>Admission\<close>

lemma admit_tracked_ok:
  assumes inv: "shard_inv cls n u {#} [] s" and c: "en_class e < class_count (sd_cfg s)" "fitting (cls, False) (en_key e) (en_class e)" "sd_open s" and room: "\<not> is_saturated (sd_book s)"
    and new: "\<forall>r. tr = Some r \<longrightarrow> (en_key e, r) \<notin> sd_live s"
  obtains s' where "admit_tracked e tr (s\<lparr>sd_live := watch (en_key e) tr (sd_live s)\<rparr>) = Some s'" "shard_inv cls n u {#} [] s'" "sd_cfg s' = sd_cfg s"
    "sd_rx s' = sd_rx s" "sd_open s'"
proof -
  note i = shard_invD [OF inv]
  obtain L where D: "desk (cls, \<not> sd_final_flush s) (sd_book s) L (sd_live s) (jobs s) (map fst (sd_staged s))" and cf: "cfg (sd_book s) = sc_scheduler (sd_cfg s)"
    using books_desk [OF inv] by auto
  let ?it = "\<lparr>ad_key = en_key e, ad_class = en_class e, ad_expires_at = en_expires_at e,
       ad_payload = \<lparr>sm_enqueued = en_enqueued e, sm_request_id = tr, sm_work = en_work e\<rparr>\<rparr>"
  have p: "pending (sd_book s) < 2 ^ 32 - 1" using room i(1) cf by (simp add: is_saturated_def config_ok_def)
  have c': "ad_class ?it < length (max_inflight (cfg (sd_book s)))" using c(1) cf by simp
  have ff: "sd_final_flush s" using i(5) c(3) by (auto simp: mail_ok_def)
  have fit: "fitting (cls, \<not> sd_final_flush s) (ad_key ?it) (ad_class ?it)" using c(2) ff by simp
  have f: "\<forall>r. sm_request_id (ad_payload ?it) = Some r \<longrightarrow> (ad_key ?it, r) \<notin> sd_live s" using new by simp
  obtain book' where b: "admit ?it (sd_book s) = Some book'" "desk (cls, \<not> sd_final_flush s) book' L (watch (en_key e) tr (sd_live s)) (jobs s) (map fst (sd_staged s))"
    "cfg book' = cfg (sd_book s)" "expired book' = expired (sd_book s)" using desk_admit [OF D c' p fit f] by (metis admit_item.select_convs(1,4) stamped.select_convs(2))
  obtain cs where cs: "bump_class (en_class e) (ht_started_by_class (sd_hot s)) = Some cs" "length cs = length (ht_started_by_class (sd_hot s))"
    using bump_class_ok [of "en_class e" "ht_started_by_class (sd_hot s)"] c(1) i(4) by (auto simp: counters_ok_def)
  let ?s = "s\<lparr>sd_live := watch (en_key e) tr (sd_live s), sd_hot := (sd_hot s)\<lparr>ht_started_by_class := cs\<rparr>, sd_book := book'\<rparr>"
  have "shard_inv cls n u {#} [] ?s"
    using b cs(2) i cf by (auto simp: shard_inv_def set_ok_def counters_ok_def mail_ok_def books_def jobs_def)
  then show thesis using that [of ?s] b(1) cs(1) c(3) by (simp add: admit_tracked_def)
qed

lemma admit_one_ok:
  assumes "shard_inv cls n u {#} [] s" "en_class e < class_count (sd_cfg s)" "fitting (cls, False) (en_key e) (en_class e)" "sd_open s" "\<not> is_saturated (sd_book s)"
  obtains s' where "admit_one e s = Some s'" "shard_inv cls n u {#} [] s'" "sd_cfg s' = sd_cfg s" "sd_rx s' = sd_rx s" "sd_open s'"
proof -
  have untracked: "\<exists>s'. admit_tracked e None s = Some s' \<and> shard_inv cls n u {#} [] s' \<and> sd_cfg s' = sd_cfg s \<and> sd_rx s' = sd_rx s \<and> sd_open s'"
  proof -
    obtain s' where "admit_tracked e None (s\<lparr>sd_live := watch (en_key e) None (sd_live s)\<rparr>) = Some s'" "shard_inv cls n u {#} [] s'"
      "sd_cfg s' = sd_cfg s" "sd_rx s' = sd_rx s" "sd_open s'" by (rule admit_tracked_ok [OF assms, of None]) simp_all
    then show ?thesis by (simp add: watch_def)
  qed
  show thesis
  proof (cases "en_request_id e")
    case None
    then show thesis using that untracked by (auto simp: admit_one_def)
  next
    case (Some r)
    consider "\<not> sc_coalesce_duplicates (sd_cfg s)" | "sc_coalesce_duplicates (sd_cfg s)" "(en_key e, r) \<in> sd_live s"
      | "sc_coalesce_duplicates (sd_cfg s)" "(en_key e, r) \<notin> sd_live s" by blast
    then show thesis
    proof cases
      case 1
      then show thesis using that untracked Some by (auto simp: admit_one_def)
    next
      case 2
      let ?s = "s\<lparr>sd_hot := (sd_hot s)\<lparr>ht_coalesced := counter_bump (ht_coalesced (sd_hot s))\<rparr>, sd_calls := sd_calls s @ [OnCoalesced (en_key e) (en_work e)]\<rparr>"
      have "shard_inv cls n u {#} [] ?s"
        using assms(1) by (simp add: shard_inv_def set_ok_def counters_ok_def mail_ok_def books_def jobs_def)
      then show thesis using that [of ?s] 2 Some assms(4) by (simp add: admit_one_def)
    next
      case 3
      then have "\<forall>x. Some r = Some x \<longrightarrow> (en_key e, x) \<notin> sd_live s" by simp
      then obtain s' where "admit_tracked e (Some r) (s\<lparr>sd_live := watch (en_key e) (Some r) (sd_live s)\<rparr>) = Some s'" "shard_inv cls n u {#} [] s'"
        "sd_cfg s' = sd_cfg s" "sd_rx s' = sd_rx s" "sd_open s'" by (rule admit_tracked_ok [OF assms])
      then show thesis using that [of s'] 3 Some by (simp add: admit_one_def watch_def)
    qed
  qed
qed

lemma mail_drain:
  assumes "shard_inv cls n u {#} [] s" "mb_poll_recv w (sd_rx s) = Some (rx, r)" "sd_open s"
  shows "shard_inv cls n u {#} [] (s\<lparr>sd_rx := rx\<rparr>)" "r = RItem e \<Longrightarrow> en_class e < class_count (sd_cfg s) \<and> fitting (cls, False) (en_key e) (en_class e)"
    "r = RClosed \<Longrightarrow> mb_producers rx = 0 \<and> mb_ring rx = []"
proof -
  have m: "mail_inv (sd_rx s, u)" "\<not> mb_departed (sd_rx s)" "\<forall>e\<in>set (mb_ring (sd_rx s)). en_class e < class_count (sd_cfg s) \<and> fitting (cls, False) (en_key e) (en_class e)"
    using shard_invD(5) [OF assms(1)] by (auto simp: mail_ok_def)
  note p = poll_recv_inv [OF m(1,2) assms(2)]
  have "\<not> mb_departed rx"
    using assms(2) m(1,2) by (auto simp: mb_poll_recv_def mb_take_def mb_unpark_def mb_release_capacity_def Let_def
        split: list.splits option.splits prod.splits if_splits)
  moreover have "\<forall>e\<in>set (mb_ring rx). en_class e < class_count (sd_cfg s) \<and> fitting (cls, False) (en_key e) (en_class e)" using m(3) p(2) by simp
  ultimately show "shard_inv cls n u {#} [] (s\<lparr>sd_rx := rx\<rparr>)"
    using assms(1,3) p(1) by (auto simp: shard_inv_def set_ok_def counters_ok_def mail_ok_def books_def jobs_def)
  show "r = RItem e \<Longrightarrow> en_class e < class_count (sd_cfg s) \<and> fitting (cls, False) (en_key e) (en_class e)" using m(3) p(2) by simp
  show "r = RClosed \<Longrightarrow> mb_producers rx = 0 \<and> mb_ring rx = []" by (rule p(4))
qed

lemma poll_recv_defined: "mail_inv (m, u) \<Longrightarrow> \<exists>m' r. mb_poll_recv w m = Some (m', r)"
  by (auto simp: mb_poll_recv_def mb_take_def mail_inv_def bell_register_def slot_register_def mb_release_capacity_def Let_def
      split: list.splits prod.splits option.splits)

lemma drain_loop_ok:
  assumes "shard_inv cls n u {#} [] s" "\<not> am_closed tk" "sd_open s"
  shows "\<exists>s' tk'. drain_loop limit w first tk s = Some (s', tk') \<and> shard_inv cls n u {#} [] s' \<and> sd_cfg s' = sd_cfg s \<and> sd_open s' \<and>
    (am_closed tk' \<longrightarrow> mb_producers (sd_rx s') = 0 \<and> mb_ring (sd_rx s') = [])"
  using assms
proof (induction limit w first tk s rule: drain_loop.induct)
  case (1 limit w first tk s)
  show ?case
  proof (cases "am_count tk < limit \<and> \<not> is_saturated (sd_book s)")
    case False
    then have "drain_loop limit w first tk s = Some (s, tk)" by (subst drain_loop.simps) (rule if_not_P)
    then show ?thesis using "1.prems" by simp
  next
    case True
    have "mail_inv (sd_rx s, u)" using shard_invD(5) [OF "1.prems"(1)] by (simp add: mail_ok_def)
    from poll_recv_defined [OF this] obtain rx r where p: "mb_poll_recv w (sd_rx s) = Some (rx, r)" by blast
    note d = mail_drain [OF "1.prems"(1) p "1.prems"(3)]
    show ?thesis
    proof (cases r)
      case (RItem e)
      obtain s1 where s1: "admit_one e (s\<lparr>sd_rx := rx\<rparr>) = Some s1" "shard_inv cls n u {#} [] s1" "sd_cfg s1 = sd_cfg s" "sd_open s1"
        using admit_one_ok [OF d(1), of e] d(2) [OF RItem] True "1.prems"(3) by auto
      from "1.IH" [OF True p refl RItem s1(1,2) _ s1(4)] show ?thesis
        using "1.prems"(2) True p RItem s1(1,3) by (simp add: drain_loop.simps [of limit w first tk s])
    next
      case RClosed
      then show ?thesis using True p d "1.prems"(3) by (simp add: drain_loop.simps [of limit w first tk s])
    next
      case RPending
      then show ?thesis using True p d "1.prems"(2,3) by (simp add: drain_loop.simps [of limit w first tk s])
    qed
  qed
qed

lemma shard_rx_release:
  "shard_inv cls n u X ys s \<Longrightarrow> shard_inv cls n u X ys (s\<lparr>sd_rx := mb_release_capacity (sd_rx s)\<rparr>)"
  using release_inv [of "sd_rx s" u] by (simp add: shard_inv_def set_ok_def counters_ok_def mail_ok_def books_def jobs_def)

lemma shard_rx_kept: "shard_inv cls n u X ys s \<Longrightarrow> mb_producers (mb_release_capacity (sd_rx s)) = mb_producers (sd_rx s) \<and>
    mb_ring (mb_release_capacity (sd_rx s)) = mb_ring (sd_rx s)"
  using release_inv [of "sd_rx s" u] by (simp add: shard_inv_def mail_ok_def)

lemma shard_clock: "shard_inv cls n u X ys s \<Longrightarrow> t \<le> 2 ^ 72 \<Longrightarrow> shard_inv cls n u X ys (s\<lparr>sd_now := t\<rparr>)"
  "shard_inv cls n u X ys s \<Longrightarrow> mb_producers (sd_rx s) = 0 \<Longrightarrow> mb_ring (sd_rx s) = [] \<Longrightarrow> shard_inv cls n u X ys (s\<lparr>sd_open := False\<rparr>)"
  "shard_inv cls n u X ys s \<Longrightarrow> t \<le> 2 ^ 72 \<Longrightarrow> shard_inv cls n u X ys (s\<lparr>sd_now := t, sd_hot := (sd_hot s)\<lparr>ht_busy_nanos := v\<rparr>\<rparr>)"
  by (simp_all add: shard_inv_def set_ok_def counters_ok_def mail_ok_def books_def jobs_def)

lemma admit_stage_ok:
  assumes "shard_inv cls n u {#} [] s" "te_admitted env \<le> 2 ^ 72"
  obtains s' k where "admit_stage env s = Some (s', k)" "shard_inv cls n u {#} [] s'" "sd_cfg s' = sd_cfg s"
proof (cases "sd_open s")
  case False
  then show thesis using that assms by (simp add: admit_stage_def)
next
  case True
  let ?t = "\<lparr>am_count = 0, am_closed = False, am_at = sd_now s\<rparr>"
  obtain s1 tk where d: "drain_inbox (te_waker env) (te_first env) s = Some (s1, tk)" "shard_inv cls n u {#} [] s1" "sd_cfg s1 = sd_cfg s"
    "am_closed tk \<Longrightarrow> mb_producers (sd_rx s1) = 0 \<and> mb_ring (sd_rx s1) = []"
    using drain_loop_ok [OF assms(1) _ True, of ?t "max (sc_admit_batch (sd_cfg s)) 1" "te_waker env" "te_first env"]
    by (fastforce simp: drain_inbox_def shard_rx_release shard_rx_kept)
  let ?a = "if am_closed tk then s1\<lparr>sd_open := False\<rparr> else s1"
  have a: "shard_inv cls n u {#} [] ?a" "sd_cfg ?a = sd_cfg s" using d(2-4) shard_clock(2) [OF d(2)] by simp_all
  show thesis
  proof (cases "am_count tk > 0")
    case True
    then show thesis using that shard_clock(3) [OF a(1) assms(2)] a(2) d(1) \<open>sd_open s\<close> by (simp add: admit_stage_def Let_def)
  next
    case False
    then show thesis using that a d(1) \<open>sd_open s\<close> by (simp add: admit_stage_def Let_def)
  qed
qed

section \<open>Harvesting\<close>

lemma note_counters [simp]:
  "ht_started_by_class (note_panic b (note_fallout f hot)) = ht_started_by_class hot"
  "ht_completed_by_class (note_panic b (note_fallout f hot)) = ht_completed_by_class hot"
  "ht_expired_by_class (note_panic b (note_fallout f hot)) = ht_expired_by_class hot"
  by (auto simp: note_panic_def note_fallout_def Let_def split: option.splits)

lemma handle_ran_ok:
  assumes inv: "shard_inv cls n u (add_mset (RunJob (co_key c) (co_class c) rid) X) [] s"
  shows "\<exists>s'. handle_ran ho moment sequence c rid panicked f s = Some s' \<and> shard_inv cls n u X [] s' \<and> sd_cfg s' = sd_cfg s"
proof -
  note i = shard_invD [OF inv]
  obtain L where D: "desk (cls, \<not> sd_final_flush s) (sd_book s) L (sd_live s) (add_mset (RunJob (co_key c) (co_class c) rid) (jobs s + X)) (map fst (sd_staged s))"
    and cf: "cfg (sd_book s) = sc_scheduler (sd_cfg s)" using books_desk [OF inv] by auto
  obtain book' L' where b: "Core_Scheduler.complete c moment (sd_book s) = Some book'"
    "desk (cls, \<not> sd_final_flush s) book' L' (forget (co_key c) rid (sd_live s)) (jobs s + X) (map fst (sd_staged s))" "cfg book' = cfg (sd_book s)"
    "expired book' = expired (sd_book s)" "flying L (co_key c) = Some (co_class c)" using desk_complete [OF D] by metis
  have "co_class c < class_count (sd_cfg s)"
    using b(5) sched_invD(2) [OF deskD(1) [OF D]] cf by (simp add: spec_inv_def spec_flights_def)
  then obtain cs where cs: "bump_class (co_class c) (ht_completed_by_class (sd_hot s)) = Some cs" "length cs = length (ht_completed_by_class (sd_hot s))"
    using bump_class_ok i(4) unfolding counters_ok_def by metis
  obtain s' where s': "handle_ran ho moment sequence c rid panicked f s = Some s'" "sd_book s' = book'" "sd_live s' = forget (co_key c) rid (sd_live s)"
    "sd_outstanding s' = sd_outstanding s" "sd_staged s' = sd_staged s" "sd_cfg s' = sd_cfg s" "sd_flushes s' = sd_flushes s"
    "sd_rx s' = sd_rx s" "sd_timers s' = sd_timers s" "sd_now s' = sd_now s" "sd_open s' = sd_open s" "sd_final_flush s' = sd_final_flush s" "ht_completed_by_class (sd_hot s') = cs"
    "ht_started_by_class (sd_hot s') = ht_started_by_class (sd_hot s)" "ht_expired_by_class (sd_hot s') = ht_expired_by_class (sd_hot s)"
    using cs(1) b(1) by (simp add: handle_ran_def forget_def case_prod_beta Let_def record_process_def)
  have "shard_inv cls n u X [] s'"
    using i b s' cs(2) cf by (auto simp: shard_inv_def set_ok_def counters_ok_def mail_ok_def books_def jobs_def)
  then show ?thesis using s'(1,6) by blast
qed

lemma handle_flushed_ok:
  assumes inv: "shard_inv cls n u (add_mset (FlushJob k) X) [] s"
  shows "\<exists>s'. handle_flushed moment k s = Some s' \<and> shard_inv cls n u X [] s' \<and> sd_cfg s' = sd_cfg s"
proof -
  note i = shard_invD [OF inv]
  obtain L where D: "desk (cls, \<not> sd_final_flush s) (sd_book s) L (sd_live s) (add_mset (FlushJob k) (jobs s + X)) (map fst (sd_staged s))"
    and cf: "cfg (sd_book s) = sc_scheduler (sd_cfg s)" using books_desk [OF inv] by auto
  obtain book' L' where b: "finish_evict k moment (sd_book s) = Some book'"
    "desk (cls, \<not> sd_final_flush s) book' L' (sd_live s) (jobs s + X) (map fst (sd_staged s))" "cfg book' = cfg (sd_book s)"
    "expired book' = expired (sd_book s)" using desk_finish [OF D] by metis
  let ?s = "s\<lparr>sd_flushes := sd_flushes s - 1, sd_book := book'\<rparr>"
  have "shard_inv cls n u X [] ?s"
    using i b cf by (auto simp: shard_inv_def set_ok_def counters_ok_def mail_ok_def books_def jobs_def)
  moreover have "sd_flushes s \<noteq> 0" using i(3) by (simp add: set_ok_def)
  ultimately show ?thesis using b(1) by (simp add: handle_flushed_def)
qed

lemma handle_outcomes_ok:
  assumes "shard_inv cls n u (image_mset outcome_job (mset outs)) [] s"
  shows "\<exists>s'. handle_outcomes ho moment outs s = Some s' \<and> shard_inv cls n u {#} [] s' \<and> sd_cfg s' = sd_cfg s"
  using assms
proof (induction outs arbitrary: s)
  case (Cons out outs)
  have "\<exists>s1. handle_outcome ho moment out s = Some s1 \<and> shard_inv cls n u (image_mset outcome_job (mset outs)) [] s1 \<and> sd_cfg s1 = sd_cfg s"
    using Cons.prems handle_ran_ok handle_flushed_ok by (cases out) (auto simp: handle_outcome_def)
  then show ?case using Cons.IH by fastforce
qed simp

lemma harvest_completions_ok:
  assumes inv: "shard_inv cls n u {#} [] s"
  obtains s' report abort where "harvest_completions ho answer moment s = Some (s', report, abort)" "shard_inv cls n u {#} [] s'" "sd_cfg s' = sd_cfg s"
proof -
  let ?cap = "max (sc_complete_batch (sd_cfg s)) 1"
  let ?h = "harvest (shard_poller answer) ?cap (sd_outstanding s)" and ?s = "s\<lparr>sd_outstanding := hr_inner (harvest (shard_poller answer) ?cap (sd_outstanding s))\<rparr>"
  note i = shard_invD [OF inv] and a = harvest_accounts [OF poller_keeps_jobs [of answer], where s = "sd_outstanding s" and cap = ?cap]
  have "out_inv (sd_outstanding s)" using i(3) by (simp add: set_ok_def)
  then have "out_inv (hr_inner ?h)" by (rule out_step_inv [OF step_harvest])
  moreover have "jobs s = jobs ?s + image_mset outcome_job (mset (hr_out ?h))" using a(1) by (simp add: jobs_def)
  ultimately have "shard_inv cls n u (image_mset outcome_job (mset (hr_out ?h))) [] ?s"
    using i a(3,4) by (simp add: shard_inv_def set_ok_def counters_ok_def mail_ok_def books_def)
  from handle_outcomes_ok [OF this, of ho moment] obtain s' where s': "handle_outcomes ho moment (hr_out ?h) ?s = Some s'" "shard_inv cls n u {#} [] s'" "sd_cfg s' = sd_cfg s"
    by auto
  obtain report where "hr_report ?h = Some report" using a(2) by blast
  then show thesis using that s' by (simp add: harvest_completions_def Let_def)
qed

section \<open>Timers\<close>

lemma publish_keeps: "shard_inv cls n u X ys (publish_stats ho s) = shard_inv cls n u X ys s" "sd_cfg (publish_stats ho s) = sd_cfg s"
  by (simp_all add: publish_stats_def Let_def shard_inv_def set_ok_def counters_ok_def mail_ok_def books_def jobs_def)

lemma on_tick_ok:
  assumes inv: "shard_inv cls n u {#} [] (s\<lparr>sd_timers := w\<rparr>)" and t: "idle_wheel n (sd_timers s)" "n < 2 ^ 64 - 1" "w_cursor (sd_timers s) = sd_now s div 1024"
  shows "\<exists>s'. on_tick ho s = Some s' \<and> shard_inv cls (n + 1) u {#} [] s' \<and> sd_cfg s' = sd_cfg s"
proof -
  let ?s = "publish_stats ho s"
  note i = shard_invD [OF inv]
  have p: "sd_book ?s = sd_book s" "sd_staged ?s = sd_staged s" "sd_timers ?s = sd_timers s" "sd_now ?s = sd_now s" "sd_cfg ?s = sd_cfg s"
    by (simp_all add: publish_stats_def Let_def)
  obtain L where D: "desk (cls, \<not> sd_final_flush s) (sd_book s) L (sd_live s) (jobs s) (map fst (sd_staged s))" and cf: "cfg (sd_book s) = sc_scheduler (sd_cfg s)"
    using books_desk [OF inv] by (auto simp: jobs_def)
  have "\<exists>book staged. (if sd_staged s = [] then evict (sd_now s) [] (sd_book s) else Some (sd_book s, sd_staged s)) = Some (book, staged) \<and>
    (\<exists>L. desk (cls, \<not> sd_final_flush s) book L (sd_live s) (jobs s) (map fst staged)) \<and> cfg book = cfg (sd_book s) \<and> expired book = expired (sd_book s)"
  proof (cases "sd_staged s = []")
    case True
    then have "desk (cls, \<not> sd_final_flush s) (sd_book s) L (sd_live s) (jobs s) []" using D by simp
    then obtain book' out L' where "evict (sd_now s) [] (sd_book s) = Some (book', out)" "desk (cls, \<not> sd_final_flush s) book' L' (sd_live s) (jobs s) (map fst out)"
      "cfg book' = cfg (sd_book s)" "expired book' = expired (sd_book s)" by (rule desk_evict)
    then show ?thesis using True by auto
  qed (use D in auto)
  then obtain book staged L' where b: "(if sd_staged s = [] then evict (sd_now s) [] (sd_book s) else Some (sd_book s, sd_staged s)) = Some (book, staged)"
    "desk (cls, \<not> sd_final_flush s) book L' (sd_live s) (jobs s) (map fst staged)" "cfg book = cfg (sd_book s)" "expired book = expired (sd_book s)" by blast
  have "sd_now s < w_cursor (sd_timers s) * 1024 + 1024"
    unfolding t(3) using dividend_less_div_times [of 1024 "sd_now s"] by simp
  moreover have "sc_tick (sd_cfg s) \<le> 2 ^ 56" "sd_now s \<le> 2 ^ 72" using i(1,7) by (simp_all add: config_ok_def)
  ultimately have "sd_now s + sc_tick (sd_cfg s) \<le> w_cursor (sd_timers s) * 1024 + 2 ^ 57" "sd_now s + sc_tick (sd_cfg s) \<le> 2 ^ 73" by simp_all
  then obtain w' where w': "insert_tick (sd_now s) (sd_cfg s) (sd_timers s) = Some w'" "tick_ok (n + 1) w'" by (rule insert_tick_ok [OF t(1,2)])
  let ?t = "?s\<lparr>sd_book := book, sd_staged := staged, sd_timers := w'\<rparr>"
  have "on_tick ho s = Some ?t" using p b(1) w'(1) by (auto simp: on_tick_def Let_def split: if_splits)
  moreover have "shard_inv cls (n + 1) u {#} [] ?t"
    using i b(2-4) cf w'(2) by (auto simp: publish_stats_def Let_def shard_inv_def set_ok_def counters_ok_def mail_ok_def books_def jobs_def)
  ultimately show ?thesis using p(5) by simp
qed

lemma tick_ok_mono: "tick_ok n w \<Longrightarrow> n \<le> m \<Longrightarrow> tick_ok m w"
  by (auto simp: tick_ok_def)

lemma shard_inv_mono: "shard_inv cls n u X ys s \<Longrightarrow> n \<le> m \<Longrightarrow> shard_inv cls m u X ys s"
  by (auto simp: shard_inv_def intro: tick_ok_mono)

lemma service_timers_ok:
  assumes inv: "shard_inv cls n u {#} [] s" and n: "n < 2 ^ 64 - 1"
  obtains s' fired where "service_timers ho s = Some (s', fired)" "shard_inv cls (n + 1) u {#} [] s'" "sd_cfg s' = sd_cfg s"
proof (cases "is_due_duration WHEEL_SHIFT (sd_now s) (sd_timers s)")
  case False
  then show thesis using that shard_inv_mono [OF inv, of "n + 1"] by (simp add: service_timers_def)
next
  case True
  note i = shard_invD [OF inv]
  have set_timers: "shard_inv cls n u {#} [] (s\<lparr>sd_timers := w'\<rparr>)" if "tick_ok n w'" for w'
    using that i by (simp add: shard_inv_def set_ok_def counters_ok_def mail_ok_def books_def jobs_def)
  show thesis
  proof (rule advance_tick [OF i(6,7)])
    fix w' assume w': "advance_duration WHEEL_SHIFT (sd_now s) [] (sd_timers s) = Some (Some (w', []))" "tick_ok n w'"
    from shard_inv_mono [OF set_timers [OF this(2)], of "n + 1"] that [of "s\<lparr>sd_timers := w'\<rparr>" True] w'(1) True
    show thesis by (simp add: service_timers_def)
  next
    fix w' assume w': "advance_duration WHEEL_SHIFT (sd_now s) [] (sd_timers s) = Some (Some (w', [Tick]))" "idle_wheel n w'" "w_cursor w' = sd_now s div 1024"
    have "shard_inv cls n u {#} [] ((s\<lparr>sd_timers := w'\<rparr>)\<lparr>sd_timers := sd_timers s\<rparr>)" using inv by simp
    from on_tick_ok [OF this _ n, of ho] w'(2,3) obtain s' where "on_tick ho (s\<lparr>sd_timers := w'\<rparr>) = Some s'" "shard_inv cls (n + 1) u {#} [] s'" "sd_cfg s' = sd_cfg s"
      by auto
    then show thesis using that w'(1) True by (simp add: service_timers_def)
  qed
qed

section \<open>A turn\<close>

definition timely :: "('k, 'v, 'i, 's, 'w) turn_env \<Rightarrow> bool" where
  "timely env \<longleftrightarrow> te_admitted env \<le> 2 ^ 72 \<and> te_finished env \<le> 2 ^ 72 \<and> te_waited env \<le> 2 ^ 72"

lemma work_stage_ok:
  assumes inv: "shard_inv cls n u {#} [] s" and n: "n < 2 ^ 64 - 1" and env: "timely env"
  obtains s' how where "work_stage ho env s = Some (s', how)" "shard_inv cls (n + 1) u {#} [] s'" "sd_cfg s' = sd_cfg s" "how \<noteq> Exits"
proof -
  obtain s1 k where a: "admit_stage env s = Some (s1, k)" "shard_inv cls n u {#} [] s1" "sd_cfg s1 = sd_cfg s"
    using admit_stage_ok [OF inv] env unfolding timely_def by metis
  obtain s2 report abort where h: "harvest_completions ho (te_answer env) (te_at env) s1 = Some (s2, report, abort)" "shard_inv cls n u {#} [] s2" "sd_cfg s2 = sd_cfg s1"
    using harvest_completions_ok [OF a(2)] by metis
  show thesis
  proof (cases abort)
    case True
    then show thesis using that [of "publish_stats ho s2" Aborts] a h shard_inv_mono [OF h(2), of "n + 1"] by (simp add: work_stage_def publish_keeps)
  next
    case False
    let ?b = "if h_finished report > 0 then busy_after_harvest env s2 else s2"
    have b: "shard_inv cls n u {#} [] ?b" "sd_cfg ?b = sd_cfg s2"
      using h(2) env shard_clock(3) [OF h(2), of "te_finished env"] by (auto simp: busy_after_harvest_def timely_def)
    obtain s3 fired where f: "service_timers ho ?b = Some (s3, fired)" "shard_inv cls (n + 1) u {#} [] s3" "sd_cfg s3 = sd_cfg ?b"
      using service_timers_ok [OF b(1) n] by metis
    have "wheel_inv (sd_timers s3)" using shard_invD(6) [OF f(2)] by (simp add: tick_ok_def)
    then obtain dl where dl: "next_wakeup_duration WHEEL_SHIFT (sd_timers s3) = Some dl" using wakeup_defined by blast
    have w: "shard_inv cls (n + 1) u {#} [] (s3\<lparr>sd_now := te_waited env\<rparr>)" using shard_clock(1) [OF f(2)] env by (simp add: timely_def)
    define stop where "stop \<longleftrightarrow> k > 0 \<or> h_finished report > 0 \<or> fired \<or> h_more_ready report"
    have ws: "work_stage ho env s = (if stop then Some (s3, Continues) else if te_wait_pending env then Some (s3, Sleeps) else Some (s3\<lparr>sd_now := te_waited env\<rparr>, Continues))"
      using a(1) h(1) False f(1) dl unfolding stop_def by (simp add: work_stage_def Let_def)
    have cs: "sd_cfg s3 = sd_cfg s" using f(3) b(2) h(3) a(3) by simp
    consider "stop" | "\<not> stop" "te_wait_pending env" | "\<not> stop" "\<not> te_wait_pending env" by blast
    then show thesis
    proof cases
      case 1
      show thesis by (rule that [of s3 Continues]) (use 1 f(2) ws cs in simp_all)
    next
      case 2
      show thesis by (rule that [of s3 Sleeps]) (use 2 f(2) ws cs in simp_all)
    next
      case 3
      show thesis by (rule that [of "s3\<lparr>sd_now := te_waited env\<rparr>" Continues]) (use 3 w ws cs in simp_all)
    qed
  qed
qed

definition drained :: "('k, 'v, 'i, 's, 'w, 'h) shard \<Rightarrow> bool" where
  "drained s \<longleftrightarrow> keys (sd_book s) = [] \<and> pending (sd_book s) = 0 \<and> expired (sd_book s) = [] \<and> sd_live s = {} \<and>
     in_live (sd_outstanding s) = 0 \<and> sd_staged s = [] \<and> mb_ring (sd_rx s) = [] \<and> mb_producers (sd_rx s) = 0"

lemma drained_publish [simp]: "drained (publish_stats ho s) = drained s"
  by (simp add: drained_def publish_stats_def Let_def)

lemma all_flushed:
  assumes inv: "shard_inv (Some cls) n u {#} [] s" and s: "\<not> sd_final_flush s" "sd_staged s = []" "jobs s = {#}" "expired (sd_book s) = []"
  shows "drained s"
proof -
  note i = shard_invD [OF inv]
  obtain L where D: "desk (Some cls, True) (sd_book s) L (sd_live s) {#} []" using books_desk [OF inv] s by auto
  have "in_live (sd_outstanding s) = 0" using live_jobs [of s] i(3) s(3) by (simp add: set_ok_def)
  then show ?thesis using desk_empty [OF D s(4)] s i(5) by (simp add: drained_def mail_ok_def)
qed

lemma exit_stage_ok:
  assumes inv: "shard_inv cls n u {#} [] s" and st: "sd_staged s = []" "jobs s = {#}" "expired (sd_book s) = []" "\<not> sd_open s"
    and served: "cls \<noteq> None \<longrightarrow> (\<forall>c<class_count (sd_cfg s). served_class (sd_book s) c)"
  obtains s' how where "exit_stage ho s = Some (s', how)" "shard_inv cls n u {#} [] s'" "sd_cfg s' = sd_cfg s"
    "how = Exits \<Longrightarrow> cls \<noteq> None \<Longrightarrow> drained s'"
proof (cases "sd_final_flush s")
  case False
  then show thesis using that inv all_flushed [OF _ False st(1-3)] by (auto simp: exit_stage_def publish_keeps)
next
  case True
  note i = shard_invD [OF inv]
  obtain L where D: "desk (cls, False) (sd_book s) L (sd_live s) {#} []" and cf: "cfg (sd_book s) = sc_scheduler (sd_cfg s)" using books_desk [OF inv] st True by auto
  have idle: "pres (abs_sched (sd_book s)) k \<in> {None, Some Idle}" if "cls = Some x" for x k
    by (rule desk_all_idle [OF D]) (use that i(8) served cf in auto)
  obtain book' out L' where b: "evict_all [] (sd_book s) = Some (book', out)" "desk (cls, True) book' L' (sd_live s) {#} (map fst out)" "cfg book' = cfg (sd_book s)"
    "expired book' = expired (sd_book s)" by (rule desk_evict_all [OF D idle])
  let ?s = "s\<lparr>sd_final_flush := False, sd_book := book', sd_staged := out\<rparr>"
  have j: "jobs ?s = {#}" using st(2) by (simp add: jobs_def)
  have v: "shard_inv cls n u {#} [] ?s"
    using i b cf st(4) j by (auto simp: shard_inv_def set_ok_def counters_ok_def mail_ok_def books_def jobs_def)
  have "drained ?s" if "out = []" "cls \<noteq> None" using that all_flushed [of _ n u ?s] v j st(3) b(4) by auto
  then show thesis using that [of ?s Continues] that [of "publish_stats ho ?s" Exits] True st b(1) v
    by (cases "out = []") (simp_all add: exit_stage_def Let_def publish_keeps)
qed

text \<open>Everything up to the exit test.\<close>

lemma front_stages_ok:
  assumes "shard_inv cls n u {#} [] s"
  obtains s1 s2 s3 where "dispatch_ready ho s = Some s1" "shed_expired s1 = Some s2" "begin_flushes s2 = Some s3"
    "check_invariants (sd_book s3) = Inr ()" "shard_inv cls n u {#} [] s3" "sd_cfg s3 = sd_cfg s" "expired (sd_book s3) = []"
    "cls \<noteq> None \<longrightarrow> (\<forall>c<class_count (sd_cfg s). served_class (sd_book s3) c)"
proof -
  obtain s1 where s1: "dispatch_ready ho s = Some s1" "shard_inv cls n u {#} [] s1" "sd_cfg s1 = sd_cfg s"
    "cls \<noteq> None \<longrightarrow> (\<forall>c<class_count (sd_cfg s). served_class (sd_book s1) c)" using dispatch_ready_ok [OF assms] by metis
  obtain s2 where s2: "shed_expired s1 = Some s2" "shard_inv cls n u {#} [] s2" "sd_cfg s2 = sd_cfg s1" "expired (sd_book s2) = []"
    "\<forall>c. served_class (sd_book s2) c = served_class (sd_book s1) c" using shed_expired_ok [OF s1(2)] by blast
  obtain s3 where s3: "begin_flushes s2 = Some s3" "shard_inv cls n u {#} [] s3" "sd_cfg s3 = sd_cfg s2" "sd_book s3 = sd_book s2" using begin_flushes_ok [OF s2(2)] by metis
  obtain L where "desk (cls, \<not> sd_final_flush s3) (sd_book s3) L (sd_live s3) (jobs s3) (map fst (sd_staged s3))" using books_desk [OF s3(2)] by auto
  then have "check_invariants (sd_book s3) = Inr ()" by (intro check_invariants_ok [OF sched_invD(1,2)] deskD(1))
  then show thesis using that s1 s2 s3 by simp
qed

lemma turn_ok:
  assumes inv: "shard_inv cls n u {#} [] s" and n: "n < 2 ^ 64 - 1" and env: "timely env"
  obtains s' how where "turn ho env s = Some (s', how)" "shard_inv cls (n + 1) u {#} [] s'" "sd_cfg s' = sd_cfg s"
    "how = Exits \<longrightarrow> cls \<noteq> None \<longrightarrow> drained s'"
proof (rule front_stages_ok [OF inv, of ho])
  fix s1 s2 s3 assume f: "dispatch_ready ho s = Some s1" "shed_expired s1 = Some s2" "begin_flushes s2 = Some s3"
    "check_invariants (sd_book s3) = Inr ()" "shard_inv cls n u {#} [] s3" "sd_cfg s3 = sd_cfg s" "expired (sd_book s3) = []"
    "cls \<noteq> None \<longrightarrow> (\<forall>c<class_count (sd_cfg s). served_class (sd_book s3) c)"
  show thesis
  proof (cases "\<not> sd_open s3 \<and> outstanding_is_empty (sd_outstanding s3) \<and> sd_staged s3 = []")
    case True
    have "size (jobs s3) = 0" using True live_jobs [of s3] shard_invD(3) [OF f(5)] by (simp add: outstanding_is_empty_def set_ok_def)
    then obtain s' how where "exit_stage ho s3 = Some (s', how)" "shard_inv cls n u {#} [] s'" "sd_cfg s' = sd_cfg s3" "how = Exits \<Longrightarrow> cls \<noteq> None \<Longrightarrow> drained s'"
      using exit_stage_ok [OF f(5), of ho] True f(6-8) by auto
    then show thesis using that True f shard_inv_mono [of cls n u "{#}" "[]" s' "n + 1"] by (simp add: turn_def)
  next
    case False
    obtain s' how where w: "work_stage ho env s3 = Some (s', how)" "shard_inv cls (n + 1) u {#} [] s'" "sd_cfg s' = sd_cfg s3" "how \<noteq> Exits"
      using work_stage_ok [OF f(5) n env] by metis
    have "turn ho env s = work_stage ho env s3" using f(1-4) False by (auto simp: turn_def)
    then show thesis using that w f(6) by simp
  qed
qed

lemma shard_wake_ok:
  assumes inv: "shard_inv cls n u {#} [] s" and "now \<le> 2 ^ 72"
  obtains s' where "shard_wake w now s = Some s'" "shard_inv cls n u {#} [] s'" "sd_cfg s' = sd_cfg s"
proof -
  note i = shard_invD [OF inv]
  obtain o' where o': "register_owner w (sd_outstanding s) = Some o'" "calm (in_shared o')" using register_calm i(3) unfolding set_ok_def by metis
  note r = register_owner_inv [OF o'(1)] register_owner_held [OF o'(1)]
  let ?s = "s\<lparr>sd_outstanding := o', sd_now := now\<rparr>"
  have "shard_inv cls n u {#} [] ?s"
    using i o'(2) r assms(2) by (simp add: shard_inv_def set_ok_def counters_ok_def mail_ok_def books_def jobs_def)
  then show thesis using that [of ?s] o'(1) by (simp add: shard_wake_def)
qed

lemma shard_start_ok:
  fixes rx :: "(('v, 'k, 'i) envelope, 'w) mailbox"
  assumes "config_ok conf" "mail_inv (rx, u)" "mb_ring rx = []" "\<not> mb_departed rx" "wheel_id \<noteq> 0" "now \<le> 2 ^ 56"
    and b: "cls = None \<or> (\<forall>b\<in>set (max_inflight (sc_scheduler conf)). 0 < b)"
  obtains s :: "('k, 'v, 'i, 's, 'w, 'h) shard" where "shard_start ho conf rx wheel_id now = Some s" "shard_inv cls 1 u {#} [] s" "sd_cfg s = conf"
proof -
  have "shard_capacity conf \<le> OUTSTANDING_MAX_CAPACITY" using assms(1) by (simp add: config_ok_def)
  then obtain o' :: "(('k, 'v, 'i, 's) shard_future, 'w) inner" where o': "outstanding_with_capacity (shard_capacity conf) = Some o'"
    by (simp add: outstanding_with_capacity_def ready_new_def Let_def)
  note o = with_capacity_inv [OF o'] with_capacity_calm [OF o']
  have "now + sc_tick conf \<le> 2 ^ 57" using assms(1,6) by (simp add: config_ok_def)
  then obtain w w' where w: "wheel_with_capacity_at_tick TIMERS 0 wheel_id = Some w" "insert_tick now conf w = Some w'" "tick_ok 1 w'"
    by (rule first_tick [OF assms(5)])
  obtain s :: "('k, 'v, 'i, 's, 'w, 'h) shard" where s: "shard_start ho conf rx wheel_id now = Some s" "sd_cfg s = conf" "sd_rx s = rx"
    "sd_book s = new (sc_scheduler conf)" "sd_live s = {}" "sd_outstanding s = o'" "sd_staged s = []" "sd_timers s = w'" "sd_flushes s = 0"
    "sd_open s" "sd_final_flush s" "sd_now s = now" "sd_hot s = hot_default ho (class_count conf)"
    using o' w(1,2) by (simp add: shard_start_def Let_def)
  have "books cls {#} [] s" using desk_new [of "(cls, False)" "sc_scheduler conf"] o(5) s by (auto simp: books_def jobs_def new_def)
  moreover have "set_ok {#} s" using o s by (simp add: set_ok_def jobs_def)
  moreover have "counters_ok s" using s by (simp add: counters_ok_def hot_default_def)
  moreover have "mail_ok cls u s" using s assms by (simp add: mail_ok_def)
  ultimately show thesis using that s w(3) assms(1,6) b by (simp add: shard_inv_def)
qed

end
