(* ===== verification/Shard_Props.thy ===== *)
theory Shard_Props
  imports Shard_Inv
begin

text \<open>
  Executions of a shard and of the senders around it. A step is an operation of a sender on the mailbox, a
  wake of one of the shard's futures, the start of a poll of the shard's task, or one turn of its loop; the
  turn is given any answers of the processor and any readings of the clock. The invariant holds in
  every state such an execution reaches.
\<close>

section \<open>Executions\<close>

datatype phase = Asleep | Awake | Exited | Aborted

fun after_turn :: "turn_end \<Rightarrow> phase" where
  "after_turn Continues = Awake"
| "after_turn Sleeps = Asleep"
| "after_turn Exits = Exited"
| "after_turn Aborts = Aborted"

datatype ('k, 'v, 'i, 's, 'w) shard_event =
    SMail "(('v, 'k, 'i) envelope, 'w) mail_event"
  | SNotify nat
  | SPoll 'w duration
  | STurn "('k, 'v, 'i, 's, 'w) turn_env"

type_synonym ('k, 'v, 'i, 's, 'w, 'h) shard_state = "('k, 'v, 'i, 's, 'w, 'h) shard \<times> bool \<times> phase \<times> nat"

text \<open>
  The state is the shard, whether a deferred push is unannounced, the phase of the task and the number of
  turns taken. Items carry a class the shard has, and the clock stays below \<open>2 ^ 72\<close> nanoseconds.
\<close>

inductive shard_step :: "'h hist_ops \<Rightarrow> ('k, 'v, 'i, 's, 'w, 'h) shard_state \<Rightarrow> ('k, 'v, 'i, 's, 'w) shard_event \<Rightarrow>
    ('k, 'v, 'i, 's, 'w, 'h) shard_state \<Rightarrow> bool" for ho where
  shard_mail: "mail_step (sd_rx s, u) e (rx, u') \<Longrightarrow> by_sender e \<Longrightarrow> (\<And>a. a \<in> set (mail_given e) \<Longrightarrow> en_class a < class_count (sd_cfg s)) \<Longrightarrow>
    shard_step ho (s, u, p, n) (SMail e) (s\<lparr>sd_rx := rx\<rparr>, u', p, n)"
| shard_notify: "shard_step ho (s, u, p, n) (SNotify j)
    (s\<lparr>sd_outstanding := (sd_outstanding s)\<lparr>in_shared := notify j (in_shared (sd_outstanding s))\<rparr>\<rparr>, u, p, n)"
| shard_poll: "shard_wake w now s = Some s' \<Longrightarrow> now \<le> 2 ^ 72 \<Longrightarrow> shard_step ho (s, u, Asleep, n) (SPoll w now) (s', u, Awake, n)"
| shard_turn: "turn ho env s = Some (s', how) \<Longrightarrow> timely env \<Longrightarrow> shard_step ho (s, u, Awake, n) (STurn env) (s', u, after_turn how, n + 1)"

definition shard_init :: "'h hist_ops \<Rightarrow> shard_config \<Rightarrow> ('k, 'v, 'i, 's, 'w, 'h) shard_state \<Rightarrow> bool" where
  "shard_init ho conf x \<longleftrightarrow> config_ok conf \<and>
     (\<exists>capacity rx wheel_id now. mailbox_channel capacity = Some rx \<and> wheel_id \<noteq> 0 \<and> now \<le> 2 ^ 56 \<and>
       shard_start ho conf rx wheel_id now = Some (fst x) \<and> snd x = (False, Asleep, 0))"

text \<open>With a class for every key, the items sent keep to it.\<close>

fun classed :: "('k \<Rightarrow> class_id) option \<Rightarrow> ('k, 'v, 'i, 's, 'w) shard_event \<Rightarrow> bool" where
  "classed cls (SMail e) = list_all (\<lambda>a. fitting (cls, False) (en_key a) (en_class a)) (mail_given e)"
| "classed cls _ = True"

definition positive_budgets :: "shard_config \<Rightarrow> bool" where
  "positive_budgets conf \<longleftrightarrow> list_all (\<lambda>b. 0 < b) (max_inflight (sc_scheduler conf))"

definition state_inv :: "('k \<Rightarrow> class_id) option \<Rightarrow> shard_config \<Rightarrow> ('k, 'v, 'i, 's, 'w, 'h) shard_state \<Rightarrow> bool" where
  "state_inv cls conf x \<longleftrightarrow> (case x of (s, u, p, n) \<Rightarrow> n < 2 ^ 64 - 1 \<longrightarrow>
     shard_inv cls (n + 1) u {#} [] s \<and> sd_cfg s = conf \<and> (p = Exited \<longrightarrow> cls \<noteq> None \<longrightarrow> drained s))"

lemma channel_start:
  "mailbox_channel capacity = Some rx \<Longrightarrow> mail_inv (rx, False) \<and> mb_ring rx = [] \<and> \<not> mb_departed rx"
  by (auto simp: mailbox_channel_def mail_inv_def asleep_def bell_new_def waker_slot_new_def split: if_splits)

lemma shard_starts:
  assumes "config_ok conf" "mailbox_channel capacity = Some rx" "wheel_id \<noteq> 0" "now \<le> 2 ^ 56"
    and b: "cls = None \<or> positive_budgets conf"
  obtains s where "shard_start ho conf rx wheel_id now = Some s" "shard_inv cls 1 False {#} [] s" "sd_cfg s = conf"
  using shard_start_ok [OF assms(1) _ _ _ assms(3,4), where u = False and cls = cls and rx = rx] channel_start [OF assms(2)] b
  by (auto simp: positive_budgets_def list_all_iff)

lemma mail_shard_inv:
  assumes inv: "shard_inv cls n u {#} [] s" and m: "mail_step (sd_rx s, u) e (rx, u')" "by_sender e"
    and c: "\<And>a. a \<in> set (mail_given e) \<Longrightarrow> en_class a < class_count (sd_cfg s)" and f: "classed cls (SMail e)"
  shows "shard_inv cls n u' {#} [] (s\<lparr>sd_rx := rx\<rparr>)" "drained s \<Longrightarrow> drained (s\<lparr>sd_rx := rx\<rparr>)"
proof -
  have mo: "mail_inv (sd_rx s, u)" "\<not> mb_departed (sd_rx s)" "\<forall>e\<in>set (mb_ring (sd_rx s)). en_class e < class_count (sd_cfg s) \<and> fitting (cls, False) (en_key e) (en_class e)"
    using shard_invD(5) [OF inv] by (auto simp: mail_ok_def)
  note sim = mail_step_sim [OF m(1) mo(1)] and d = sender_departed [OF m]
  have "mb_ring rx = mb_ring (sd_rx s) @ mail_given e" using sim d(2) by simp
  moreover have "fitting (cls, False) (en_key a) (en_class a)" if "a \<in> set (mail_given e)" for a using f that by (simp add: list_all_iff)
  ultimately show "shard_inv cls n u' {#} [] (s\<lparr>sd_rx := rx\<rparr>)"
    using inv sim d(1,3) mo c by (auto simp: shard_inv_def set_ok_def counters_ok_def mail_ok_def books_def jobs_def)
  show "drained s \<Longrightarrow> drained (s\<lparr>sd_rx := rx\<rparr>)" using d(3) by (simp add: drained_def)
qed

lemma notify_shard_inv:
  assumes "shard_inv cls n u {#} [] s"
  shows "shard_inv cls n u {#} [] (s\<lparr>sd_outstanding := (sd_outstanding s)\<lparr>in_shared := notify j (in_shared (sd_outstanding s))\<rparr>\<rparr>)"
proof -
  have "out_inv (sd_outstanding s)" using shard_invD(3) [OF assms] by (simp add: set_ok_def)
  then have "out_inv ((sd_outstanding s)\<lparr>in_shared := notify j (in_shared (sd_outstanding s))\<rparr>)" by (rule out_step_inv [OF step_wake])
  then show ?thesis
    using assms by (simp add: shard_inv_def set_ok_def counters_ok_def mail_ok_def books_def jobs_def held_futures_def)
qed

lemma shard_step_inv:
  assumes "state_inv cls conf x" "shard_step ho x e y" "classed cls e"
  shows "state_inv cls conf y"
  using assms(2)
proof cases
  case (shard_mail s u e rx u' p n)
  then show ?thesis using assms(1,3) mail_shard_inv [of cls "n + 1" u s e rx u'] by (simp add: state_inv_def)
next
  case (shard_notify s u p n j)
  then show ?thesis using assms(1) notify_shard_inv [of cls "n + 1" u s j] by (simp add: state_inv_def drained_def)
next
  case (shard_poll w now s s' u n)
  then show ?thesis using assms(1) shard_wake_ok [of cls "n + 1" u s now w] by (auto simp: state_inv_def)
next
  case (shard_turn env s s' how u n)
  show ?thesis
  proof (cases "n + 1 < 2 ^ 64 - 1")
    case True
    then have i: "shard_inv cls (n + 1) u {#} [] s" "sd_cfg s = conf" using assms(1) shard_turn(1) by (simp_all add: state_inv_def)
    obtain s1 h where "turn ho env s = Some (s1, h)" "shard_inv cls (n + 1 + 1) u {#} [] s1" "sd_cfg s1 = sd_cfg s" "h = Exits \<longrightarrow> cls \<noteq> None \<longrightarrow> drained s1"
      by (rule turn_ok [OF i(1) True shard_turn(5), of ho])
    then show ?thesis using shard_turn i(2) by (cases how) (simp_all add: state_inv_def)
  qed (use shard_turn in \<open>simp add: state_inv_def\<close>)
qed

lemma shard_init_inv:
  fixes x :: "('k, 'v, 'i, 's, 'w, 'h) shard_state"
  assumes "shard_init ho conf x" "cls = None \<or> positive_budgets conf"
  shows "state_inv cls conf x"
proof -
  obtain capacity rx wheel_id now where st: "mailbox_channel capacity = Some rx" "wheel_id \<noteq> 0" "now \<le> 2 ^ 56"
    "shard_start ho conf rx wheel_id now = Some (fst x)" "snd x = (False, Asleep, 0)" "config_ok conf"
    using assms(1) by (auto simp: shard_init_def)
  obtain s :: "('k, 'v, 'i, 's, 'w, 'h) shard" where "shard_start ho conf rx wheel_id now = Some s" "shard_inv cls 1 False {#} [] s" "sd_cfg s = conf"
    by (rule shard_starts [OF st(6,1,2,3) assms(2)])
  then show ?thesis using st(4,5) by (cases x) (simp add: state_inv_def)
qed

text \<open>The reactor, run with events that keep to the classes of the keys.\<close>

interpretation reactor: invariant "\<lambda>x. shard_init ho conf x \<and> (cls = None \<or> positive_budgets conf)"
    "\<lambda>x e y. shard_step ho x e y \<and> classed cls e" "state_inv cls conf" for ho conf cls
  using shard_init_inv shard_step_inv by unfold_locales blast+

lemma run_filtered: "run step x es y \<Longrightarrow> \<forall>e\<in>set es. P e \<Longrightarrow> run (\<lambda>x e y. step x e y \<and> P e) x es y"
proof (induction rule: run.induct)
  case (run_snoc x es y e z)
  then show ?case by (intro run.run_snoc [where y = y]) auto
qed (rule run_nil)

lemma reachable_state:
  assumes "shard_init ho conf x0" "run (shard_step ho) x0 evs x" "cls = None \<or> positive_budgets conf" "\<forall>e\<in>set evs. classed cls e"
  shows "state_inv cls conf x"
  using reactor.reachable_inv [of ho conf x0 cls evs x] run_filtered [OF assms(2,4)] assms(1,3) by blast

lemma classed_none: "classed None e"
  by (cases e) (simp_all add: fitting_def list_all_iff)

lemma reachable_shard:
  assumes "shard_init ho conf x0" "run (shard_step ho) x0 evs (s, u, p, n)" "n < 2 ^ 64 - 1"
  shows "shard_inv None (n + 1) u {#} [] s"
  using reachable_state [OF assms(1,2), of None] assms(3) by (simp add: state_inv_def classed_none)

section \<open>One future per key\<close>

fun job_key :: "('k, 'i) job \<Rightarrow> 'k" where
  "job_key (RunJob k c i) = k"
| "job_key (FlushJob k) = k"

lemma job_keys: "image_mset job_key J = image_mset fst (runs J) + flush_keys J"
proof (induction J)
  case (add j J)
  then show ?case by (cases j) auto
qed simp

lemma graph_keys: "finite (dom m) \<Longrightarrow> image_mset fst (mset_set (Map.graph m)) = mset_set (dom m)"
  by (subst image_mset_mset_set) (auto simp: graph_def inj_on_def dom_def image_def)

lemma desk_keys:
  assumes d: "desk t book L idx J staged"
  shows "image_mset job_key J + mset staged = mset_set (dom (flying L) \<union> flushing L)"
proof -
  note i = sched_invD [OF deskD(1) [OF d]] and fin = sched_finite [OF deskD(1) [OF d]]
  have "dom (flying L) \<inter> flushing L = {}" using flight_iff [OF i(2)] i(3) by (simp add: evictings_def disjoint_iff)
  then show ?thesis using fin deskD(2,3) [OF d] by (simp add: job_keys graph_keys mset_set_Union add.assoc)
qed

section \<open>Stages with nothing to do\<close>

text \<open>What the stages do when there is nothing for them to do.\<close>

lemma dispatch_none:
  "next_dispatch c (sd_now s) (sd_book s) = Some (b, None) \<Longrightarrow> dispatch_class ho c s = Some (s\<lparr>sd_book := b\<rparr>)"
  by (simp add: dispatch_class.simps [of ho c s])

lemma flush_none: "sd_staged s = [] \<Longrightarrow> begin_flushes s = Some s"
  by (simp add: begin_flushes_def)

lemma harvest_none:
  assumes "shard_inv cls n u {#} [] s" "jobs s = {#}"
  obtains o' report where "harvest_completions ho answer moment s = Some (s\<lparr>sd_outstanding := o'\<rparr>, report, False)" "h_finished report = 0"
    "in_live o' = 0"
proof -
  let ?h = "harvest (shard_poller answer) (max (sc_complete_batch (sd_cfg s)) 1) (sd_outstanding s)"
  note a = harvest_accounts [OF poller_keeps_jobs [of answer], where s = "sd_outstanding s" and cap = "max (sc_complete_batch (sd_cfg s)) 1"]
  have out: "hr_out ?h = []" using a(1) assms(2) by (simp add: jobs_def)
  obtain report where r: "hr_report ?h = Some report" using a(2) by blast
  have o: "out_inv (sd_outstanding s)" using shard_invD(3) [OF assms(1)] by (simp add: set_ok_def)
  have "in_live (sd_outstanding s) = 0" using live_jobs [OF o] assms(2) by simp
  then have "h_finished report = 0" "in_live (hr_inner ?h) = 0" using harvest_reports [OF o r] out by auto
  then show thesis using that [of "hr_inner ?h" report] out r by (simp add: harvest_completions_def Let_def)
qed

definition undisturbed :: "('k, 'v, 'i, 's, 'w, 'h) shard \<Rightarrow> ('k, 'v, 'i, 's, 'w, 'h) shard \<Rightarrow> bool" where
  "undisturbed s s' \<longleftrightarrow> sd_book s' = sd_book s \<and> sd_staged s' = sd_staged s \<and> sd_now s' = sd_now s \<and> sd_open s' = sd_open s \<and>
     sd_outstanding s' = sd_outstanding s \<and> sd_rx s' = sd_rx s \<and> sd_calls s' = sd_calls s \<and> sd_cfg s' = sd_cfg s \<and>
     sd_final_flush s' = sd_final_flush s \<and> ht_started_by_class (sd_hot s') = ht_started_by_class (sd_hot s) \<and>
     ht_completed_by_class (sd_hot s') = ht_completed_by_class (sd_hot s) \<and> ht_expired_by_class (sd_hot s') = ht_expired_by_class (sd_hot s)"

lemma tick_none:
  assumes "evict (sd_now s) [] (sd_book s) = Some (sd_book s, [])" "sd_staged s = []" "run_due ho ts s = Some s'"
  shows "undisturbed s s'"
  using assms
proof (induction ts arbitrary: s)
  case (Cons d ts)
  obtain s1 where s1: "on_tick ho s = Some s1" "run_due ho ts s1 = Some s'" using Cons.prems(3) by (cases d) (auto split: option.splits)
  have "undisturbed s s1"
    using s1(1) Cons.prems(1,2) by (auto simp: undisturbed_def on_tick_def publish_stats_def Let_def split: bind_splits)
  then show ?case using Cons.IH [OF _ _ s1(2)] Cons.prems(1,2) by (simp add: undisturbed_def)
qed (simp add: undisturbed_def)

lemma service_none:
  assumes "evict (sd_now s) [] (sd_book s) = Some (sd_book s, [])" "sd_staged s = []" "service_timers ho s = Some (s', fired)"
  shows "undisturbed s s'"
proof (cases "is_due_duration WHEEL_SHIFT (sd_now s) (sd_timers s)")
  case True
  then obtain w ts where "run_due ho ts (s\<lparr>sd_timers := w\<rparr>) = Some s'"
    using assms(3) by (auto simp: service_timers_def split: option.splits)
  from tick_none [OF _ _ this] show ?thesis using assms(1,2) by (simp add: undisturbed_def)
qed (use assms(3) in \<open>auto simp: service_timers_def undisturbed_def\<close>)

end
