(* ===== verification/Shard_Theorems.thy ===== *)
theory Shard_Theorems
  imports Shard_Props
begin

text \<open>
  The properties of the shard reactor, C38 to C40, with an example that runs a small shard from its start to
  its exit, and the run in which a shard exits too early.
\<close>

section \<open>An example\<close>

text \<open>
  Two items of one key, the first of class 1 with a deadline of one nanosecond, the second of class 0 with
  none; then the sender is gone. The clock reads two.
\<close>

type_synonym demo_shard = "(nat, nat, nat, nat, nat, nat) shard"

definition demo_hist :: "nat hist_ops" where
  "demo_hist = \<lparr>ho_new = 0, ho_record = (\<lambda>v h. h + 1), ho_add = (\<lambda>a b. a + b)\<rparr>"

definition demo_conf :: shard_config where
  "demo_conf = (shard_config_new [1, 1])\<lparr>sc_scheduler := \<lparr>max_inflight = [1, 1], max_pending = 8, max_resident = None,
     evict_after = 3, evict_iters = 2, queue_reserve = 0\<rparr>\<rparr>"

definition late :: "(nat, nat, nat) envelope" where
  "late = \<lparr>en_key = 7, en_class = 1, en_request_id = None, en_expires_at = Some 1, en_enqueued = 0, en_work = 10\<rparr>"

definition lost :: "(nat, nat, nat) envelope" where
  "lost = \<lparr>en_key = 7, en_class = 0, en_request_id = None, en_expires_at = None, en_enqueued = 0, en_work = 20\<rparr>"

definition demo_env :: "(nat, nat, nat, nat, nat) turn_env" where
  "demo_env = \<lparr>te_waker = 0, te_answer = (\<lambda>i f. (Waits, [])), te_first = 2, te_admitted = 2, te_at = 2, te_finished = 2,
     te_wait_pending = True, te_waited = 2\<rparr>"

definition demo_box :: "((nat, nat, nat) envelope, nat) mailbox" where
  "demo_box = the (mailbox_channel 4)"

definition demo_book0 :: "(nat, (nat, nat) stamped, nat) scheduler" where
  "demo_book0 = new \<lparr>max_inflight = [1, 1], max_pending = 8, max_resident = None, evict_after = 3, evict_iters = 2, queue_reserve = 0\<rparr>"

fun stamped_item :: "(nat, nat, nat) envelope \<Rightarrow> (nat, (nat, nat) stamped) admit_item" where
  "stamped_item e = \<lparr>ad_key = en_key e, ad_class = en_class e, ad_expires_at = en_expires_at e,
     ad_payload = \<lparr>sm_enqueued = en_enqueued e, sm_request_id = None, sm_work = en_work e\<rparr>\<rparr>"

definition demo_book1 :: "(nat, (nat, nat) stamped, nat) scheduler" where
  "demo_book1 = the (admit (stamped_item late) demo_book0)"

definition demo_book2 :: "(nat, (nat, nat) stamped, nat) scheduler" where
  "demo_book2 = the (admit (stamped_item lost) demo_book1)"

definition demo_book3 :: "(nat, (nat, nat) stamped, nat) scheduler" where
  "demo_book3 = fst (the (next_dispatch 1 2 demo_book2))"

definition demo_book4 :: "(nat, (nat, nat) stamped, nat) scheduler" where
  "demo_book4 = fst (pop_expired demo_book3)"

lemma demo_books:
  "admit (stamped_item late) demo_book0 = Some demo_book1" "admit (stamped_item lost) demo_book1 = Some demo_book2"
  "next_dispatch 0 2 demo_book0 = Some (demo_book0, None)" "next_dispatch 1 2 demo_book0 = Some (demo_book0, None)"
  "pop_expired demo_book0 = (demo_book0, None)" "check_invariants demo_book0 = Inr ()"
  by code_simp+

lemma demo_books_full:
  "evict 2 [] demo_book2 = Some (demo_book2, [])"
  "next_dispatch 0 2 demo_book2 = Some (demo_book2, None)" "next_dispatch 1 2 demo_book2 = Some (demo_book3, None)"
  "pop_expired demo_book3 = (demo_book4, Some (7, 1, \<lparr>sm_enqueued = 0, sm_request_id = None, sm_work = 10\<rparr>))"
  "pop_expired demo_book4 = (demo_book4, None)" "check_invariants demo_book4 = Inr ()" "evict_all [] demo_book4 = Some (demo_book4, [])"
  "pending demo_book4 = 1"
  by code_simp+

lemma demo_saturation: "\<not> is_saturated demo_book0" "\<not> is_saturated demo_book1" "\<not> is_saturated demo_book2"
  by code_simp+

definition demo_full :: "((nat, nat, nat) envelope, nat) mailbox" where
  "demo_full = mailbox_drop (fst (mb_try_send lost (fst (mb_try_send late demo_box))))"

definition demo_recv :: "nat \<Rightarrow> ((nat, nat, nat) envelope, nat) mailbox" where
  "demo_recv i = ((\<lambda>m. fst (the (mb_poll_recv 0 m))) ^^ i) demo_full"

text \<open>The same shard with the late item alone.\<close>

definition demo_one :: "((nat, nat, nat) envelope, nat) mailbox" where
  "demo_one = mailbox_drop (fst (mb_try_send late demo_box))"

definition one_recv :: "nat \<Rightarrow> ((nat, nat, nat) envelope, nat) mailbox" where
  "one_recv i = ((\<lambda>m. fst (the (mb_poll_recv 0 m))) ^^ i) demo_one"

definition one_shed :: "(nat, (nat, nat) stamped, nat) scheduler" where
  "one_shed = fst (the (next_dispatch 1 2 demo_book1))"

definition one_popped :: "(nat, (nat, nat) stamped, nat) scheduler" where
  "one_popped = fst (pop_expired one_shed)"

definition one_left :: "(nat, (nat, nat) stamped, nat) scheduler" where
  "one_left = fst (the (evict_all [] one_popped))"

lemma one_recvs:
  "mb_poll_recv 0 demo_one = Some (one_recv 1, RItem late)" "mb_poll_recv 0 (one_recv 1) = Some (one_recv 2, RClosed)"
  "mb_ring (mb_release_capacity (one_recv 2)) = []"
  by code_simp+

lemma one_books:
  "evict 2 [] demo_book1 = Some (demo_book1, [])" "next_dispatch 0 2 demo_book1 = Some (demo_book1, None)" "next_dispatch 1 2 demo_book1 = Some (one_shed, None)"
  "pop_expired one_shed = (one_popped, Some (7, 1, \<lparr>sm_enqueued = 0, sm_request_id = None, sm_work = 10\<rparr>))"
  "pop_expired one_popped = (one_popped, None)" "check_invariants one_popped = Inr ()" "evict_all [] one_popped = Some (one_left, [])"
  by code_simp+

lemma demo_box_eqs:
  "mailbox_channel 4 = Some demo_box" "mb_producers demo_box = 1" "mb_producers (fst (mb_try_send late demo_box)) = 1"
  "mb_producers (fst (mb_try_send lost (fst (mb_try_send late demo_box)))) = 1"
  "snd (mb_try_send late demo_box) = Inr ()" "snd (mb_try_send lost (fst (mb_try_send late demo_box))) = Inr ()"
  by code_simp+

lemma demo_recvs:
  "mb_poll_recv 0 demo_full = Some (demo_recv 1, RItem late)" "mb_poll_recv 0 (demo_recv 1) = Some (demo_recv 2, RItem lost)"
  "mb_poll_recv 0 (demo_recv 2) = Some (demo_recv 3, RClosed)" "mb_ring (mb_release_capacity (demo_recv 3)) = []"
  by code_simp+

lemma admit_demo:
  assumes "sd_book s = b" "admit (stamped_item e) b = Some b'" "en_request_id e = None" "ht_started_by_class (sd_hot s) = cs"
    "bump_class (en_class e) cs = Some cs'"
  shows "admit_one e s = Some (s\<lparr>sd_hot := (sd_hot s)\<lparr>ht_started_by_class := cs'\<rparr>, sd_book := b'\<rparr>)"
  using assms by (simp add: admit_one_def admit_tracked_def)

lemma drain_item:
  assumes "am_count tk < limit" "\<not> is_saturated (sd_book s)" "mb_poll_recv w (sd_rx s) = Some (rx, RItem e)" "admit_one e (s\<lparr>sd_rx := rx\<rparr>) = Some s'"
  shows "drain_loop limit w first tk s =
    drain_loop limit w first (tk\<lparr>am_count := am_count tk + 1, am_at := (if am_count tk = 0 then first else am_at tk)\<rparr>) s'"
  using assms by (subst drain_loop.simps) simp

lemma drain_closed:
  assumes "am_count tk < limit" "\<not> is_saturated (sd_book s)" "mb_poll_recv w (sd_rx s) = Some (rx, RClosed)"
  shows "drain_loop limit w first tk s = Some (s\<lparr>sd_rx := rx\<rparr>, tk\<lparr>am_closed := True\<rparr>)"
  using assms by (subst drain_loop.simps) simp

lemma demo_drain:
  assumes "sd_rx s = demo_full" "sd_book s = demo_book0" "ht_started_by_class (sd_hot s) = [0, 0]" "sd_cfg s = demo_conf"
  shows "drain_inbox 0 2 s = Some (s\<lparr>sd_rx := mb_release_capacity (demo_recv 3), sd_book := demo_book2, sd_hot := (sd_hot s)\<lparr>ht_started_by_class := [1, 1]\<rparr>\<rparr>,
    \<lparr>am_count = 2, am_closed = True, am_at = 2\<rparr>)"
proof -
  have lim: "max (sc_admit_batch (sd_cfg s)) 1 = 64" using assms(4) by (simp add: demo_conf_def shard_config_new_def)
  have e: "en_request_id late = None" "en_request_id lost = None" "bump_class (en_class late) [0, 0] = Some [0, 1]" "bump_class (en_class lost) [0, 1] = Some [1, 1]"
    by (simp_all add: late_def lost_def bump_class_def counter_bump_def)
  let ?s0 = "s\<lparr>sd_rx := demo_recv 1\<rparr>"
  let ?s1 = "?s0\<lparr>sd_hot := (sd_hot s)\<lparr>ht_started_by_class := [0, 1]\<rparr>, sd_book := demo_book1\<rparr>"
  let ?s2 = "(?s1\<lparr>sd_rx := demo_recv 2\<rparr>)\<lparr>sd_hot := (sd_hot s)\<lparr>ht_started_by_class := [1, 1]\<rparr>, sd_book := demo_book2\<rparr>"
  have a1: "admit_one late ?s0 = Some ?s1" using admit_demo [OF _ demo_books(1) e(1) _ e(3), of ?s0] assms by simp
  have a2: "admit_one lost (?s1\<lparr>sd_rx := demo_recv 2\<rparr>) = Some ?s2"
    using admit_demo [OF _ demo_books(2) e(2) _ e(4), of "?s1\<lparr>sd_rx := demo_recv 2\<rparr>"] by simp
  have "drain_loop 64 0 2 \<lparr>am_count = 0, am_closed = False, am_at = sd_now s\<rparr> s = drain_loop 64 0 2 \<lparr>am_count = 1, am_closed = False, am_at = 2\<rparr> ?s1"
    using drain_item [OF _ _ _ a1, of "\<lparr>am_count = 0, am_closed = False, am_at = sd_now s\<rparr>" 64 0 2] assms demo_saturation(1) demo_recvs(1) by simp
  also have "\<dots> = drain_loop 64 0 2 \<lparr>am_count = 2, am_closed = False, am_at = 2\<rparr> ?s2"
    using drain_item [OF _ _ _ a2, of "\<lparr>am_count = 1, am_closed = False, am_at = 2\<rparr>" 64 0 2] demo_saturation(2) demo_recvs(2) by (simp add: numeral_2_eq_2)
  also have "\<dots> = Some (?s2\<lparr>sd_rx := demo_recv 3\<rparr>, \<lparr>am_count = 2, am_closed = True, am_at = 2\<rparr>)"
    using drain_closed [of "\<lparr>am_count = 2, am_closed = False, am_at = 2\<rparr>" 64 ?s2 0 "demo_recv 3" 2] demo_saturation(3) demo_recvs(3) by simp
  finally show ?thesis unfolding drain_inbox_def lim by (cases s) simp
qed

lemma demo_dispatch:
  assumes "sd_cfg s = demo_conf" "next_dispatch 0 (sd_now s) (sd_book s) = Some (b, None)" "next_dispatch 1 (sd_now s) b = Some (b', None)"
  shows "dispatch_ready ho s = Some (s\<lparr>sd_book := b'\<rparr>)"
  using assms by (simp add: dispatch_ready_def demo_conf_def dispatch_none upt_rec)

lemma one_drain:
  assumes "sd_rx s = demo_one" "sd_book s = demo_book0" "ht_started_by_class (sd_hot s) = [0, 0]" "sd_cfg s = demo_conf"
  shows "drain_inbox 0 2 s = Some (s\<lparr>sd_rx := mb_release_capacity (one_recv 2), sd_book := demo_book1, sd_hot := (sd_hot s)\<lparr>ht_started_by_class := [0, 1]\<rparr>\<rparr>,
    \<lparr>am_count = 1, am_closed = True, am_at = 2\<rparr>)"
proof -
  have lim: "max (sc_admit_batch (sd_cfg s)) 1 = 64" using assms(4) by (simp add: demo_conf_def shard_config_new_def)
  have e: "en_request_id late = None" "bump_class (en_class late) [0, 0] = Some [0, 1]" by (simp_all add: late_def bump_class_def counter_bump_def)
  let ?s0 = "s\<lparr>sd_rx := one_recv 1\<rparr>"
  let ?s1 = "?s0\<lparr>sd_hot := (sd_hot s)\<lparr>ht_started_by_class := [0, 1]\<rparr>, sd_book := demo_book1\<rparr>"
  have a1: "admit_one late ?s0 = Some ?s1" using admit_demo [OF _ demo_books(1) e(1) _ e(2), of ?s0] assms by simp
  have "drain_loop 64 0 2 \<lparr>am_count = 0, am_closed = False, am_at = sd_now s\<rparr> s = drain_loop 64 0 2 \<lparr>am_count = 1, am_closed = False, am_at = 2\<rparr> ?s1"
    using drain_item [OF _ _ _ a1, of "\<lparr>am_count = 0, am_closed = False, am_at = sd_now s\<rparr>" 64 0 2] assms demo_saturation(1) one_recvs(1) by simp
  also have "\<dots> = Some (?s1\<lparr>sd_rx := one_recv 2\<rparr>, \<lparr>am_count = 1, am_closed = True, am_at = 2\<rparr>)"
    using drain_closed [of "\<lparr>am_count = 1, am_closed = False, am_at = 2\<rparr>" 64 ?s1 0 "one_recv 2" 2] demo_saturation(2) one_recvs(2) by simp
  finally show ?thesis unfolding drain_inbox_def lim by (cases s) simp
qed

text \<open>The first turn takes in what arrived and sees that the senders are gone.\<close>

lemma closing_turn:
  assumes inv: "shard_inv None n False {#} [] s" "n < 2 ^ 64 - 1" and j: "jobs s = {#}"
    and s: "sd_book s = demo_book0" "sd_cfg s = demo_conf" "sd_now s = 2" "sd_staged s = []" "sd_open s"
    and d: "drain_inbox 0 2 s = Some (s\<lparr>sd_rx := m, sd_book := b, sd_hot := (sd_hot s)\<lparr>ht_started_by_class := cs\<rparr>\<rparr>, \<lparr>am_count = k, am_closed = True, am_at = 2\<rparr>)"
    and b: "0 < k" "mb_ring m = []" "evict 2 [] b = Some (b, [])"
  obtains s' where "turn demo_hist demo_env s = Some (s', Continues)" "sd_book s' = b" "\<not> sd_open s'" "sd_staged s' = []" "sd_now s' = 2"
    "sd_cfg s' = demo_conf" "in_live (sd_outstanding s') = 0" "sd_calls s' = sd_calls s" "mb_ring (sd_rx s') = []" "sd_final_flush s' = sd_final_flush s"
    "ht_started_by_class (sd_hot s') = cs" "ht_completed_by_class (sd_hot s') = ht_completed_by_class (sd_hot s)"
    "ht_expired_by_class (sd_hot s') = ht_expired_by_class (sd_hot s)"
proof -
  have dr: "dispatch_ready demo_hist s = Some s" using demo_dispatch [of s demo_book0 demo_book0] s demo_books(3,4) by simp
  have sh: "shed_expired s = Some s" using s(1) demo_books(5) by (subst shed_expired.simps) simp
  obtain a where a: "admit_stage demo_env s = Some (a, k + 1)" "sd_book a = b" "\<not> sd_open a" "sd_staged a = []" "sd_now a = 2" "sd_cfg a = demo_conf"
    "sd_outstanding a = sd_outstanding s" "sd_calls a = sd_calls s" "mb_ring (sd_rx a) = []" "sd_final_flush a = sd_final_flush s"
    "ht_started_by_class (sd_hot a) = cs" "ht_completed_by_class (sd_hot a) = ht_completed_by_class (sd_hot s)"
    "ht_expired_by_class (sd_hot a) = ht_expired_by_class (sd_hot s)"
    using d s b by (simp add: admit_stage_def demo_env_def)
  have "te_admitted demo_env \<le> 2 ^ 72" by (simp add: demo_env_def)
  then obtain a' i where "admit_stage demo_env s = Some (a', i)" "shard_inv None n False {#} [] a'" using admit_stage_ok [OF inv(1)] by metis
  then have ia: "shard_inv None n False {#} [] a" using a(1) by simp
  have "jobs a = {#}" using j a(7) by (simp add: jobs_def)
  from harvest_none [OF ia this, of demo_hist "te_answer demo_env" "te_at demo_env"] obtain o' report where
    h: "harvest_completions demo_hist (te_answer demo_env) (te_at demo_env) a = Some (a\<lparr>sd_outstanding := o'\<rparr>, report, False)" "h_finished report = 0" "in_live o' = 0"
    by blast
  have "shard_inv None n False {#} [] (a\<lparr>sd_outstanding := o'\<rparr>)"
    using harvest_completions_ok [OF ia, of demo_hist "te_answer demo_env" "te_at demo_env"] h(1) by auto
  then obtain s' fired where f: "service_timers demo_hist (a\<lparr>sd_outstanding := o'\<rparr>) = Some (s', fired)" using service_timers_ok inv(2) by metis
  have u: "undisturbed (a\<lparr>sd_outstanding := o'\<rparr>) s'" using service_none [OF _ _ f] a b(3) by simp
  have "work_stage demo_hist demo_env s = Some (s', Continues)" using a(1) h f by (simp add: work_stage_def Let_def)
  moreover have "turn demo_hist demo_env s = work_stage demo_hist demo_env s"
    using dr sh flush_none [OF s(4)] s demo_books(6) by (simp add: turn_def)
  ultimately show thesis using that [of s'] u a h(3) by (simp add: undisturbed_def)
qed

text \<open>The second turn sheds the late item, files its key where the rest of its queue belongs, and exits.\<close>

lemma last_turn:
  assumes s: "sd_book s = b" "\<not> sd_open s" "sd_staged s = []" "sd_now s = 2" "sd_cfg s = demo_conf" "in_live (sd_outstanding s) = 0"
      "ht_expired_by_class (sd_hot s) = [0, 0]" "sd_final_flush s"
    and b: "next_dispatch 0 2 b = Some (b, None)" "next_dispatch 1 2 b = Some (b1, None)"
      "pop_expired b1 = (b2, Some (7, 1, \<lparr>sm_enqueued = 0, sm_request_id = None, sm_work = 10\<rparr>))" "pop_expired b2 = (b2, None)"
      "check_invariants b2 = Inr ()" "evict_all [] b2 = Some (b3, [])"
  obtains s' where "turn demo_hist env s = Some (s', Exits)" "sd_book s' = b3" "sd_calls s' = sd_calls s @ [OnExpired 7 10]" "sd_staged s' = []"
    "in_live (sd_outstanding s') = 0" "sd_rx s' = sd_rx s" "ht_started_by_class (sd_hot s') = ht_started_by_class (sd_hot s)"
    "ht_completed_by_class (sd_hot s') = ht_completed_by_class (sd_hot s)"
proof -
  let ?s1 = "s\<lparr>sd_book := b1\<rparr>"
  let ?s2 = "s\<lparr>sd_book := b2, sd_hot := (sd_hot s)\<lparr>ht_expired_by_class := [0, 1]\<rparr>, sd_calls := sd_calls s @ [OnExpired 7 10]\<rparr>"
  have d: "dispatch_ready demo_hist s = Some ?s1" using demo_dispatch [of s b b1] s b(1,2) by simp
  have "shed_one (7, 1, \<lparr>sm_enqueued = 0, sm_request_id = None, sm_work = 10\<rparr>) (?s1\<lparr>sd_book := b2\<rparr>) = Some ?s2"
    using s(7) by (simp add: shed_one_def bump_class_def counter_bump_def)
  moreover have "shed_expired ?s2 = Some ?s2" using b(4) by (subst shed_expired.simps) simp
  ultimately have sh: "shed_expired ?s1 = Some ?s2" using b(3) by (subst shed_expired.simps) simp
  have "turn demo_hist env s = exit_stage demo_hist ?s2"
    using d sh flush_none [of ?s2] s b(5) by (simp add: turn_def outstanding_is_empty_def)
  also have "\<dots> = Some (publish_stats demo_hist (?s2\<lparr>sd_final_flush := False, sd_book := b3, sd_staged := []\<rparr>), Exits)"
    using s(3,8) b(6) by (cases s) (simp add: exit_stage_def Let_def)
  finally show thesis by (rule that) (use s in \<open>simp_all add: publish_stats_def Let_def\<close>)
qed

definition demo_shard0 :: demo_shard where
  "demo_shard0 = the (shard_start demo_hist demo_conf demo_box 1 0)"

definition demo_ready :: "((nat, nat, nat) envelope, nat) mailbox \<Rightarrow> demo_shard" where
  "demo_ready m = the (shard_wake 0 2 (demo_shard0\<lparr>sd_rx := m\<rparr>))"

definition demo_arrivals :: "(nat, nat, nat, nat, nat) shard_event list" where
  "demo_arrivals = [SMail (MTrySend late (Inr ())), SMail (MTrySend lost (Inr ())), SMail MDrop, SPoll 0 2]"

definition one_arrival :: "(nat, nat, nat, nat, nat) shard_event list" where
  "one_arrival = [SMail (MTrySend late (Inr ())), SMail MDrop, SPoll 0 2]"

lemma demo_conf_ok: "config_ok demo_conf"
  by (simp add: config_ok_def demo_conf_def shard_config_new_def shard_capacity_def NANOS_PER_SEC_def OUTSTANDING_MAX_CAPACITY_def MAX_WORDS_def)

lemma demo_started: "shard_start demo_hist demo_conf demo_box 1 0 = Some demo_shard0"
proof -
  obtain s :: demo_shard where "shard_start demo_hist demo_conf demo_box 1 0 = Some s"
    by (rule shard_starts [OF demo_conf_ok demo_box_eqs(1), of 1 0 None]) simp_all
  then show ?thesis by (simp add: demo_shard0_def)
qed

lemma demo_init: "shard_init demo_hist demo_conf (demo_shard0, False, Asleep, 0)"
proof -
  have "mailbox_channel 4 = Some demo_box \<and> (1::u32) \<noteq> 0 \<and> (0::nat) \<le> 2 ^ 56 \<and> shard_start demo_hist demo_conf demo_box 1 0 = Some demo_shard0"
    using demo_box_eqs(1) demo_started by simp
  then show ?thesis unfolding shard_init_def fst_conv snd_conv using demo_conf_ok by blast
qed

lemma shard_start_fields:
  assumes "shard_start ho conf rx wheel_id now = Some s"
  shows "sd_rx s = rx \<and> sd_book s = new (sc_scheduler conf) \<and> sd_cfg s = conf \<and> sd_staged s = [] \<and> sd_open s \<and> sd_final_flush s \<and>
    sd_calls s = [] \<and> sd_hot s = hot_default ho (class_count conf) \<and> jobs s = {#}"
  using assms by (auto simp: shard_start_def Let_def jobs_def split: bind_splits dest: with_capacity_calm)

lemma shard_wake_fields:
  assumes "shard_wake w now s = Some s'"
  shows "s' = s\<lparr>sd_outstanding := sd_outstanding s', sd_now := now\<rparr> \<and> jobs s' = jobs s"
  using assms by (auto simp: shard_wake_def jobs_def dest: register_owner_held)

lemma demo_shard0_fields:
  "sd_rx demo_shard0 = demo_box" "sd_book demo_shard0 = demo_book0" "sd_cfg demo_shard0 = demo_conf" "sd_staged demo_shard0 = []" "sd_open demo_shard0"
  "sd_final_flush demo_shard0" "sd_calls demo_shard0 = []" "sd_hot demo_shard0 = hot_default demo_hist 2" "jobs demo_shard0 = {#}"
  using shard_start_fields [OF demo_started] by (simp_all add: demo_book0_def demo_conf_def numeral_2_eq_2)

lemma demo_woken: "shard_wake 0 2 (demo_shard0\<lparr>sd_rx := m\<rparr>) = Some (demo_ready m)"
proof -
  have "shard_inv None 1 False {#} [] demo_shard0" using reachable_shard [OF demo_init run_nil] by simp
  then obtain s' where "shard_wake 0 2 demo_shard0 = Some s'" by (rule shard_wake_ok [where now = 2]) simp
  then have "register_owner 0 (sd_outstanding demo_shard0) \<noteq> None" by (auto simp: shard_wake_def)
  then show ?thesis by (auto simp: demo_ready_def shard_wake_def)
qed

lemma demo_ready_fields:
  "sd_rx (demo_ready m) = m" "sd_book (demo_ready m) = demo_book0" "ht_started_by_class (sd_hot (demo_ready m)) = [0, 0]" "sd_cfg (demo_ready m) = demo_conf"
  "sd_now (demo_ready m) = 2" "sd_staged (demo_ready m) = []" "sd_open (demo_ready m)" "sd_final_flush (demo_ready m)" "sd_calls (demo_ready m) = []"
  "ht_completed_by_class (sd_hot (demo_ready m)) = [0, 0]" "ht_expired_by_class (sd_hot (demo_ready m)) = [0, 0]" "jobs (demo_ready m) = {#}"
proof -
  note w = shard_wake_fields [OF demo_woken [of m]]
  have eq: "demo_ready m = demo_shard0\<lparr>sd_rx := m, sd_outstanding := sd_outstanding (demo_ready m), sd_now := 2\<rparr>" using w by simp
  show "sd_rx (demo_ready m) = m" "sd_book (demo_ready m) = demo_book0" "ht_started_by_class (sd_hot (demo_ready m)) = [0, 0]" "sd_cfg (demo_ready m) = demo_conf"
    "sd_now (demo_ready m) = 2" "sd_staged (demo_ready m) = []" "sd_open (demo_ready m)" "sd_final_flush (demo_ready m)" "sd_calls (demo_ready m) = []"
    "ht_completed_by_class (sd_hot (demo_ready m)) = [0, 0]" "ht_expired_by_class (sd_hot (demo_ready m)) = [0, 0]"
    by (subst eq; simp add: demo_shard0_fields hot_default_def numeral_2_eq_2)+
  show "jobs (demo_ready m) = {#}" using w demo_shard0_fields(9) by (simp add: jobs_def)
qed

lemma demo_send:
  assumes "mail_step (m, False) e (m', False)" "by_sender e" "\<forall>a\<in>set (mail_given e). en_class a < 2"
  shows "shard_step demo_hist (demo_shard0\<lparr>sd_rx := m\<rparr>, False, Asleep, 0) (SMail e) (demo_shard0\<lparr>sd_rx := m'\<rparr>, False, Asleep, 0)"
proof -
  have "class_count (sd_cfg (demo_shard0\<lparr>sd_rx := m\<rparr>)) = 2" by (simp add: demo_shard0_fields(3) demo_conf_def)
  then show ?thesis using shard_mail [of "demo_shard0\<lparr>sd_rx := m\<rparr>" False e m' False demo_hist Asleep 0] assms by simp
qed

lemma demo_runs:
  "run (shard_step demo_hist) (demo_shard0, False, Asleep, 0) demo_arrivals (demo_ready demo_full, False, Awake, 0)"
  "run (shard_step demo_hist) (demo_shard0, False, Asleep, 0) one_arrival (demo_ready demo_one, False, Awake, 0)"
proof -
  let ?m1 = "fst (mb_try_send late demo_box)" and ?m2 = "fst (mb_try_send lost (fst (mb_try_send late demo_box)))"
  let ?st = "\<lambda>m. (demo_shard0\<lparr>sd_rx := m\<rparr>, False, Asleep, 0 :: nat)"
  have eq: "demo_shard0\<lparr>sd_rx := demo_box\<rparr> = demo_shard0" using demo_shard0_fields(1) by simp
  have "mail_step (demo_box, False) (MTrySend late (Inr ())) (?m1, False)"
    using mail_try_send [of demo_box late ?m1 "Inr ()" False] demo_box_eqs by (simp add: prod_eq_iff)
  then have s1: "shard_step demo_hist (?st demo_box) (SMail (MTrySend late (Inr ()))) (?st ?m1)"
    by (rule demo_send) (simp_all add: late_def)
  have "mail_step (?m1, False) (MTrySend lost (Inr ())) (?m2, False)"
    using mail_try_send [of ?m1 lost ?m2 "Inr ()" False] demo_box_eqs by (simp add: prod_eq_iff)
  then have s2: "shard_step demo_hist (?st ?m1) (SMail (MTrySend lost (Inr ()))) (?st ?m2)"
    by (rule demo_send) (simp_all add: lost_def)
  have "mail_step (?m2, False) MDrop (demo_full, False)" "mail_step (?m1, False) MDrop (demo_one, False)"
    using mail_drop [of ?m2 False] mail_drop [of ?m1 False] demo_box_eqs by (simp_all add: demo_full_def demo_one_def)
  then have s3: "shard_step demo_hist (?st ?m2) (SMail MDrop) (?st demo_full)" "shard_step demo_hist (?st ?m1) (SMail MDrop) (?st demo_one)"
    by (auto intro!: demo_send)
  have s4: "shard_step demo_hist (?st m) (SPoll 0 2) (demo_ready m, False, Awake, 0)" for m
    by (rule shard_poll [OF demo_woken]) simp
  note r1 = run_single [of "shard_step demo_hist", OF s1]
  show "run (shard_step demo_hist) (demo_shard0, False, Asleep, 0) demo_arrivals (demo_ready demo_full, False, Awake, 0)"
    using run_snoc [OF run_snoc [OF run_snoc [OF r1 s2] s3(1)] s4] eq by (simp add: demo_arrivals_def)
  show "run (shard_step demo_hist) (demo_shard0, False, Asleep, 0) one_arrival (demo_ready demo_one, False, Awake, 0)"
    using run_snoc [OF run_snoc [OF r1 s3(2)] s4] eq by (simp add: one_arrival_def)
qed

lemma demo_timely: "timely demo_env"
  by (simp add: timely_def demo_env_def)

text \<open>Two turns later the shard has exited.\<close>

lemma demo_exit:
  assumes r: "run (shard_step demo_hist) (demo_shard0, False, Asleep, 0) evs (demo_ready m, False, Awake, 0)"
    and d: "\<And>s :: demo_shard. sd_rx s = m \<Longrightarrow> sd_book s = demo_book0 \<Longrightarrow> ht_started_by_class (sd_hot s) = [0, 0] \<Longrightarrow> sd_cfg s = demo_conf \<Longrightarrow>
      drain_inbox 0 2 s = Some (s\<lparr>sd_rx := m', sd_book := b, sd_hot := (sd_hot s)\<lparr>ht_started_by_class := cs\<rparr>\<rparr>, \<lparr>am_count = k, am_closed = True, am_at = 2\<rparr>)"
    and b: "0 < k" "mb_ring m' = []" "evict 2 [] b = Some (b, [])" "next_dispatch 0 2 b = Some (b, None)" "next_dispatch 1 2 b = Some (b1, None)"
      "pop_expired b1 = (b2, Some (7, 1, \<lparr>sm_enqueued = 0, sm_request_id = None, sm_work = 10\<rparr>))" "pop_expired b2 = (b2, None)"
      "check_invariants b2 = Inr ()" "evict_all [] b2 = Some (b3, [])"
  obtains s where "run (shard_step demo_hist) (demo_shard0, False, Asleep, 0) (evs @ [STurn demo_env, STurn demo_env]) (s, False, Exited, 2)"
    "sd_book s = b3" "ht_started_by_class (sd_hot s) = cs" "ht_completed_by_class (sd_hot s) = [0, 0]" "sd_calls s = [OnExpired 7 10]"
    "mb_ring (sd_rx s) = []" "in_live (sd_outstanding s) = 0" "sd_staged s = []"
proof -
  note f = demo_ready_fields [of m]
  have inv: "shard_inv None 1 False {#} [] (demo_ready m)" using reachable_shard [OF demo_init r] by simp
  obtain t where t: "turn demo_hist demo_env (demo_ready m) = Some (t, Continues)" "sd_book t = b" "\<not> sd_open t" "sd_staged t = []" "sd_now t = 2"
    "sd_cfg t = demo_conf" "in_live (sd_outstanding t) = 0" "sd_calls t = sd_calls (demo_ready m)" "mb_ring (sd_rx t) = []"
    "sd_final_flush t = sd_final_flush (demo_ready m)" "ht_started_by_class (sd_hot t) = cs"
    "ht_completed_by_class (sd_hot t) = ht_completed_by_class (sd_hot (demo_ready m))" "ht_expired_by_class (sd_hot t) = ht_expired_by_class (sd_hot (demo_ready m))"
    by (rule closing_turn [OF inv _ f(12,2,4-7) d [OF f(1-4)] b(1-3)]) simp
  obtain s where s: "turn demo_hist demo_env t = Some (s, Exits)" "sd_book s = b3" "sd_calls s = sd_calls t @ [OnExpired 7 10]" "sd_staged s = []"
    "in_live (sd_outstanding s) = 0" "sd_rx s = sd_rx t" "ht_started_by_class (sd_hot s) = ht_started_by_class (sd_hot t)"
    "ht_completed_by_class (sd_hot s) = ht_completed_by_class (sd_hot t)"
    by (rule last_turn [OF t(2-7) _ _ b(4-9), of demo_env]) (use t f in simp_all)
  have "run (shard_step demo_hist) (demo_shard0, False, Asleep, 0) (evs @ [STurn demo_env]) (t, False, Awake, 1)"
    using run_snoc [OF r shard_turn [OF t(1) demo_timely]] by simp
  from run_snoc [OF this shard_turn [OF s(1) demo_timely]]
  have "run (shard_step demo_hist) (demo_shard0, False, Asleep, 0) (evs @ [STurn demo_env, STurn demo_env]) (s, False, Exited, 2)"
    by (simp add: numeral_2_eq_2)
  then show thesis using that s t f by simp
qed

section \<open>Properties\<close>

text \<open>
  C38. A turn returns. In every state that a shard reaches, from any configuration within the limits of its
  parts and with any senders, answers of the processor and clock readings, the next turn of the loop and the
  next poll of its task return: every loop of the turn ends, every push finds a slot of the outstanding set
  free, no operation of the scheduler, the wheel or the mailbox panics, and the debug check of the scheduler
  passes.
\<close>

theorem shard_turn_returns:
  assumes "shard_init ho conf x0" "run (shard_step ho) x0 evs (s, u, p, n)" "n < 2 ^ 64 - 2" "timely env" "now \<le> 2 ^ 72"
  shows "(\<exists>s' how. turn ho env s = Some (s', how)) \<and> (\<exists>s'. shard_wake w now s = Some s')"
proof -
  have inv: "shard_inv None (n + 1) u {#} [] s" using reachable_shard [OF assms(1,2)] assms(3) by simp
  have "n + 1 < 2 ^ 64 - 1" using assms(3) by simp
  from turn_ok [OF inv this assms(4)] shard_wake_ok [OF inv assms(5)] show ?thesis by metis
qed

theorem shard_turn_returns_witness:
  "shard_init demo_hist demo_conf (demo_shard0, False, Asleep, 0) \<and>
   run (shard_step demo_hist) (demo_shard0, False, Asleep, 0) demo_arrivals (demo_ready demo_full, False, Awake, 0) \<and>
   (\<exists>s' how. turn demo_hist demo_env (demo_ready demo_full) = Some (s', how))"
  using shard_turn_returns [OF demo_init demo_runs(1) _ demo_timely, of 2 0] demo_init demo_runs(1) by simp

text \<open>
  C39. One future per key, and the books of a shard balance. In every state that a shard reaches, the futures
  in its outstanding set and the flushes it has staged belong to distinct keys, so that no two items of a key
  are processed at once and none while the state of the key is flushed; the number of items running is what
  the scheduler counts in flight; and the coalescing index holds, for every key, exactly the tracked request
  ids of its queued, expired and running items, each of which is there once.
\<close>

theorem shard_books_balance:
  assumes "shard_init ho conf x0" "run (shard_step ho) x0 evs (s, u, p, n)" "n < 2 ^ 64 - 1"
  shows "count (image_mset job_key (jobs s)) k + count (mset (map fst (sd_staged s))) k \<le> 1 \<and>
    size (runs (jobs s)) = sum_list (inflight (sd_book s)) \<and> sd_flushes s = size (flush_keys (jobs s)) \<and>
    ids (view (queue_of k (sd_book s))) + ids (for_key k (expired (sd_book s))) + (\<Sum>j\<in>#jobs s. id_of k j) =
      mset_set {i. (k, i) \<in> sd_live s}"
proof -
  note inv = reachable_shard [OF assms]
  obtain L where D: "desk (None, \<not> sd_final_flush s) (sd_book s) L (sd_live s) (jobs s) (map fst (sd_staged s))" using books_desk [OF inv] by auto
  have "count (image_mset job_key (jobs s) + mset (map fst (sd_staged s))) k \<le> 1" unfolding desk_keys [OF D] by (simp add: count_mset_set')
  moreover have "sd_flushes s = size (flush_keys (jobs s))" using shard_invD(3) [OF inv] by (simp add: set_ok_def)
  ultimately show ?thesis using desk_runs(1) [OF D] deskD(5) [OF D, of k] by (simp add: ids_on_hand_def tracked_def held_def)
qed

theorem shard_books_balance_witness:
  "shard_init demo_hist demo_conf (demo_shard0, False, Asleep, 0) \<and>
   run (shard_step demo_hist) (demo_shard0, False, Asleep, 0) demo_arrivals (demo_ready demo_full, False, Awake, 0) \<and>
   count (image_mset job_key (jobs (demo_ready demo_full))) 7 + count (mset (map fst (sd_staged (demo_ready demo_full)))) 7 \<le> 1"
  using shard_books_balance [OF demo_init demo_runs(1), of 7] demo_init demo_runs(1) by simp

text \<open>
  C40. A shard that exits has drained. When the work of a key is always sent under one class and every class
  has a budget, a shard that exits has nothing left: no key in its scheduler, so every item it took in was
  completed or reported and the state of every key was flushed or dropped; no request id in its index, nothing
  outstanding or staged, and a mailbox that is empty and has no sender.
\<close>

theorem shard_exit_drains:
  assumes "shard_init ho conf x0" "run (shard_step ho) x0 evs (s, u, Exited, n)" "n < 2 ^ 64 - 1" "positive_budgets conf"
    "\<forall>e\<in>set evs. classed (Some cls) e"
  shows "keys (sd_book s) = [] \<and> pending (sd_book s) = 0 \<and> expired (sd_book s) = [] \<and> sd_live s = {} \<and>
    in_live (sd_outstanding s) = 0 \<and> sd_staged s = [] \<and> mb_ring (sd_rx s) = [] \<and> mb_producers (sd_rx s) = 0"
  using reachable_state [OF assms(1,2), of "Some cls"] assms(3-5) by (simp add: state_inv_def drained_def)

theorem shard_exit_drains_witness:
  "\<exists>s. run (shard_step demo_hist) (demo_shard0, False, Asleep, 0) (one_arrival @ [STurn demo_env, STurn demo_env]) (s, False, Exited, 2) \<and>
     sd_calls s = [OnExpired 7 10] \<and> keys (sd_book s) = []"
proof -
  obtain s where s: "run (shard_step demo_hist) (demo_shard0, False, Asleep, 0) (one_arrival @ [STurn demo_env, STurn demo_env]) (s, False, Exited, 2)"
    "sd_calls s = [OnExpired 7 10]"
    by (rule demo_exit [OF demo_runs(2) one_drain _ one_recvs(3) one_books]) simp_all
  have "positive_budgets demo_conf" by (simp add: positive_budgets_def demo_conf_def)
  moreover have "\<forall>e\<in>set (one_arrival @ [STurn demo_env, STurn demo_env]). classed (Some (\<lambda>_. 1)) e"
    by (simp add: one_arrival_def fitting_def late_def)
  ultimately show ?thesis using shard_exit_drains [OF demo_init s(1)] s by auto
qed

section \<open>A shard that stops early\<close>

text \<open>
  Without the hypothesis on classes a shard can exit with work in its queue. Two items of one key are accepted,
  the first of class 1 and past its deadline, the second of class 0 and without one, and the senders leave. The
  turn that sheds the first item moves the key to the ring of class 0, which that turn has already served;
  nothing is outstanding or staged, so the shard exits. The second item was never run and never reported.
\<close>

theorem shard_exit_loses_work:
  "\<exists>s. shard_init demo_hist demo_conf (demo_shard0, False, Asleep, 0) \<and>
     run (shard_step demo_hist) (demo_shard0, False, Asleep, 0) (demo_arrivals @ [STurn demo_env, STurn demo_env]) (s, False, Exited, 2) \<and>
     ht_started_by_class (sd_hot s) = [1, 1] \<and> ht_completed_by_class (sd_hot s) = [0, 0] \<and> sd_calls s = [OnExpired 7 10] \<and>
     mb_ring (sd_rx s) = [] \<and> in_live (sd_outstanding s) = 0 \<and> sd_staged s = [] \<and> pending (sd_book s) = 1"
proof -
  obtain s where s: "run (shard_step demo_hist) (demo_shard0, False, Asleep, 0) (demo_arrivals @ [STurn demo_env, STurn demo_env]) (s, False, Exited, 2)"
    "sd_book s = demo_book4" "ht_started_by_class (sd_hot s) = [1, 1]" "ht_completed_by_class (sd_hot s) = [0, 0]" "sd_calls s = [OnExpired 7 10]"
    "mb_ring (sd_rx s) = []" "in_live (sd_outstanding s) = 0" "sd_staged s = []"
    by (rule demo_exit [OF demo_runs(1) demo_drain _ demo_recvs(4) demo_books_full(1-7)]) simp_all
  then show ?thesis using demo_init demo_books_full(8) by (intro exI [of _ s]) simp
qed

section \<open>Ages out of order\<close>

text \<open>
  The ledger of ages reuses the slot of a dispatch that still runs when a later one completes first: with two
  slots, the dispatch started at 10 is forgotten when the third starts at 40, so at 50 the oldest is reported
  to have run for 10 instead of 40, and so is the forgotten one when it finishes.
\<close>

lemma ages_forget_the_oldest:
  "(let (a, first) = ages_begin 10 (ages_new (Suc (Suc 0))); (a, second) = ages_begin 20 a; (a, took) = ages_finish second 30 a;
        (a, third) = ages_begin 40 a in (first, third, ages_oldest 50 a, snd (ages_finish first 50 a))) = (0, 2, 10, 10)"
  by (simp add: ages_begin_def ages_new_def ages_finish_def ages_oldest_def Let_def)

end
