(* ===== verification/Spec2Isabelle.thy ===== *)
theory Spec2Isabelle
  imports Sched_Theorems Wheel_Theorems Ring_Props Doorbell_Props Outstanding_Theorems Semaphore Router_Batch Shard_Theorems
begin

text \<open>
  A verification library for grommet, a keyed scheduler that runs one shard per core.

  \<^bold>\<open>The program.\<close> A router hashes the key of a work item to a shard and sends the item to the mailbox of that
  shard. The shard's reactor drains its mailbox into a scheduler, which queues the items of each key in order
  and offers the keys with work, class by class and in turn, within a budget per class; a dispatched item
  becomes a future in the outstanding set, and its completion gives the key back. Idle keys are evicted and
  their state flushed on a tick of a timer wheel. A doorbell wakes a sleeping shard, and a wait list parks the
  senders of a full mailbox and the callers of a semaphore.

  \<^bold>\<open>Conventions.\<close> A struct is a record and an enum a datatype, with the fields and constructors of the code; an
  operation is a function that returns the new state. \<open>None\<close> is a panic, a failed debug assertion, an access out of
  range or a loop that does not return; a documented error is a value of a sum. Builds with debug assertions
  are modelled, with the exceptions listed at the end. Handles, indices and counters keep their width (\<open>32 word\<close>, \<open>64 word\<close>, or \<open>mod 2 ^ 64\<close> written out);
  a duration is its number of nanoseconds and a \<open>usize\<close> that only counts memory is a \<open>nat\<close>. A hash map is an
  association list or a set, since the code never depends on its order. Atomic accesses are sequentially
  consistent steps.

  \<^bold>\<open>Theories and sources\<close> (all under \<^verbatim>\<open>src/crates\<close>).

  \<^item> \<open>Prelude\<close>, \<open>Machine\<close>, \<open>Bits\<close>: generic lemmas on lists, options, multisets and words; the locale of state
    machines with its reachable states and invariants; bit masks.
  \<^item> \<open>Slab\<close> (\<^verbatim>\<open>grommet-core/src/queue.rs\<close>): the arena of linked queues; each queue is a list segment.
  \<^item> \<open>Core_Scheduler\<close> (\<^verbatim>\<open>grommet-core/src/lib.rs\<close>): every operation of \<open>Scheduler\<close>. \<open>Sched_Spec\<close> is the abstract
    scheduler over plain lists with the ledger of dispatches its caller owes; \<open>Sched_Refine\<close> shows that each
    operation refines it, \<open>Sched_Props\<close> and \<open>Sched_Theorems\<close> state C1 to C12: the self check always passes, no
    panic, per-key order and exactly-once, exclusion, budgets, bounded waiting, eviction order, memory.
  \<^item> \<open>Wheel\<close> (\<^verbatim>\<open>grommet-core/src/timer.rs\<close>): the hierarchical timer wheel. \<open>Wheel_Math\<close> holds the arithmetic of levels
    and slots, \<open>Wheel_Rep\<close> the relation to a set of timers, \<open>Wheel_Props\<close>, \<open>Wheel_Sweep\<close>, \<open>Wheel_Check\<close> and
    \<open>Wheel_Service\<close> the operations; \<open>Wheel_Theorems\<close> states C13 to C20: exact delivery in deadline order, handles
    never reused, every error, wakeups that are safe to sleep on, rounding of durations.
  \<^item> \<open>Ring\<close>, \<open>Ring_Props\<close> (\<^verbatim>\<open>grommet-core/src/ring.rs\<close>): the lock-free ring as a machine with one step per atomic
    access of any number of producers and one consumer; C21 to C23.
  \<^item> \<open>Doorbell\<close>, \<open>Doorbell_Props\<close> (\<^verbatim>\<open>grommet/src/doorbell.rs\<close>, \<^verbatim>\<open>grommet-core/src/waker_slot.rs\<close>): the wake protocol
    access by access; C24 and C25, no wake is lost and the cell is never shared.
  \<^item> \<open>Outstanding\<close> (\<^verbatim>\<open>grommet/src/outstanding.rs\<close>): the slab of futures and its ready bits. \<open>Outstanding_Props\<close> and
    \<open>Outstanding_Harvest\<close> prove the operations, \<open>Outstanding_Theorems\<close> states C26 to C29, and
    \<open>Outstanding_Accounts\<close> shows that a harvest conserves the futures it holds.
  \<^item> \<open>Waiters\<close>, \<open>Waiters_Props\<close>, \<open>Waiters_Theorems\<close> (\<^verbatim>\<open>grommet/src/waiters.rs\<close>): the wait list refines a queue of
    tickets; C30 and C31. \<open>Semaphore\<close> (\<^verbatim>\<open>grommet/src/semaphore.rs\<close>): C32, permits are conserved, and C33, a run in
    which a caller that was woken is stranded.
  \<^item> \<open>Mailbox\<close>, \<open>Mailbox_Props\<close> (\<^verbatim>\<open>grommet/src/mailbox.rs\<close>): both halves over a bounded queue, the doorbell and
    the wait list; C34: delivery in order, exact answers, and a poll that answers pending is followed by a call of
    its waker. \<open>Router\<close>, \<open>Router_Props\<close> (\<^verbatim>\<open>grommet/src/key.rs\<close>, \<^verbatim>\<open>work.rs\<close>, \<^verbatim>\<open>router.rs\<close>): placement and submission; C35
    and C36. \<open>Router_Batch\<close>: C37, a batch follows a reference on plain queues item by item, across its waits.
  \<^item> \<open>Metrics\<close> (\<^verbatim>\<open>grommet/src/metrics.rs\<close>): the counters and the published snapshot; histograms are a parameter.
  \<^item> \<open>Shard\<close> (\<^verbatim>\<open>grommet/src/shard.rs\<close>, with \<^verbatim>\<open>error.rs\<close>, \<^verbatim>\<open>processor.rs\<close> and \<open>Stamped\<close> of \<^verbatim>\<open>work.rs\<close>): the reactor, each
    stage of a turn and the turn. What the processor answers, the clock and the driver's decision to wait are
    arguments of a turn. \<open>Shard_Books\<close> relates the scheduler, the futures in flight, the staged flushes and the
    coalescing index, and shows what each call of the scheduler does to them; \<open>Shard_Timers\<close> shows that the wheel
    of a shard always holds exactly its tick; \<open>Shard_Inv\<close> is the invariant of a shard, with one lemma per stage;
    \<open>Shard_Props\<close> is the machine of a shard among senders and wakes; \<open>Shard_Theorems\<close> states C38 to C40: every turn
    returns, one future per key and exact coalescing, and a shard that exits has drained when each key keeps to
    one class. It also shows a run in which a key changes class and the shard exits with work in its queue.

  \<^bold>\<open>Interfaces.\<close> A component that relies on another does so through a locale whose laws an interpretation
  discharges on the model of the provider, in the theory of that provider.

  \<^bold>\<open>Bounds.\<close> Positions of the ring are 64-bit and compared by wrap-around, so C21 is about runs in which fewer
  than \<open>2 ^ 63\<close> items are claimed; a ticket of the wait list is a 64-bit generation, so C30 is about runs of fewer
  than \<open>2 ^ 64 - 1\<close> operations; a tick is 64 bits wide and \<open>MAX_TICK\<close> is the last one. Queue indices are 32-bit,
  so a scheduler is given at most \<open>2 ^ 32 - 1\<close> queued items. Loops whose end depends on a link structure
  (walking a bucket of the wheel, harvesting, sweeping) are partial functions or carry fuel, and the theorems
  about them state that they return. A shard is followed for fewer than \<open>2 ^ 64 - 2\<close> turns, since a slot of its
  wheel is retired after \<open>2 ^ 64 - 1\<close> uses, with a clock below \<open>2 ^ 72\<close> nanoseconds, which a tick can express, a tick
  of at most \<open>2 ^ 56\<close> nanoseconds, and budgets that fit the largest outstanding set. A turn is one step: senders
  and wakes act between turns. Likewise the stretch of a batch between two waits is one step, and a batch resumes
  when no other batch is between a push and its announcement.

  \<^bold>\<open>Not modelled.\<close> The driver and the clock (operating system; their answers are arguments), the builder and
  the topology crate (threads, \<^verbatim>\<open>hwloc\<close>, floating point), response channels and offload pools (crates outside
  the repository), the macros (assertions), the test kit and the example service. Weak memory orderings,
  the drop of a whole runtime and the back-off of a contended push are outside the model. These debug assertions
  have no \<open>None\<close> of their own: in \<^verbatim>\<open>outstanding.rs\<close> the equalities checked by the restore guard and by the pass over
  several words, with the armed flag of the guard, which \<open>harvest\<close> computes as the values they are compared with;
  the range of a mark, where \<open>notify\<close> ignores a slot that does not exist; and the decrement of the live count, which
  \<open>release_slot\<close> only reaches with a live slot (\<open>live_positive\<close>); in \<^verbatim>\<open>timer.rs\<close> the range of the argument of \<open>is_due_at\<close>,
  which its caller \<open>is_due_duration\<close> has checked. The \<open>on_error\<close> hook of a processor is taken to return and its call
  is not recorded. The capacity of a shard is a sum of natural numbers, which the bounds above keep below the
  saturation of the code's sum.
\<close>

end
